(* ===== verification/Prelude.thy ===== *)
theory Prelude
  imports Main "HOL-Library.Word"
begin

unbundle bit_operations_syntax

text \<open>
  Shared vocabulary of the tenyr development: machine words at the widths the C code uses,
  the value a C function yields when it can leave through \<open>fatal()\<close>, through a failed
  \<open>assert()\<close> or through undefined behaviour, the sign extension and byte order macros of
  \<^verbatim>\<open>src/common.h\<close>, and the generic lemmas the components rest on.

  Conventions.  \<open>int32_t\<close> and \<open>uint32_t\<close> are both \<open>32 word\<close>; a signed reading is written
  with \<open>sint\<close> or \<open><s\<close>.  Signed additions wrap, as they do in every build of the tools on a
  two's complement host.  A C function that never leaves abnormally is an ordinary function;
  the others return \<open>fault + 'a\<close>.
\<close>

section \<open>Types\<close>

type_synonym u8 = "8 word"
type_synonym u32 = "32 word"
type_synonym u64 = "64 word"

datatype fault =
    Fatal string       \<comment> \<open>\<open>fatal(...)\<close>: the message, then \<open>longjmp\<close> out of the tool\<close>
  | Undefined string   \<comment> \<open>the C text has no defined meaning here\<close>
  | Assert string      \<comment> \<open>a failed \<open>assert()\<close>\<close>
  | Exit int string    \<comment> \<open>\<open>exit(...)\<close>: the code, and what was printed before\<close>

type_synonym 'a res = "fault + 'a"

named_theorems word_bits \<open>bit-level characterisations of the word operations of the sources\<close>
named_theorems res_simps \<open>rewriting of results through \<open>bindE\<close>\<close>

section \<open>Results\<close>

definition bindE :: "'a res \<Rightarrow> ('a \<Rightarrow> 'b res) \<Rightarrow> 'b res" where
  "bindE m f = (case m of Inl e \<Rightarrow> Inl e | Inr x \<Rightarrow> f x)"

lemma bindE_simps [simp, res_simps]:
  "bindE (Inl e) f = Inl e" "bindE (Inr x) f = f x"
  by (simp_all add: bindE_def)

text \<open>A sequence ends well when both of its halves do, and badly when one of them does.\<close>

lemma bindE_eq_Inr [res_simps]: "bindE m f = Inr y \<longleftrightarrow> (\<exists>x. f x = Inr y \<and> m = Inr x)"
  by (auto simp: bindE_def split: sum.split)

lemma bindE_eq_Inl [res_simps]: "bindE m f = Inl e \<longleftrightarrow> (\<exists>x. f x = Inl e \<and> m = Inr x) \<or> m = Inl e"
  by (auto simp: bindE_def split: sum.split)

lemma bindE_split:
  "P (bindE m f) \<longleftrightarrow> (\<forall>e. m = Inl e \<longrightarrow> P (Inl e)) \<and> (\<forall>x. m = Inr x \<longrightarrow> P (f x))"
  by (cases m) (auto simp: bindE_def)

lemma bindE_cong [fundef_cong]:
  "m = m' \<Longrightarrow> (\<And>x. m' = Inr x \<Longrightarrow> f x = g x) \<Longrightarrow> bindE m f = bindE m' g"
  by (cases m') (auto simp: bindE_def)

text \<open>A loop over a list that stops at the first abnormal exit.\<close>

fun foldE :: "('a \<Rightarrow> 's \<Rightarrow> 's res) \<Rightarrow> 'a list \<Rightarrow> 's \<Rightarrow> 's res" where
  "foldE f [] s = Inr s"
| "foldE f (x # xs) s = bindE (f x s) (foldE f xs)"

lemma foldE_append: "foldE f (xs @ ys) s = bindE (foldE f xs s) (foldE f ys)"
  by (induction xs arbitrary: s) (auto simp: bindE_def split: sum.splits)

lemma foldE_invariant:
  assumes "foldE f xs s = Inr t" and "P s"
    and "\<And>x s t. x \<in> set xs \<Longrightarrow> P s \<Longrightarrow> f x s = Inr t \<Longrightarrow> P t"
  shows "P t"
  using assms by (induction xs arbitrary: s) (auto simp: bindE_eq_Inr)

section \<open>Sign extension and byte order (src/common.h)\<close>

text \<open>\<open>MSB32_\<close>, \<open>EXTEND32_\<close> and \<open>SEXTEND32\<close>, for a field of at least one bit.\<close>

definition MSB32 :: "nat \<Rightarrow> u32 \<Rightarrow> bool" where
  "MSB32 bits x = bit x (bits - 1)"

definition EXTEND32 :: "nat \<Rightarrow> u32 \<Rightarrow> u32" where
  "EXTEND32 bits x = push_bit bits (if MSB32 bits x then -1 else 0)"

definition SEXTEND32 :: "nat \<Rightarrow> u32 \<Rightarrow> u32" where
  "SEXTEND32 bits x =
     (if bits \<ge> 32 then x else EXTEND32 bits x OR (x AND NOT (push_bit bits (-1))))"

lemma SEXTEND32_signed_take_bit:
  "1 \<le> b \<Longrightarrow> b \<le> 32 \<Longrightarrow> SEXTEND32 b x = signed_take_bit (b - 1) x"
  by (rule bit_word_eqI)
    (auto simp: SEXTEND32_def EXTEND32_def MSB32_def bit_simps min_def not_less dest: le_antisym)

definition swapword :: "u32 \<Rightarrow> u32" where
  "swapword x =
     push_bit 0 (drop_bit 24 x AND 0xff) OR push_bit 8 (drop_bit 16 x AND 0xff) OR
     push_bit 16 (drop_bit 8 x AND 0xff) OR push_bit 24 (drop_bit 0 x AND 0xff)"

text \<open>\<open>little\<close> says whether the host is little endian, the condition of the \<open>#if\<close>.\<close>

definition fixup_endian :: "bool \<Rightarrow> u32 \<Rightarrow> u32" where
  "fixup_endian little x = (if little then x else swapword x)"

lemma low_byte_mask: "(0xff :: u32) = mask 8"
  by (simp add: mask_eq_decr_exp)

lemma bit_swapword [word_bits]:
  "bit (swapword x) n \<longleftrightarrow>
     (if n < 8 then bit x (n + 24) else if n < 16 then bit x (n + 8)
      else if n < 24 then bit x (n - 8) else n < 32 \<and> bit x (n - 24))"
  unfolding swapword_def low_byte_mask
  by (auto simp: bit_simps add.commute dest: bit_imp_le_length)

lemma swapword_swapword [simp]: "swapword (swapword x) = x"
  by (rule bit_word_eqI) (auto simp: word_bits)

lemma fixup_endian_involution [simp]: "fixup_endian e (fixup_endian e x) = x"
  by (simp add: fixup_endian_def)

lemma bit_beyond: "LENGTH('a) \<le> n \<Longrightarrow> \<not> bit (w :: 'a::len word) n"
  by (auto dest: bit_imp_le_length)

section \<open>Words in memory\<close>

text \<open>The four bytes of a word as a little endian host stores them.\<close>

definition word_to_bytes :: "u32 \<Rightarrow> u8 list" where
  "word_to_bytes w = map (\<lambda>i. ucast (drop_bit (8 * i) w)) [0, 1, 2, 3]"

fun bytes_to_word :: "u8 list \<Rightarrow> u32" where
  "bytes_to_word [a, b, c, d] =
     ucast a OR push_bit 8 (ucast b) OR push_bit 16 (ucast c) OR push_bit 24 (ucast d)"
| "bytes_to_word _ = 0"

lemma length_word_to_bytes [simp]: "length (word_to_bytes w) = 4"
  by (simp add: word_to_bytes_def)

lemma bytes_to_word_to_bytes [simp]: "bytes_to_word (word_to_bytes w) = w"
proof (rule bit_word_eqI)
  fix n assume "n < LENGTH(32)"
  then consider "n < 8" | "8 \<le> n" "n < 16" | "16 \<le> n" "n < 24" | "24 \<le> n" "n < 32"
    by fastforce
  then show "bit (bytes_to_word (word_to_bytes w)) n = bit w n"
    by cases (auto simp: word_to_bytes_def bit_simps)
qed

section \<open>C strings\<close>

text \<open>\<open>cstr\<close>: the bytes before the first NUL.\<close>

definition cstr :: "u8 list \<Rightarrow> u8 list" where
  "cstr = takeWhile (\<lambda>b. b \<noteq> 0)"

text \<open>
  \<open>strcopy(dest, src, sz)\<close> of \<^verbatim>\<open>src/common.h\<close>: \<open>memcpy\<close> of \<open>sz\<close> bytes, then a NUL in the
  last one.  Reading past the end of the source object is undefined.
\<close>

definition strcopy :: "u8 list \<Rightarrow> nat \<Rightarrow> u8 list res" where
  "strcopy src sz =
     (if sz = 0 \<or> length src < sz then Inl (Undefined ''strcopy'')
      else Inr ((take sz src)[sz - 1 := 0]))"

lemma strcopy_length: "strcopy src sz = Inr d \<Longrightarrow> length d = sz"
  by (auto simp: strcopy_def split: if_splits)

text \<open>\<open>strcmp\<close> on NUL-terminated strings; only the sign of its result is specified.\<close>

fun strcmp :: "string \<Rightarrow> string \<Rightarrow> int" where
  "strcmp [] [] = 0"
| "strcmp [] (_ # _) = -1"
| "strcmp (_ # _) [] = 1"
| "strcmp (a # as) (b # bs) =
     (if a = b then strcmp as bs else if of_char a < (of_char b :: nat) then -1 else 1)"

lemma strcmp_eq_0 [simp]: "strcmp a b = 0 \<longleftrightarrow> a = b"
  by (induction a b rule: strcmp.induct) auto

section \<open>Association lists\<close>

lemma map_of_snoc: "k \<notin> fst ` set A \<Longrightarrow> map_of (A @ [(k, v)]) = (map_of A)(k \<mapsto> v)"
proof
  fix x assume "k \<notin> fst ` set A"
  then have "map_of A k = None" by (simp add: map_of_eq_None_iff)
  then show "map_of (A @ [(k, v)]) x = ((map_of A)(k \<mapsto> v)) x"
    by (cases "map_of A x") (auto simp: map_add_def)
qed

end
