(* ===== verification/Obj.thy ===== *)
theory Obj
  imports Prelude
begin

unbundle bit_operations_syntax

text \<open>
  The object file format of \<^verbatim>\<open>src/obj.c\<close> and \<^verbatim>\<open>src/obj.h\<close>: \<open>obj_write\<close> appends bytes to an
  output, \<open>obj_read\<close> consumes them from a stream.  \<open>little\<close> is the byte order of the host, which
  selects the \<open>_le\<close> or \<open>_be\<close> variants of the transfer routines.  Writes do not fail, and memory
  does not run out.
\<close>

section \<open>Objects\<close>

definition SYMBOL_LEN :: nat where "SYMBOL_LEN = 32"

definition RLC_NEGATE :: u32 where "RLC_NEGATE = 1"
definition RLC_ABSOLUTE :: u32 where "RLC_ABSOLUTE = 4"

text \<open>\<open>struct objrec\<close>, \<open>objsym\<close>, \<open>objrlc\<close> without their \<open>next\<close> pointers, and \<open>struct obj\<close>.\<close>

record objrec =
  rec_addr :: u32
  rec_size :: u32
  rec_data :: "u32 list"

record objsym =
  sym_flags :: u32
  sym_name :: "u8 list"
  sym_value :: u32
  sym_size :: u32

record objrlc =
  rlc_flags :: u32
  rlc_name :: "u8 list"
  rlc_addr :: u32
  rlc_width :: u32

record obj =
  version :: u8
  obj_flags :: u32
  rec_count :: u32
  records :: "objrec list"
  sym_count :: u32
  symbols :: "objsym list"
  rlc_count :: u32
  relocs :: "objrlc list"

definition MAGIC_BYTES :: "u8 list" where "MAGIC_BYTES = [0x54, 0x4f, 0x56]"

definition OBJ_MAX_SYMBOLS :: u32 where "OBJ_MAX_SYMBOLS = push_bit 16 1 - 1"
definition OBJ_MAX_RELOCS :: u32 where "OBJ_MAX_RELOCS = push_bit 16 1 - 1"
definition OBJ_MAX_REC_SIZE :: u32 where "OBJ_MAX_REC_SIZE = push_bit 31 1 - 1"
definition OBJ_MAX_REC_CNT :: u32 where "OBJ_MAX_REC_CNT = push_bit 16 1 - 1"

section \<open>Streams and the sized transfers\<close>

text \<open>
  An input stream: its position, the bytes from there on, and whether \<open>fseek\<close> and \<open>ftell\<close> work
  on it.  \<open>ftell\<close> yields -1 when they do not.
\<close>

record instream =
  pos :: nat
  rest :: "u8 list"
  seekable :: bool

definition ftell :: "instream \<Rightarrow> int" where
  "ftell s = (if seekable s then int (pos s) else -1)"

text \<open>\<open>fread\<close> of \<open>n\<close> objects of \<open>sz\<close> bytes, all of them or \<open>fatal\<close>.\<close>

definition get_sized_le :: "nat \<Rightarrow> nat \<Rightarrow> instream \<Rightarrow> (u8 list \<times> instream) res" where
  "get_sized_le sz n s =
     (let n = sz * n in
      if length (rest s) < n then Inl (Fatal ''Unknown error while parsing object'')
      else Inr (take n (rest s), s\<lparr>pos := pos s + n, rest := drop n (rest s)\<rparr>))"

text \<open>A word in the host's memory.\<close>

definition host_word :: "bool \<Rightarrow> u8 list \<Rightarrow> u32" where
  "host_word little bs = bytes_to_word (if little then bs else rev bs)"

definition host_bytes :: "bool \<Rightarrow> u32 \<Rightarrow> u8 list" where
  "host_bytes little w = (if little then word_to_bytes w else rev (word_to_bytes w))"

fun host_words :: "bool \<Rightarrow> nat \<Rightarrow> u8 list \<Rightarrow> u32 list" where
  "host_words little 0 bs = []"
| "host_words little (Suc n) bs = host_word little (take 4 bs) # host_words little n (drop 4 bs)"

text \<open>\<open>get_sized\<close> and \<open>put_sized\<close> on \<open>UWord\<close>s; the big endian variants swap each word.\<close>

definition get_words :: "bool \<Rightarrow> nat \<Rightarrow> instream \<Rightarrow> (u32 list \<times> instream) res" where
  "get_words little n s =
     bindE (get_sized_le 4 n s) (\<lambda>(bs, s).
       let dest = host_words little n bs in
       Inr (if little then dest else map swapword dest, s))"

definition get_word :: "bool \<Rightarrow> instream \<Rightarrow> (u32 \<times> instream) res" where
  "get_word little s = bindE (get_words little 1 s) (\<lambda>(ws, s). Inr (hd ws, s))"

definition put_word :: "bool \<Rightarrow> u32 \<Rightarrow> u8 list" where
  "put_word little w = host_bytes little (if little then w else swapword w)"

definition put_words :: "bool \<Rightarrow> u32 list \<Rightarrow> u8 list" where
  "put_words little ws = concat (map (put_word little) ws)"

section \<open>Writing\<close>

text \<open>\<open>for_counted_put\<close>: the whole list, when the count is not 0.\<close>

definition for_counted_put :: "('a \<Rightarrow> u8 list res) \<Rightarrow> 'a list \<Rightarrow> u32 \<Rightarrow> u8 list res" where
  "for_counted_put f xs count =
     (if count = 0 then Inr []
      else foldE (\<lambda>x out. bindE (f x) (\<lambda>b. Inr (out @ b))) xs [])"

definition put_rec :: "bool \<Rightarrow> objrec \<Rightarrow> u8 list res" where
  "put_rec little r =
     (if length (rec_data r) < unat (rec_size r) then Inl (Undefined ''read past the record'')
      else Inr (put_word little (rec_addr r) @ put_word little (rec_size r) @
                put_words little (take (unat (rec_size r)) (rec_data r))))"

definition put_sym :: "bool \<Rightarrow> objsym \<Rightarrow> u8 list res" where
  "put_sym little s = Inr (put_word little (sym_flags s) @ sym_name s @
     put_word little (sym_value s) @ put_word little (sym_size s))"

definition put_rlc :: "bool \<Rightarrow> objrlc \<Rightarrow> u8 list res" where
  "put_rlc little r = Inr (put_word little (rlc_flags r) @ rlc_name r @
     put_word little (rlc_addr r) @ put_word little (rlc_width r))"

definition obj_v0_write :: "bool \<Rightarrow> obj \<Rightarrow> u8 list res" where
  "obj_v0_write little ob =
     bindE (for_counted_put (put_rec little) (records ob) (rec_count ob)) (\<lambda>rs.
     bindE (for_counted_put (put_sym little) (symbols ob) (sym_count ob)) (\<lambda>ss.
     bindE (for_counted_put (put_rlc little) (relocs ob) (rlc_count ob)) (\<lambda>ls.
       Inr (MAGIC_BYTES @ [version ob] @ put_word little (obj_flags ob) @
            put_word little (rec_count ob) @ rs @
            put_word little (sym_count ob) @ ss @
            put_word little (rlc_count ob) @ ls))))"

definition obj_write :: "bool \<Rightarrow> obj \<Rightarrow> u8 list res" where
  "obj_write little ob =
     (if version ob = 0 then obj_v0_write little ob
      else Inl (Fatal ''Unhandled version while emitting object''))"

section \<open>Reading\<close>

text \<open>
  \<open>for_counted_get\<close>: \<open>count\<close> objects in order; the body may \<open>return 1\<close>, here \<open>None\<close>, with
  \<open>errno\<close> set to \<open>EFBIG\<close>.
\<close>

fun for_counted_get ::
  "(instream \<Rightarrow> ('a option \<times> instream) res) \<Rightarrow> nat \<Rightarrow> instream \<Rightarrow> ('a list option \<times> instream) res" where
  "for_counted_get f 0 s = Inr (Some [], s)"
| "for_counted_get f (Suc n) s =
     bindE (f s) (\<lambda>(x, s). case x of
         None \<Rightarrow> Inr (None, s)
       | Some x \<Rightarrow> bindE (for_counted_get f n s) (\<lambda>(xs, s). Inr (map_option ((#) x) xs, s)))"

text \<open>\<open>filesize\<close> is a \<open>long\<close>, compared after its conversion to \<open>unsigned\<close>.\<close>

definition get_rec :: "bool \<Rightarrow> int \<Rightarrow> instream \<Rightarrow> (objrec option \<times> instream) res" where
  "get_rec little filesize s =
     bindE (get_word little s) (\<lambda>(addr, s).
     bindE (get_word little s) (\<lambda>(size, s).
       if size > OBJ_MAX_REC_SIZE then Inr (None, s)
       else if uint size + ftell s > filesize mod 2 ^ 32 then Inr (None, s)
       else bindE (get_words little (unat size) s) (\<lambda>(data, s).
         Inr (Some \<lparr>rec_addr = addr, rec_size = size, rec_data = data\<rparr>, s))))"

definition get_name :: "instream \<Rightarrow> (u8 list \<times> instream) res" where
  "get_name = get_sized_le SYMBOL_LEN 1"

definition get_sym :: "bool \<Rightarrow> instream \<Rightarrow> (objsym option \<times> instream) res" where
  "get_sym little s =
     bindE (get_word little s) (\<lambda>(flags, s).
     bindE (get_name s) (\<lambda>(name, s).
     bindE (get_word little s) (\<lambda>(v, s).
     bindE (get_word little s) (\<lambda>(size, s).
       Inr (Some \<lparr>sym_flags = flags, sym_name = name, sym_value = v, sym_size = size\<rparr>, s)))))"

definition get_rlc :: "bool \<Rightarrow> instream \<Rightarrow> (objrlc option \<times> instream) res" where
  "get_rlc little s =
     bindE (get_word little s) (\<lambda>(flags, s).
     bindE (get_name s) (\<lambda>(name, s).
     bindE (get_word little s) (\<lambda>(addr, s).
     bindE (get_word little s) (\<lambda>(width, s).
       Inr (Some \<lparr>rlc_flags = flags, rlc_name = name, rlc_addr = addr, rlc_width = width\<rparr>, s)))))"

text \<open>One counted section: the count, its limit, the objects.\<close>

definition get_section ::
  "bool \<Rightarrow> u32 \<Rightarrow> (instream \<Rightarrow> ('a option \<times> instream) res) \<Rightarrow> instream
     \<Rightarrow> ((u32 \<times> 'a list) option \<times> instream) res" where
  "get_section little limit f s =
     bindE (get_word little s) (\<lambda>(count, s).
       if count > limit then Inr (None, s)
       else bindE (for_counted_get f (unat count) s) (\<lambda>(xs, s).
         Inr (map_option (Pair count) xs, s)))"

definition LONG_MAX :: int where "LONG_MAX = 2 ^ 63 - 1"

definition obj_v0_read :: "bool \<Rightarrow> u8 \<Rightarrow> instream \<Rightarrow> (obj option \<times> instream) res" where
  "obj_v0_read little ver s =
     (let filesize = (if seekable s then int (pos s + length (rest s)) else LONG_MAX) in
      bindE (get_word little s) (\<lambda>(flags, s).
      bindE (get_section little OBJ_MAX_REC_CNT (get_rec little filesize) s) (\<lambda>(rs, s).
      case rs of None \<Rightarrow> Inr (None, s) | Some (rc, rs) \<Rightarrow>
      bindE (get_section little OBJ_MAX_SYMBOLS (get_sym little) s) (\<lambda>(ss, s).
      case ss of None \<Rightarrow> Inr (None, s) | Some (sc, ss) \<Rightarrow>
      bindE (get_section little OBJ_MAX_RELOCS (get_rlc little) s) (\<lambda>(ls, s).
      case ls of None \<Rightarrow> Inr (None, s) | Some (lc, ls) \<Rightarrow>
        Inr (Some \<lparr>version = ver, obj_flags = flags, rec_count = rc, records = rs,
                   sym_count = sc, symbols = ss, rlc_count = lc, relocs = ls\<rparr>, s))))))"

definition obj_read :: "bool \<Rightarrow> instream \<Rightarrow> (obj option \<times> instream) res" where
  "obj_read little s =
     bindE (get_sized_le 3 1 s) (\<lambda>(tov, s).
       if tov \<noteq> MAGIC_BYTES then Inl (Fatal ''Bad magic when loading object'')
       else bindE (get_sized_le 1 1 s) (\<lambda>(ver, s).
         if hd ver = 0 then obj_v0_read little (hd ver) s
         else Inl (Fatal ''Unhandled version number when loading object'')))"

section \<open>Independence of the host\<close>

lemma list4: "length xs = 4 \<Longrightarrow> \<exists>a b c d. xs = [a, b, c, d]"
  by (auto simp: length_Suc_conv numeral_eq_Suc)

lemma swapword_rev: "length bs = 4 \<Longrightarrow> swapword (bytes_to_word (rev bs)) = bytes_to_word bs"
proof (drule list4, elim exE, hypsubst, rule bit_word_eqI)
  fix a b c d :: u8 and n assume "n < LENGTH(32)"
  then consider "n < 8" | "8 \<le> n" "n < 16" | "16 \<le> n" "n < 24" | "24 \<le> n" "n < 32"
    by fastforce
  then show "bit (swapword (bytes_to_word (rev [a, b, c, d]))) n = bit (bytes_to_word [a, b, c, d]) n"
    by cases (auto simp: word_bits bit_simps bit_beyond)
qed


lemma host_word_little: "host_word True bs = bytes_to_word bs"
  by (simp add: host_word_def)

lemma host_words_swap:
  "length bs = 4 * n \<Longrightarrow> map swapword (host_words False n bs) = host_words True n bs"
  by (induction n arbitrary: bs) (simp_all add: host_word_def swapword_rev)

lemma get_words_host: "get_words little = get_words True"
  by (cases little)
    (auto simp: get_words_def get_sized_le_def Let_def host_words_swap intro!: ext)

lemma get_word_host: "get_word little = get_word True"
  unfolding get_word_def get_words_host [of little] ..

lemma word_to_bytes_bytes: "length bs = 4 \<Longrightarrow> word_to_bytes (bytes_to_word bs) = bs"
proof (drule list4, elim exE, hypsubst)
  fix a b c d
  show "word_to_bytes (bytes_to_word [a, b, c, d]) = [a, b, c, d]"
    by (auto simp: word_to_bytes_def bit_simps bit_beyond intro!: bit_word_eqI)
qed

lemma put_word_host [simp]: "put_word little w = word_to_bytes w"
proof (cases little)
  case False
  have "length (word_to_bytes w) = 4" by simp
  then have "bytes_to_word (rev (word_to_bytes w)) = swapword w"
    by (metis swapword_rev swapword_swapword bytes_to_word_to_bytes)
  then have "word_to_bytes (swapword w) = rev (word_to_bytes w)"
    by (metis word_to_bytes_bytes length_rev length_word_to_bytes)
  then show ?thesis using False by (simp add: put_word_def host_bytes_def)
qed (simp add: put_word_def host_bytes_def)

text \<open>The host's byte order does not show, neither in the file nor in what is read from it.\<close>

lemma get_body_host:
  "get_rec little = get_rec True" "get_sym little = get_sym True" "get_rlc little = get_rlc True"
  unfolding get_rec_def get_sym_def get_rlc_def get_word_host [of little] get_words_host [of little]
  by (rule refl)+

lemma get_section_host: "get_section little = get_section True"
  unfolding get_section_def get_word_host [of little] ..

lemma obj_read_host: "obj_read little = obj_read True"
  unfolding obj_read_def obj_v0_read_def get_body_host [of little] get_word_host [of little]
    get_section_host [of little] ..

lemma put_body_host:
  "put_rec little = put_rec True" "put_sym little = put_sym True" "put_rlc little = put_rlc True"
  unfolding put_rec_def put_sym_def put_rlc_def put_words_def put_word_host by (rule refl)+

lemma obj_write_host: "obj_write little = obj_write True"
  unfolding obj_write_def obj_v0_write_def put_body_host [of little] put_word_host ..

section \<open>Well-formed objects and their bytes\<close>

definition wf_rec :: "objrec \<Rightarrow> bool" where
  "wf_rec r \<longleftrightarrow> length (rec_data r) = unat (rec_size r) \<and> rec_size r \<le> OBJ_MAX_REC_SIZE"

definition wf_obj :: "obj \<Rightarrow> bool" where
  "wf_obj ob \<longleftrightarrow> version ob = 0 \<and>
     length (records ob) = unat (rec_count ob) \<and> rec_count ob \<le> OBJ_MAX_REC_CNT \<and>
     length (symbols ob) = unat (sym_count ob) \<and> sym_count ob \<le> OBJ_MAX_SYMBOLS \<and>
     length (relocs ob) = unat (rlc_count ob) \<and> rlc_count ob \<le> OBJ_MAX_RELOCS \<and>
     (\<forall>r\<in>set (records ob). wf_rec r) \<and>
     (\<forall>y\<in>set (symbols ob). length (sym_name y) = SYMBOL_LEN) \<and>
     (\<forall>l\<in>set (relocs ob). length (rlc_name l) = SYMBOL_LEN)"

definition rec_bytes :: "objrec \<Rightarrow> u8 list" where
  "rec_bytes r = word_to_bytes (rec_addr r) @ word_to_bytes (rec_size r) @ put_words True (rec_data r)"

definition sym_bytes :: "objsym \<Rightarrow> u8 list" where
  "sym_bytes y = word_to_bytes (sym_flags y) @ sym_name y @ word_to_bytes (sym_value y) @
     word_to_bytes (sym_size y)"

definition rlc_bytes :: "objrlc \<Rightarrow> u8 list" where
  "rlc_bytes l = word_to_bytes (rlc_flags l) @ rlc_name l @ word_to_bytes (rlc_addr l) @
     word_to_bytes (rlc_width l)"

definition section_bytes :: "u32 \<Rightarrow> ('a \<Rightarrow> u8 list) \<Rightarrow> 'a list \<Rightarrow> u8 list" where
  "section_bytes n f xs = word_to_bytes n @ concat (map f xs)"

definition obj_bytes :: "obj \<Rightarrow> u8 list" where
  "obj_bytes ob = MAGIC_BYTES @ [version ob] @ word_to_bytes (obj_flags ob) @
     section_bytes (rec_count ob) rec_bytes (records ob) @
     section_bytes (sym_count ob) sym_bytes (symbols ob) @
     section_bytes (rlc_count ob) rlc_bytes (relocs ob)"

lemma length_put_words [simp]: "length (put_words little ws) = 4 * length ws"
  by (induction ws) (simp_all add: put_words_def)

lemma foldE_out:
  "(\<And>x. x \<in> set xs \<Longrightarrow> f x = Inr (out x)) \<Longrightarrow>
     foldE (\<lambda>x acc. bindE (f x) (\<lambda>b. Inr (acc @ b))) xs acc = Inr (acc @ concat (map out xs))"
  by (induction xs arbitrary: acc) simp_all

lemma for_counted_put_wf:
  "(\<And>x. x \<in> set xs \<Longrightarrow> f x = Inr (out x)) \<Longrightarrow> length xs = unat n \<Longrightarrow>
     for_counted_put f xs n = Inr (concat (map out xs))"
  by (auto simp: for_counted_put_def foldE_out)

lemma obj_write_wf: "wf_obj ob \<Longrightarrow> obj_write little ob = Inr (obj_bytes ob)"
  unfolding obj_write_host [of little] obj_write_def obj_v0_write_def wf_obj_def
  by (simp add: for_counted_put_wf [where out = rec_bytes] for_counted_put_wf [where out = sym_bytes]
      for_counted_put_wf [where out = rlc_bytes] put_rec_def put_sym_def put_rlc_def wf_rec_def
      rec_bytes_def sym_bytes_def rlc_bytes_def obj_bytes_def section_bytes_def)

section \<open>Reading back what was written\<close>

lemma get_sized_app:
  "length b = sz * n \<Longrightarrow> get_sized_le sz n \<lparr>pos = p, rest = b @ r, seekable = k\<rparr> =
     Inr (b, \<lparr>pos = p + length b, rest = r, seekable = k\<rparr>)"
  by (simp add: get_sized_le_def Let_def)

lemma host_words_put: "host_words True (length ws) (put_words True ws) = ws"
  by (induction ws) (simp_all add: put_words_def host_word_def)

lemma get_words_app:
  "get_words True (length ws) \<lparr>pos = p, rest = put_words True ws @ r, seekable = k\<rparr> =
     Inr (ws, \<lparr>pos = p + 4 * length ws, rest = r, seekable = k\<rparr>)"
  by (simp add: get_words_def get_sized_app host_words_put)

lemma get_word_app:
  "get_word True \<lparr>pos = p, rest = word_to_bytes w @ r, seekable = k\<rparr> =
     Inr (w, \<lparr>pos = p + 4, rest = r, seekable = k\<rparr>)"
  using get_words_app [of "[w]" p r k] by (simp add: get_word_def put_words_def)

lemma get_name_app:
  "length nm = SYMBOL_LEN \<Longrightarrow> get_name \<lparr>pos = p, rest = nm @ r, seekable = k\<rparr> =
     Inr (nm, \<lparr>pos = p + length nm, rest = r, seekable = k\<rparr>)"
  by (simp add: get_name_def get_sized_app)

lemmas get_app = get_word_app get_name_app get_words_app

lemma for_counted_get_app:
  assumes "\<And>x p r. x \<in> set xs \<Longrightarrow> p + length (out x) \<le> lim \<Longrightarrow>
      f \<lparr>pos = p, rest = out x @ r, seekable = k\<rparr> =
      Inr (Some x, \<lparr>pos = p + length (out x), rest = r, seekable = k\<rparr>)"
    and "p + length (concat (map out xs)) \<le> lim"
  shows "for_counted_get f (length xs) \<lparr>pos = p, rest = concat (map out xs) @ r, seekable = k\<rparr> =
    Inr (Some xs, \<lparr>pos = p + length (concat (map out xs)), rest = r, seekable = k\<rparr>)"
  using assms by (induction xs arbitrary: p) (simp_all add: add.assoc)

lemma get_section_app:
  assumes "\<And>x p r. x \<in> set xs \<Longrightarrow> p + length (out x) \<le> lim \<Longrightarrow>
      f \<lparr>pos = p, rest = out x @ r, seekable = k\<rparr> =
      Inr (Some x, \<lparr>pos = p + length (out x), rest = r, seekable = k\<rparr>)"
    and "p + length (section_bytes n out xs) \<le> lim" and "n \<le> limit" and "length xs = unat n"
  shows "get_section True limit f \<lparr>pos = p, rest = section_bytes n out xs @ r, seekable = k\<rparr> =
    Inr (Some (n, xs), \<lparr>pos = p + length (section_bytes n out xs), rest = r, seekable = k\<rparr>)"
  using assms(2-4) for_counted_get_app
    [where xs = xs and out = out and f = f and p = "p + 4" and r = r and k = k and lim = lim, OF assms(1)]
  by (simp add: get_section_def section_bytes_def get_app add.assoc)

lemma get_rec_app:
  assumes "wf_rec x" and "int (p + length (rec_bytes x)) \<le> filesize mod 2 ^ 32"
  shows "get_rec True filesize \<lparr>pos = p, rest = rec_bytes x @ r, seekable = k\<rparr> =
    Inr (Some x, \<lparr>pos = p + length (rec_bytes x), rest = r, seekable = k\<rparr>)"
proof -
  have d: "unat (rec_size x) = length (rec_data x)" "\<not> OBJ_MAX_REC_SIZE < rec_size x"
    using assms(1) by (simp_all add: wf_rec_def not_less)
  have "uint (rec_size x) + ftell \<lparr>pos = 8 + p, rest = r', seekable = k\<rparr> \<le> filesize mod 2 ^ 32" for r'
    using assms(2) d(1) by (simp add: ftell_def rec_bytes_def uint_nat del: unat_eq_nat_uint)
  then show ?thesis
    using d get_app(3) [of "rec_data x"]
    by (simp add: get_rec_def rec_bytes_def get_word_app not_less)
qed

lemma get_sym_app:
  "length (sym_name y) = SYMBOL_LEN \<Longrightarrow>
     get_sym True \<lparr>pos = p, rest = sym_bytes y @ r, seekable = k\<rparr> =
     Inr (Some y, \<lparr>pos = p + length (sym_bytes y), rest = r, seekable = k\<rparr>)"
  by (simp add: get_sym_def sym_bytes_def get_app)

lemma get_rlc_app:
  "length (rlc_name l) = SYMBOL_LEN \<Longrightarrow>
     get_rlc True \<lparr>pos = p, rest = rlc_bytes l @ r, seekable = k\<rparr> =
     Inr (Some l, \<lparr>pos = p + length (rlc_bytes l), rest = r, seekable = k\<rparr>)"
  by (simp add: get_rlc_def rlc_bytes_def get_app)

lemma length_section_bytes: "length (section_bytes n f xs) = 4 + length (concat (map f xs))"
  by (simp add: section_bytes_def)

lemma obj_read_obj_bytes:
  assumes "wf_obj ob" and "p + length (obj_bytes ob) + length r < 2 ^ 32"
  shows "obj_read True \<lparr>pos = p, rest = obj_bytes ob @ r, seekable = k\<rparr> =
    Inr (Some ob, \<lparr>pos = p + length (obj_bytes ob), rest = r, seekable = k\<rparr>)"
proof -
  let ?R = "section_bytes (rec_count ob) rec_bytes (records ob)"
    and ?S = "section_bytes (sym_count ob) sym_bytes (symbols ob)"
    and ?L = "section_bytes (rlc_count ob) rlc_bytes (relocs ob)"
  let ?s = "\<lparr>pos = 4 + p, rest = word_to_bytes (obj_flags ob) @ ?R @ ?S @ ?L @ r, seekable = k\<rparr>"
  define fs where "fs = (if seekable ?s then int (pos ?s + length (rest ?s)) else LONG_MAX)"
  have len: "length (obj_bytes ob) = 8 + length ?R + length ?S + length ?L"
    by (simp add: obj_bytes_def MAGIC_BYTES_def)
  have fs: "int (p + length (obj_bytes ob)) \<le> fs mod 2 ^ 32"
    using assms(2) len by (simp add: fs_def LONG_MAX_def)
  have rs: "get_section True OBJ_MAX_REC_CNT (get_rec True fs)
      \<lparr>pos = 8 + p, rest = ?R @ r', seekable = k\<rparr> =
      Inr (Some (rec_count ob, records ob), \<lparr>pos = 8 + p + length ?R, rest = r', seekable = k\<rparr>)" for r'
    by (rule get_section_app [where lim = "p + length (obj_bytes ob)"], rule get_rec_app)
      (use assms(1) fs len in \<open>auto simp: wf_obj_def\<close>)
  have ss: "get_section True OBJ_MAX_SYMBOLS (get_sym True)
      \<lparr>pos = q, rest = ?S @ r', seekable = k\<rparr> =
      Inr (Some (sym_count ob, symbols ob), \<lparr>pos = q + length ?S, rest = r', seekable = k\<rparr>)" for q r'
    by (rule get_section_app [where lim = "q + length ?S"], rule get_sym_app)
      (use assms(1) in \<open>auto simp: wf_obj_def\<close>)
  have ls: "get_section True OBJ_MAX_RELOCS (get_rlc True)
      \<lparr>pos = q, rest = ?L @ r', seekable = k\<rparr> =
      Inr (Some (rlc_count ob, relocs ob), \<lparr>pos = q + length ?L, rest = r', seekable = k\<rparr>)" for q r'
    by (rule get_section_app [where lim = "q + length ?L"], rule get_rlc_app)
      (use assms(1) in \<open>auto simp: wf_obj_def\<close>)
  have v: "obj_v0_read True 0 ?s =
      Inr (Some ob, \<lparr>pos = p + length (obj_bytes ob), rest = r, seekable = k\<rparr>)"
    unfolding obj_v0_read_def Let_def fs_def [symmetric] get_word_app
    using rs ss ls assms(1) by (simp add: len add.assoc wf_obj_def)
  show ?thesis
    using v assms(1)
    by (simp add: obj_read_def obj_bytes_def [of ob] get_sized_le_def MAGIC_BYTES_def wf_obj_def)
qed

section \<open>What a successful read means\<close>

definition consumes :: "instream \<Rightarrow> u8 list \<Rightarrow> instream \<Rightarrow> bool" where
  "consumes s b t \<longleftrightarrow> rest s = b @ rest t \<and> pos t = pos s + length b \<and> seekable t = seekable s"

lemma get_sized_inv: "get_sized_le sz n s = Inr (b, t) \<Longrightarrow> consumes s b t \<and> length b = sz * n"
  by (auto simp: get_sized_le_def Let_def consumes_def split: if_splits)

lemma put_host_words: "length bs = 4 * n \<Longrightarrow> put_words True (host_words True n bs) = bs"
proof (induction n arbitrary: bs)
  case (Suc n)
  then have "put_words True (host_words True n (drop 4 bs)) = drop 4 bs" by simp
  moreover have "word_to_bytes (bytes_to_word (take 4 bs)) = take 4 bs"
    using Suc.prems by (simp add: word_to_bytes_bytes)
  ultimately show ?case by (simp add: put_words_def host_word_def)
qed (simp add: put_words_def)

lemma length_host_words [simp]: "length (host_words little n bs) = n"
  by (induction n arbitrary: bs) simp_all

lemma get_words_inv:
  "get_words True n s = Inr (ws, t) \<Longrightarrow> consumes s (put_words True ws) t \<and> length ws = n"
  by (auto simp: get_words_def bindE_eq_Inr put_host_words dest!: get_sized_inv)

lemma get_word_inv: "get_word True s = Inr (w, t) \<Longrightarrow> consumes s (word_to_bytes w) t"
  by (auto simp: get_word_def bindE_eq_Inr put_words_def length_Suc_conv dest!: get_words_inv)

lemma get_name_inv: "get_name s = Inr (b, t) \<Longrightarrow> consumes s b t \<and> length b = SYMBOL_LEN"
  by (auto simp: get_name_def dest!: get_sized_inv)

lemma for_counted_get_inv:
  assumes "\<And>s x t. f s = Inr (Some x, t) \<Longrightarrow> consumes s (out x) t \<and> P x"
  shows "for_counted_get f n s = Inr (Some xs, t) \<Longrightarrow>
    consumes s (concat (map out xs)) t \<and> length xs = n \<and> (\<forall>x\<in>set xs. P x)"
  by (induction n arbitrary: s xs)
    (auto 4 3 simp: bindE_eq_Inr consumes_def split: option.splits dest!: assms)

lemma get_section_inv:
  assumes "\<And>s x t. f s = Inr (Some x, t) \<Longrightarrow> consumes s (out x) t \<and> P x"
    and "get_section True limit f s = Inr (Some (n, xs), t)"
  shows "consumes s (section_bytes n out xs) t \<and> length xs = unat n \<and> n \<le> limit \<and>
    (\<forall>x\<in>set xs. P x)"
  using assms(2) for_counted_get_inv [where f = f and out = out and P = P, OF assms(1)]
  by (auto simp: consumes_def get_section_def section_bytes_def bindE_eq_Inr split: if_splits
      dest!: get_word_inv)

lemma get_rec_inv: "get_rec True fs s = Inr (Some x, t) \<Longrightarrow> consumes s (rec_bytes x) t \<and> wf_rec x"
  by (auto simp: consumes_def get_rec_def rec_bytes_def wf_rec_def bindE_eq_Inr not_less split: if_splits
      dest!: get_word_inv get_words_inv)

lemma get_sym_inv:
  "get_sym True s = Inr (Some y, t) \<Longrightarrow> consumes s (sym_bytes y) t \<and> length (sym_name y) = SYMBOL_LEN"
  by (auto simp: consumes_def get_sym_def sym_bytes_def bindE_eq_Inr dest!: get_word_inv get_name_inv)

lemma get_rlc_inv:
  "get_rlc True s = Inr (Some l, t) \<Longrightarrow> consumes s (rlc_bytes l) t \<and> length (rlc_name l) = SYMBOL_LEN"
  by (auto simp: consumes_def get_rlc_def rlc_bytes_def bindE_eq_Inr dest!: get_word_inv get_name_inv)

lemma obj_read_inv:
  assumes "obj_read True s = Inr (Some ob, t)"
  shows "wf_obj ob \<and> consumes s (obj_bytes ob) t"
proof -
  obtain s1 s2 where m: "consumes s MAGIC_BYTES s1" and v: "consumes s1 [0] s2"
    and r: "obj_v0_read True 0 s2 = Inr (Some ob, t)"
    using assms
    by (auto simp: obj_read_def bindE_eq_Inr length_Suc_conv split: if_splits dest!: get_sized_inv)
  then obtain fs s3 s4 s5 f rc rs sc ss lc ls
    where f: "consumes s2 (word_to_bytes f) s3"
    and rs: "get_section True OBJ_MAX_REC_CNT (get_rec True fs) s3 = Inr (Some (rc, rs), s4)"
    and ss: "get_section True OBJ_MAX_SYMBOLS (get_sym True) s4 = Inr (Some (sc, ss), s5)"
    and ls: "get_section True OBJ_MAX_RELOCS (get_rlc True) s5 = Inr (Some (lc, ls), t)"
    and ob: "ob = \<lparr>version = 0, obj_flags = f, rec_count = rc, records = rs, sym_count = sc,
      symbols = ss, rlc_count = lc, relocs = ls\<rparr>"
    by (auto simp: obj_v0_read_def Let_def bindE_eq_Inr split: option.splits dest!: get_word_inv)
  note inv =
    get_section_inv [where out = rec_bytes and P = wf_rec, OF get_rec_inv rs]
    get_section_inv [where out = sym_bytes and P = "\<lambda>y. length (sym_name y) = SYMBOL_LEN", OF get_sym_inv ss]
    get_section_inv [where out = rlc_bytes and P = "\<lambda>l. length (rlc_name l) = SYMBOL_LEN", OF get_rlc_inv ls]
  show ?thesis
    using inv m v f unfolding ob wf_obj_def obj_bytes_def consumes_def by auto
qed

end
