(* ===== verification/Insn.thy ===== *)
theory Insn
  imports Prelude
begin

unbundle bit_operations_syntax

text \<open>
  The instruction word of \<^verbatim>\<open>src/ops.h\<close>: the three bit-field views of \<open>union insn\<close>, the
  operation codes of \<open>enum op\<close>, and the fact that the views partition the word, so that
  composing an instruction from its fields and reading the fields back are inverse.
\<close>

section \<open>Operation codes\<close>

datatype opcode =
    OP_BITWISE_OR | OP_BITWISE_ORN
  | OP_BITWISE_AND | OP_BITWISE_ANDN
  | OP_BITWISE_XOR | OP_PACK
  | OP_SHIFT_RIGHT_ARITH | OP_SHIFT_RIGHT_LOGIC
  | OP_ADD | OP_SUBTRACT
  | OP_MULTIPLY | OP_SHIFT_LEFT
  | OP_COMPARE_EQ | OP_TEST_BIT
  | OP_COMPARE_LT | OP_COMPARE_GE

primrec op_code :: "opcode \<Rightarrow> nat" where
  "op_code OP_BITWISE_OR = 0x0"        | "op_code OP_BITWISE_ORN = 0x8"
| "op_code OP_BITWISE_AND = 0x1"       | "op_code OP_BITWISE_ANDN = 0x9"
| "op_code OP_BITWISE_XOR = 0x2"       | "op_code OP_PACK = 0xa"
| "op_code OP_SHIFT_RIGHT_ARITH = 0x3" | "op_code OP_SHIFT_RIGHT_LOGIC = 0xb"
| "op_code OP_ADD = 0x4"               | "op_code OP_SUBTRACT = 0xc"
| "op_code OP_MULTIPLY = 0x5"          | "op_code OP_SHIFT_LEFT = 0xd"
| "op_code OP_COMPARE_EQ = 0x6"        | "op_code OP_TEST_BIT = 0xe"
| "op_code OP_COMPARE_LT = 0x7"        | "op_code OP_COMPARE_GE = 0xf"

definition all_ops :: "opcode list" where
  "all_ops =
     [OP_BITWISE_OR, OP_BITWISE_AND, OP_BITWISE_XOR, OP_SHIFT_RIGHT_ARITH,
      OP_ADD, OP_MULTIPLY, OP_COMPARE_EQ, OP_COMPARE_LT,
      OP_BITWISE_ORN, OP_BITWISE_ANDN, OP_PACK, OP_SHIFT_RIGHT_LOGIC,
      OP_SUBTRACT, OP_SHIFT_LEFT, OP_TEST_BIT, OP_COMPARE_GE]"

text \<open>The enumerator of an integer, when it has one (the \<open>switch (op)\<close> of the sources).\<close>

definition op_of_code :: "nat \<Rightarrow> opcode option" where
  "op_of_code n = (if n < length all_ops then Some (all_ops ! n) else None)"

lemma op_code_less: "op_code f < 16"
  by (cases f) simp_all

lemma op_of_code_op_code [simp]: "op_of_code (op_code f) = Some f"
  by (cases f) (simp_all add: op_of_code_def all_ops_def)

lemma op_of_code_Some_iff: "op_of_code n = Some f \<longleftrightarrow> n = op_code f"
proof
  assume "op_of_code n = Some f"
  then have "n < 16" and f: "f = all_ops ! n"
    by (auto simp: op_of_code_def all_ops_def split: if_splits)
  then have "n \<in> set [0..<16]" by simp
  then have "n \<in> {0, 1, 2, 3, 4, 5, 6, 7, 8, 9, 10, 11, 12, 13, 14, 15}"
    by (auto simp: upt_rec)
  then show "n = op_code f" unfolding f all_ops_def by (elim insertE) simp_all
qed simp

lemma op_of_code_total: "n < 16 \<Longrightarrow> \<exists>f. op_of_code n = Some f"
  by (simp add: op_of_code_def all_ops_def)

section \<open>The bit-field views\<close>

definition insn_p :: "u32 \<Rightarrow> 2 word" where "insn_p w = ucast (drop_bit 30 w)"
definition insn_dd :: "u32 \<Rightarrow> 2 word" where "insn_dd w = ucast (drop_bit 28 w)"
definition insn_z :: "u32 \<Rightarrow> 4 word" where "insn_z w = ucast (drop_bit 24 w)"
definition insn_x :: "u32 \<Rightarrow> 4 word" where "insn_x w = ucast (drop_bit 20 w)"
definition insn_y :: "u32 \<Rightarrow> 4 word" where "insn_y w = ucast (drop_bit 16 w)"
definition insn_op :: "u32 \<Rightarrow> 4 word" where "insn_op w = ucast (drop_bit 12 w)"
definition insn_imm12 :: "u32 \<Rightarrow> 12 word" where "insn_imm12 w = ucast w"
definition insn_imm20 :: "u32 \<Rightarrow> 20 word" where "insn_imm20 w = ucast w"

lemmas insn_field_defs =
  insn_p_def insn_dd_def insn_z_def insn_x_def insn_y_def insn_op_def
  insn_imm12_def insn_imm20_def

text \<open>An instruction of type 0, 1 or 2, and one of type 3, from their fields.\<close>

definition pack012 ::
  "2 word \<Rightarrow> 2 word \<Rightarrow> 4 word \<Rightarrow> 4 word \<Rightarrow> 4 word \<Rightarrow> 4 word \<Rightarrow> 12 word \<Rightarrow> u32" where
  "pack012 p dd z x y f imm =
     push_bit 30 (ucast p) OR push_bit 28 (ucast dd) OR push_bit 24 (ucast z) OR
     push_bit 20 (ucast x) OR push_bit 16 (ucast y) OR push_bit 12 (ucast f) OR ucast imm"

definition pack3 :: "2 word \<Rightarrow> 2 word \<Rightarrow> 4 word \<Rightarrow> 4 word \<Rightarrow> 20 word \<Rightarrow> u32" where
  "pack3 p dd z x imm =
     push_bit 30 (ucast p) OR push_bit 28 (ucast dd) OR push_bit 24 (ucast z) OR
     push_bit 20 (ucast x) OR ucast imm"

lemma unpack_pack012 [simp]:
  "insn_p (pack012 p dd z x y f imm) = p"
  "insn_dd (pack012 p dd z x y f imm) = dd"
  "insn_z (pack012 p dd z x y f imm) = z"
  "insn_x (pack012 p dd z x y f imm) = x"
  "insn_y (pack012 p dd z x y f imm) = y"
  "insn_op (pack012 p dd z x y f imm) = f"
  "insn_imm12 (pack012 p dd z x y f imm) = imm"
  by (rule bit_word_eqI; auto simp: insn_field_defs pack012_def bit_simps bit_beyond)+

lemma unpack_pack3 [simp]:
  "insn_p (pack3 p dd z x imm) = p"
  "insn_dd (pack3 p dd z x imm) = dd"
  "insn_z (pack3 p dd z x imm) = z"
  "insn_x (pack3 p dd z x imm) = x"
  "insn_imm20 (pack3 p dd z x imm) = imm"
  by (rule bit_word_eqI; auto simp: insn_field_defs pack3_def bit_simps bit_beyond)+

lemma pack012_unpack:
  "pack012 (insn_p w) (insn_dd w) (insn_z w) (insn_x w) (insn_y w) (insn_op w) (insn_imm12 w) = w"
proof (rule bit_word_eqI)
  fix n assume "n < LENGTH(32)"
  then consider "n < 12" | "12 \<le> n" "n < 16" | "16 \<le> n" "n < 20" | "20 \<le> n" "n < 24"
    | "24 \<le> n" "n < 28" | "28 \<le> n" "n < 30" | "30 \<le> n" "n < 32"
    by fastforce
  then show "bit (pack012 (insn_p w) (insn_dd w) (insn_z w) (insn_x w) (insn_y w) (insn_op w)
                    (insn_imm12 w)) n = bit w n"
    by cases (auto simp: insn_field_defs pack012_def bit_simps)
qed

lemma pack3_unpack:
  "pack3 (insn_p w) (insn_dd w) (insn_z w) (insn_x w) (insn_imm20 w) = w"
proof (rule bit_word_eqI)
  fix n assume "n < LENGTH(32)"
  then consider "n < 20" | "20 \<le> n" "n < 24" | "24 \<le> n" "n < 28" | "28 \<le> n" "n < 30"
    | "30 \<le> n" "n < 32"
    by fastforce
  then show "bit (pack3 (insn_p w) (insn_dd w) (insn_z w) (insn_x w) (insn_imm20 w)) n = bit w n"
    by cases (auto simp: insn_field_defs pack3_def bit_simps)
qed

end
