(* ===== verification/Sim.thy ===== *)
theory Sim
  imports Insn
begin

unbundle bit_operations_syntax

text \<open>
  The interpreter of \<^verbatim>\<open>src/sim.c\<close>: the arithmetic unit \<open>do_op\<close>, the load/store stage
  \<open>do_common\<close>, \<open>run_instruction\<close>, the fetch loop \<open>interp_run_sim\<close> and \<open>load_sim\<close>.

  The memory system is reached through the function pointer \<open>dispatch_op\<close>, here a
  \<open>'w dispatcher\<close> over an abstract world \<open>'w\<close> (the devices); the theory \<open>Simif\<close> supplies the
  real one.  \<open>insn_step\<close> is one turn of the \<open>while (1)\<close> loop, \<open>interp_run_sim\<close> the loop itself
  as a partial function: \<open>None\<close> is a run that never leaves the loop.
\<close>

section \<open>State\<close>

text \<open>The \<open>insn\<close> part of \<open>struct element\<close>: the word, its address, its size in words.\<close>

record element =
  e_word :: u32
  e_reladdr :: u32
  e_size :: u32

text \<open>\<open>enum memory_op\<close>; the dispatchers take it as an \<open>int\<close>.\<close>

abbreviation (input) OP_INSN_READ :: int where "OP_INSN_READ \<equiv> 0"
abbreviation (input) OP_DATA_READ :: int where "OP_DATA_READ \<equiv> 1"
abbreviation (input) OP_WRITE :: int where "OP_WRITE \<equiv> 2"

text \<open>
  \<open>op_dispatcher\<close>: operation, address, the word behind \<open>data\<close>, the state behind \<open>ud\<close>; it yields
  its return code and the new contents of both.
\<close>

type_synonym 'w dispatcher = "int \<Rightarrow> u32 \<Rightarrow> u32 \<Rightarrow> 'w \<Rightarrow> (int \<times> u32 \<times> 'w) res"

text \<open>The parts of \<open>struct sim_state\<close> the interpreter works on.\<close>

record 'w machine =
  regs :: "4 word \<Rightarrow> u32"
  insns_executed :: u64
  world :: 'w

section \<open>do_op\<close>

text \<open>The array \<open>p\<close>: which position the immediate takes is decided by the type.\<close>

definition operands :: "nat \<Rightarrow> u32 \<Rightarrow> u32 \<Rightarrow> u32 \<Rightarrow> u32 list" where
  "operands ty X Y I =
     (let p = [0, 0, 0] in
      if ty = 0 \<or> ty = 1 \<or> ty = 2 then
        p[ty := SEXTEND32 12 I,
          2 - (if ty > 1 then 1 else 0) := X,
          1 - (if ty > 0 then 1 else 0) := Y]
      else if ty = 3 then p[0 := SEXTEND32 20 I, 1 := X, 2 := 0]
      else p)"

text \<open>\<open>-(cond)\<close> on a C truth value.\<close>

definition neg_bool :: "bool \<Rightarrow> u32" where
  "neg_bool b = (if b then -1 else 0)"

text \<open>
  A shift whose amount is not below 32 is undefined in C.  For the left shift the code replaces its
  result by 0 in that case, but only after it has been computed.
\<close>

definition do_op :: "nat \<Rightarrow> nat \<Rightarrow> u32 \<Rightarrow> u32 \<Rightarrow> u32 \<Rightarrow> u32 res" where
  "do_op f ty X Y I =
     (let p = operands ty X Y I; P0 = p ! 0; P1 = p ! 1; P2 = p ! 2;
          pack2 = push_bit 12 P2;
          pack1 = P1 AND NOT (push_bit 12 (-1));
          pack0 = P0
      in case op_of_code f of
           None \<Rightarrow> Inl (Fatal ''Encountered illegal opcode'')
         | Some g \<Rightarrow> (case g of
             OP_ADD \<Rightarrow> Inr ((P2 + P1) + P0)
           | OP_SUBTRACT \<Rightarrow> Inr ((P2 - P1) + P0)
           | OP_MULTIPLY \<Rightarrow> Inr ((P2 * P1) + P0)
           | OP_SHIFT_RIGHT_LOGIC \<Rightarrow>
               (if P1 \<ge> 32 then Inl (Undefined ''shift'') else Inr (drop_bit (unat P1) P2 + P0))
           | OP_SHIFT_RIGHT_ARITH \<Rightarrow>
               (if P1 \<ge> 32 then Inl (Undefined ''shift'')
                else Inr (signed_drop_bit (unat P1) P2 + P0))
           | OP_SHIFT_LEFT \<Rightarrow>
               (if P1 \<ge> 32 then Inl (Undefined ''shift'') else Inr (push_bit (unat P1) P2 + P0))
           | OP_COMPARE_LT \<Rightarrow> Inr (neg_bool (P2 <s P1) + P0)
           | OP_COMPARE_EQ \<Rightarrow> Inr (neg_bool (P2 = P1) + P0)
           | OP_COMPARE_GE \<Rightarrow> Inr (neg_bool (P1 \<le>s P2) + P0)
           | OP_BITWISE_AND \<Rightarrow> Inr ((P2 AND P1) + P0)
           | OP_BITWISE_ANDN \<Rightarrow> Inr ((P2 AND NOT P1) + P0)
           | OP_BITWISE_OR \<Rightarrow> Inr ((P2 OR P1) + P0)
           | OP_BITWISE_ORN \<Rightarrow> Inr ((P2 OR NOT P1) + P0)
           | OP_BITWISE_XOR \<Rightarrow> Inr ((P2 XOR P1) + P0)
           | OP_PACK \<Rightarrow> Inr ((pack2 OR pack1) + pack0)
           | OP_TEST_BIT \<Rightarrow>
               (if P1 \<ge> 32 then Inl (Undefined ''shift'')
                else Inr (neg_bool (P2 AND push_bit (unat P1) 1 \<noteq> 0) + P0))))"

section \<open>do_common and run_instruction\<close>

text \<open>
  \<open>z\<close> is the index behind the pointer \<open>Z\<close>; \<open>junk\<close> the indeterminate initial contents of the
  caller's \<open>value\<close>.  With \<open>arrow_right\<close> the write goes to the caller's local \<open>rhs\<close>, where nobody
  reads it again.
\<close>

definition do_common ::
  "'w dispatcher \<Rightarrow> u32 \<Rightarrow> 4 word \<Rightarrow> u32 \<Rightarrow> bool \<Rightarrow> bool \<Rightarrow> bool \<Rightarrow> 'w machine
     \<Rightarrow> (int \<times> 'w machine) res" where
  "do_common D junk z rhs loading storing arrow_right s =
     (let r = (if arrow_right then regs s z else rhs);
          w = (if arrow_right then rhs else regs s z)
      in bindE (if loading then D OP_DATA_READ r junk (world s) else Inr (0, r, world s))
           (\<lambda>(rc, value, wd).
             let s1 = s\<lparr>world := wd\<rparr> in
             if rc \<noteq> 0 then Inr (-1, s1)
             else if storing then
               bindE (D OP_WRITE w value (world s1)) (\<lambda>(rc, _, wd).
                 Inr (if rc \<noteq> 0 then -1 else 0, s1\<lparr>world := wd\<rparr>))
             else if \<not> arrow_right \<and> z \<noteq> 0 then
               Inr (0, s1\<lparr>regs := (regs s1)(z := value)\<rparr>)
             else Inr (0, s1)))"

definition run_instruction ::
  "'w dispatcher \<Rightarrow> u32 \<Rightarrow> element \<Rightarrow> 'w machine \<Rightarrow> (int \<times> 'w machine) res" where
  "run_instruction D junk i s =
     (let s = s\<lparr>regs := (regs s)(15 := regs s 15 + 1)\<rparr>;
          w = e_word i;
          p = unat (insn_p w);
          (Y, imm, f) =
            (if p = 3 then (0, ucast (insn_imm20 w), op_code OP_BITWISE_OR)
             else (regs s (insn_y w), ucast (insn_imm12 w), unat (insn_op w)));
          dd = unat (insn_dd w)
      in bindE (do_op f p (regs s (insn_x w)) Y imm) (\<lambda>rhs.
           do_common D junk (insn_z w) rhs (dd = 3) (dd = 1 \<or> dd = 2) (dd = 1) s))"

section \<open>interp_run_sim and load_sim\<close>

text \<open>\<open>struct run_ops\<close>: the hooks run around each instruction, when they are not NULL.\<close>

type_synonym 'w hook = "element \<Rightarrow> 'w machine \<Rightarrow> (int \<times> 'w machine) res"

record 'w run_ops =
  pre_insn :: "'w hook option"
  post_insn :: "'w hook option"

definition call_hook :: "'w hook option \<Rightarrow> 'w hook" where
  "call_hook h i s = (case h of None \<Rightarrow> Inr (0, s) | Some f \<Rightarrow> f i s)"

text \<open>One turn of the loop: \<open>Some rc\<close> leaves it with \<open>return rc\<close>, \<open>None\<close> goes round again.\<close>

definition insn_step ::
  "'w dispatcher \<Rightarrow> u32 \<Rightarrow> 'w run_ops \<Rightarrow> 'w machine \<Rightarrow> (int option \<times> 'w machine) res" where
  "insn_step D junk ops s =
     (if regs s 15 = 0xffffffff then Inr (Some (-1), s)
      else bindE (D OP_INSN_READ (regs s 15) 0 (world s)) (\<lambda>(rc, w, wd).
        let s = s\<lparr>world := wd\<rparr>; i = \<lparr>e_word = w, e_reladdr = regs s 15, e_size = 0\<rparr> in
        if rc \<noteq> 0 then Inr (Some (-1), s)
        else bindE (call_hook (pre_insn ops) i s) (\<lambda>(rc, s).
          if rc \<noteq> 0 then Inr (Some 0, s)
          else bindE (run_instruction D junk i s) (\<lambda>(rc, s).
            if rc \<noteq> 0 then Inr (Some 1, s)
            else bindE (call_hook (post_insn ops) i s) (\<lambda>(rc, s).
              if rc \<noteq> 0 then Inr (Some 0, s) else Inr (None, s))))))"

partial_function (option) interp_run_sim ::
  "'w dispatcher \<Rightarrow> u32 \<Rightarrow> 'w run_ops \<Rightarrow> 'w machine \<Rightarrow> (int \<times> 'w machine) res option" where
  "interp_run_sim D junk ops s =
     (case insn_step D junk ops s of
        Inl e \<Rightarrow> Some (Inl e)
      | Inr (r, s') \<Rightarrow>
          (case r of Some rc \<Rightarrow> Some (Inr (rc, s')) | None \<Rightarrow> interp_run_sim D junk ops s'))"

text \<open>The states the loop passes through at its head.\<close>

inductive sim_reaches :: "'w dispatcher \<Rightarrow> u32 \<Rightarrow> 'w run_ops \<Rightarrow> 'w machine \<Rightarrow> 'w machine \<Rightarrow> bool"
  for D junk ops s0 where
  sim_start: "sim_reaches D junk ops s0 s0"
| sim_step: "sim_reaches D junk ops s0 s \<Longrightarrow> insn_step D junk ops s = Inr (None, t) \<Longrightarrow>
     sim_reaches D junk ops s0 t"

text \<open>
  \<open>load_sim\<close>: \<open>f_in\<close> is the format's \<open>in\<close> function over its private data \<open>ud\<close>; it fills the
  element it is given.  The loop ends when it returns a negative value, so a result of 0
  (which \<open>do_disassembly\<close> skips) is written to memory like any other.
\<close>

type_synonym 'u in_fun = "'u \<Rightarrow> element \<Rightarrow> (int \<times> element \<times> 'u) res"

partial_function (option) load_sim ::
  "'w dispatcher \<Rightarrow> 'u in_fun \<Rightarrow> u32 \<Rightarrow> 'u \<Rightarrow> element \<Rightarrow> 'w \<Rightarrow> (int \<times> 'w) res option" where
  "load_sim D f_in load_address ud i wd =
     (case f_in ud i of
        Inl e \<Rightarrow> Some (Inl e)
      | Inr (rc, i, ud) \<Rightarrow>
          if rc < 0 then Some (Inr (0, wd))
          else (case D OP_WRITE (load_address + e_reladdr i) (e_word i) wd of
                  Inl e \<Rightarrow> Some (Inl e)
                | Inr (rc, d, wd) \<Rightarrow>
                    if rc \<noteq> 0 then Some (Inr (-1, wd))
                    else load_sim D f_in load_address ud (i\<lparr>e_word := d\<rparr>) wd))"

end
