(* ===== verification/Alu.thy ===== *)
theory Alu
  imports Sim
begin

unbundle bit_operations_syntax

text \<open>
  A reference semantics of the sixteen operations over the integers, independent of the way
  \<open>do_op\<close> computes, and the proof that \<open>do_op\<close> agrees with it modulo \<open>2 ^ 32\<close>.
\<close>

text \<open>
  \<open>alu f a b\<close>, for the signed values \<open>a\<close> and \<open>b\<close> of the two operands.  Comparisons yield
  all ones or all zeros; \<open>^^\<close> packs 12 low bits under the first operand.
\<close>

primrec alu :: "opcode \<Rightarrow> int \<Rightarrow> int \<Rightarrow> int" where
  "alu OP_ADD a b = a + b"
| "alu OP_SUBTRACT a b = a - b"
| "alu OP_MULTIPLY a b = a * b"
| "alu OP_SHIFT_LEFT a b = a * 2 ^ nat b"
| "alu OP_SHIFT_RIGHT_ARITH a b = a div 2 ^ nat b"
| "alu OP_SHIFT_RIGHT_LOGIC a b = (a mod 2 ^ 32) div 2 ^ nat b"
| "alu OP_COMPARE_LT a b = (if a < b then -1 else 0)"
| "alu OP_COMPARE_EQ a b = (if a = b then -1 else 0)"
| "alu OP_COMPARE_GE a b = (if a \<ge> b then -1 else 0)"
| "alu OP_BITWISE_AND a b = a AND b"
| "alu OP_BITWISE_ANDN a b = a AND NOT b"
| "alu OP_BITWISE_OR a b = a OR b"
| "alu OP_BITWISE_ORN a b = a OR NOT b"
| "alu OP_BITWISE_XOR a b = a XOR b"
| "alu OP_PACK a b = (a * 2 ^ 12) + (b mod 2 ^ 12)"
| "alu OP_TEST_BIT a b = (if bit a (nat b) then -1 else 0)"

definition shift_like :: "opcode \<Rightarrow> bool" where
  "shift_like f \<longleftrightarrow> f \<in> {OP_SHIFT_LEFT, OP_SHIFT_RIGHT_ARITH, OP_SHIFT_RIGHT_LOGIC, OP_TEST_BIT}"

text \<open>The operands a type selects, first operand first (the comment at the top of \<open>ops.h\<close>).\<close>

definition alu_args :: "nat \<Rightarrow> u32 \<Rightarrow> u32 \<Rightarrow> u32 \<Rightarrow> u32 \<times> u32 \<times> u32" where
  "alu_args ty X Y I =
     (if ty = 0 then (X, Y, signed_take_bit 11 I)
      else if ty = 1 then (X, signed_take_bit 11 I, Y)
      else if ty = 2 then (signed_take_bit 11 I, X, Y)
      else (0, X, signed_take_bit 19 I))"

lemma operands_alu_args:
  "ty < 4 \<Longrightarrow> alu_args ty X Y I = (a, b, c) \<Longrightarrow> operands ty X Y I = [c, b, a]"
  by (auto simp: operands_def alu_args_def SEXTEND32_signed_take_bit numeral_eq_Suc less_Suc_eq)

lemma bit_sint32: "n < 32 \<Longrightarrow> bit (sint (a :: u32)) n = bit a n"
  by (auto simp: bit_simps min_def dest: le_antisym)

lemmas bit_int_word =
  bit_word_of_int_iff bit_and_iff bit_or_iff bit_xor_iff bit_not_iff bit_sint32

lemma word_of_int_sint_bits:
  "word_of_int (sint a AND sint b) = (a AND b :: u32)"
  "word_of_int (sint a AND NOT (sint b)) = (a AND NOT b :: u32)"
  "word_of_int (sint a OR sint b) = (a OR b :: u32)"
  "word_of_int (sint a OR NOT (sint b)) = (a OR NOT b :: u32)"
  "word_of_int (sint a XOR sint b) = (a XOR b :: u32)"
  by (rule bit_word_eqI; simp add: bit_int_word)+

lemma sint_small: "unat b < 32 \<Longrightarrow> sint (b :: u32) = int (unat b)"
proof -
  assume b: "unat b < 32"
  have u: "0 \<le> uint b" "uint b < 32"
    using b by (simp_all only: uint_nat)
  have "signed_take_bit 31 (uint b) = uint b"
  proof (rule signed_take_bit_int_eq_self)
    show "- (2 ^ 31) \<le> uint b" by (rule order_trans [OF _ u(1)]) simp
    show "uint b < 2 ^ 31" by (rule less_le_trans [OF u(2)]) simp
  qed
  then show ?thesis
    by (simp only: sint_uint uint_nat) simp
qed

lemma word_of_int_sint_shifts:
  assumes "unat (b :: u32) < 32"
  shows "word_of_int (sint a * 2 ^ nat (sint b)) = push_bit (unat b) (a :: u32)"
    and "word_of_int (sint a div 2 ^ nat (sint b)) = signed_drop_bit (unat b) a"
    and "word_of_int ((sint a mod 4294967296) div 2 ^ nat (sint b)) = drop_bit (unat b) a"
    and "bit (sint a) (nat (sint b)) \<longleftrightarrow> a AND push_bit (unat b) 1 \<noteq> 0"
proof -
  have b: "nat (sint b) = unat b"
    using assms by (simp add: sint_small)
  have t: "sint a mod 4294967296 = take_bit 32 (sint a)"
    by (simp add: take_bit_eq_mod)
  show "word_of_int (sint a * 2 ^ nat (sint b)) = push_bit (unat b) (a :: u32)"
    unfolding b push_bit_eq_mult [symmetric]
    by (rule bit_word_eqI) (simp add: bit_word_of_int_iff bit_push_bit_iff bit_sint32)
  show "word_of_int (sint a div 2 ^ nat (sint b)) = signed_drop_bit (unat b) a"
    unfolding b drop_bit_eq_div [symmetric]
  proof (rule bit_word_eqI)
    fix n assume "n < LENGTH(32)"
    then show "bit (word_of_int (drop_bit (unat b) (sint a)) :: u32) n
        = bit (signed_drop_bit (unat b) a) n"
      by (cases "unat b + n = 31") (auto simp: bit_simps min_def)
  qed
  show "word_of_int ((sint a mod 4294967296) div 2 ^ nat (sint b)) = drop_bit (unat b) a"
    unfolding b t drop_bit_eq_div [symmetric]
  proof (rule bit_word_eqI)
    fix n assume "n < LENGTH(32)"
    then show "bit (word_of_int (drop_bit (unat b) (take_bit 32 (sint a))) :: u32) n
        = bit (drop_bit (unat b) a) n"
      by (cases "unat b + n = 31") (auto simp: bit_simps min_def dest: bit_imp_le_length)
  qed
  have "a AND push_bit (unat b) 1 \<noteq> 0 \<longleftrightarrow> bit a (unat b)"
    by (simp add: bit_iff_and_push_bit_not_eq_0)
  then show "bit (sint a) (nat (sint b)) \<longleftrightarrow> a AND push_bit (unat b) 1 \<noteq> 0"
    unfolding b using assms by (simp add: bit_sint32)
qed

lemma signed_word_eqI_iff: "sint a = sint (b :: u32) \<longleftrightarrow> a = b"
  by (auto dest: arg_cong [where f = "word_of_int :: int \<Rightarrow> u32"])

lemma word_of_int_sint_pack:
  "word_of_int (sint a * 4096 + sint b mod 4096) =
     (push_bit 12 a OR (b AND NOT (push_bit 12 (-1))) :: u32)"
proof -
  have "sint a * 4096 + sint b mod 4096 = push_bit 12 (sint a) + take_bit 12 (sint b)"
    by (simp add: push_bit_eq_mult take_bit_eq_mod)
  also have "\<dots> = push_bit 12 (sint a) OR take_bit 12 (sint b)"
    by (rule disjunctive_add) (simp add: bit_simps)
  finally show ?thesis
    by (simp only:) (rule bit_word_eqI, auto simp: bit_int_word bit_push_bit_iff bit_take_bit_iff bit_mask_iff)
qed

lemma do_op_alu:
  assumes "ty < 4" and args: "alu_args ty X Y I = (a, b, c)"
    and small: "shift_like f \<Longrightarrow> b < 32"
  shows "do_op (op_code f) ty X Y I = Inr (word_of_int (alu f (sint a) (sint b) + sint c))"
proof -
  have p: "operands ty X Y I = [c, b, a]"
    using assms(1,2) by (rule operands_alu_args)
  have s: "shift_like f \<Longrightarrow> unat b < 32" "shift_like f \<Longrightarrow> (32 \<le> b) = False"
    using small by (auto simp: word_less_nat_alt word_le_nat_alt)
  show ?thesis
    unfolding do_op_def p Let_def op_of_code_op_code
    using s
    by (cases f)
      (simp_all add: shift_like_def neg_bool_def word_sless_alt word_sle_eq signed_word_eqI_iff
         word_of_int_sint_bits word_of_int_sint_pack [simplified] word_of_int_sint_shifts
         word_of_int_sint_shifts(1) [simplified])
qed

text \<open>When the result is not defined: a shift or a bit test by 32 or more.\<close>

definition wide_shift :: "nat \<Rightarrow> u32 \<Rightarrow> bool" where
  "wide_shift f b \<longleftrightarrow> b \<ge> 32 \<and>
     f \<in> {op_code OP_SHIFT_LEFT, op_code OP_SHIFT_RIGHT_LOGIC, op_code OP_SHIFT_RIGHT_ARITH, op_code OP_TEST_BIT}"

lemma do_op_outcome:
  assumes "f < 16"
  shows "if wide_shift f (operands ty X Y I ! 1) then do_op f ty X Y I = Inl (Undefined ''shift'')
    else \<exists>v. do_op f ty X Y I = Inr v"
proof -
  obtain g where g: "op_of_code f = Some g" using op_of_code_total [OF assms] by blast
  then have f: "f = op_code g" by (simp add: op_of_code_Some_iff)
  show ?thesis
    unfolding do_op_def Let_def g by (cases g) (simp_all add: f wide_shift_def)
qed

end
