(* ===== verification/Isa.thy ===== *)
theory Isa
  imports Alu
begin

unbundle bit_operations_syntax

text \<open>
  The instruction set as the comment at the top of \<^verbatim>\<open>src/ops.h\<close> states it, and the proof that
  \<open>run_instruction\<close> implements it.
\<close>

section \<open>The instruction set\<close>

text \<open>The effect of an instruction, by its \<open>DD\<close> field.\<close>

datatype effect =
    Set_reg "4 word" u32          \<comment> \<open>\<open>Z <- rhs\<close>\<close>
  | Store u32 u32                 \<comment> \<open>\<open>[address] <- value\<close>\<close>
  | Load_reg "4 word" u32         \<comment> \<open>\<open>Z <- [address]\<close>\<close>

text \<open>
  \<open>isa_rhs r w\<close> is \<open>X f Y + I\<close>, \<open>X f I + Y\<close>, \<open>I f X + Y\<close> or \<open>X + I\<close> by the \<open>PP\<close> field, over
  the registers \<open>r\<close>; the first and second operand and the addend are signed 32-bit values.
\<close>

definition isa_op :: "u32 \<Rightarrow> opcode" where
  "isa_op w = (if insn_p w = 3 then OP_BITWISE_OR else all_ops ! unat (insn_op w))"

definition isa_args :: "(4 word \<Rightarrow> u32) \<Rightarrow> u32 \<Rightarrow> u32 \<times> u32 \<times> u32" where
  "isa_args r w =
     (let X = r (insn_x w); Y = r (insn_y w);
          I = scast (insn_imm12 w); J = scast (insn_imm20 w)
      in if insn_p w = 0 then (X, Y, I)
         else if insn_p w = 1 then (X, I, Y)
         else if insn_p w = 2 then (I, X, Y)
         else (0, X, J))"

definition isa_rhs :: "(4 word \<Rightarrow> u32) \<Rightarrow> u32 \<Rightarrow> u32" where
  "isa_rhs r w =
     (case isa_args r w of (a, b, c) \<Rightarrow> word_of_int (alu (isa_op w) (sint a) (sint b) + sint c))"

definition isa_defined :: "(4 word \<Rightarrow> u32) \<Rightarrow> u32 \<Rightarrow> bool" where
  "isa_defined r w \<longleftrightarrow> (shift_like (isa_op w) \<longrightarrow> fst (snd (isa_args r w)) < 32)"

definition isa_effect :: "(4 word \<Rightarrow> u32) \<Rightarrow> u32 \<Rightarrow> effect" where
  "isa_effect r w =
     (let Z = insn_z w; rhs = isa_rhs r w in
      if insn_dd w = 0 then Set_reg Z rhs
      else if insn_dd w = 1 then Store rhs (r Z)
      else if insn_dd w = 2 then Store (r Z) rhs
      else Load_reg Z rhs)"

text \<open>Carrying an effect out; register A cannot be written.\<close>

definition set_reg :: "4 word \<Rightarrow> u32 \<Rightarrow> 'w machine \<Rightarrow> 'w machine" where
  "set_reg z v s = (if z = 0 then s else s\<lparr>regs := (regs s)(z := v)\<rparr>)"

definition apply_effect :: "'w dispatcher \<Rightarrow> u32 \<Rightarrow> effect \<Rightarrow> 'w machine \<Rightarrow> (int \<times> 'w machine) res" where
  "apply_effect D junk e s =
     (case e of
        Set_reg z v \<Rightarrow> Inr (0, set_reg z v s)
      | Store a v \<Rightarrow> bindE (D OP_WRITE a v (world s)) (\<lambda>(rc, _, wd).
          Inr (if rc \<noteq> 0 then -1 else 0, s\<lparr>world := wd\<rparr>))
      | Load_reg z a \<Rightarrow> bindE (D OP_DATA_READ a junk (world s)) (\<lambda>(rc, v, wd).
          Inr (if rc \<noteq> 0 then (-1, s\<lparr>world := wd\<rparr>) else (0, set_reg z v (s\<lparr>world := wd\<rparr>)))))"

definition next_ip :: "'w machine \<Rightarrow> 'w machine" where
  "next_ip s = s\<lparr>regs := (regs s)(15 := regs s 15 + 1)\<rparr>"

lemma word2_cases:
  fixes p :: "2 word"
  obtains "p = 0" | "p = 1" | "p = 2" | "p = 3"
proof -
  have "p \<in> word_of_nat ` {0..<2 ^ LENGTH(2)}"
    using UNIV_word_eq_word_of_nat [where 'a = 2] by blast
  moreover have "{0..<2 ^ LENGTH(2)} = {0, 1, 2, 3 :: nat}" by auto
  ultimately show thesis using that by auto
qed

lemma scast_signed_take_bit:
  "signed_take_bit 11 (ucast (i :: 12 word) :: u32) = scast i"
  "signed_take_bit 19 (ucast (j :: 20 word) :: u32) = scast j"
  by (rule bit_word_eqI; auto simp: bit_simps min_def)+

lemma isa_op_code: "insn_p w \<noteq> 3 \<Longrightarrow> op_of_code (unat (insn_op w)) = Some (isa_op w)"
  using unsigned_less [of "insn_op w", where 'a = nat]
  by (simp add: isa_op_def op_of_code_def all_ops_def)

lemma do_op_isa:
  fixes w :: u32 and r :: "4 word \<Rightarrow> u32"
  defines "Y \<equiv> (if insn_p w = 3 then 0 else r (insn_y w))"
    and "I \<equiv> (if insn_p w = 3 then ucast (insn_imm20 w) else ucast (insn_imm12 w))"
    and "f \<equiv> (if insn_p w = 3 then op_code OP_BITWISE_OR else unat (insn_op w))"
  assumes "isa_defined r w"
  shows "do_op f (unat (insn_p w)) (r (insn_x w)) Y I = Inr (isa_rhs r w)"
proof -
  obtain a b c where args: "isa_args r w = (a, b, c)" by (metis prod_cases3)
  have f: "f = op_code (isa_op w)"
    using isa_op_code [of w]
    by (auto simp: f_def op_of_code_Some_iff) (simp add: isa_op_def)
  have p: "unat (insn_p w) < 4"
    using unsigned_less [of "insn_p w", where 'a = nat] by simp
  have "alu_args (unat (insn_p w)) (r (insn_x w)) Y I = (a, b, c)"
    using args
    by (cases "insn_p w" rule: word2_cases)
      (simp_all add: alu_args_def isa_args_def Y_def I_def Let_def scast_signed_take_bit)
  moreover have "shift_like (isa_op w) \<Longrightarrow> b < 32"
    using assms(4) by (simp add: isa_defined_def args)
  ultimately show ?thesis
    unfolding f by (simp add: do_op_alu [OF p] isa_rhs_def args)
qed

lemma run_instruction_isa:
  assumes "isa_defined (regs (next_ip s)) (e_word i)"
  shows "run_instruction D junk i s =
    apply_effect D junk (isa_effect (regs (next_ip s)) (e_word i)) (next_ip s)"
proof -
  let ?w = "e_word i" and ?s = "next_ip s"
  have p3: "unat (insn_p ?w) = 3 \<longleftrightarrow> insn_p ?w = 3"
    by (cases "insn_p ?w" rule: word2_cases) simp_all
  have run: "run_instruction D junk i s =
    do_common D junk (insn_z ?w) (isa_rhs (regs ?s) ?w) (unat (insn_dd ?w) = 3)
      (unat (insn_dd ?w) = 1 \<or> unat (insn_dd ?w) = 2) (unat (insn_dd ?w) = 1) ?s"
    using do_op_isa [OF assms]
    by (cases "insn_p ?w = 3")
       (simp_all add: run_instruction_def next_ip_def [symmetric] p3 Let_def)
  show ?thesis
    unfolding run
    by (cases "insn_dd ?w" rule: word2_cases)
       (auto simp: do_common_def apply_effect_def isa_effect_def Let_def set_reg_def bindE_def
         split: sum.splits)
qed

end
