(* ===== verification/Run.thy ===== *)
theory Run
  imports Isa
begin

unbundle bit_operations_syntax

text \<open>
  Runs of the interpreter.  The locale \<open>word_store\<close> is the interface the interpreter relies on:
  a dispatcher that, for the addresses of a window, reads back what was last written and
  leaves the other words of the window alone.  \<open>clocked_store\<close> adds the \<open>cycle\<close> callbacks run
  after each instruction.  Both are interpreted on the memories of \<open>src/devices\<close> (\<open>Memory\<close>) and
  on the device table of \<open>src/simif.c\<close> (\<open>Simif\<close>).
\<close>

section \<open>The hooks of tsim\<close>

text \<open>
  \<open>pre_insn\<close> of \<^verbatim>\<open>src/tsim.c\<close> prints a trace when asked to and returns 0; \<open>post_insn\<close> counts
  the instruction and runs \<open>devices_dispatch_cycle\<close>, here \<open>cyc\<close>.
\<close>

definition tsim_pre_insn :: "'w hook" where
  "tsim_pre_insn i s = Inr (0, s)"

definition tsim_post_insn :: "('w \<Rightarrow> (int \<times> 'w) res) \<Rightarrow> 'w hook" where
  "tsim_post_insn cyc i s =
     (let s = s\<lparr>insns_executed := insns_executed s + 1\<rparr> in
      bindE (cyc (world s)) (\<lambda>(rc, wd). Inr (rc, s\<lparr>world := wd\<rparr>)))"

definition tsim_ops :: "('w \<Rightarrow> (int \<times> 'w) res) \<Rightarrow> 'w run_ops" where
  "tsim_ops cyc = \<lparr>pre_insn = Some tsim_pre_insn, post_insn = Some (tsim_post_insn cyc)\<rparr>"

text \<open>One turn of the loop under these hooks, with the hook calls resolved.\<close>

lemma insn_step_tsim:
  "insn_step D junk (tsim_ops cyc) s =
     (if regs s 15 = 0xffffffff then Inr (Some (-1), s)
      else bindE (D OP_INSN_READ (regs s 15) 0 (world s)) (\<lambda>(rc, w, wd).
        if rc \<noteq> 0 then Inr (Some (-1), s\<lparr>world := wd\<rparr>)
        else bindE (run_instruction D junk \<lparr>e_word = w, e_reladdr = regs s 15, e_size = 0\<rparr>
                      (s\<lparr>world := wd\<rparr>)) (\<lambda>(rc, s).
          if rc \<noteq> 0 then Inr (Some 1, s)
          else bindE (cyc (world s)) (\<lambda>(rc, wd).
            Inr (if rc \<noteq> 0 then Some 0 else None,
                 s\<lparr>insns_executed := insns_executed s + 1, world := wd\<rparr>)))))"
  by (simp add: insn_step_def tsim_ops_def call_hook_def tsim_pre_insn_def tsim_post_insn_def
      bindE_def Let_def split: sum.splits prod.splits)

section \<open>The loop\<close>

lemma interp_run_sim_diverges:
  assumes "\<And>s. P s \<Longrightarrow> \<exists>t. insn_step D junk ops s = Inr (None, t) \<and> P t" and "P s"
  shows "interp_run_sim D junk ops s = None"
proof (cases "interp_run_sim D junk ops s")
  case (Some r)
  have "\<not> P s"
  proof (rule interp_run_sim.raw_induct
      [where P = "\<lambda>D' junk' ops' s r. D' = D \<and> junk' = junk \<and> ops' = ops \<longrightarrow> \<not> P s", OF _ Some,
        simplified])
    fix f D' junk' ops' s r
    assume IH: "\<And>D' junk' ops' s r. f D' junk' ops' s = Some r \<Longrightarrow>
        D' = D \<and> junk' = junk \<and> ops' = ops \<longrightarrow> \<not> P s"
      and eq: "(case insn_step D' junk' ops' s of Inl e \<Rightarrow> Some (Inl e)
        | Inr (None, s') \<Rightarrow> f D' junk' ops' s'
        | Inr (Some rc, s') \<Rightarrow> Some (Inr (rc, s'))) = Some r"
    show "D' = D \<and> junk' = junk \<and> ops' = ops \<longrightarrow> \<not> P s"
    proof (intro impI notI)
      assume e: "D' = D \<and> junk' = junk \<and> ops' = ops" and "P s"
      from assms(1) [OF this(2)] obtain t where
        "insn_step D junk ops s = Inr (None, t)" and t: "P t" by blast
      with eq e have "f D junk ops t = Some r" by simp
      from IH [OF this] t show False by simp
    qed
  qed
  with assms(2) show ?thesis by simp
qed simp

section \<open>Register A\<close>

lemma do_common_reg0:
  "do_common D junk z rhs l st ar s = Inr (rc, t) \<Longrightarrow> regs t 0 = regs s 0"
  by (auto simp: do_common_def Let_def bindE_eq_Inr split: if_splits)

lemma run_instruction_reg0:
  "run_instruction D junk i s = Inr (rc, t) \<Longrightarrow> regs t 0 = regs s 0"
  by (auto simp: run_instruction_def Let_def bindE_eq_Inr dest!: do_common_reg0
      split: prod.splits if_splits)

lemma insn_step_reg0:
  "insn_step D junk (tsim_ops cyc) s = Inr (r, t) \<Longrightarrow> regs t 0 = regs s 0"
  by (auto simp: insn_step_tsim bindE_eq_Inr dest!: run_instruction_reg0 split: if_splits)

lemma sim_reaches_reg0:
  "sim_reaches D junk (tsim_ops cyc) s0 s \<Longrightarrow> regs s 0 = regs s0 0"
  by (induction rule: sim_reaches.induct) (simp_all add: insn_step_reg0)

section \<open>Memory as the interpreter sees it\<close>

locale word_store =
  fixes D :: "'w dispatcher"
    and ok :: "'w \<Rightarrow> bool"
    and window :: "u32 set"
    and peek :: "'w \<Rightarrow> u32 \<Rightarrow> u32"
  assumes read: "ok w \<Longrightarrow> a \<in> window \<Longrightarrow> op = OP_INSN_READ \<or> op = OP_DATA_READ \<Longrightarrow>
      \<exists>w'. D op a v w = Inr (0, peek w a, w') \<and> ok w' \<and> (\<forall>b\<in>window. peek w' b = peek w b)"
    and store: "ok w \<Longrightarrow> a \<in> window \<Longrightarrow>
      \<exists>w'. D OP_WRITE a v w = Inr (0, v, w') \<and> ok w' \<and>
        (\<forall>b\<in>window. peek w' b = (if b = a then v else peek w b))"

locale clocked_store = word_store +
  fixes cyc :: "'w \<Rightarrow> (int \<times> 'w) res"
  assumes cycle: "ok w \<Longrightarrow> \<exists>w'. cyc w = Inr (0, w') \<and> ok w' \<and> (\<forall>b\<in>window. peek w' b = peek w b)"

text \<open>The elements a format's \<open>in\<close> yields until it returns a negative value.\<close>

inductive feeds :: "'u in_fun \<Rightarrow> 'u \<Rightarrow> element \<Rightarrow> element list \<Rightarrow> bool" for f_in where
  feeds_end: "f_in ud i = Inr (rc, i', ud') \<Longrightarrow> rc < 0 \<Longrightarrow> feeds f_in ud i []"
| feeds_more: "f_in ud i = Inr (rc, e, ud') \<Longrightarrow> rc \<ge> 0 \<Longrightarrow> feeds f_in ud' e es \<Longrightarrow>
     feeds f_in ud i (e # es)"

text \<open>A memory image: later elements win.\<close>

fun image_of :: "u32 \<Rightarrow> element list \<Rightarrow> (u32 \<Rightarrow> u32) \<Rightarrow> u32 \<Rightarrow> u32" where
  "image_of la [] m = m"
| "image_of la (e # es) m = image_of la es (m(la + e_reladdr e := e_word e))"

lemma image_of_cong:
  "(\<And>b. b \<in> A \<Longrightarrow> m b = m' b) \<Longrightarrow> b \<in> A \<Longrightarrow> image_of la es m b = image_of la es m' b"
proof (induction es arbitrary: m m')
  case (Cons e es)
  show ?case
    by (simp, rule Cons.IH) (simp_all add: Cons.prems)
qed simp

context word_store
begin

lemma load_sim_image:
  assumes "feeds f_in ud i es" and "ok wd"
    and "\<And>e. e \<in> set es \<Longrightarrow> la + e_reladdr e \<in> window"
  shows "\<exists>wd'. load_sim D f_in la ud i wd = Some (Inr (0, wd')) \<and> ok wd' \<and>
    (\<forall>b\<in>window. peek wd' b = image_of la es (peek wd) b)"
  using assms
proof (induction arbitrary: wd rule: feeds.induct)
  case (feeds_end ud i rc i' ud')
  then show ?case by (subst load_sim.simps) auto
next
  case (feeds_more ud i rc e ud' es)
  obtain wd1 where w: "D OP_WRITE (la + e_reladdr e) (e_word e) wd = Inr (0, e_word e, wd1)"
    and "ok wd1"
    and p: "\<And>b. b \<in> window \<Longrightarrow>
      peek wd1 b = ((peek wd)(la + e_reladdr e := e_word e)) b"
    using store [of wd "la + e_reladdr e" "e_word e"] feeds_more.prems by auto
  then obtain wd' where "load_sim D f_in la ud' e wd1 = Some (Inr (0, wd'))" "ok wd'"
    and q: "\<And>b. b \<in> window \<Longrightarrow> peek wd' b = image_of la es (peek wd1) b"
    using feeds_more.IH [of wd1] feeds_more.prems by auto
  moreover have "image_of la es (peek wd1) b = image_of la (e # es) (peek wd) b"
    if "b \<in> window" for b
    by (simp, rule image_of_cong [OF p that])
  ultimately show ?case
    using feeds_more.hyps w by (subst load_sim.simps) auto
qed

end

text \<open>The two filler words: what the RAMs hold before anything is written to them.\<close>

definition spin_word :: u32 where "spin_word = 0x0f0f0fff"      \<comment> \<open>\<open>P <- A | P - 1\<close>\<close>
definition illegal_word :: u32 where "illegal_word = 0xffffffff" \<comment> \<open>\<open>P <- [P + -1]\<close>\<close>

lemma spin_fields:
  "insn_p spin_word = 0" "insn_dd spin_word = 0" "insn_z spin_word = 15" "insn_x spin_word = 0"
  "insn_y spin_word = 15" "insn_op spin_word = 0" "insn_imm12 spin_word = -1"
  by code_simp+

lemma illegal_fields:
  "insn_p illegal_word = 3" "insn_dd illegal_word = 3" "insn_z illegal_word = 15"
  "insn_x illegal_word = 15" "insn_imm20 illegal_word = -1"
  by code_simp+

lemma spin_effect:
  assumes "r 0 = 0"
  shows "isa_defined r spin_word" "isa_effect r spin_word = Set_reg 15 (r 15 - 1)"
  using assms
  by (simp_all add: isa_defined_def isa_effect_def isa_rhs_def isa_args_def isa_op_def spin_fields
      all_ops_def shift_like_def Let_def)

lemma illegal_effect:
  "isa_defined r illegal_word" "isa_effect r illegal_word = Load_reg 15 (r 15 - 1)"
  by (simp_all add: isa_defined_def isa_effect_def isa_rhs_def isa_args_def isa_op_def
      illegal_fields all_ops_def shift_like_def Let_def)

text \<open>Standing at a spin word, with register A zero.\<close>

definition spinning :: "('w \<Rightarrow> bool) \<Rightarrow> ('w \<Rightarrow> u32 \<Rightarrow> u32) \<Rightarrow> u32 \<Rightarrow> 'w machine \<Rightarrow> bool" where
  "spinning good look a s \<longleftrightarrow>
     good (world s) \<and> regs s 0 = 0 \<and> regs s 15 = a \<and> look (world s) a = spin_word"

context clocked_store
begin

text \<open>Fetching an instruction in the window and running it, up to the clock.\<close>

lemma insn_step_window:
  assumes "ok (world s)" and "regs s 15 = a" and "a \<in> window" and "a \<noteq> 0xffffffff"
    and "peek (world s) a = w"
  obtains wd where "ok wd" and "\<forall>b\<in>window. peek wd b = peek (world s) b"
    and "insn_step D junk (tsim_ops cyc) s =
      bindE (run_instruction D junk \<lparr>e_word = w, e_reladdr = a, e_size = 0\<rparr> (s\<lparr>world := wd\<rparr>))
        (\<lambda>(rc, s).
          if rc \<noteq> 0 then Inr (Some 1, s)
          else bindE (cyc (world s)) (\<lambda>(rc, wd).
            Inr (if rc \<noteq> 0 then Some 0 else None,
                 s\<lparr>insns_executed := insns_executed s + 1, world := wd\<rparr>)))"
  using read [OF assms(1,3), of OP_INSN_READ 0] assms(2,4,5)
  by (auto simp: insn_step_tsim)

lemma spin_step:
  assumes "a \<in> window" and "a \<noteq> 0xffffffff" and sp: "spinning ok peek a s"
  shows "\<exists>t. insn_step D junk (tsim_ops cyc) s = Inr (None, t) \<and> spinning ok peek a t"
proof -
  from sp have s: "ok (world s)" "regs s 0 = 0" "regs s 15 = a" "peek (world s) a = spin_word"
    by (auto simp: spinning_def)
  obtain wd where wd: "ok wd" "\<forall>b\<in>window. peek wd b = peek (world s) b"
    and step: "insn_step D junk (tsim_ops cyc) s =
      bindE (run_instruction D junk \<lparr>e_word = spin_word, e_reladdr = a, e_size = 0\<rparr> (s\<lparr>world := wd\<rparr>))
        (\<lambda>(rc, s).
          if rc \<noteq> 0 then Inr (Some 1, s)
          else bindE (cyc (world s)) (\<lambda>(rc, wd).
            Inr (if rc \<noteq> 0 then Some 0 else None,
                 s\<lparr>insns_executed := insns_executed s + 1, world := wd\<rparr>)))"
    by (rule insn_step_window [where junk = junk, OF s(1) s(3) assms(1,2) s(4)])
  let ?s = "s\<lparr>world := wd\<rparr>"
  have r0: "regs (next_ip ?s) 0 = 0" using s by (simp add: next_ip_def)
  have run: "run_instruction D junk \<lparr>e_word = spin_word, e_reladdr = a, e_size = 0\<rparr> ?s =
      Inr (0, set_reg 15 a (next_ip ?s))"
    using s spin_effect [of "regs (next_ip ?s)", OF r0]
    by (subst run_instruction_isa) (simp_all add: apply_effect_def next_ip_def)
  obtain wd2 where "cyc wd = Inr (0, wd2)" "ok wd2" "\<And>b. b \<in> window \<Longrightarrow> peek wd2 b = peek wd b"
    using cycle [OF wd(1)] by blast
  then show ?thesis
    using s wd assms(1)
    by (simp add: step run spinning_def set_reg_def next_ip_def)
qed

lemma spin_forever:
  "a \<in> window \<Longrightarrow> a \<noteq> 0xffffffff \<Longrightarrow> spinning ok peek a s \<Longrightarrow>
     interp_run_sim D junk (tsim_ops cyc) s = None"
  by (rule interp_run_sim_diverges [where P = "spinning ok peek a"]) (auto intro: spin_step)

lemma illegal_halts:
  assumes "ok (world s)" and "regs s 15 = a" and "a \<in> window" and "a \<noteq> 0xffffffff"
    and "peek (world s) a = illegal_word"
  shows "\<exists>t. interp_run_sim D junk (tsim_ops cyc) s = Some (Inr (-1, t)) \<and>
    insns_executed t = insns_executed s + 1 \<and> regs t 15 = 0xffffffff"
proof -
  obtain wd where wd: "ok wd" "\<forall>b\<in>window. peek wd b = peek (world s) b"
    and step: "insn_step D junk (tsim_ops cyc) s =
      bindE (run_instruction D junk \<lparr>e_word = illegal_word, e_reladdr = a, e_size = 0\<rparr> (s\<lparr>world := wd\<rparr>))
        (\<lambda>(rc, s).
          if rc \<noteq> 0 then Inr (Some 1, s)
          else bindE (cyc (world s)) (\<lambda>(rc, wd).
            Inr (if rc \<noteq> 0 then Some 0 else None,
                 s\<lparr>insns_executed := insns_executed s + 1, world := wd\<rparr>)))"
    by (rule insn_step_window [where junk = junk, OF assms])
  let ?s = "s\<lparr>world := wd\<rparr>"
  obtain wd2 where w2: "D OP_DATA_READ a junk wd = Inr (0, illegal_word, wd2)" "ok wd2"
    using read [of wd a OP_DATA_READ junk] wd assms by auto
  have run: "run_instruction D junk \<lparr>e_word = illegal_word, e_reladdr = a, e_size = 0\<rparr> ?s =
      Inr (0, set_reg 15 illegal_word (next_ip ?s\<lparr>world := wd2\<rparr>))"
    using assms w2 illegal_effect [of "regs (next_ip ?s)"]
    by (subst run_instruction_isa) (simp_all add: apply_effect_def next_ip_def)
  obtain wd3 where "cyc wd2 = Inr (0, wd3)"
    using cycle [OF w2(2)] by blast
  then obtain t where "insn_step D junk (tsim_ops cyc) s = Inr (None, t)"
    and t: "regs t 15 = illegal_word" "insns_executed t = insns_executed s + 1"
    by (simp add: step run set_reg_def next_ip_def)
  then have "interp_run_sim D junk (tsim_ops cyc) s = interp_run_sim D junk (tsim_ops cyc) t"
    by (subst interp_run_sim.simps) simp
  also have "\<dots> = Some (Inr (-1, t))"
    using t(1) by (subst interp_run_sim.simps) (simp add: insn_step_tsim illegal_word_def)
  finally show ?thesis using t by (auto simp: illegal_word_def)
qed

end

end
