(* ===== verification/ObjFormat.thy ===== *)
theory ObjFormat
  imports Obj Run
begin

unbundle bit_operations_syntax

text \<open>
  The object format of \<^verbatim>\<open>src/asm.c\<close>: \<open>obj_in\<close> walks the records of an object as a source of
  instructions, and \<open>obj_out\<close>, \<open>obj_sym\<close>, \<open>obj_reloc\<close> and \<open>obj_emit\<close> collect one and write it.
\<close>

section \<open>State\<close>

text \<open>
  \<open>struct obj_fdata\<close>.  \<open>curr_rec\<close> is the list of records from the current one on, empty for NULL.
  \<open>next_sym\<close> and \<open>next_rlc\<close> always point at the end of their lists.
\<close>

record obj_fdata =
  assembling :: bool
  fd_obj :: obj
  syms :: nat
  rlcs :: nat
  curr_rec :: "objrec list"
  fpos :: u32
  fd_error :: int

definition empty_obj :: obj where
  "empty_obj = \<lparr>version = 0, obj_flags = 0, rec_count = 0, records = [], sym_count = 0, symbols = [],
     rlc_count = 0, relocs = []\<rparr>"

text \<open>
  \<open>obj_init\<close>: \<open>param\<close> is what \<open>param_get\<close> finds under ``assembling'', a pointer to an \<open>int\<close> that
  may be NULL; the value goes into a field of one bit.
\<close>

definition obj_init :: "bool \<Rightarrow> int option option \<Rightarrow> instream \<Rightarrow> (int \<times> obj_fdata \<times> instream) res" where
  "obj_init little param s =
     (let u = \<lparr>assembling = (case param of Some (Some v) \<Rightarrow> odd v | _ \<Rightarrow> False), fd_obj = empty_obj,
               syms = 0, rlcs = 0, curr_rec = [], fpos = 0, fd_error = 0\<rparr> in
      if assembling u then
        (let r = \<lparr>rec_addr = 0, rec_size = 1024, rec_data = replicate 1024 0\<rparr> in
         Inr (0, u\<lparr>fd_obj := empty_obj\<lparr>rec_count := 1, records := [r]\<rparr>, curr_rec := [r]\<rparr>, s))
      else bindE (obj_read little s) (\<lambda>(ob, s). case ob of
          None \<Rightarrow> Inr (1, u, s)
        | Some ob \<Rightarrow> Inr (0, u\<lparr>fd_obj := ob, curr_rec := records ob\<rparr>, s)))"

section \<open>Reading instructions\<close>

text \<open>The loop of \<open>obj_in\<close> over the records from \<open>curr_rec\<close> on.\<close>

function obj_in_loop :: "objrec list \<Rightarrow> u32 \<Rightarrow> element \<Rightarrow> (int \<times> element \<times> objrec list \<times> u32) res" where
  "obj_in_loop rs p i =
     (case rs of
        [] \<Rightarrow> Inr (-1, i, [], p)
      | r # rs' \<Rightarrow>
          if rec_size r = 0 then obj_in_loop (dropWhile (\<lambda>r. rec_size r = 0) rs) 0 i
          else if p \<ge> rec_size r then obj_in_loop rs' 0 i
          else if length (rec_data r) \<le> unat p then Inl (Undefined ''read past the record'')
          else Inr (1, i\<lparr>e_reladdr := rec_addr r + p, e_word := rec_data r ! unat p\<rparr>, rs, p + 1))"
  by pat_completeness auto
termination
proof (relation "measure (\<lambda>(rs, p, i). length rs)")
  fix rs :: "objrec list" and p :: u32 and i :: element and r rs'
  assume "rs = r # rs'" "rec_size r = 0"
  then have "length (dropWhile (\<lambda>r. rec_size r = 0) rs) \<le> length rs'"
    using length_dropWhile_le [of _ rs'] by simp
  then show "((dropWhile (\<lambda>r. rec_size r = 0) rs, 0, i), rs, p, i)
      \<in> measure (\<lambda>(rs, p, i). length rs)"
    using \<open>rs = r # rs'\<close> by simp
qed auto

declare obj_in_loop.simps [simp del]

definition obj_in :: "obj_fdata in_fun" where
  "obj_in u i =
     bindE (obj_in_loop (curr_rec u) (fpos u) i) (\<lambda>(rc, i, rs, p).
       Inr (rc, i, u\<lparr>curr_rec := rs, fpos := p\<rparr>))"

text \<open>What a record holds, as the elements \<open>obj_in\<close> delivers; only address and word are set.\<close>

definition words_from :: "objrec \<Rightarrow> nat \<Rightarrow> (u32 \<times> u32) list" where
  "words_from r j = map (\<lambda>k. (rec_addr r + of_nat k, rec_data r ! k)) [j..<unat (rec_size r)]"

definition obj_words :: "objrec list \<Rightarrow> (u32 \<times> u32) list" where
  "obj_words rs = concat (map (\<lambda>r. words_from r 0) rs)"

definition set_words :: "element \<Rightarrow> (u32 \<times> u32) list \<Rightarrow> element list" where
  "set_words i ws = map (\<lambda>(a, w). i\<lparr>e_reladdr := a, e_word := w\<rparr>) ws"

lemma set_words_update [simp]: "set_words (i\<lparr>e_reladdr := a, e_word := w\<rparr>) ws = set_words i ws"
  by (simp add: set_words_def)

lemma obj_in_loop_skip:
  "obj_in_loop (dropWhile (\<lambda>r. rec_size r = 0) rs) 0 i = obj_in_loop rs 0 i"
  by (cases rs) (simp_all add: obj_in_loop.simps [of "_ # _"])

lemma words_from_next:
  "unat p < unat (rec_size r) \<Longrightarrow>
     words_from r (unat p) = (rec_addr r + p, rec_data r ! unat p) # words_from r (Suc (unat p))"
  by (simp add: words_from_def upt_conv_Cons)

lemma words_from_end: "unat (rec_size r) \<le> j \<Longrightarrow> words_from r j = []"
  by (simp add: words_from_def)

text \<open>States from which \<open>obj_in\<close> does the same deliver the same.\<close>

lemma feeds_same: "feeds f v i es \<Longrightarrow> f u i = f v i \<Longrightarrow> feeds f u i es"
  by (erule feeds.cases) (auto intro: feeds.intros)

lemma feeds_record:
  assumes "wf_rec r" and "rec_size r \<noteq> 0"
    and rest: "\<And>i. feeds obj_in (u\<lparr>curr_rec := rs, fpos := 0\<rparr>) i (set_words i ws)"
    and "unat p \<le> unat (rec_size r)"
  shows "feeds obj_in (u\<lparr>curr_rec := r # rs, fpos := p\<rparr>) i (set_words i (words_from r (unat p) @ ws))"
  using assms(4)
proof (induction "unat (rec_size r) - unat p" arbitrary: p i)
  case 0
  then have "unat p = unat (rec_size r)" by simp
  then have "p = rec_size r" by (simp only: word_unat_eq_iff)
  then have "obj_in (u\<lparr>curr_rec := r # rs, fpos := p\<rparr>) i = obj_in (u\<lparr>curr_rec := rs, fpos := 0\<rparr>) i"
    using assms(2) by (simp add: obj_in_def obj_in_loop.simps [of "r # rs"])
  from feeds_same [OF rest this] show ?case using 0 by (simp add: words_from_end)
next
  case (Suc n)
  then have lt: "unat p < unat (rec_size r)" by simp
  then have p: "p < rec_size r" by (simp add: word_less_nat_alt)
  then have "1 + p \<noteq> 0" by (metis add.commute eq_neg_iff_add_eq_0 word_n1_ge leD)
  then have p1: "unat (p + 1) = Suc (unat p)" using unatSuc [of p] by (simp add: add.commute)
  let ?i = "i\<lparr>e_reladdr := rec_addr r + p, e_word := rec_data r ! unat p\<rparr>"
  have "obj_in (u\<lparr>curr_rec := r # rs, fpos := p\<rparr>) i =
      Inr (1, ?i, u\<lparr>curr_rec := r # rs, fpos := p + 1\<rparr>)"
    using assms(1,2) lt p
    by (simp add: obj_in_def obj_in_loop.simps [of "r # rs"] wf_rec_def not_le [symmetric])
  moreover have "feeds obj_in (u\<lparr>curr_rec := r # rs, fpos := p + 1\<rparr>) ?i
      (set_words ?i (words_from r (unat (p + 1)) @ ws))"
    using Suc.hyps(2) lt p1 by (intro Suc.hyps(1)) simp_all
  ultimately show ?case
    using words_from_next [OF lt] p1 by (auto simp: set_words_def intro: feeds_more)
qed

lemma feeds_obj_in:
  "\<forall>r\<in>set rs. wf_rec r \<Longrightarrow> feeds obj_in (u\<lparr>curr_rec := rs, fpos := 0\<rparr>) i (set_words i (obj_words rs))"
proof (induction rs arbitrary: i)
  case Nil
  have "obj_in (u\<lparr>curr_rec := [], fpos := 0\<rparr>) i = Inr (-1, i, u\<lparr>curr_rec := [], fpos := 0\<rparr>)"
    by (simp add: obj_in_def obj_in_loop.simps)
  then show ?case by (auto simp: obj_words_def set_words_def intro: feeds_end)
next
  case (Cons r rs)
  show ?case
  proof (cases "rec_size r = 0")
    case True
    have "obj_in (u\<lparr>curr_rec := r # rs, fpos := 0\<rparr>) i = obj_in (u\<lparr>curr_rec := rs, fpos := 0\<rparr>) i"
      using True obj_in_loop_skip [of rs i] by (simp add: obj_in_def obj_in_loop.simps [of "r # rs"])
    with Cons show ?thesis
      using True by (auto intro: feeds_same simp: obj_words_def words_from_end)
  next
    case False
    have "feeds obj_in (u\<lparr>curr_rec := r # rs, fpos := 0\<rparr>) i (set_words i (words_from r (unat (0::u32)) @ obj_words rs))"
      using Cons False by (intro feeds_record) simp_all
    then show ?thesis by (simp add: obj_words_def)
  qed
qed

section \<open>Collecting an object\<close>

text \<open>The doubling of \<open>rec->size\<close>, a \<open>uint32_t\<close>: it does not end once it has become 0.\<close>

partial_function (option) grow_rec :: "u32 \<Rightarrow> u32 \<Rightarrow> u32 option" where
  "grow_rec need sz = (if sz < need then grow_rec need (sz * 2) else Some sz)"

text \<open>\<open>memset(&data[pos], 0, n)\<close>: \<open>n\<close> counts bytes, so the last word may be cleared in part.\<close>

definition clear_bytes :: "bool \<Rightarrow> nat \<Rightarrow> u32 \<Rightarrow> u32" where
  "clear_bytes little b w =
     (if b \<ge> 4 then 0 else if little then w AND NOT (mask (8 * b)) else w AND mask (32 - 8 * b))"

definition memset_zero :: "bool \<Rightarrow> nat \<Rightarrow> nat \<Rightarrow> u32 list \<Rightarrow> u32 list" where
  "memset_zero little p n data =
     map (\<lambda>(k, w). if k < p then w else clear_bytes little (n - 4 * (k - p)) w) (enumerate 0 data)"

text \<open>\<open>junk\<close> is what \<open>realloc\<close> leaves in the new words.\<close>

definition obj_out_insn :: "bool \<Rightarrow> (nat \<Rightarrow> u32) \<Rightarrow> element \<Rightarrow> obj_fdata \<Rightarrow> obj_fdata res option" where
  "obj_out_insn little junk i u =
     (if sint (e_size i) \<le> 0 then Some (Inr u)
      else (case records (fd_obj u) of
          [] \<Rightarrow> Some (Inl (Undefined ''no record''))
        | r # rs \<Rightarrow>
            (case grow_rec (fpos u + e_size i) (rec_size r) of
               None \<Rightarrow> None
             | Some sz \<Rightarrow>
                 let data = rec_data r @ map junk [length (rec_data r)..<unat sz]; p = unat (fpos u) in
                 if 4 * length data < 4 * p + max 4 (unat (e_size i))
                 then Some (Inl (Undefined ''write past the record''))
                 else Some (Inr (u\<lparr>fpos := fpos u + e_size i,
                   fd_obj := (fd_obj u)\<lparr>records :=
                     r\<lparr>rec_size := sz,
                       rec_data := (memset_zero little p (unat (e_size i)) data)[p := e_word i]\<rparr>
                     # rs\<rparr>\<rparr>)))))"

definition obj_out :: "bool \<Rightarrow> (nat \<Rightarrow> u32) \<Rightarrow> element \<Rightarrow> obj_fdata \<Rightarrow> (int \<times> obj_fdata) res option" where
  "obj_out little junk i u = map_option (\<lambda>r. bindE r (\<lambda>u. Inr (1, u))) (obj_out_insn little junk i u)"

text \<open>
  The part of \<open>struct symbol\<close> the format looks at.  \<open>strcopy\<close> copies 32 bytes whatever the length
  of the name; \<open>after\<close> is what follows its terminator in memory.
\<close>

record asm_symbol =
  y_name :: "u8 list"
  y_reladdr :: u32
  y_resolved :: bool
  y_global :: bool

definition obj_sym :: "u8 list \<Rightarrow> asm_symbol \<Rightarrow> u32 \<Rightarrow> obj_fdata \<Rightarrow> (int \<times> obj_fdata) res" where
  "obj_sym after y flags u =
     (if \<not> y_global y then Inr (1, u)
      else bindE (strcopy (y_name y @ [0] @ after) SYMBOL_LEN) (\<lambda>nm.
        if \<not> y_resolved y then Inl (Assert ''Symbol address resolved'')
        else Inr (1, u\<lparr>syms := syms u + 1,
          fd_obj := (fd_obj u)\<lparr>symbols := symbols (fd_obj u) @
            [\<lparr>sym_flags = flags, sym_name = nm, sym_value = y_reladdr y, sym_size = 0\<rparr>]\<rparr>\<rparr>)))"

text \<open>\<open>struct reloc_node\<close>: its \<open>insn\<close> is the relative address of the element, if it has one.\<close>

record reloc_node =
  n_name :: "u8 list"
  n_insn :: "u32 option"
  n_width :: u32
  n_flags :: u32

definition obj_reloc :: "reloc_node option \<Rightarrow> obj_fdata \<Rightarrow> (int \<times> obj_fdata) res" where
  "obj_reloc n u =
     (case n of None \<Rightarrow> Inr (0, u)
      | Some n \<Rightarrow> (case n_insn n of None \<Rightarrow> Inr (0, u)
        | Some a \<Rightarrow> bindE (strcopy (n_name n) SYMBOL_LEN) (\<lambda>nm.
            Inr (1, u\<lparr>rlcs := rlcs u + 1,
              fd_obj := (fd_obj u)\<lparr>relocs := relocs (fd_obj u) @
                [\<lparr>rlc_flags = n_flags n, rlc_name = nm[SYMBOL_LEN - 1 := 0], rlc_addr = a,
                  rlc_width = n_width n\<rparr>]\<rparr>\<rparr>))))"

definition obj_emit :: "bool \<Rightarrow> obj_fdata \<Rightarrow> (int \<times> u8 list) res" where
  "obj_emit little u =
     (if assembling u then
        (case records (fd_obj u) of
           [] \<Rightarrow> Inl (Undefined ''no record'')
         | r # rs \<Rightarrow> bindE (obj_write little
             ((fd_obj u)\<lparr>records := r\<lparr>rec_size := fpos u\<rparr> # rs, sym_count := of_nat (syms u),
                         rlc_count := of_nat (rlcs u)\<rparr>)) (\<lambda>b. Inr (0, b)))
      else Inr (0, []))"

definition obj_err :: "obj_fdata \<Rightarrow> int" where
  "obj_err u = (if fd_error u \<noteq> 0 then 1 else 0)"

text \<open>The loop over the elements.\<close>

fun obj_out_all :: "bool \<Rightarrow> (nat \<Rightarrow> u32) \<Rightarrow> element list \<Rightarrow> obj_fdata \<Rightarrow> obj_fdata res option" where
  "obj_out_all little junk [] u = Some (Inr u)"
| "obj_out_all little junk (e # es) u =
     (case obj_out little junk e u of
        None \<Rightarrow> None
      | Some (Inl f) \<Rightarrow> Some (Inl f)
      | Some (Inr (_, u)) \<Rightarrow> obj_out_all little junk es u)"

section \<open>What is collected\<close>

lemma grow_rec_enough:
  "0 < sz \<Longrightarrow> need \<le> 0x80000000 \<Longrightarrow> \<exists>m. grow_rec need sz = Some m \<and> need \<le> m \<and> sz \<le> m"
proof (induction "unat need - unat sz" arbitrary: sz rule: less_induct)
  case less
  show ?case
  proof (cases "sz < need")
    case True
    then have b: "unat sz < unat need" "unat need \<le> 0x80000000" "0 < unat sz"
      using less.prems by (simp_all add: word_less_nat_alt word_le_nat_alt)
    then have d: "unat (sz * 2) = 2 * unat sz" by (simp add: unat_word_ariths)
    have "unat need - unat (sz * 2) < unat need - unat sz" using b d by simp
    moreover have "0 < sz * 2" using b d by (simp add: word_less_nat_alt)
    ultimately obtain m where "grow_rec need (sz * 2) = Some m" "need \<le> m" "sz * 2 \<le> m"
      using less.hyps less.prems by blast
    moreover have "sz \<le> sz * 2" using d by (simp add: word_le_nat_alt)
    ultimately show ?thesis using True by (subst grow_rec.simps) auto
  qed (subst grow_rec.simps, auto)
qed

lemma length_memset_zero [simp]: "length (memset_zero little p n d) = length d"
  by (simp add: memset_zero_def)

lemma nth_memset_zero:
  "k < length d \<Longrightarrow> memset_zero little p n d ! k =
     (if k < p then d ! k else clear_bytes little (n - 4 * (k - p)) (d ! k))"
  by (simp add: memset_zero_def nth_enumerate_eq)

lemma clear_bytes_0 [simp]: "clear_bytes little 0 w = w" "clear_bytes little b 0 = 0"
  by (auto simp: clear_bytes_def intro!: bit_word_eqI simp: bit_simps dest: bit_imp_le_length)

text \<open>The collected words: \<open>fpos\<close> of them so far, in a buffer of \<open>rec_size\<close>.\<close>

definition collecting :: "obj_fdata \<Rightarrow> u32 list \<Rightarrow> bool" where
  "collecting u ws \<longleftrightarrow> (\<exists>r. records (fd_obj u) = [r] \<and> length (rec_data r) = unat (rec_size r) \<and>
     rec_addr r = 0 \<and> 0 < rec_size r \<and> length ws = unat (fpos u) \<and> fpos u \<le> rec_size r \<and>
     take (length ws) (rec_data r) = ws)"

lemma obj_out_word:
  assumes c: "collecting u ws" and one: "e_size i = 1" and small: "length ws < 0x80000000"
  shows "\<exists>u'. obj_out little junk i u = Some (Inr (1, u')) \<and> collecting u' (ws @ [e_word i]) \<and>
    u' = u\<lparr>fd_obj := (fd_obj u)\<lparr>records := records (fd_obj u')\<rparr>, fpos := fpos u'\<rparr>"
proof -
  obtain r where r: "records (fd_obj u) = [r]" "length (rec_data r) = unat (rec_size r)" "0 < rec_size r"
    "length ws = unat (fpos u)" "fpos u \<le> rec_size r" "take (length ws) (rec_data r) = ws" "rec_addr r = 0"
    using c by (auto simp: collecting_def)
  have up: "unat (fpos u + 1) = length ws + 1" using small r(4) by (simp add: unat_word_ariths)
  then have "fpos u + 1 \<le> 0x80000000" using small by (simp add: word_le_nat_alt)
  from grow_rec_enough [OF r(3) this] obtain m where m: "grow_rec (fpos u + 1) (rec_size r) = Some m"
    "fpos u + 1 \<le> m" "rec_size r \<le> m" by blast
  let ?d = "rec_data r @ map junk [length (rec_data r)..<unat m]"
  have len: "length ?d = unat m" using r(2) m(3) by (simp add: word_le_nat_alt)
  have fit: "length ws < unat m" using m(2) up by (simp add: word_le_nat_alt)
  let ?p = "unat (fpos u)"
  let ?d' = "(memset_zero little ?p 1 ?d)[?p := e_word i]"
  have "take (length ws + 1) ?d' = ws @ [e_word i]"
  proof (rule nth_equalityI)
    show "length (take (length ws + 1) ?d') = length (ws @ [e_word i])" using len fit by simp
    fix k assume "k < length (take (length ws + 1) ?d')"
    then have k: "k < length ws + 1" by simp
    then have "k < length (rec_data r)" if "k < length ws" using that r by (simp add: word_le_nat_alt)
    moreover have "rec_data r ! k = ws ! k" if "k < length ws" using that r(6) by (metis nth_take)
    ultimately show "take (length ws + 1) ?d' ! k = (ws @ [e_word i]) ! k"
      using k len fit r(4) by (auto simp: nth_append nth_memset_zero nth_list_update)
  qed
  then show ?thesis
    using r m len fit up one
    by (auto simp: obj_out_def obj_out_insn_def Let_def collecting_def word_less_nat_alt word_le_nat_alt)
qed

lemma obj_out_words:
  assumes "collecting u ws" and "\<forall>e\<in>set es. e_size e = 1" and "length ws + length es \<le> 0x80000000"
  shows "\<exists>u'. obj_out_all little junk es u = Some (Inr u') \<and> collecting u' (ws @ map e_word es) \<and>
    u' = u\<lparr>fd_obj := (fd_obj u)\<lparr>records := records (fd_obj u')\<rparr>, fpos := fpos u'\<rparr>"
  using assms
proof (induction es arbitrary: u ws)
  case (Cons e es)
  obtain v where v: "obj_out little junk e u = Some (Inr (1, v))" "collecting v (ws @ [e_word e])"
    and e: "v = u\<lparr>fd_obj := (fd_obj u)\<lparr>records := records (fd_obj v)\<rparr>, fpos := fpos v\<rparr>"
    using obj_out_word [of u ws e little junk] Cons.prems by auto
  obtain w where w: "obj_out_all little junk es v = Some (Inr w)"
    "collecting w (ws @ map e_word (e # es))"
    and f: "w = v\<lparr>fd_obj := (fd_obj v)\<lparr>records := records (fd_obj w)\<rparr>, fpos := fpos w\<rparr>"
    using Cons.IH [OF v(2)] Cons.prems by auto
  have "w = u\<lparr>fd_obj := (fd_obj u)\<lparr>records := records (fd_obj w)\<rparr>, fpos := fpos w\<rparr>"
    by (subst f, subst e, subst (2) e) simp
  with v(1) w show ?case by auto
qed (auto simp: collecting_def)

text \<open>The state \<open>obj_init\<close> leaves for the assembler, and what \<open>obj_emit\<close> makes of the words.\<close>

definition fresh_fdata :: obj_fdata where
  "fresh_fdata =
     (let r = \<lparr>rec_addr = 0, rec_size = 1024, rec_data = replicate 1024 0\<rparr> in
      \<lparr>assembling = True, fd_obj = empty_obj\<lparr>rec_count := 1, records := [r]\<rparr>, syms = 0, rlcs = 0,
       curr_rec = [r], fpos = 0, fd_error = 0\<rparr>)"

lemma obj_init_assembling: "obj_init little (Some (Some 1)) s = Inr (0, fresh_fdata, s)"
  by (simp add: obj_init_def fresh_fdata_def Let_def)

lemma fresh_collecting: "collecting fresh_fdata []"
  by (simp add: collecting_def fresh_fdata_def Let_def)

definition code_obj :: "u32 list \<Rightarrow> obj" where
  "code_obj ws = empty_obj\<lparr>rec_count := 1,
     records := [\<lparr>rec_addr = 0, rec_size = of_nat (length ws), rec_data = ws\<rparr>]\<rparr>"

lemma code_obj_wf: "length ws < 0x80000000 \<Longrightarrow> wf_obj (code_obj ws)"
  by (simp add: wf_obj_def code_obj_def empty_obj_def wf_rec_def unat_of_nat OBJ_MAX_REC_CNT_def
      OBJ_MAX_SYMBOLS_def OBJ_MAX_RELOCS_def OBJ_MAX_REC_SIZE_def word_le_nat_alt)

text \<open>Words of the buffer beyond the size are not written.\<close>

lemma obj_write_trim:
  assumes "unat (rec_size r) \<le> length (rec_data r)"
  shows "obj_write little (ob\<lparr>records := [r]\<rparr>) =
    obj_write little (ob\<lparr>records := [r\<lparr>rec_data := take (unat (rec_size r)) (rec_data r)\<rparr>]\<rparr>)"
proof -
  have "put_rec little (r\<lparr>rec_data := take (unat (rec_size r)) (rec_data r)\<rparr>) = put_rec little r"
    using assms by (simp add: put_rec_def min_def)
  then show ?thesis by (simp add: obj_write_def obj_v0_write_def for_counted_put_def)
qed

text \<open>The assembled words of a program without symbols, written as an object.\<close>

lemma obj_emit_words:
  assumes "\<forall>e\<in>set es. e_size e = 1" and "length es < 0x80000000"
  shows "\<exists>u. obj_out_all little junk es fresh_fdata = Some (Inr u) \<and>
    obj_emit little u = Inr (0, obj_bytes (code_obj (map e_word es)))"
proof -
  obtain u where u: "obj_out_all little junk es fresh_fdata = Some (Inr u)"
    "collecting u (map e_word es)"
    and e: "u = fresh_fdata\<lparr>fd_obj := (fd_obj fresh_fdata)\<lparr>records := records (fd_obj u)\<rparr>, fpos := fpos u\<rparr>"
    using obj_out_words [OF fresh_collecting assms(1)] assms(2) by auto
  obtain r where r: "records (fd_obj u) = [r]" "length es = unat (fpos u)"
    "take (length es) (rec_data r) = map e_word es" "length (rec_data r) = unat (rec_size r)"
    "unat (fpos u) \<le> unat (rec_size r)" "rec_addr r = 0"
    using u(2) by (auto simp: collecting_def word_le_nat_alt)
  have f: "fpos u = of_nat (length es)" using r(2) by simp
  let ?r = "r\<lparr>rec_size := fpos u\<rparr>"
  let ?ob = "empty_obj\<lparr>rec_count := 1, records := [?r]\<rparr>"
  have "obj_emit little u = bindE (obj_write little ?ob) (\<lambda>b. Inr (0, b))"
    by (subst e) (simp add: obj_emit_def fresh_fdata_def Let_def empty_obj_def r(1))
  also have "obj_write little ?ob =
      obj_write little (?ob\<lparr>records := [?r\<lparr>rec_data := take (unat (rec_size ?r)) (rec_data ?r)\<rparr>]\<rparr>)"
    using obj_write_trim [of ?r little ?ob] r(2,4,5) by simp
  also have "?ob\<lparr>records := [?r\<lparr>rec_data := take (unat (rec_size ?r)) (rec_data ?r)\<rparr>]\<rparr> =
      code_obj (map e_word es)"
    using r(2,3,6) f by (cases r) (simp add: code_obj_def)
  also have "obj_write little (code_obj (map e_word es)) = Inr (obj_bytes (code_obj (map e_word es)))"
    using assms(2) by (intro obj_write_wf code_obj_wf) simp
  finally show ?thesis using u(1) by simp
qed

text \<open>
  A block of zeros (\<open>.zero\<close>) that makes the buffer grow is cleared by bytes, not by words: the
  words beyond the first quarter keep what \<open>realloc\<close> left there.
\<close>

lemma zero_block_junk:
  assumes "records (fd_obj u) = [r]" and "length (rec_data r) = unat (rec_size r)"
    and "fpos u = rec_size r" and "rec_size r = 1024" and "e_word i = 0" and "e_size i = 8"
  shows "\<exists>u' r'. obj_out_insn little junk i u = Some (Inr u') \<and> records (fd_obj u') = [r'] \<and>
    fpos u' = 1032 \<and> rec_data r' ! 1024 = 0 \<and> rec_data r' ! 1026 = junk 1026"
proof -
  have g: "grow_rec 1032 1024 = Some 2048" by (simp add: grow_rec.simps)
  have "w AND mask 32 = w" for w :: u32
    using take_bit_length_eq [of w] by (simp flip: take_bit_eq_mask)
  then show ?thesis
    using assms by (simp add: obj_out_insn_def g Let_def nth_list_update nth_memset_zero nth_append
        clear_bytes_def)
qed

end
