(* ===== verification/Expr.thy ===== *)
theory Expr
  imports ObjFormat "HOL-Library.Signed_Division"
begin

unbundle bit_operations_syntax

text \<open>
  Constant expressions and the second pass of the assembler: \<^verbatim>\<open>src/expr.h\<close>,
  \<^verbatim>\<open>src/parser_global.h\<close> and \<^verbatim>\<open>src/asmif.c\<close>.  The expressions of a program are evaluated once all
  its elements have addresses, and what they refer to is recorded as relocations.

  Evaluation follows symbols into the expressions that \<open>.set\<close> gave them, and nothing bounds how
  often: a function that recurses this way is a \<open>partial_function\<close>, and an evaluation that never
  returns is \<open>None\<close>.
\<close>

section \<open>Results that may not come\<close>

definition bindO :: "'a res option \<Rightarrow> ('a \<Rightarrow> 'b res option) \<Rightarrow> 'b res option" where
  "bindO m f = Option.bind m (\<lambda>r. case r of Inl e \<Rightarrow> Some (Inl e) | Inr x \<Rightarrow> f x)"

lemma bindO_simps [simp]:
  "bindO None f = None" "bindO (Some (Inl e)) f = Some (Inl e)" "bindO (Some (Inr x)) f = f x"
  by (simp_all add: bindO_def)

lemma bindO_mono [partial_function_mono]:
  assumes "mono_option B" and "\<And>y. mono_option (\<lambda>f. C y f)"
  shows "mono_option (\<lambda>f. bindO (B f) (\<lambda>y. C y f))"
proof -
  have "mono_option (\<lambda>f. case r of Inl e \<Rightarrow> Some (Inl e) | Inr y \<Rightarrow> C y f)" for r
    by (cases r) (simp_all add: assms(2) option.const_mono)
  then show ?thesis unfolding bindO_def by (intro bind_mono assms(1))
qed

lemma bindO_cong [fundef_cong]:
  "m = m' \<Longrightarrow> (\<And>x. m' = Some (Inr x) \<Longrightarrow> f x = g x) \<Longrightarrow> bindO m f = bindO m' g"
  by (cases m') (auto simp: bindO_def split: sum.split)

lemma bindO_eq_Inr: "bindO m f = Some (Inr y) \<longleftrightarrow> (\<exists>x. m = Some (Inr x) \<and> f x = Some (Inr y))"
  by (cases m) (auto simp: bindO_def split: sum.splits)

text \<open>A loop over a list.\<close>

fun foldO :: "('a \<Rightarrow> 's \<Rightarrow> 's res option) \<Rightarrow> 'a list \<Rightarrow> 's \<Rightarrow> 's res option" where
  "foldO f [] s = Some (Inr s)"
| "foldO f (x # xs) s = bindO (f x s) (foldO f xs)"

lemma foldO_append: "foldO f (xs @ ys) s = bindO (foldO f xs s) (foldO f ys)"
proof (induction xs arbitrary: s)
  case (Cons x xs)
  then show ?case by (cases "f x s") (auto simp: bindO_def split: sum.split)
qed simp

section \<open>Expressions\<close>

text \<open>
  \<open>struct const_expr\<close> as a tagged union: the operands each \<open>type\<close> uses, over the fields they share.
  A symbol is its index in the order of definition.  \<open>deferred\<close> points into the list of elements:
  \<open>k\<close> is the slot that holds element \<open>k\<close>, or NULL when there is none.  The names are buffers of
  bytes.
\<close>

record ce_head =
  ce_i :: u32
  ce_flags :: u32
  ce_insn :: "nat option"
  ce_deferred :: "nat option"

text \<open>\<open>op\<close>: a character or a token of the grammar.\<close>

datatype ce_op = Op char | LSH | RSHA | RSH

datatype ref_type = CE_SYM | CE_EXT

datatype const_expr =
    CE_BAD (head: ce_head)
  | CE_OP1 (head: ce_head) ce_op const_expr
  | CE_OP2 (head: ce_head) ce_op const_expr const_expr
  | CE_REF (head: ce_head) ref_type "nat option" "u8 list"
  | CE_IMM (head: ce_head)
  | CE_ICI (head: ce_head)

definition IMM_IS_BITS :: u32 where "IMM_IS_BITS = push_bit 0 1"
definition IGNORE_WIDTH :: u32 where "IGNORE_WIDTH = push_bit 1 1"
definition IS_DEFERRED :: u32 where "IS_DEFERRED = push_bit 2 1"
definition IS_EXTERNAL :: u32 where "IS_EXTERNAL = push_bit 3 1"
definition RHS_NEGATE :: u32 where "RHS_NEGATE = push_bit 4 1"
definition NO_NAMED_RELOC :: u32 where "NO_NAMED_RELOC = push_bit 5 1"
definition DO_RELOCATION :: u32 where "DO_RELOCATION = push_bit 6 1"
definition FORBID_LHS :: u32 where "FORBID_LHS = push_bit 7 1"
definition SPECIAL_LHS :: u32 where "SPECIAL_LHS = push_bit 8 1"
definition DONE_EVAL :: u32 where "DONE_EVAL = push_bit 9 1"

definition flagged :: "u32 \<Rightarrow> u32 \<Rightarrow> bool" where
  "flagged flags f \<longleftrightarrow> flags AND f \<noteq> 0"

lemma flagged_bits [simp]:
  "flagged x DONE_EVAL \<longleftrightarrow> bit x 9" "flagged x DO_RELOCATION \<longleftrightarrow> bit x 6"
  "flagged x NO_NAMED_RELOC \<longleftrightarrow> bit x 5" "flagged x RHS_NEGATE \<longleftrightarrow> bit x 4"
  "flagged x IGNORE_WIDTH \<longleftrightarrow> bit x 1" "flagged x IS_DEFERRED \<longleftrightarrow> bit x 2"
  "flagged x IS_EXTERNAL \<longleftrightarrow> bit x 3" "flagged x IMM_IS_BITS \<longleftrightarrow> bit x 0"
  "flagged x FORBID_LHS \<longleftrightarrow> bit x 7" "flagged x SPECIAL_LHS \<longleftrightarrow> bit x 8"
  by (simp_all only: flagged_def DONE_EVAL_def DO_RELOCATION_def NO_NAMED_RELOC_def RHS_NEGATE_def
    IGNORE_WIDTH_def IS_DEFERRED_def IS_EXTERNAL_def IMM_IS_BITS_def FORBID_LHS_def SPECIAL_LHS_def
    bit_iff_and_push_bit_not_eq_0)

section \<open>The state of an assembly\<close>

text \<open>
  \<open>struct symbol\<close> and \<open>struct element\<close>.  The list through \<open>next\<close> is the list of the symbols after
  this one on the same element.  \<open>insn->reloc\<close> is written and never read, and is left out.
\<close>

record symbol = asm_symbol +
  y_unique :: bool
  y_ce :: "const_expr option"
  y_next :: "nat list"

record asm_element = element +
  el_symbol :: "nat list"

record deferred_expr =
  d_ce :: const_expr
  d_dest :: nat
  d_width :: nat
  d_mult :: u32

record reloc =
  r_name :: "u8 list"
  r_insn :: "nat option"
  r_width :: nat
  r_flags :: u32

text \<open>
  \<open>struct parse_data\<close>.  \<open>pd_top\<close> holds the nodes' elements, None for the phantom node without one;
  \<open>pd_symbols\<close> is in the order of definition, and the list of the C code is its reverse, because
  \<open>add_symbol\<close> puts a new symbol in front; the other lists are as in the C code.
\<close>

record parse_data =
  pd_errored :: nat
  pd_top :: "asm_element option list"
  pd_symbols :: "symbol list"
  pd_defexprs :: "deferred_expr list"
  pd_globals :: "u8 list list"
  pd_relocs :: "reloc list"

text \<open>The order in which the C code visits the symbols.\<close>

definition sym_order :: "symbol list \<Rightarrow> nat list" where
  "sym_order ss = rev [0..<length ss]"

text \<open>The element behind a \<open>struct element_list *\<close>.\<close>

definition elem_at :: "parse_data \<Rightarrow> nat \<Rightarrow> nat option" where
  "elem_at pd k = (if k < length (pd_top pd) \<and> pd_top pd ! k \<noteq> None then Some k else None)"

definition elem_reladdr :: "parse_data \<Rightarrow> nat \<Rightarrow> u32" where
  "elem_reladdr pd k =
     (if k < length (pd_top pd) then case pd_top pd ! k of Some e \<Rightarrow> e_reladdr e | None \<Rightarrow> 0 else 0)"

definition sym_ce :: "parse_data \<Rightarrow> nat option \<Rightarrow> const_expr option" where
  "sym_ce pd s = (case s of None \<Rightarrow> None | Some k \<Rightarrow> y_ce (pd_symbols pd ! k))"

section \<open>Symbols\<close>

text \<open>\<open>strncmp(a, b, n) == 0\<close>, of strings given by their characters.\<close>

definition strneq :: "nat \<Rightarrow> u8 list \<Rightarrow> u8 list \<Rightarrow> bool" where
  "strneq n a b \<longleftrightarrow> take n a = take n b"

definition symbol_find :: "symbol list \<Rightarrow> u8 list \<Rightarrow> nat option" where
  "symbol_find ss name = List.find (\<lambda>k. strneq SYMBOL_LEN (y_name (ss ! k)) name) (sym_order ss)"

text \<open>
  \<open>symbol_lookup\<close>: whether the symbol was found, and the cell \<open>*result\<close>.  \<open>ev\<close> is \<open>ce_eval\<close>, with
  which it is mutually recursive.
\<close>

definition symbol_lookup ::
  "(parse_data \<Rightarrow> nat option \<Rightarrow> const_expr \<Rightarrow> (int \<times> u32 \<times> parse_data) res option) \<Rightarrow>
     parse_data \<Rightarrow> u8 list \<Rightarrow> (int \<times> u32 \<times> parse_data) res option" where
  "symbol_lookup ev pd name =
     (case symbol_find (pd_symbols pd) name of
        Some k \<Rightarrow>
          (case y_ce (pd_symbols pd ! k) of
             Some c \<Rightarrow>
               if y_name (pd_symbols pd ! k) = name
               then Some (Inl (Fatal ''Bad use before definition of symbol''))
               else ev pd (case ce_deferred (head c) of None \<Rightarrow> None | Some j \<Rightarrow> elem_at pd j) c
           | None \<Rightarrow> Some (Inr (1, y_reladdr (pd_symbols pd ! k), pd)))
      | None \<Rightarrow> Some (Inr (0, 0, pd)))"

lemma symbol_lookup_mono [partial_function_mono]:
  assumes "\<And>pd c e. mono_option (\<lambda>f. ev f pd c e)"
  shows "mono_option (\<lambda>f. symbol_lookup (ev f) pd name)"
proof -
  have "mono_option (\<lambda>f. case x of Some k \<Rightarrow> (case y_ce (pd_symbols pd ! k) of
      Some c \<Rightarrow> if P k then F else ev f pd (e c) c | None \<Rightarrow> G k) | None \<Rightarrow> H)" for x P F e G H
    by (cases x; cases "y_ce (pd_symbols pd ! the x)")
      (auto intro!: assms option.const_mono if_mono)
  then show ?thesis unfolding symbol_lookup_def .
qed

section \<open>Relocations\<close>

text \<open>
  \<open>add_relocation\<close>: 32 bytes of the name are copied, whatever its length; \<open>after\<close> is what follows a
  shorter one in memory.
\<close>

definition add_relocation ::
  "parse_data \<Rightarrow> u8 list option \<Rightarrow> nat option \<Rightarrow> nat \<Rightarrow> u32 \<Rightarrow> (int \<times> parse_data) res" where
  "add_relocation pd name insn width flags =
     bindE (case name of Some s \<Rightarrow> strcopy s SYMBOL_LEN | None \<Rightarrow> Inr (replicate SYMBOL_LEN 0)) (\<lambda>nm.
       Inr (1, pd\<lparr>pd_relocs :=
         \<lparr>r_name = nm, r_insn = insn, r_width = width, r_flags = flags\<rparr> # pd_relocs pd\<rparr>))"

text \<open>The name of a reference: the buffer, and the string in it.\<close>

definition ref_buffer :: "u8 list \<Rightarrow> parse_data \<Rightarrow> nat option \<Rightarrow> u8 list \<Rightarrow> u8 list" where
  "ref_buffer after pd s buf =
     (case s of Some k \<Rightarrow> y_name (pd_symbols pd ! k) @ [0] @ after | None \<Rightarrow> buf)"

definition ref_name :: "parse_data \<Rightarrow> nat option \<Rightarrow> u8 list \<Rightarrow> u8 list" where
  "ref_name pd s buf = (case s of Some k \<Rightarrow> y_name (pd_symbols pd ! k) | None \<Rightarrow> cstr buf)"

fun sym_reloc_handler ::
  "u8 list \<Rightarrow> parse_data \<Rightarrow> nat option \<Rightarrow> u32 \<Rightarrow> const_expr \<Rightarrow> nat \<Rightarrow> (int \<times> parse_data) res" where
  "sym_reloc_handler after pd context flags (CE_REF h t s buf) width =
     (let rlc_flags = (if flagged flags RHS_NEGATE then RLC_NEGATE else 0) in
      if sym_ce pd s \<noteq> None
      then (if context \<noteq> None then add_relocation pd None context width rlc_flags else Inr (0, pd))
      else if t = CE_EXT then
        add_relocation pd (if flagged flags NO_NAMED_RELOC then None else Some (ref_buffer after pd s buf))
          context width rlc_flags
      else add_relocation pd None context width rlc_flags)"
| "sym_reloc_handler after pd context flags (CE_ICI h) width =
     (let rlc_flags = (if flagged flags RHS_NEGATE then RLC_NEGATE else 0) in
      add_relocation pd None context width rlc_flags)"
| "sym_reloc_handler after pd context flags ce width = Inr (0, pd)"

section \<open>Evaluation\<close>

text \<open>The operators, on \<open>int32_t\<close>; a signed overflow wraps, but the quotient's traps.\<close>

definition apply1 :: "ce_op \<Rightarrow> u32 \<Rightarrow> u32 res" where
  "apply1 f x =
     (if f = Op CHR ''-'' then Inr (- x)
      else if f = Op CHR ''~'' then Inr (NOT x)
      else Inl (Fatal ''Unrecognised const_expr op''))"

definition shift_ok :: "u32 \<Rightarrow> bool" where "shift_ok y \<longleftrightarrow> unat y < 32"

definition apply2 :: "ce_op \<Rightarrow> u32 \<Rightarrow> u32 \<Rightarrow> u32 res" where
  "apply2 f l r =
     (if f = Op CHR ''+'' then Inr (l + r)
      else if f = Op CHR ''-'' then Inr (l - r)
      else if f = Op CHR ''*'' then Inr (l * r)
      else if f = Op CHR ''^'' then Inr (l XOR r)
      else if f = Op CHR ''&'' then Inr (l AND r)
      else if f = Op CHR ''|'' then Inr (l OR r)
      else if f = LSH then (if shift_ok r then Inr (push_bit (unat r) l) else Inl (Undefined ''shift''))
      else if f = RSHA then (if shift_ok r then Inr (signed_drop_bit (unat r) l) else Inl (Undefined ''shift''))
      else if f = RSH then (if shift_ok r then Inr (drop_bit (unat r) l) else Inl (Undefined ''shift''))
      else if f = Op CHR ''/'' then
        (if r = 0 then Inl (Fatal ''Constant expression attempted division by zero'')
         else if l = 0x80000000 \<and> r = -1 then Inl (Undefined ''quotient overflow'')
         else Inr (word_of_int (sint l sdiv sint r)))
      else Inl (Fatal ''Unrecognised const_expr op''))"

text \<open>
  \<open>ce_eval\<close>: the result code, the cell \<open>*result\<close>, whose value before is \<open>old\<close>, and the state.
  \<open>junk\<close> is what an uninitialised \<open>int32_t\<close> holds.
\<close>

partial_function (option) ce_eval ::
  "u32 \<Rightarrow> u8 list \<Rightarrow> parse_data \<Rightarrow> nat option \<Rightarrow> const_expr \<Rightarrow> u32 \<Rightarrow> nat \<Rightarrow> u32 \<Rightarrow>
     (int \<times> u32 \<times> parse_data) res option" where
  "ce_eval junk after pd context ce flags width old =
     (if flagged flags DONE_EVAL then Some (Inr (0, ce_i (head ce), pd))
      else case ce of
        CE_REF h t s buf \<Rightarrow>
          (case sym_ce pd s of
             Some c \<Rightarrow>
               (case ce_deferred (head c) of
                  None \<Rightarrow> Some (Inl (Undefined ''null pointer''))
                | Some j \<Rightarrow>
                    if length (pd_top pd) \<le> j then Some (Inr (0, old, pd))
                    else bindO (ce_eval junk after pd (elem_at pd j) c flags width old) (\<lambda>(rc, v, pd).
                      if rc \<noteq> 0 then Some (Inr (1, v, pd))
                      else if flagged flags DO_RELOCATION then
                        bindO (Some (sym_reloc_handler after pd (elem_at pd j) flags ce width)) (\<lambda>(h, pd).
                          Some (Inr (if h \<noteq> 0 then 1 else 0, v, pd)))
                      else Some (Inr (0, v, pd))))
           | None \<Rightarrow>
               bindO (symbol_lookup (\<lambda>pd c e. ce_eval junk after pd c e 0 0 old) pd (ref_name pd s buf))
                 (\<lambda>(found, v, pd).
                   let hflags = flags OR (if found \<noteq> 0 then NO_NAMED_RELOC else 0) in
                   bindO (if flagged flags DO_RELOCATION
                          then Some (sym_reloc_handler after pd context hflags ce width)
                          else Some (Inr (0, pd))) (\<lambda>(handled, pd).
                     Some (Inr (if found \<noteq> 0 \<or> handled \<noteq> 0 then 1 else 0, v, pd)))))
      | CE_ICI h \<Rightarrow>
          (let v = (case context of Some k \<Rightarrow> elem_reladdr pd k | None \<Rightarrow> 0) in
           if flagged flags DO_RELOCATION
           then bindO (Some (sym_reloc_handler after pd context flags ce width)) (\<lambda>(rc, pd). Some (Inr (rc, v, pd)))
           else Some (Inr (if context \<noteq> None then 1 else 0, v, pd)))
      | CE_IMM h \<Rightarrow> Some (Inr (1, ce_i h, pd))
      | CE_OP1 h f l \<Rightarrow>
          bindO (ce_eval junk after pd context l flags width old) (\<lambda>(rc, v, pd).
            if rc = 0 then Some (Inr (0, v, pd))
            else bindO (Some (apply1 f v)) (\<lambda>v. Some (Inr (1, v, pd))))
      | CE_OP2 h f l r \<Rightarrow>
          (let rhsflags = (if f = Op CHR ''-'' then flags XOR RHS_NEGATE else flags) in
           bindO (ce_eval junk after pd context l flags width junk) (\<lambda>(rc, left, pd).
             if rc = 0 then Some (Inr (0, old, pd))
             else bindO (ce_eval junk after pd context r rhsflags width junk) (\<lambda>(rc, right, pd).
               if rc = 0 then Some (Inr (0, old, pd))
               else bindO (Some (apply2 f left right)) (\<lambda>v. Some (Inr (1, v, pd))))))
      | CE_BAD h \<Rightarrow> Some (Inl (Fatal ''Unrecognised const_expr type'')))"

text \<open>
  \<open>ce_eval_const\<close>: the expression as it is left behind.  The expression is marked as evaluated when
  the evaluation was incomplete.
\<close>

definition set_head :: "(ce_head \<Rightarrow> ce_head) \<Rightarrow> const_expr \<Rightarrow> const_expr" where
  "set_head u ce =
     (case ce of
        CE_BAD h \<Rightarrow> CE_BAD (u h) | CE_OP1 h f l \<Rightarrow> CE_OP1 (u h) f l | CE_OP2 h f l r \<Rightarrow> CE_OP2 (u h) f l r
      | CE_REF h t s b \<Rightarrow> CE_REF (u h) t s b | CE_IMM h \<Rightarrow> CE_IMM (u h) | CE_ICI h \<Rightarrow> CE_ICI (u h))"

definition ce_eval_const ::
  "u32 \<Rightarrow> u8 list \<Rightarrow> parse_data \<Rightarrow> const_expr \<Rightarrow> u32 \<Rightarrow> (int \<times> u32 \<times> const_expr \<times> parse_data) res option" where
  "ce_eval_const junk after pd ce old =
     bindO (ce_eval junk after pd None ce 0 0 old) (\<lambda>(rc, v, pd).
       Some (Inr (rc, v,
         if rc = 0 then set_head (\<lambda>h. h\<lparr>ce_i := v, ce_flags := ce_flags h OR DONE_EVAL\<rparr>) ce else ce, pd)))"

text \<open>
  \<open>ce_free\<close> with \<open>recurse\<close>: what remains of it in the state is that each symbol it reaches loses
  its expression.
\<close>

definition clear_ce :: "nat \<Rightarrow> parse_data \<Rightarrow> parse_data" where
  "clear_ce k pd = pd\<lparr>pd_symbols := (pd_symbols pd)[k := (pd_symbols pd ! k)\<lparr>y_ce := None\<rparr>]\<rparr>"

partial_function (option) ce_free :: "parse_data \<Rightarrow> const_expr \<Rightarrow> parse_data res option" where
  "ce_free pd ce =
     (case ce of
        CE_REF h t s buf \<Rightarrow>
          (case sym_ce pd s of
             Some c \<Rightarrow> bindO (ce_free pd c) (\<lambda>pd. Some (Inr (clear_ce (the s) pd)))
           | None \<Rightarrow> Some (Inr pd))
      | CE_ICI h \<Rightarrow> Some (Inr pd)
      | CE_IMM h \<Rightarrow> Some (Inr pd)
      | CE_OP2 h f l r \<Rightarrow> bindO (ce_free pd r) (\<lambda>pd. ce_free pd l)
      | CE_OP1 h f l \<Rightarrow> ce_free pd l
      | CE_BAD h \<Rightarrow> Some (Inl (Fatal ''Unrecognised const_expr type'')))"

section \<open>The second pass\<close>

definition put_elem :: "nat \<Rightarrow> (asm_element \<Rightarrow> asm_element) \<Rightarrow> parse_data \<Rightarrow> parse_data" where
  "put_elem k u pd = pd\<lparr>pd_top := (pd_top pd)[k := map_option u (pd_top pd ! k)]\<rparr>"

definition put_sym :: "nat \<Rightarrow> (symbol \<Rightarrow> symbol) \<Rightarrow> parse_data \<Rightarrow> parse_data" where
  "put_sym k u pd = pd\<lparr>pd_symbols := (pd_symbols pd)[k := u (pd_symbols pd ! k)]\<rparr>"

text \<open>\<open>mask = -1ll << width\<close>, and the field of a word.\<close>

definition put_field :: "nat \<Rightarrow> u32 \<Rightarrow> u32 \<Rightarrow> u32" where
  "put_field width v w = (let m = push_bit width (-1) in (w AND m) OR (v AND NOT m))"

definition fixup_deferred_expr ::
  "u32 \<Rightarrow> u8 list \<Rightarrow> deferred_expr \<Rightarrow> int \<times> parse_data \<Rightarrow> (int \<times> parse_data) res option" where
  "fixup_deferred_expr junk after r = (\<lambda>(rc, pd).
     bindO (ce_eval junk after pd (ce_insn (head (d_ce r))) (d_ce r) DO_RELOCATION (d_width r) junk)
       (\<lambda>(ok, result, pd).
       if ok = 0 then Some (Inl (Fatal ''Error while fixing up deferred expressions''))
       else
         let result = result * d_mult r;
             rc = (if \<not> flagged (ce_flags (head (d_ce r))) IGNORE_WIDTH \<and> result \<noteq> SEXTEND32 (d_width r) result
                   then 1 else rc);
             pd = put_elem (d_dest r) (\<lambda>e. e\<lparr>e_word := put_field (d_width r) result (e_word e)\<rparr>) pd
         in bindO (ce_free pd (d_ce r)) (\<lambda>pd. Some (Inr (rc, pd)))))"

definition fixup_deferred_exprs :: "u32 \<Rightarrow> u8 list \<Rightarrow> parse_data \<Rightarrow> (int \<times> parse_data) res option" where
  "fixup_deferred_exprs junk after pd = foldO (fixup_deferred_expr junk after) (pd_defexprs pd) (0, pd)"

fun mark_globals :: "u8 list list \<Rightarrow> symbol list \<Rightarrow> symbol list" where
  "mark_globals [] ss = ss"
| "mark_globals (g # gs) ss =
     mark_globals gs (case symbol_find ss g of Some k \<Rightarrow> ss[k := (ss ! k)\<lparr>y_global := True\<rparr>] | None \<Rightarrow> ss)"

text \<open>
  \<open>check_symbols\<close> up to its verdict: the names that \<open>tsearch\<close> has put in the tree so far; the walk stops
  at one that is there already.  The second walk, which is to empty the tree, has no part in the verdict
  where \<open>tdelete\<close> returns, as the C library's does; \<open>Tsearch\<close> has both walks over the web build's trees.
\<close>

fun check_from :: "symbol list \<Rightarrow> nat list \<Rightarrow> u8 list list \<Rightarrow> int" where
  "check_from ss [] seen = 0"
| "check_from ss (k # ks) seen =
     (if \<not> y_unique (ss ! k) then check_from ss ks seen
      else if y_name (ss ! k) \<in> set seen then 1
      else check_from ss ks (y_name (ss ! k) # seen))"

definition check_symbols :: "symbol list \<Rightarrow> int" where
  "check_symbols ss = check_from ss (sym_order ss) []"

text \<open>\<open>assembly_fixup_insns\<close>: first the addresses, then the symbols that \<open>.set\<close> defined.\<close>

definition resolve_label :: "u32 \<Rightarrow> nat \<Rightarrow> parse_data \<Rightarrow> parse_data" where
  "resolve_label a l pd =
     (if y_resolved (pd_symbols pd ! l) then pd
      else put_sym l (\<lambda>y. y\<lparr>y_reladdr := a, y_resolved := True\<rparr>) pd)"

fun fixup_addresses :: "nat list \<Rightarrow> u32 \<Rightarrow> parse_data \<Rightarrow> parse_data" where
  "fixup_addresses [] a pd = pd"
| "fixup_addresses (k # ks) a pd =
     (case pd_top pd ! k of
        None \<Rightarrow> fixup_addresses ks a pd
      | Some e \<Rightarrow> fixup_addresses ks (a + e_size e)
          (fold (resolve_label a) (el_symbol e) (put_elem k (\<lambda>e. e\<lparr>e_reladdr := a\<rparr>) pd)))"

definition resolve_set :: "u32 \<Rightarrow> u8 list \<Rightarrow> nat \<Rightarrow> parse_data \<Rightarrow> parse_data res option" where
  "resolve_set junk after l pd =
     (let y = pd_symbols pd ! l in
      if y_resolved y then Some (Inr pd)
      else case y_ce y of
        None \<Rightarrow> Some (Inl (Undefined ''null pointer''))
      | Some c \<Rightarrow> bindO (ce_eval junk after pd None c DO_RELOCATION 32 (y_reladdr y)) (\<lambda>(rc, v, pd).
          let pd = put_sym l (\<lambda>y. y\<lparr>y_reladdr := v\<rparr>) pd in
          Some (Inr (if rc \<noteq> 0 then put_sym l (\<lambda>y. y\<lparr>y_resolved := True\<rparr>) pd else pd))))"

definition assembly_fixup_insns :: "u32 \<Rightarrow> u8 list \<Rightarrow> parse_data \<Rightarrow> parse_data res option" where
  "assembly_fixup_insns junk after pd =
     (let pd = fixup_addresses [0..<length (pd_top pd)] 0 pd in
      foldO (\<lambda>li pd. foldO (resolve_set junk after) (li # y_next (pd_symbols pd ! li)) pd)
        (sym_order (pd_symbols pd)) pd)"

text \<open>
  \<open>assembly_inner\<close> over the output functions of a format with the state \<open>'u\<close>.  A relocation reads the
  address of its element when it is written.
\<close>

record 'u out_format =
  f_out :: "element \<Rightarrow> 'u \<Rightarrow> (int \<times> 'u) res option"
  f_sym :: "(asm_symbol \<Rightarrow> u32 \<Rightarrow> 'u \<Rightarrow> (int \<times> 'u) res) option"
  f_reloc :: "(reloc_node option \<Rightarrow> 'u \<Rightarrow> (int \<times> 'u) res) option"

definition sym_flags_of :: "symbol \<Rightarrow> u32" where
  "sym_flags_of y =
     (case y_ce y of Some c \<Rightarrow> if flagged (ce_flags (head c)) IS_DEFERRED then 0 else RLC_ABSOLUTE | None \<Rightarrow> 0)"

definition node_of :: "parse_data \<Rightarrow> reloc \<Rightarrow> reloc_node" where
  "node_of pd r = \<lparr>n_name = r_name r, n_insn = map_option (elem_reladdr pd) (r_insn r),
     n_width = of_nat (r_width r), n_flags = r_flags r\<rparr>"

definition out_elements :: "'u out_format \<Rightarrow> parse_data \<Rightarrow> 'u \<Rightarrow> 'u res option" where
  "out_elements f pd = foldO (\<lambda>e u. case e of None \<Rightarrow> Some (Inr u)
     | Some e \<Rightarrow> bindO (f_out f (element.truncate e) u) (\<lambda>(rc, u). Some (Inr u))) (pd_top pd)"

definition out_symbols :: "'u out_format \<Rightarrow> parse_data \<Rightarrow> 'u \<Rightarrow> 'u res" where
  "out_symbols f pd u =
     (case f_sym f of None \<Rightarrow> Inr u
      | Some g \<Rightarrow> foldE (\<lambda>k u. bindE (g (asm_symbol.truncate (pd_symbols pd ! k)) (sym_flags_of (pd_symbols pd ! k)) u)
          (\<lambda>(rc, u). Inr u)) (sym_order (pd_symbols pd)) u)"

definition out_relocs :: "'u out_format \<Rightarrow> parse_data \<Rightarrow> 'u \<Rightarrow> 'u res" where
  "out_relocs f pd u =
     (case f_reloc f of None \<Rightarrow> Inr u
      | Some g \<Rightarrow> foldE (\<lambda>r u. bindE (g (Some (node_of pd r)) u) (\<lambda>(rc, u). Inr u)) (pd_relocs pd) u)"

definition assembly_cleanup :: "parse_data \<Rightarrow> parse_data res option" where
  "assembly_cleanup pd =
     foldO (\<lambda>k pd. case y_ce (pd_symbols pd ! k) of None \<Rightarrow> Some (Inr pd) | Some c \<Rightarrow> ce_free pd c)
       (sym_order (pd_symbols pd)) pd"

definition assembly_inner ::
  "u32 \<Rightarrow> u8 list \<Rightarrow> 'u out_format \<Rightarrow> parse_data \<Rightarrow> 'u \<Rightarrow> (int \<times> 'u) res option" where
  "assembly_inner junk after f pd u =
     bindO (assembly_fixup_insns junk after pd) (\<lambda>pd.
       let pd = pd\<lparr>pd_symbols := mark_globals (pd_globals pd) (pd_symbols pd)\<rparr> in
       if check_symbols (pd_symbols pd) \<noteq> 0
       then Some (Inl (Fatal ''Error in symbol processing : check for duplicate symbols''))
       else bindO (fixup_deferred_exprs junk after pd) (\<lambda>(rc, pd).
         if rc \<noteq> 0 then Some (Inl (Fatal ''Error while fixing up deferred expressions''))
         else bindO (out_elements f pd u) (\<lambda>u.
           bindO (Some (out_symbols f pd u)) (\<lambda>u.
             bindO (Some (out_relocs f pd u)) (\<lambda>u.
               bindO (assembly_cleanup pd) (\<lambda>pd. Some (Inr (0, u))))))))"

text \<open>\<open>do_assembly\<close>: \<open>parse\<close> is the generated parser, run on an empty \<open>parse_data\<close>.\<close>

definition empty_parse_data :: parse_data where
  "empty_parse_data = \<lparr>pd_errored = 0, pd_top = [], pd_symbols = [], pd_defexprs = [], pd_globals = [],
     pd_relocs = []\<rparr>"

definition do_assembly ::
  "(parse_data \<Rightarrow> (int \<times> parse_data) res option) \<Rightarrow> u32 \<Rightarrow> u8 list \<Rightarrow> 'u out_format option \<Rightarrow> 'u \<Rightarrow>
     (bool \<times> 'u) res option" where
  "do_assembly parse junk after f u =
     bindO (parse empty_parse_data) (\<lambda>(result, pd).
       bindO (case f of
           Some f \<Rightarrow> if result = 0 \<and> pd_errored pd = 0 then assembly_inner junk after f pd u else Some (Inr (0, u))
         | None \<Rightarrow> Some (Inr (0, u))) (\<lambda>(rc, u).
         Some (Inr (result \<noteq> 0 \<or> pd_errored pd \<noteq> 0, u))))"

end
