(* ===== verification/Assemble.thy ===== *)
theory Assemble
  imports Expr
begin

unbundle bit_operations_syntax

text \<open>
  What the second pass of the assembler computes: the value of an expression and its relocations as
  a big-step relation, which \<open>ce_eval\<close> implements, and the addresses of the elements and labels.
\<close>

section \<open>The meaning of an expression\<close>

definition reloc_for :: "u8 list \<Rightarrow> nat \<Rightarrow> bool \<Rightarrow> nat option \<Rightarrow> reloc" where
  "reloc_for nm width neg ctx =
     \<lparr>r_name = nm, r_insn = ctx, r_width = width, r_flags = (if neg then RLC_NEGATE else 0)\<rparr>"

definition unnamed :: "u8 list" where "unnamed = replicate SYMBOL_LEN 0"

text \<open>
  \<open>means after pd width ctx neg e v rs\<close>: in the state \<open>pd\<close>, on element \<open>ctx\<close>, the expression has the
  value \<open>v\<close>, and the relocations \<open>rs\<close>, the latest first, for a field of \<open>width\<close> bits; \<open>neg\<close> says
  that it is being subtracted.
\<close>

inductive means :: "u8 list \<Rightarrow> parse_data \<Rightarrow> nat \<Rightarrow> nat option \<Rightarrow> bool \<Rightarrow> const_expr \<Rightarrow> u32 \<Rightarrow> reloc list \<Rightarrow> bool"
  for after :: "u8 list" and pd :: parse_data and width :: nat
where
  means_imm: "means after pd width ctx neg (CE_IMM h) (ce_i h) []"
| means_ici: "means after pd width ctx neg (CE_ICI h) (case ctx of Some k \<Rightarrow> elem_reladdr pd k | None \<Rightarrow> 0)
    [reloc_for unnamed width neg ctx]"
| means_op1: "means after pd width ctx neg l v rs \<Longrightarrow> apply1 f v = Inr w \<Longrightarrow>
    means after pd width ctx neg (CE_OP1 h f l) w rs"
| means_op2: "means after pd width ctx neg l v rs \<Longrightarrow> means after pd width ctx (neg \<noteq> (f = Op CHR ''-'')) r w rs' \<Longrightarrow>
    apply2 f v w = Inr x \<Longrightarrow> means after pd width ctx neg (CE_OP2 h f l r) x (rs' @ rs)"
| means_set: "sym_ce pd s = Some c \<Longrightarrow> ce_deferred (head c) = Some j \<Longrightarrow> j < length (pd_top pd) \<Longrightarrow>
    means after pd width (elem_at pd j) neg c v rs \<Longrightarrow> means after pd width ctx neg (CE_REF h t s buf) v rs"
| means_label: "sym_ce pd s = None \<Longrightarrow> symbol_find (pd_symbols pd) (ref_name pd s buf) = Some k \<Longrightarrow>
    y_ce (pd_symbols pd ! k) = None \<Longrightarrow>
    means after pd width ctx neg (CE_REF h t s buf) (y_reladdr (pd_symbols pd ! k)) [reloc_for unnamed width neg ctx]"
| means_extern: "sym_ce pd s = None \<Longrightarrow> symbol_find (pd_symbols pd) (ref_name pd s buf) = None \<Longrightarrow>
    strcopy (ref_buffer after pd s buf) SYMBOL_LEN = Inr nm \<Longrightarrow>
    means after pd width ctx neg (CE_REF h CE_EXT s buf) 0 [reloc_for nm width neg ctx]"

inductive_cases means_immE: "means after pd width ctx neg (CE_IMM h) v rs"
inductive_cases means_op2E: "means after pd width ctx neg (CE_OP2 h f l r) v rs"
inductive_cases means_refE: "means after pd width ctx neg (CE_REF h t s buf) v rs"

inductive_simps means_simps:
  "means after pd width ctx neg (CE_IMM h) v rs"
  "means after pd width ctx neg (CE_ICI h) v rs"
  "means after pd width ctx neg (CE_OP1 h f l) v rs"
  "means after pd width ctx neg (CE_OP2 h f l r) v rs"

definition reloc_flags :: "bool \<Rightarrow> u32" where
  "reloc_flags neg = DO_RELOCATION OR (if neg then RHS_NEGATE else 0)"

lemma bit_eval_flags:
  "bit DO_RELOCATION n \<longleftrightarrow> n = 6" "bit RHS_NEGATE n \<longleftrightarrow> n = 4" "bit NO_NAMED_RELOC n \<longleftrightarrow> n = 5"
  by (auto simp only: DO_RELOCATION_def RHS_NEGATE_def NO_NAMED_RELOC_def bit_push_bit_iff bit_1_iff) auto

lemma bit_reloc_flags: "bit (reloc_flags neg) n \<longleftrightarrow> n = 6 \<or> neg \<and> n = 4"
  by (auto simp: reloc_flags_def bit_or_iff bit_eval_flags)

lemma reloc_flags_minus: "reloc_flags neg XOR RHS_NEGATE = reloc_flags (\<not> neg)"
  by (rule bit_word_eqI) (auto simp: bit_xor_iff bit_reloc_flags bit_eval_flags)

lemma reloc_flags_False: "reloc_flags False = DO_RELOCATION"
  by (simp add: reloc_flags_def)

lemma add_relocation_simps:
  "add_relocation pd None ctx width (if neg then RLC_NEGATE else 0) =
     Inr (1, pd\<lparr>pd_relocs := reloc_for unnamed width neg ctx # pd_relocs pd\<rparr>)"
  "strcopy s SYMBOL_LEN = Inr nm \<Longrightarrow> add_relocation pd (Some s) ctx width (if neg then RLC_NEGATE else 0) =
     Inr (1, pd\<lparr>pd_relocs := reloc_for nm width neg ctx # pd_relocs pd\<rparr>)"
  by (simp_all add: add_relocation_def reloc_for_def unnamed_def)

lemma pd_relocs_irrelevant [simp]:
  "sym_ce (pd\<lparr>pd_relocs := rs\<rparr>) = sym_ce pd" "elem_at (pd\<lparr>pd_relocs := rs\<rparr>) = elem_at pd"
  "elem_reladdr (pd\<lparr>pd_relocs := rs\<rparr>) = elem_reladdr pd"
  "ref_name (pd\<lparr>pd_relocs := rs\<rparr>) = ref_name pd"
  "ref_buffer after (pd\<lparr>pd_relocs := rs\<rparr>) = ref_buffer after pd"
  by (simp_all add: sym_ce_def elem_at_def elem_reladdr_def ref_name_def ref_buffer_def fun_eq_iff split: option.split)

text \<open>\<open>ce_eval\<close> returns with the value, and has added the relocations.\<close>

lemma ce_eval_means:
  "means after pd width ctx neg e v rs \<Longrightarrow>
     ce_eval junk after (pd\<lparr>pd_relocs := rs0\<rparr>) ctx e (reloc_flags neg) width old =
       Some (Inr (1, v, pd\<lparr>pd_relocs := rs @ rs0\<rparr>))"
proof (induction arbitrary: rs0 old rule: means.induct)
  case (means_imm ctx neg h)
  show ?case by (subst ce_eval.simps) (simp add: bit_reloc_flags)
next
  case (means_ici ctx neg h)
  show ?case
    by (subst ce_eval.simps) (simp add: bit_reloc_flags Let_def add_relocation_simps split: option.split)
next
  case (means_op1 ctx neg l v rs f w h)
  then show ?case by (subst ce_eval.simps) (simp add: bit_reloc_flags)
next
  case (means_op2 ctx neg l v rs f r w rs' x h)
  have "(if f = Op CHR ''-'' then reloc_flags neg XOR RHS_NEGATE else reloc_flags neg) =
      reloc_flags (neg \<noteq> (f = Op CHR ''-''))"
    by (simp add: reloc_flags_minus)
  then show ?case using means_op2 by (subst ce_eval.simps) (simp add: Let_def bit_reloc_flags)
next
  case (means_set s c j ctx neg v rs h t buf)
  then show ?case by (subst ce_eval.simps) (simp add: bit_reloc_flags)
next
  case (means_label s buf k ctx neg h t)
  then show ?case
    by (subst ce_eval.simps)
      (simp add: symbol_lookup_def add_relocation_simps Let_def bit_or_iff bit_reloc_flags bit_eval_flags)
next
  case (means_extern s buf nm ctx neg h)
  then show ?case
    by (subst ce_eval.simps)
      (simp add: symbol_lookup_def add_relocation_simps Let_def bit_or_iff bit_reloc_flags bit_eval_flags)
qed

lemma means_unique:
  assumes "means after pd width ctx neg e v rs" and "means after pd width ctx neg e w rs'"
  shows "v = w \<and> rs = rs'"
  using ce_eval_means [OF assms(1), of 0 "[]" 0] ce_eval_means [OF assms(2), of 0 "[]" 0]
  by (simp add: parse_data.ext_inject) (metis parse_data.select_convs(6) parse_data.surjective parse_data.update_convs(6))

section \<open>Programs with labels\<close>

text \<open>
  The value of an expression whose references are labels or external: arithmetic over the values
  \<open>rho\<close> of the references, each a symbol or a name, and the place \<open>dot\<close> of the element.
\<close>

fun value_of :: "(nat option \<Rightarrow> u8 list \<Rightarrow> u32) \<Rightarrow> u32 \<Rightarrow> const_expr \<Rightarrow> u32 res" where
  "value_of rho dot (CE_IMM h) = Inr (ce_i h)"
| "value_of rho dot (CE_ICI h) = Inr dot"
| "value_of rho dot (CE_REF h t s buf) = Inr (rho s buf)"
| "value_of rho dot (CE_OP1 h f l) = bindE (value_of rho dot l) (apply1 f)"
| "value_of rho dot (CE_OP2 h f l r) =
     bindE (value_of rho dot l) (\<lambda>v. bindE (value_of rho dot r) (apply2 f v))"
| "value_of rho dot (CE_BAD h) = Inl (Fatal ''Unrecognised const_expr type'')"

text \<open>References by name, as long as the buffer that holds it, to a symbol or to another file.\<close>

primrec by_name :: "const_expr \<Rightarrow> bool" where
  "by_name (CE_IMM h) \<longleftrightarrow> True"
| "by_name (CE_ICI h) \<longleftrightarrow> True"
| "by_name (CE_REF h t s buf) \<longleftrightarrow> t = CE_EXT \<and> s = None \<and> length buf = SYMBOL_LEN"
| "by_name (CE_OP1 h f l) \<longleftrightarrow> by_name l"
| "by_name (CE_OP2 h f l r) \<longleftrightarrow> by_name l \<and> by_name r"
| "by_name (CE_BAD h) \<longleftrightarrow> True"

text \<open>References to a symbol among \<open>n\<close>, or by name.\<close>

primrec refers :: "nat \<Rightarrow> const_expr \<Rightarrow> bool" where
  "refers n (CE_IMM h) \<longleftrightarrow> True"
| "refers n (CE_ICI h) \<longleftrightarrow> True"
| "refers n (CE_REF h t s buf) \<longleftrightarrow> t = CE_EXT \<and>
     (case s of None \<Rightarrow> length buf = SYMBOL_LEN | Some k \<Rightarrow> k < n)"
| "refers n (CE_OP1 h f l) \<longleftrightarrow> refers n l"
| "refers n (CE_OP2 h f l r) \<longleftrightarrow> refers n l \<and> refers n r"
| "refers n (CE_BAD h) \<longleftrightarrow> True"

definition name_value :: "parse_data \<Rightarrow> nat option \<Rightarrow> u8 list \<Rightarrow> u32" where
  "name_value pd s buf = (case symbol_find (pd_symbols pd) (ref_name pd s buf) of Some k \<Rightarrow> y_reladdr (pd_symbols pd ! k) | None \<Rightarrow> 0)"

lemma find_index: "List.find P xs = Some k \<Longrightarrow> k \<in> set xs \<and> P k"
  by (induction xs) (auto split: if_splits)

lemma symbol_find_less: "symbol_find ss name = Some k \<Longrightarrow> k < length ss"
  by (auto simp: symbol_find_def sym_order_def dest: find_index)

lemma find_None: "List.find P xs = None \<longleftrightarrow> (\<forall>x\<in>set xs. \<not> P x)"
  by (induction xs) auto

lemma symbol_find_self: "k < length ss \<Longrightarrow> symbol_find ss (y_name (ss ! k)) \<noteq> None"
  unfolding symbol_find_def find_None by (auto simp: sym_order_def strneq_def)

lemma value_of_cong:
  "(\<And>s buf. (\<And>k. s = Some k \<Longrightarrow> k < n) \<Longrightarrow> rho s buf = rho' s buf) \<Longrightarrow> refers n e \<Longrightarrow>
     value_of rho dot e = value_of rho' dot e"
  by (induction e) (auto split: option.splits)

lemma means_value_of:
  assumes "\<forall>y\<in>set (pd_symbols pd). y_ce y = None"
  shows "refers (length (pd_symbols pd)) e \<Longrightarrow>
    value_of (name_value pd) (case ctx of Some k \<Rightarrow> elem_reladdr pd k | None \<Rightarrow> 0) e = Inr v \<Longrightarrow>
    \<exists>rs. means after pd width ctx neg e v rs"
proof (induction e arbitrary: neg v)
  case (CE_REF h t s buf)
  then have r: "t = CE_EXT" "v = name_value pd s buf" "s = None \<Longrightarrow> length buf = SYMBOL_LEN"
    "\<And>k. s = Some k \<Longrightarrow> k < length (pd_symbols pd)"
    by (auto split: option.splits)
  have n: "sym_ce pd s = None" using assms r(4) by (cases s) (simp_all add: sym_ce_def)
  show ?case
  proof (cases "symbol_find (pd_symbols pd) (ref_name pd s buf)")
    case None
    then have s: "s = None" using symbol_find_self r(4) by (cases s) (simp_all add: ref_name_def)
    then have "strcopy (ref_buffer after pd s buf) SYMBOL_LEN = Inr ((take SYMBOL_LEN buf)[SYMBOL_LEN - 1 := 0])"
      using r(3) by (simp add: strcopy_def SYMBOL_LEN_def ref_buffer_def)
    then have "means after pd width ctx neg (CE_REF h CE_EXT s buf) 0 [reloc_for ((take SYMBOL_LEN buf)[SYMBOL_LEN - 1 := 0]) width neg ctx]"
      using None n by (intro means_extern)
    then show ?thesis using None r by (auto simp: name_value_def)
  next
    case (Some k)
    then have "y_ce (pd_symbols pd ! k) = None" using assms symbol_find_less [OF Some] by simp
    then have "means after pd width ctx neg (CE_REF h t s buf) (y_reladdr (pd_symbols pd ! k)) [reloc_for unnamed width neg ctx]"
      using Some n by (intro means_label)
    then show ?thesis using Some r by (auto simp: name_value_def)
  qed
next
  case (CE_OP1 h f l)
  then show ?case by (fastforce simp: bindE_eq_Inr intro: means_op1)
next
  case (CE_OP2 h f l r)
  then obtain a b where "value_of (name_value pd) (case ctx of Some k \<Rightarrow> elem_reladdr pd k | None \<Rightarrow> 0) l = Inr a"
    "value_of (name_value pd) (case ctx of Some k \<Rightarrow> elem_reladdr pd k | None \<Rightarrow> 0) r = Inr b" "apply2 f a b = Inr v"
    by (auto simp: bindE_eq_Inr)
  with CE_OP2 obtain rs rs' where "means after pd width ctx neg l a rs"
    "means after pd width ctx (neg \<noteq> (f = Op CHR ''-'')) r b rs'" by fastforce
  then have "means after pd width ctx neg (CE_OP2 h f l r) v (rs' @ rs)"
    using \<open>apply2 f a b = Inr v\<close> by (rule means_op2)
  then show ?case ..
next
  case (CE_IMM h)
  then show ?case using means_imm [of after pd width ctx neg h] by auto
next
  case (CE_ICI h)
  then show ?case using means_ici [of after pd width ctx neg h] by auto
qed simp

subsection \<open>Addresses\<close>

definition size_of :: "asm_element option \<Rightarrow> u32" where
  "size_of e = (case e of None \<Rightarrow> 0 | Some e \<Rightarrow> e_size e)"

definition addr_of :: "parse_data \<Rightarrow> nat \<Rightarrow> u32" where
  "addr_of pd k = sum_list (map size_of (take k (pd_top pd)))"

text \<open>
  Every symbol is a label not yet resolved, of the element \<open>home l\<close> and of no other.
\<close>

definition labelled :: "(nat \<Rightarrow> nat) \<Rightarrow> parse_data \<Rightarrow> bool" where
  "labelled home pd \<longleftrightarrow>
     (\<forall>l<length (pd_symbols pd). y_ce (pd_symbols pd ! l) = None \<and> \<not> y_resolved (pd_symbols pd ! l) \<and>
        (\<forall>k\<in>set (y_next (pd_symbols pd ! l)). k < length (pd_symbols pd)) \<and>
        home l < length (pd_top pd) \<and> (\<exists>e. pd_top pd ! home l = Some e \<and> l \<in> set (el_symbol e))) \<and>
     (\<forall>k<length (pd_top pd). \<forall>e. pd_top pd ! k = Some e \<longrightarrow>
        (\<forall>l\<in>set (el_symbol e). l < length (pd_symbols pd) \<and> home l = k))"

lemma labelledD:
  assumes "labelled home pd"
  shows "l < length (pd_symbols pd) \<Longrightarrow> y_ce (pd_symbols pd ! l) = None"
    and "l < length (pd_symbols pd) \<Longrightarrow> \<not> y_resolved (pd_symbols pd ! l)"
    and "l < length (pd_symbols pd) \<Longrightarrow> k \<in> set (y_next (pd_symbols pd ! l)) \<Longrightarrow> k < length (pd_symbols pd)"
    and "l < length (pd_symbols pd) \<Longrightarrow> home l < length (pd_top pd)"
    and "l < length (pd_symbols pd) \<Longrightarrow> pd_top pd ! home l \<noteq> None"
    and "l < length (pd_symbols pd) \<Longrightarrow> pd_top pd ! home l = Some e \<Longrightarrow> l \<in> set (el_symbol e)"
    and "k < length (pd_top pd) \<Longrightarrow> pd_top pd ! k = Some e \<Longrightarrow> l \<in> set (el_symbol e) \<Longrightarrow>
      l < length (pd_symbols pd) \<and> home l = k"
proof -
  have a: "\<forall>l<length (pd_symbols pd). y_ce (pd_symbols pd ! l) = None \<and> \<not> y_resolved (pd_symbols pd ! l) \<and>
      (\<forall>k\<in>set (y_next (pd_symbols pd ! l)). k < length (pd_symbols pd)) \<and>
      home l < length (pd_top pd) \<and> (\<exists>e. pd_top pd ! home l = Some e \<and> l \<in> set (el_symbol e))"
    and b: "\<forall>k<length (pd_top pd). \<forall>e. pd_top pd ! k = Some e \<longrightarrow>
      (\<forall>l\<in>set (el_symbol e). l < length (pd_symbols pd) \<and> home l = k)"
    using assms unfolding labelled_def by blast+
  show "l < length (pd_symbols pd) \<Longrightarrow> y_ce (pd_symbols pd ! l) = None"
    "l < length (pd_symbols pd) \<Longrightarrow> \<not> y_resolved (pd_symbols pd ! l)"
    "l < length (pd_symbols pd) \<Longrightarrow> k \<in> set (y_next (pd_symbols pd ! l)) \<Longrightarrow> k < length (pd_symbols pd)"
    "l < length (pd_symbols pd) \<Longrightarrow> home l < length (pd_top pd)"
    "l < length (pd_symbols pd) \<Longrightarrow> pd_top pd ! home l \<noteq> None"
    using a by blast+
  show "l < length (pd_symbols pd) \<Longrightarrow> pd_top pd ! home l = Some e \<Longrightarrow> l \<in> set (el_symbol e)"
    using a by fastforce
  show "k < length (pd_top pd) \<Longrightarrow> pd_top pd ! k = Some e \<Longrightarrow> l \<in> set (el_symbol e) \<Longrightarrow>
      l < length (pd_symbols pd) \<and> home l = k"
    using b by blast
qed

text \<open>The addresses of the first \<open>j\<close> elements, and of their labels, are set.\<close>

definition addressed :: "(nat \<Rightarrow> nat) \<Rightarrow> nat \<Rightarrow> parse_data \<Rightarrow> parse_data" where
  "addressed home j pd = pd\<lparr>
     pd_top := map (\<lambda>k. if k < j then map_option (\<lambda>e. e\<lparr>e_reladdr := addr_of pd k\<rparr>) (pd_top pd ! k)
       else pd_top pd ! k) [0..<length (pd_top pd)],
     pd_symbols := map (\<lambda>l. if home l < j
       then (pd_symbols pd ! l)\<lparr>y_reladdr := addr_of pd (home l), y_resolved := True\<rparr>
       else pd_symbols pd ! l) [0..<length (pd_symbols pd)]\<rparr>"

lemma addressed_0 [simp]: "addressed home 0 pd = pd"
  by (simp add: addressed_def map_nth)

lemma fold_resolve_label:
  "set ls \<subseteq> {..<length (pd_symbols pd)} \<Longrightarrow>
   fold (resolve_label a) ls pd = pd\<lparr>pd_symbols := map (\<lambda>l.
     if l \<in> set ls \<and> \<not> y_resolved (pd_symbols pd ! l)
     then (pd_symbols pd ! l)\<lparr>y_reladdr := a, y_resolved := True\<rparr> else pd_symbols pd ! l)
       [0..<length (pd_symbols pd)]\<rparr>"
proof (induction ls arbitrary: pd)
  case (Cons x ls)
  let ?pd = "resolve_label a x pd"
  have l: "length (pd_symbols ?pd) = length (pd_symbols pd)"
    by (simp add: resolve_label_def put_sym_def)
  have n: "k < length (pd_symbols pd) \<Longrightarrow> pd_symbols ?pd ! k =
      (if k = x \<and> \<not> y_resolved (pd_symbols pd ! k)
       then (pd_symbols pd ! k)\<lparr>y_reladdr := a, y_resolved := True\<rparr> else pd_symbols pd ! k)" for k
    by (auto simp: resolve_label_def put_sym_def nth_list_update)
  have u: "?pd\<lparr>pd_symbols := ss\<rparr> = pd\<lparr>pd_symbols := ss\<rparr>" for ss
    by (simp add: resolve_label_def put_sym_def)
  show ?case
    using Cons.IH [of ?pd] Cons.prems by (auto simp: l u n intro!: arg_cong [where f = "\<lambda>ss. pd\<lparr>pd_symbols := ss\<rparr>"])
qed (simp add: map_nth)

lemma addr_of_Suc: "k < length (pd_top pd) \<Longrightarrow> addr_of pd (Suc k) = addr_of pd k + size_of (pd_top pd ! k)"
  by (simp add: addr_of_def take_Suc_conv_app_nth)

lemma fixup_addresses_from:
  assumes "labelled home pd"
  shows "j \<le> length (pd_top pd) \<Longrightarrow>
    fixup_addresses [j..<length (pd_top pd)] (addr_of pd j) (addressed home j pd) =
      addressed home (length (pd_top pd)) pd"
proof (induction "length (pd_top pd) - j" arbitrary: j)
  case (Suc n)
  then have j: "j < length (pd_top pd)" by simp
  have top: "pd_top (addressed home j pd) ! j = pd_top pd ! j" using j by (simp add: addressed_def)
  have step: "fixup_addresses [Suc j..<length (pd_top pd)] (addr_of pd (Suc j)) (addressed home (Suc j) pd) =
      addressed home (length (pd_top pd)) pd"
    using Suc by simp
  show ?case
  proof (cases "pd_top pd ! j")
    case None
    have "addressed home (Suc j) pd = addressed home j pd"
    proof -
      have "home l \<noteq> j" if "l < length (pd_symbols pd)" for l
        using labelledD(5) [OF assms that] None by metis
      then have "pd_symbols (addressed home (Suc j) pd) = pd_symbols (addressed home j pd)"
        by (auto simp: addressed_def less_Suc_eq)
      moreover have "pd_top (addressed home (Suc j) pd) = pd_top (addressed home j pd)"
        using None by (auto simp: addressed_def less_Suc_eq)
      ultimately show ?thesis by (simp add: addressed_def)
    qed
    then show ?thesis
      using step j None top by (simp add: upt_conv_Cons addr_of_Suc size_of_def)
  next
    case (Some e)
    have ls: "l \<in> set (el_symbol e) \<longleftrightarrow> l < length (pd_symbols pd) \<and> home l = j" for l
      using labelledD(6) [OF assms, of l e] labelledD(7) [OF assms j Some] Some by blast
    let ?pd = "put_elem j (\<lambda>e. e\<lparr>e_reladdr := addr_of pd j\<rparr>) (addressed home j pd)"
    let ?S = "map (\<lambda>l. if l \<in> set (el_symbol e) \<and> \<not> y_resolved (pd_symbols ?pd ! l)
      then (pd_symbols ?pd ! l)\<lparr>y_reladdr := addr_of pd j, y_resolved := True\<rparr> else pd_symbols ?pd ! l)
        [0..<length (pd_symbols ?pd)]"
    have syms: "pd_symbols ?pd = pd_symbols (addressed home j pd)" by (simp add: put_elem_def)
    have "set (el_symbol e) \<subseteq> {..<length (pd_symbols ?pd)}"
      by (auto simp: ls put_elem_def addressed_def)
    from fold_resolve_label [OF this]
    have f: "fold (resolve_label (addr_of pd j)) (el_symbol e) ?pd = ?pd\<lparr>pd_symbols := ?S\<rparr>" .
    have u: "\<not> y_resolved (pd_symbols pd ! l)" if "l < length (pd_symbols pd)" for l
      by (rule labelledD(2) [OF assms that])
    have S: "?S = pd_symbols (addressed home (Suc j) pd)"
      unfolding syms by (rule nth_equalityI) (auto simp: addressed_def ls less_Suc_eq u)
    have T: "pd_top ?pd = pd_top (addressed home (Suc j) pd)"
      using j Some by (intro nth_equalityI) (auto simp: put_elem_def addressed_def nth_list_update less_Suc_eq)
    have "?pd\<lparr>pd_symbols := ss\<rparr> = pd\<lparr>pd_top := pd_top ?pd, pd_symbols := ss\<rparr>" for ss
      by (simp add: put_elem_def addressed_def)
    then have "?pd\<lparr>pd_symbols := ?S\<rparr> = pd\<lparr>pd_top := pd_top ?pd, pd_symbols := ?S\<rparr>" .
    also have "\<dots> = pd\<lparr>pd_top := pd_top (addressed home (Suc j) pd), pd_symbols := pd_symbols (addressed home (Suc j) pd)\<rparr>"
      by (simp only: S T)
    also have "\<dots> = addressed home (Suc j) pd" by (simp add: addressed_def)
    finally have "?pd\<lparr>pd_symbols := ?S\<rparr> = addressed home (Suc j) pd" .
    note f [unfolded this]
    then show ?thesis
      using step j Some top by (simp add: upt_conv_Cons addr_of_Suc size_of_def)
  qed
qed simp

text \<open>The first pass leaves every element and label addressed, and the second finds nothing to do.\<close>

definition resolved :: "(nat \<Rightarrow> nat) \<Rightarrow> parse_data \<Rightarrow> parse_data" where
  "resolved home pd = addressed home (length (pd_top pd)) pd"

lemma resolved_simps [simp]:
  "length (pd_top (resolved home pd)) = length (pd_top pd)"
  "length (pd_symbols (resolved home pd)) = length (pd_symbols pd)"
  "pd_defexprs (resolved home pd) = pd_defexprs pd" "pd_globals (resolved home pd) = pd_globals pd"
  "k < length (pd_top pd) \<Longrightarrow> pd_top (resolved home pd) ! k =
     map_option (\<lambda>e. e\<lparr>e_reladdr := addr_of pd k\<rparr>) (pd_top pd ! k)"
  by (simp_all add: resolved_def addressed_def)

lemma resolved_symbol:
  "labelled home pd \<Longrightarrow> l < length (pd_symbols pd) \<Longrightarrow> pd_symbols (resolved home pd) ! l =
     (pd_symbols pd ! l)\<lparr>y_reladdr := addr_of pd (home l), y_resolved := True\<rparr>"
  using labelledD(4) by (simp add: resolved_def addressed_def)

lemma assembly_fixup_labelled:
  assumes "labelled home pd"
  shows "assembly_fixup_insns junk after pd = Some (Inr (resolved home pd))"
proof -
  let ?pd = "resolved home pd"
  have f: "fixup_addresses [0..<length (pd_top pd)] 0 pd = ?pd"
    using fixup_addresses_from [OF assms, of 0] by (simp add: resolved_def addr_of_def)
  have r: "y_resolved (pd_symbols ?pd ! l)" if "l < length (pd_symbols pd)" for l
    using resolved_symbol [OF assms that] by simp
  have ls: "foldO (resolve_set junk after) ls ?pd = Some (Inr ?pd)" if "\<forall>l\<in>set ls. l < length (pd_symbols pd)" for ls
    using that by (induction ls) (simp_all add: resolve_set_def r)
  have n: "\<forall>l\<in>set (y_next (pd_symbols ?pd ! li)). l < length (pd_symbols pd)" if "li < length (pd_symbols pd)" for li
    using labelledD(3) [OF assms that] by (simp add: resolved_symbol [OF assms that])
  have "foldO (\<lambda>li pd. foldO (resolve_set junk after) (li # y_next (pd_symbols pd ! li)) pd) ks ?pd = Some (Inr ?pd)"
    if "\<forall>k\<in>set ks. k < length (pd_symbols pd)" for ks
    using that
  proof (induction ks)
    case (Cons k ks)
    then have "foldO (resolve_set junk after) (k # y_next (pd_symbols ?pd ! k)) ?pd = Some (Inr ?pd)"
      using n by (intro ls) auto
    then show ?case using Cons by simp
  qed simp
  from this [of "sym_order (pd_symbols ?pd)"] show ?thesis
    by (simp add: assembly_fixup_insns_def f sym_order_def)
qed

subsection \<open>Symbols\<close>

lemma mark_globals_nth:
  "length (mark_globals gs ss) = length ss \<and> (\<forall>k<length ss.
     \<exists>g. mark_globals gs ss ! k = (ss ! k)\<lparr>y_global := g\<rparr>)"
proof (induction gs arbitrary: ss)
  case Nil
  have "ss ! k = (ss ! k)\<lparr>y_global := y_global (ss ! k)\<rparr>" for k by simp
  then show ?case by (metis mark_globals.simps(1))
next
  case (Cons g gs)
  show ?case
  proof (cases "symbol_find ss g")
    case (Some j)
    let ?ss = "ss[j := (ss ! j)\<lparr>y_global := True\<rparr>]"
    have "\<exists>h. mark_globals gs ?ss ! k = (ss ! k)\<lparr>y_global := h\<rparr>" if k: "k < length ss" for k
    proof -
      obtain h where "mark_globals gs ?ss ! k = (?ss ! k)\<lparr>y_global := h\<rparr>"
        using conjunct2 [OF Cons.IH, rule_format, of k ?ss] k by auto
      then show ?thesis using k by (cases "j = k") auto
    qed
    then show ?thesis using Some Cons.IH [of ?ss] by simp
  qed (use Cons.IH in simp)
qed

lemma mark_globals_fields:
  assumes "k < length ss"
  shows "y_name (mark_globals gs ss ! k) = y_name (ss ! k)" "y_ce (mark_globals gs ss ! k) = y_ce (ss ! k)"
    "y_reladdr (mark_globals gs ss ! k) = y_reladdr (ss ! k)" "y_unique (mark_globals gs ss ! k) = y_unique (ss ! k)"
    "y_resolved (mark_globals gs ss ! k) = y_resolved (ss ! k)"
  using conjunct2 [OF mark_globals_nth [of gs ss], rule_format, OF assms] by auto

lemma find_cong: "(\<And>x. x \<in> set xs \<Longrightarrow> P x = Q x) \<Longrightarrow> List.find P xs = List.find Q xs"
  by (induction xs) auto

lemma symbol_find_cong:
  "length ss = length ts \<Longrightarrow> (\<And>k. k < length ss \<Longrightarrow> y_name (ss ! k) = y_name (ts ! k)) \<Longrightarrow>
     symbol_find ss name = symbol_find ts name"
  unfolding symbol_find_def sym_order_def by (auto intro!: find_cong)

text \<open>Duplicates are found: the labels' names are all different exactly when the check passes.\<close>

lemma check_from_0:
  "check_from ss ks seen = 0 \<longleftrightarrow>
     distinct (map (\<lambda>k. y_name (ss ! k)) (filter (\<lambda>k. y_unique (ss ! k)) ks)) \<and>
     (\<forall>k\<in>set ks. y_unique (ss ! k) \<longrightarrow> y_name (ss ! k) \<notin> set seen)"
proof (induction ks arbitrary: seen)
  case (Cons k ks)
  show ?case
  proof (cases "y_unique (ss ! k) \<and> y_name (ss ! k) \<notin> set seen")
    case True
    then have "check_from ss (k # ks) seen = check_from ss ks (y_name (ss ! k) # seen)" by simp
    moreover have "check_from ss ks (y_name (ss ! k) # seen) = 0 \<longleftrightarrow>
        distinct (map (\<lambda>k. y_name (ss ! k)) (filter (\<lambda>k. y_unique (ss ! k)) ks)) \<and>
        (\<forall>j\<in>set ks. y_unique (ss ! j) \<longrightarrow> y_name (ss ! j) \<noteq> y_name (ss ! k) \<and> y_name (ss ! j) \<notin> set seen)"
      unfolding Cons.IH by simp
    ultimately show ?thesis using True by (auto simp del: check_from.simps simp: image_iff) 
  qed (use Cons.IH in auto)
qed simp

lemma check_symbols_0:
  "check_symbols ss = 0 \<longleftrightarrow> distinct (map y_name (filter y_unique ss))"
proof -
  have "map (\<lambda>k. y_name (ss ! k)) (filter (\<lambda>k. y_unique (ss ! k)) (sym_order ss)) =
      rev (map y_name (filter y_unique (map (\<lambda>k. ss ! k) [0..<length ss])))"
    by (simp add: sym_order_def rev_filter [symmetric] rev_map [symmetric] filter_map comp_def)
  then show ?thesis by (simp add: check_symbols_def check_from_0 map_nth)
qed

subsection \<open>Deferred expressions\<close>

lemma ce_free_refers:
  "\<forall>y\<in>set (pd_symbols pd). y_ce y = None \<Longrightarrow> refers (length (pd_symbols pd)) e \<Longrightarrow>
     value_of rho dot e = Inr v \<Longrightarrow> ce_free pd e = Some (Inr pd)"
proof (induction e arbitrary: v)
  case (CE_OP2 h f l r)
  then show ?case by (subst ce_free.simps) (auto simp: bindE_eq_Inr)
next
  case (CE_OP1 h f l)
  then show ?case by (subst ce_free.simps) (auto simp: bindE_eq_Inr)
next
  case (CE_REF h t s buf)
  then have "sym_ce pd s = None" by (cases s) (simp_all add: sym_ce_def)
  then show ?case by (subst ce_free.simps) simp
qed (subst ce_free.simps, simp add: sym_ce_def)+

text \<open>The value of a deferred expression, whether it fits, and the words once all are in place.\<close>

definition deferred_value :: "parse_data \<Rightarrow> deferred_expr \<Rightarrow> u32 res" where
  "deferred_value pd r = value_of (name_value pd)
     (case ce_insn (head (d_ce r)) of Some k \<Rightarrow> elem_reladdr pd k | None \<Rightarrow> 0) (d_ce r)"

definition field_value :: "(deferred_expr \<Rightarrow> u32) \<Rightarrow> deferred_expr \<Rightarrow> u32" where
  "field_value v r = v r * d_mult r"

definition fits :: "(deferred_expr \<Rightarrow> u32) \<Rightarrow> deferred_expr \<Rightarrow> bool" where
  "fits v r \<longleftrightarrow> bit (ce_flags (head (d_ce r))) 1 \<or> field_value v r = SEXTEND32 (d_width r) (field_value v r)"

fun fixed_word :: "(deferred_expr \<Rightarrow> u32) \<Rightarrow> deferred_expr list \<Rightarrow> nat \<Rightarrow> u32 \<Rightarrow> u32" where
  "fixed_word v [] k w = w"
| "fixed_word v (r # rs) k w =
     fixed_word v rs k (if d_dest r = k then put_field (d_width r) (field_value v r) w else w)"

definition with_words :: "(nat \<Rightarrow> u32 \<Rightarrow> u32) \<Rightarrow> parse_data \<Rightarrow> parse_data" where
  "with_words g pd = pd\<lparr>pd_top := map (\<lambda>k. map_option (\<lambda>e. e\<lparr>e_word := g k (e_word e)\<rparr>) (pd_top pd ! k))
     [0..<length (pd_top pd)]\<rparr>"

lemma with_words_simps [simp]:
  "pd_symbols (with_words g pd) = pd_symbols pd" "pd_defexprs (with_words g pd) = pd_defexprs pd"
  "length (pd_top (with_words g pd)) = length (pd_top pd)"
  "k < length (pd_top pd) \<Longrightarrow> pd_top (with_words g pd) ! k = map_option (\<lambda>e. e\<lparr>e_word := g k (e_word e)\<rparr>) (pd_top pd ! k)"
  by (simp_all add: with_words_def)

lemma with_words_comp: "with_words g (with_words h pd) = with_words (\<lambda>k w. g k (h k w)) pd"
  by (auto simp: with_words_def option.map_comp comp_def)

lemma with_words_id: "with_words (\<lambda>k w. w) pd = pd"
  by (simp add: with_words_def map_nth option.map_ident)

lemma with_words_relocs: "with_words g (pd\<lparr>pd_relocs := rs\<rparr>) = (with_words g pd)\<lparr>pd_relocs := rs\<rparr>"
  by (simp add: with_words_def)

lemma put_elem_word:
  "k < length (pd_top pd) \<Longrightarrow> put_elem k (\<lambda>e. e\<lparr>e_word := g (e_word e)\<rparr>) pd =
     with_words (\<lambda>j w. if j = k then g w else w) pd"
proof -
  assume "k < length (pd_top pd)"
  then have "(pd_top pd)[k := map_option (\<lambda>e. e\<lparr>e_word := g (e_word e)\<rparr>) (pd_top pd ! k)] =
      map (\<lambda>j. map_option (\<lambda>e. e\<lparr>e_word := if j = k then g (e_word e) else e_word e\<rparr>) (pd_top pd ! j))
        [0..<length (pd_top pd)]"
    by (intro nth_equalityI) (auto simp: nth_list_update option.map_ident)
  then show ?thesis by (simp add: put_elem_def with_words_def)
qed

lemma deferred_value_cong:
  assumes "pd_symbols pd' = pd_symbols pd" and "elem_reladdr pd' = elem_reladdr pd"
  shows "deferred_value pd' = deferred_value pd"
proof -
  have n: "name_value pd' = name_value pd"
    by (simp add: fun_eq_iff name_value_def ref_name_def assms(1) split: option.split)
  show ?thesis by (rule ext) (simp only: deferred_value_def assms(2) n)
qed

lemma elem_reladdr_with_words [simp]: "elem_reladdr (with_words g pd) = elem_reladdr pd"
proof
  fix k show "elem_reladdr (with_words g pd) k = elem_reladdr pd k"
    by (cases "k < length (pd_top pd)"; cases "pd_top pd ! k") (simp_all add: elem_reladdr_def)
qed

lemma fixup_one:
  assumes "\<forall>y\<in>set (pd_symbols pd). y_ce y = None" and "refers (length (pd_symbols pd)) (d_ce r)"
    and "deferred_value pd r = Inr (v r)" and "d_dest r < length (pd_top pd)"
  shows "\<exists>rl. fixup_deferred_expr junk after r (rc, pd) = Some (Inr (if fits v r then rc else 1,
    (with_words (\<lambda>j w. if j = d_dest r then put_field (d_width r) (field_value v r) w else w) pd)\<lparr>pd_relocs := rl\<rparr>))"
proof -
  let ?c = "ce_insn (head (d_ce r))"
  have val: "value_of (name_value pd) (case ?c of Some k \<Rightarrow> elem_reladdr pd k | None \<Rightarrow> 0) (d_ce r) = Inr (v r)"
    using assms(3) by (simp add: deferred_value_def)
  obtain rs where m: "means after pd (d_width r) ?c False (d_ce r) (v r) rs"
    using means_value_of [OF assms(1,2) val] by blast
  have "pd\<lparr>pd_relocs := pd_relocs pd\<rparr> = pd" by simp
  then have ev: "ce_eval junk after pd ?c (d_ce r) DO_RELOCATION (d_width r) junk =
      Some (Inr (1, v r, pd\<lparr>pd_relocs := rs @ pd_relocs pd\<rparr>))"
    using ce_eval_means [OF m, of junk "pd_relocs pd" junk] by (simp add: reloc_flags_False)
  let ?pd = "pd\<lparr>pd_relocs := rs @ pd_relocs pd\<rparr>"
  have free: "ce_free pd' (d_ce r) = Some (Inr pd')" if "pd_symbols pd' = pd_symbols pd" for pd'
    using assms(1,2) val that by (intro ce_free_refers) simp_all
  have "put_elem (d_dest r) (\<lambda>e. e\<lparr>e_word := put_field (d_width r) (field_value v r) (e_word e)\<rparr>) ?pd =
      with_words (\<lambda>j w. if j = d_dest r then put_field (d_width r) (field_value v r) w else w) ?pd"
    using assms(4) by (intro put_elem_word) simp
  then show ?thesis
    by (auto simp: fixup_deferred_expr_def ev Let_def fits_def with_words_relocs field_value_def free)
qed

lemma fixup_loop:
  assumes "\<forall>y\<in>set (pd_symbols pd). y_ce y = None"
    and "\<forall>r\<in>set rs. refers (length (pd_symbols pd)) (d_ce r) \<and> deferred_value pd r = Inr (v r) \<and> d_dest r < length (pd_top pd)"
  shows "\<exists>rl. foldO (fixup_deferred_expr junk after) rs (rc, pd) = Some (Inr
    (if \<forall>r\<in>set rs. fits v r then rc else 1, (with_words (fixed_word v rs) pd)\<lparr>pd_relocs := rl\<rparr>))"
  using assms
proof (induction rs arbitrary: rc pd)
  case Nil
  have "fixed_word v [] = (\<lambda>k w. w)" by (simp add: fun_eq_iff)
  then show ?case by (intro exI [of _ "pd_relocs pd"]) (simp add: with_words_id)
next
  case (Cons r rs)
  let ?g = "\<lambda>j w. if j = d_dest r then put_field (d_width r) (field_value v r) w else w"
  have r: "refers (length (pd_symbols pd)) (d_ce r)" "deferred_value pd r = Inr (v r)" "d_dest r < length (pd_top pd)"
    using Cons.prems(2) by simp_all
  obtain rl where one: "fixup_deferred_expr junk after r (rc, pd) =
      Some (Inr (if fits v r then rc else 1, (with_words ?g pd)\<lparr>pd_relocs := rl\<rparr>))"
    using fixup_one [where v = v, OF Cons.prems(1) r] by blast
  let ?pd = "(with_words ?g pd)\<lparr>pd_relocs := rl\<rparr>"
  have d: "deferred_value ?pd = deferred_value pd" by (rule deferred_value_cong) simp_all
  have "\<forall>r\<in>set rs. refers (length (pd_symbols ?pd)) (d_ce r) \<and> deferred_value ?pd r = Inr (v r) \<and> d_dest r < length (pd_top ?pd)"
    using Cons.prems(2) by (simp add: d)
  moreover have "\<forall>y\<in>set (pd_symbols ?pd). y_ce y = None" using Cons.prems(1) by simp
  ultimately have "\<exists>rl'. foldO (fixup_deferred_expr junk after) rs (if fits v r then rc else 1, ?pd) =
      Some (Inr (if \<forall>r\<in>set rs. fits v r then (if fits v r then rc else 1) else 1,
        (with_words (fixed_word v rs) ?pd)\<lparr>pd_relocs := rl'\<rparr>))"
    by (rule Cons.IH [rotated])
  then obtain rl' where rest: "foldO (fixup_deferred_expr junk after) rs (if fits v r then rc else 1, ?pd) =
      Some (Inr (if \<forall>r\<in>set rs. fits v r then (if fits v r then rc else 1) else 1,
        (with_words (fixed_word v rs) ?pd)\<lparr>pd_relocs := rl'\<rparr>))"
    by blast
  have "(\<lambda>k w. fixed_word v rs k (?g k w)) = fixed_word v (r # rs)" by (auto simp: fun_eq_iff)
  then have "with_words (fixed_word v rs) (with_words ?g pd) = with_words (fixed_word v (r # rs)) pd"
    by (simp only: with_words_comp)
  then have "(with_words (fixed_word v rs) ?pd)\<lparr>pd_relocs := rl'\<rparr> = (with_words (fixed_word v (r # rs)) pd)\<lparr>pd_relocs := rl'\<rparr>"
    by (simp add: with_words_relocs)
  with one rest show ?case by (intro exI [of _ rl']) (auto simp del: fixed_word.simps)
qed

section \<open>Symbols defined by .set\<close>

text \<open>
  The first deferred expression that mentions such a symbol gets the value of the symbol's
  expression at the place of the definition.  The expression is then freed and the symbol forgets
  it, so that a second one gets the value that the first pass stored, and the symbol is no longer
  exported as absolute.
\<close>

lemma forget_name: "y_name (ss[k := (ss ! k)\<lparr>y_ce := x\<rparr>] ! j) = y_name (ss ! j)"
  by (cases "j = k"; cases "k < length ss") (simp_all add: list_update_beyond)

lemma sym_ce_clear: "k < length (pd_symbols pd) \<Longrightarrow> sym_ce (clear_ce k pd) (Some k) = None"
  by (simp add: sym_ce_def clear_ce_def)

lemma put_field_32 [simp]: "put_field 32 v w = v"
proof -
  have "push_bit 32 (- 1 :: u32) = 0" by (rule bit_word_eqI) (simp add: bit_simps)
  then show ?thesis by (simp add: put_field_def Let_def)
qed

text \<open>A use of symbol \<open>k\<close>, as a whole word.\<close>

definition uses :: "nat \<Rightarrow> deferred_expr \<Rightarrow> bool" where
  "uses k r \<longleftrightarrow> (\<exists>h buf. d_ce r = CE_REF h CE_EXT (Some k) buf) \<and> d_width r = 32 \<and> d_mult r = 1"

lemma fixup_uses:
  assumes u: "uses k r" and k: "k < length (pd_symbols pd)" and d: "d_dest r < length (pd_top pd)"
    and ev: "means after pd 32 ctx False (d_ce r) v rs" and ctx: "ctx = ce_insn (head (d_ce r))"
    and free: "ce_free (put_elem (d_dest r) (\<lambda>e. e\<lparr>e_word := v\<rparr>) (pd\<lparr>pd_relocs := rs @ pd_relocs pd\<rparr>)) (d_ce r) =
      Some (Inr pd')"
  shows "fixup_deferred_expr junk after r (rc, pd) = Some (Inr (rc, pd'))"
proof -
  have "pd\<lparr>pd_relocs := pd_relocs pd\<rparr> = pd" by simp
  then have "ce_eval junk after pd ctx (d_ce r) DO_RELOCATION 32 junk =
      Some (Inr (1, v, pd\<lparr>pd_relocs := rs @ pd_relocs pd\<rparr>))"
    using ce_eval_means [OF ev, of junk "pd_relocs pd" junk] by (simp add: reloc_flags_False)
  moreover have "SEXTEND32 32 v = v" by (simp add: SEXTEND32_def)
  ultimately show ?thesis
    using u free by (simp add: fixup_deferred_expr_def uses_def ctx Let_def)
qed

lemma set_first_use:
  assumes u: "uses k r" and k: "k < length (pd_symbols pd)" and d: "d_dest r < length (pd_top pd)"
    and c: "y_ce (pd_symbols pd ! k) = Some c" "ce_deferred (head c) = Some j" "j < length (pd_top pd)"
    and m: "means after pd 32 (elem_at pd j) False c v rs" and n: "by_name c"
  shows "\<exists>rl. fixup_deferred_expr junk after r (rc, pd) = Some (Inr (rc,
    clear_ce k (put_elem (d_dest r) (\<lambda>e. e\<lparr>e_word := v\<rparr>) (pd\<lparr>pd_relocs := rl\<rparr>))))"
proof -
  obtain h buf where r: "d_ce r = CE_REF h CE_EXT (Some k) buf" using u by (auto simp: uses_def)
  have s: "sym_ce pd (Some k) = Some c" using c by (simp add: sym_ce_def)
  have m': "means after pd 32 (ce_insn (head (d_ce r))) False (d_ce r) v rs"
    unfolding r by (rule means_set [OF s c(2,3) m])
  let ?pd = "put_elem (d_dest r) (\<lambda>e. e\<lparr>e_word := v\<rparr>) (pd\<lparr>pd_relocs := rs @ pd_relocs pd\<rparr>)"
  have s': "sym_ce ?pd (Some k) = Some c" using c by (simp add: sym_ce_def put_elem_def)
  have "by_name e \<Longrightarrow> means after pd w x neg e v' rs' \<Longrightarrow> ce_free pd'' e = Some (Inr pd'')" for e w x neg v' rs' pd''
  proof (induction e arbitrary: x neg v' rs')
    case (CE_OP2 h f l r)
    then show ?case by (subst ce_free.simps) (auto elim: means_op2E)
  next
    case (CE_OP1 h f l)
    then show ?case by (subst ce_free.simps) (auto simp: means_simps)
  next
    case (CE_BAD h)
    then show ?case by (auto elim: means.cases)
  qed (subst ce_free.simps, simp add: sym_ce_def)+
  then have "ce_free ?pd (d_ce r) = Some (Inr (clear_ce k ?pd))"
    unfolding r using n m s' by (subst ce_free.simps) simp
  from fixup_uses [OF u k d m' refl this] show ?thesis by blast
qed

lemma set_later_use:
  assumes u: "uses k r" and k: "k < length (pd_symbols pd)" and d: "d_dest r < length (pd_top pd)"
    and c: "y_ce (pd_symbols pd ! k) = None"
    and f: "symbol_find (pd_symbols pd) (y_name (pd_symbols pd ! k)) = Some k"
  shows "\<exists>rl. fixup_deferred_expr junk after r (rc, pd) = Some (Inr (rc,
    put_elem (d_dest r) (\<lambda>e. e\<lparr>e_word := y_reladdr (pd_symbols pd ! k)\<rparr>) (pd\<lparr>pd_relocs := rl\<rparr>)))"
proof -
  obtain h buf where r: "d_ce r = CE_REF h CE_EXT (Some k) buf" using u by (auto simp: uses_def)
  have s: "sym_ce pd (Some k) = None" using c by (simp add: sym_ce_def)
  have "symbol_find (pd_symbols pd) (ref_name pd (Some k) buf) = Some k" using f by (simp add: ref_name_def)
  note m = means_label [OF s this c, of after 32 "ce_insn (head (d_ce r))" False h CE_EXT, folded r]
  have "sym_ce (put_elem (d_dest r) g (pd\<lparr>pd_relocs := rl\<rparr>)) (Some k) = None" for g rl
    using c by (simp add: sym_ce_def put_elem_def)
  then have "ce_free (put_elem (d_dest r) g (pd\<lparr>pd_relocs := rl\<rparr>)) (d_ce r) =
      Some (Inr (put_elem (d_dest r) g (pd\<lparr>pd_relocs := rl\<rparr>)))" for g rl
    unfolding r by (subst ce_free.simps) simp
  from fixup_uses [OF u k d m refl this] show ?thesis by blast
qed

text \<open>Two uses of one symbol, and what the first costs the symbol.\<close>

lemma set_two_uses:
  assumes u: "uses k r" "uses k r'" and k: "k < length (pd_symbols pd)"
    and d: "d_dest r < length (pd_top pd)" "d_dest r' < length (pd_top pd)" "d_dest r \<noteq> d_dest r'"
      "pd_top pd ! d_dest r \<noteq> None" "pd_top pd ! d_dest r' \<noteq> None"
    and c: "y_ce (pd_symbols pd ! k) = Some c" "ce_deferred (head c) = Some j" "j < length (pd_top pd)"
    and m: "means after pd 32 (elem_at pd j) False c v rs" and n: "by_name c"
    and f: "symbol_find (pd_symbols pd) (y_name (pd_symbols pd ! k)) = Some k"
  shows "\<exists>pd'. foldO (fixup_deferred_expr junk after) [r, r'] (0, pd) = Some (Inr (0, pd')) \<and>
    map_option e_word (pd_top pd' ! d_dest r) = Some v \<and>
    map_option e_word (pd_top pd' ! d_dest r') = Some (y_reladdr (pd_symbols pd ! k)) \<and>
    sym_flags_of (pd_symbols pd' ! k) = 0"
proof -
  obtain rl where one: "fixup_deferred_expr junk after r (0, pd) = Some (Inr (0,
      clear_ce k (put_elem (d_dest r) (\<lambda>e. e\<lparr>e_word := v\<rparr>) (pd\<lparr>pd_relocs := rl\<rparr>))))"
    using set_first_use [OF u(1) k d(1) c m n] by blast
  let ?pd = "clear_ce k (put_elem (d_dest r) (\<lambda>e. e\<lparr>e_word := v\<rparr>) (pd\<lparr>pd_relocs := rl\<rparr>))"
  have s: "pd_symbols ?pd = (pd_symbols pd)[k := (pd_symbols pd ! k)\<lparr>y_ce := None\<rparr>]"
    "length (pd_top ?pd) = length (pd_top pd)"
    by (simp_all add: clear_ce_def put_elem_def)
  have "symbol_find (pd_symbols ?pd) name = symbol_find (pd_symbols pd) name" for name
    by (rule symbol_find_cong) (simp_all add: s forget_name)
  then have p: "k < length (pd_symbols ?pd)" "y_ce (pd_symbols ?pd ! k) = None"
    "symbol_find (pd_symbols ?pd) (y_name (pd_symbols ?pd ! k)) = Some k"
    "y_reladdr (pd_symbols ?pd ! k) = y_reladdr (pd_symbols pd ! k)"
    using k f by (simp_all add: s(1))
  obtain rl' where two: "fixup_deferred_expr junk after r' (0, ?pd) = Some (Inr (0,
      put_elem (d_dest r') (\<lambda>e. e\<lparr>e_word := y_reladdr (pd_symbols pd ! k)\<rparr>) (?pd\<lparr>pd_relocs := rl'\<rparr>)))"
    using set_later_use [OF u(2) p(1) _ p(2,3), of junk after 0] d(2) s(2) p(4) by auto
  let ?pd' = "put_elem (d_dest r') (\<lambda>e. e\<lparr>e_word := y_reladdr (pd_symbols pd ! k)\<rparr>) (?pd\<lparr>pd_relocs := rl'\<rparr>)"
  have "foldO (fixup_deferred_expr junk after) [r, r'] (0, pd) = Some (Inr (0, ?pd'))"
    using one two by simp
  moreover have "map_option e_word (pd_top ?pd' ! d_dest r) = Some v"
    "map_option e_word (pd_top ?pd' ! d_dest r') = Some (y_reladdr (pd_symbols pd ! k))"
    "sym_flags_of (pd_symbols ?pd' ! k) = 0"
    using d k by (auto simp: put_elem_def clear_ce_def nth_list_update sym_flags_of_def)
  ultimately show ?thesis by blast
qed

text \<open>What the first pass stores for a symbol that was set to the current place: 0.\<close>

lemma resolve_set_dot:
  assumes "l < length (pd_symbols pd)" and "\<not> y_resolved (pd_symbols pd ! l)"
    and "y_ce (pd_symbols pd ! l) = Some (CE_ICI h)"
  shows "\<exists>pd'. resolve_set junk after l pd = Some (Inr pd') \<and> y_reladdr (pd_symbols pd' ! l) = 0 \<and>
    y_resolved (pd_symbols pd' ! l)"
proof -
  have "pd\<lparr>pd_relocs := pd_relocs pd\<rparr> = pd" by simp
  then have "ce_eval junk after pd None (CE_ICI h) DO_RELOCATION 32 x =
      Some (Inr (1, 0, pd\<lparr>pd_relocs := [reloc_for unnamed 32 False None] @ pd_relocs pd\<rparr>))" for x
    using ce_eval_means [OF means_ici [of after pd 32 None False h], of junk "pd_relocs pd" x]
    by (simp add: reloc_flags_False)
  then show ?thesis
    using assms by (simp add: resolve_set_def put_sym_def Let_def)
qed

end
