(* ===== verification/Search.thy ===== *)
theory Search
  imports Prelude "HOL-Library.Multiset"
begin

text \<open>
  Searching and sorting through comparison functions: the linear searches of
  \<^verbatim>\<open>ui/web/src/emlsearch.c\<close>, the binary search of \<^verbatim>\<open>bench/bsearch.c\<close> and the quicksort of
  \<^verbatim>\<open>bench/qsort.c\<close>, and the contracts of the C library's \<open>bsearch\<close> and \<open>qsort\<close> as the locale
  \<open>libc_search\<close>, the interface of the device table of \<open>src/simif.c\<close>.

  An array of \<open>nel\<close> objects is the list of its objects; a pointer into it is an index.  A
  comparison function takes the two objects and yields the C \<open>int\<close>.
\<close>

section \<open>Linear search\<close>

text \<open>\<open>where\<close> advances while it is before the end and the comparison is not 0.\<close>

fun lfind_from :: "('k \<Rightarrow> 'a \<Rightarrow> int) \<Rightarrow> 'k \<Rightarrow> 'a list \<Rightarrow> nat \<Rightarrow> nat" where
  "lfind_from compar key [] i = i"
| "lfind_from compar key (x # xs) i =
     (if compar key x \<noteq> 0 then lfind_from compar key xs (Suc i) else i)"

definition lfind :: "('k \<Rightarrow> 'a \<Rightarrow> int) \<Rightarrow> 'k \<Rightarrow> 'a list \<Rightarrow> nat option" where
  "lfind compar key base =
     (let i = lfind_from compar key base 0 in if i < length base then Some i else None)"

text \<open>\<open>lsearch\<close> appends the key when it is not found; the result is the index and the array.\<close>

definition lsearch :: "('a \<Rightarrow> 'a \<Rightarrow> int) \<Rightarrow> 'a \<Rightarrow> 'a list \<Rightarrow> nat \<times> 'a list" where
  "lsearch compar key base =
     (case lfind compar key base of
        Some i \<Rightarrow> (i, base)
      | None \<Rightarrow> (length base, base @ [key]))"

lemma lfind_from_bounds: "i \<le> lfind_from compar key xs i \<and> lfind_from compar key xs i \<le> i + length xs"
proof (induction xs arbitrary: i)
  case (Cons x xs)
  show ?case using Cons [of "Suc i"] by auto
qed simp

lemma lfind_from_less:
  assumes "lfind_from compar key xs i < i + length xs"
  shows "compar key (xs ! (lfind_from compar key xs i - i)) = 0"
  using assms
proof (induction xs arbitrary: i)
  case (Cons x xs)
  show ?case
  proof (cases "compar key x = 0")
    case False
    then have "lfind_from compar key (x # xs) i = lfind_from compar key xs (Suc i)" by simp
    moreover have "Suc i \<le> lfind_from compar key xs (Suc i)" by (rule lfind_from_bounds [THEN conjunct1])
    ultimately show ?thesis
      using Cons.IH [of "Suc i"] Cons.prems by (simp add: nth_Cons' Suc_diff_le)
  qed simp
qed simp

lemma lfind_from_skip:
  "j < lfind_from compar key xs i - i \<Longrightarrow> j < length xs \<Longrightarrow> compar key (xs ! j) \<noteq> 0"
proof (induction xs arbitrary: i j)
  case (Cons x xs)
  show ?case
  proof (cases "compar key x = 0")
    case False
    then show ?thesis
      using Cons.prems Cons.IH [of "j - 1" "Suc i"] by (cases j) auto
  qed (use Cons.prems in simp)
qed simp

lemma lfind_Some_iff:
  "lfind compar key xs = Some i \<longleftrightarrow>
     i < length xs \<and> compar key (xs ! i) = 0 \<and> (\<forall>j<i. compar key (xs ! j) \<noteq> 0)"
proof
  assume "lfind compar key xs = Some i"
  then have i: "lfind_from compar key xs 0 = i" "i < length xs"
    by (auto simp: lfind_def Let_def split: if_splits)
  then show "i < length xs \<and> compar key (xs ! i) = 0 \<and> (\<forall>j<i. compar key (xs ! j) \<noteq> 0)"
    using lfind_from_less [of compar key xs 0] lfind_from_skip [of _ compar key xs 0] by auto
next
  assume r: "i < length xs \<and> compar key (xs ! i) = 0 \<and> (\<forall>j<i. compar key (xs ! j) \<noteq> 0)"
  let ?k = "lfind_from compar key xs 0"
  have "\<not> i < ?k" using r lfind_from_skip [of i compar key xs 0] by auto
  moreover have "\<not> ?k < i" using r lfind_from_less [of compar key xs 0] by auto
  ultimately show "lfind compar key xs = Some i" using r by (simp add: lfind_def)
qed

lemma lfind_None_iff: "lfind compar key xs = None \<longleftrightarrow> (\<forall>x\<in>set xs. compar key x \<noteq> 0)"
proof
  assume "lfind compar key xs = None"
  then have "\<not> lfind_from compar key xs 0 < length xs"
    by (auto simp: lfind_def Let_def split: if_splits)
  then show "\<forall>x\<in>set xs. compar key x \<noteq> 0"
    using lfind_from_skip [of _ compar key xs 0] by (fastforce simp: in_set_conv_nth)
next
  assume a: "\<forall>x\<in>set xs. compar key x \<noteq> 0"
  show "lfind compar key xs = None"
  proof (cases "lfind compar key xs")
    case (Some i)
    then have "i < length xs \<and> compar key (xs ! i) = 0" by (simp add: lfind_Some_iff)
    with a show ?thesis by (auto dest: nth_mem)
  qed
qed

section \<open>Quicksort (bench/qsort.c)\<close>

definition swap :: "'a list \<Rightarrow> nat \<Rightarrow> nat \<Rightarrow> 'a list" where
  "swap base i0 i1 = (let temp = base ! i0; base = base[i0 := base ! i1] in base[i1 := temp])"

text \<open>The partition loop: \<open>i\<close> runs to the pivot at \<open>li\<close>, \<open>si\<close> is the store index.\<close>

function part_loop :: "('a \<Rightarrow> 'a \<Rightarrow> int) \<Rightarrow> 'a list \<Rightarrow> nat \<Rightarrow> nat \<Rightarrow> nat \<Rightarrow> 'a list \<times> nat" where
  "part_loop compar xs li i si =
     (if i < li then
        (if compar (xs ! i) (xs ! li) < 0
         then part_loop compar (swap xs i si) li (Suc i) (Suc si)
         else part_loop compar xs li (Suc i) si)
      else (xs, si))"
  by pat_completeness auto
termination
  by (relation "measure (\<lambda>(compar, xs, li, i, si). li - i)") auto

declare part_loop.simps [simp del]

text \<open>One level: the pivot goes to the end, the loop runs, the pivot goes to its place.\<close>

definition partition_at :: "('a \<Rightarrow> 'a \<Rightarrow> int) \<Rightarrow> 'a list \<Rightarrow> 'a list \<times> nat" where
  "partition_at compar xs =
     (let nel = length xs;
          pi = nel div 2;
          li = nel - 1;
          (ys, si) = part_loop compar (swap xs pi li) li 0 0
      in (swap ys si li, si))"

lemma length_swap [simp]: "length (swap base i0 i1) = length base"
  unfolding swap_def Let_def by simp

lemma mset_swap' [simp]:
  assumes "i1 < length base" "i0 < length base"
  shows "mset (swap base i0 i1) = mset base"
  using assms unfolding swap_def Let_def by (intro mset_swap)

lemma nth_swap:
  assumes "i0 < length base" and "i1 < length base"
  shows "swap base i0 i1 ! k =
    (if k = i1 then base ! i0 else if k = i0 then base ! i1 else base ! k)"
  using assms unfolding swap_def Let_def by (simp add: nth_list_update)

text \<open>What the loop keeps: below \<open>si\<close> less than the pivot, from \<open>si\<close> to \<open>i\<close> not less.\<close>

definition part_inv :: "('a \<Rightarrow> 'a \<Rightarrow> int) \<Rightarrow> 'a \<Rightarrow> 'a list \<Rightarrow> nat \<Rightarrow> nat \<Rightarrow> nat \<Rightarrow> bool" where
  "part_inv compar pv xs li i si \<longleftrightarrow>
     li < length xs \<and> si \<le> i \<and> i \<le> li \<and> xs ! li = pv \<and>
     (\<forall>k < si. compar (xs ! k) pv < 0) \<and> (\<forall>k. si \<le> k \<longrightarrow> k < i \<longrightarrow> \<not> compar (xs ! k) pv < 0)"

lemma part_inv_step:
  assumes "part_inv compar pv xs li i si" and "i < li"
  shows "compar (xs ! i) (xs ! li) < 0 \<Longrightarrow> part_inv compar pv (swap xs i si) li (Suc i) (Suc si)"
    and "\<not> compar (xs ! i) (xs ! li) < 0 \<Longrightarrow> part_inv compar pv xs li (Suc i) si"
  using assms by (auto simp: part_inv_def nth_swap less_Suc_eq)

lemma part_loop_correct:
  assumes "part_inv compar pv xs li i si" and "part_loop compar xs li i si = (ys, sj)"
  shows "mset ys = mset xs \<and> part_inv compar pv ys li li sj"
  using assms
proof (induction compar xs li i si rule: part_loop.induct)
  case (1 compar xs li i si)
  show ?case
  proof (cases "i < li")
    case True
    have b: "i < length xs" "si < length xs"
      using "1.prems"(1) True by (auto simp: part_inv_def)
    show ?thesis
    proof (cases "compar (xs ! i) (xs ! li) < 0")
      case True
      then show ?thesis
        using "1.IH"(1) "1.prems" \<open>i < li\<close> b part_inv_step(1) [OF "1.prems"(1) \<open>i < li\<close>]
        by (simp add: part_loop.simps [of compar xs li i si])
    next
      case False
      then show ?thesis
        using "1.IH"(2) "1.prems" \<open>i < li\<close> part_inv_step(2) [OF "1.prems"(1) \<open>i < li\<close>]
        by (simp add: part_loop.simps [of compar xs li i si])
    qed
  next
    case False
    then have "i = li" using "1.prems"(1) by (simp add: part_inv_def)
    then show ?thesis using "1.prems" by (simp add: part_loop.simps [of compar xs li li si])
  qed
qed

lemma partition_at_correct:
  assumes "2 \<le> length xs" and "partition_at compar xs = (ys, si)"
  shows "mset ys = mset xs" and "si < length xs" and "length ys = length xs"
    and "\<forall>k < si. compar (ys ! k) (ys ! si) < 0"
    and "\<forall>k. si < k \<longrightarrow> k < length xs \<longrightarrow> \<not> compar (ys ! k) (ys ! si) < 0"
proof -
  let ?li = "length xs - 1" and ?zs = "swap xs (length xs div 2) (length xs - 1)"
  obtain zs sj where loop: "part_loop compar ?zs ?li 0 0 = (zs, sj)" by fastforce
  have ys: "ys = swap zs sj ?li" "si = sj"
    using assms(2) loop by (auto simp: partition_at_def Let_def)
  have len: "length xs div 2 < length xs" "?li < length xs" using assms(1) by auto
  have "part_inv compar (?zs ! ?li) ?zs ?li 0 0"
    using len by (simp add: part_inv_def)
  from part_loop_correct [OF this loop]
  have m: "mset zs = mset xs" and inv: "part_inv compar (?zs ! ?li) zs ?li ?li sj"
    using len by auto
  have lz: "length zs = length xs" using m by (metis size_mset)
  have sj: "sj \<le> ?li" "sj < length zs" "?li < length zs"
    using inv len lz by (auto simp: part_inv_def)
  show "mset ys = mset xs" "si < length xs" "length ys = length xs"
    using ys m sj lz by auto
  have piv: "ys ! si = ?zs ! ?li" using ys sj inv by (simp add: nth_swap part_inv_def)
  show "\<forall>k < si. compar (ys ! k) (ys ! si) < 0"
    using inv sj unfolding piv by (auto simp: ys nth_swap part_inv_def)
  show "\<forall>k. si < k \<longrightarrow> k < length xs \<longrightarrow> \<not> compar (ys ! k) (ys ! si) < 0"
  proof (intro allI impI)
    fix k assume k: "si < k" "k < length xs"
    then have "ys ! k = (if k = ?li then zs ! sj else zs ! k)" "sj < ?li"
      using ys sj by (auto simp: nth_swap)
    then show "\<not> compar (ys ! k) (ys ! si) < 0"
      using inv k ys(2) unfolding piv part_inv_def by (cases "k = ?li") auto
  qed
qed

function quicksort :: "('a \<Rightarrow> 'a \<Rightarrow> int) \<Rightarrow> 'a list \<Rightarrow> 'a list" where
  "quicksort compar xs =
     (if length xs < 2 then xs
      else let (ys, pi) = partition_at compar xs in
           quicksort compar (take pi ys) @ [ys ! pi] @ quicksort compar (drop (pi + 1) ys))"
  by pat_completeness auto
termination
proof (relation "measure (\<lambda>(compar, xs). length xs)", goal_cases)
  case (2 compar xs p ys pi)
  then have "2 \<le> length xs" "partition_at compar xs = (ys, pi)" by auto
  from partition_at_correct(2,3) [OF this] show ?case by simp
next
  case (3 compar xs p ys pi)
  then have "2 \<le> length xs" "partition_at compar xs = (ys, pi)" by auto
  from partition_at_correct(2,3) [OF this] show ?case by simp
qed simp

declare quicksort.simps [simp del]

text \<open>The comparisons \<open>qsort\<close> accepts: a total preorder on the objects of the array.\<close>

definition preorder_on :: "'a set \<Rightarrow> ('a \<Rightarrow> 'a \<Rightarrow> int) \<Rightarrow> bool" where
  "preorder_on A compar \<longleftrightarrow>
     (\<forall>a\<in>A. \<forall>b\<in>A. compar a b < 0 \<longleftrightarrow> compar b a > 0) \<and>
     (\<forall>a\<in>A. \<forall>b\<in>A. \<forall>c\<in>A. compar a b \<le> 0 \<longrightarrow> compar b c \<le> 0 \<longrightarrow> compar a c \<le> 0)"

lemma preorder_on_subset: "preorder_on A compar \<Longrightarrow> B \<subseteq> A \<Longrightarrow> preorder_on B compar"
  unfolding preorder_on_def by (meson subsetD)

lemma quicksort_mset: "mset (quicksort compar xs) = mset xs"
proof (induction compar xs rule: quicksort.induct)
  case (1 compar xs)
  show ?case
  proof (cases "length xs < 2")
    case False
    then have l: "2 \<le> length xs" by simp
    obtain ys pi where p: "partition_at compar xs = (ys, pi)" by fastforce
    note c = partition_at_correct [OF l p]
    have "mset (quicksort compar xs) =
        mset (take pi ys) + {#ys ! pi#} + mset (drop (Suc pi) ys)"
      using False p "1.IH" by (simp add: quicksort.simps [of compar xs])
    also have "\<dots> = mset (take pi ys @ ys ! pi # drop (Suc pi) ys)" by simp
    also have "take pi ys @ ys ! pi # drop (Suc pi) ys = ys"
      using c by (simp add: id_take_nth_drop [symmetric])
    finally show ?thesis using c(1) by simp
  qed (simp add: quicksort.simps [of compar xs])
qed

lemma set_quicksort [simp]: "set (quicksort compar xs) = set xs"
  using quicksort_mset by (metis set_mset_mset)

lemma sorted_wrt_around:
  assumes "preorder_on A compar" and "set xs \<subseteq> A" "set ys \<subseteq> A" "p \<in> A"
    and "sorted_wrt (\<lambda>a b. compar a b \<le> 0) xs" "sorted_wrt (\<lambda>a b. compar a b \<le> 0) ys"
    and "\<forall>x\<in>set xs. compar x p < 0" and "\<forall>y\<in>set ys. \<not> compar y p < 0"
  shows "sorted_wrt (\<lambda>a b. compar a b \<le> 0) (xs @ [p] @ ys)"
proof -
  have tr: "compar a c \<le> 0" if "a \<in> A" "b \<in> A" "c \<in> A" "compar a b \<le> 0" "compar b c \<le> 0" for a b c
    using assms(1) that unfolding preorder_on_def by blast
  have anti: "compar a b < 0 \<longleftrightarrow> compar b a > 0" if "a \<in> A" "b \<in> A" for a b
    using assms(1) that unfolding preorder_on_def by blast
  have py: "compar p y \<le> 0" if "y \<in> set ys" for y
    using that assms(3,4,8) anti [of y p] by force
  have xp: "compar x p \<le> 0" if "x \<in> set xs" for x
    using bspec [OF assms(7) that] by simp
  have xy: "compar x y \<le> 0" if x: "x \<in> set xs" and y: "y \<in> set ys" for x y
    by (rule tr [OF subsetD [OF assms(2) x] assms(4) subsetD [OF assms(3) y] xp [OF x] py [OF y]])
  show ?thesis using assms(5,6) xp py xy by (simp add: sorted_wrt_append)
qed

lemma quicksort_sorted:
  "preorder_on (set xs) compar \<Longrightarrow> sorted_wrt (\<lambda>a b. compar a b \<le> 0) (quicksort compar xs)"
proof (induction compar xs rule: quicksort.induct)
  case (1 compar xs)
  show ?case
  proof (cases "length xs < 2")
    case True
    then have "xs = [] \<or> (\<exists>x. xs = [x])" by (cases xs) auto
    then show ?thesis by (auto simp: quicksort.simps)
  next
    case False
    then have l: "2 \<le> length xs" by simp
    obtain ys pi where p: "partition_at compar xs = (ys, pi)" by fastforce
    note c = partition_at_correct [OF l p]
    have ys: "set ys = set xs" using c(1) by (metis set_mset_mset)
    have sub: "set (take pi ys) \<subseteq> set xs" "set (drop (Suc pi) ys) \<subseteq> set xs" "ys ! pi \<in> set xs"
      using set_take_subset [of pi ys] set_drop_subset [of "Suc pi" ys] nth_mem [of pi ys] c(2,3)
      unfolding ys by simp_all
    have "sorted_wrt (\<lambda>a b. compar a b \<le> 0)
        (quicksort compar (take pi ys) @ [ys ! pi] @ quicksort compar (drop (Suc pi) ys))"
    proof (rule sorted_wrt_around [OF "1.prems"])
      show "sorted_wrt (\<lambda>a b. compar a b \<le> 0) (quicksort compar (take pi ys))"
        using "1.IH"(1) False p preorder_on_subset [OF "1.prems" sub(1)] by simp
      show "sorted_wrt (\<lambda>a b. compar a b \<le> 0) (quicksort compar (drop (Suc pi) ys))"
        using "1.IH"(2) False p preorder_on_subset [OF "1.prems" sub(2)] by simp
      show "\<forall>x\<in>set (quicksort compar (take pi ys)). compar x (ys ! pi) < 0"
        using c(2-4) by (auto simp: in_set_conv_nth)
      show "\<forall>y\<in>set (quicksort compar (drop (Suc pi) ys)). \<not> compar y (ys ! pi) < 0"
        using c(2,3,5) by (auto simp: in_set_conv_nth)
    qed (use sub in simp_all)
    then show ?thesis using False p by (simp add: quicksort.simps [of compar xs])
  qed
qed

section \<open>Binary search and the contracts of the C library\<close>

text \<open>
  What \<open>bsearch\<close> asks of the array (C99, 7.20.5.1): the objects that compare less than the key
  come first, then the equal ones, then the greater ones; \<open>compar key x > 0\<close> means that the key
  is greater than \<open>x\<close>.
\<close>

definition partitioned :: "('k \<Rightarrow> 'a \<Rightarrow> int) \<Rightarrow> 'k \<Rightarrow> 'a list \<Rightarrow> bool" where
  "partitioned compar key = sorted_wrt (\<lambda>x y. sgn (compar key x) \<ge> sgn (compar key y))"

locale libc_search =
  fixes qs :: "('a \<Rightarrow> 'a \<Rightarrow> int) \<Rightarrow> 'a list \<Rightarrow> 'a list"
    and bs :: "('k \<Rightarrow> 'a \<Rightarrow> int) \<Rightarrow> 'k \<Rightarrow> 'a list \<Rightarrow> nat option"
  assumes qsort_mset: "mset (qs cmp xs) = mset xs"
    and qsort_sorted: "preorder_on (set xs) cmp \<Longrightarrow> sorted_wrt (\<lambda>a b. cmp a b \<le> 0) (qs cmp xs)"
    and bsearch_Some: "bs compar key ys = Some i \<Longrightarrow> i < length ys \<and> compar key (ys ! i) = 0"
    and bsearch_None: "partitioned compar key ys \<Longrightarrow> bs compar key ys = None \<Longrightarrow>
      (\<forall>y\<in>set ys. compar key y \<noteq> 0)"

text \<open>The textbook bisection, on the objects from \<open>l\<close> up to \<open>u\<close>.\<close>

function bisect :: "('k \<Rightarrow> 'a \<Rightarrow> int) \<Rightarrow> 'k \<Rightarrow> 'a list \<Rightarrow> nat \<Rightarrow> nat \<Rightarrow> nat option" where
  "bisect compar key xs l u =
     (if l < u then
        (let i = (l + u) div 2; v = compar key (xs ! i) in
         if v < 0 then bisect compar key xs l i
         else if v > 0 then bisect compar key xs (Suc i) u
         else Some i)
      else None)"
  by pat_completeness auto
termination
  by (relation "measure (\<lambda>(compar, key, xs, l, u). u - l)") auto

declare bisect.simps [simp del]

definition bsearch :: "('k \<Rightarrow> 'a \<Rightarrow> int) \<Rightarrow> 'k \<Rightarrow> 'a list \<Rightarrow> nat option" where
  "bsearch compar key xs = bisect compar key xs 0 (length xs)"

lemma bisect_Some:
  "bisect compar key xs l u = Some i \<Longrightarrow> l \<le> i \<and> i < u \<and> compar key (xs ! i) = 0"
proof (induction compar key xs l u rule: bisect.induct)
  case (1 compar key xs l u)
  let ?i = "(l + u) div 2"
  have lu: "l < u" using "1.prems" by (simp add: bisect.simps [of compar key xs l u] split: if_splits)
  then have i: "l \<le> ?i" "?i < u" by auto
  consider "compar key (xs ! ?i) < 0" | "compar key (xs ! ?i) > 0" | "compar key (xs ! ?i) = 0"
    by linarith
  then show ?case
  proof cases
    case 1
    then have "bisect compar key xs l ?i = Some i"
      using "1.prems" lu by (simp add: bisect.simps [of compar key xs l u] Let_def)
    then show ?thesis using "1.IH"(1) [OF lu refl refl 1] i by simp
  next
    case 2
    then have "bisect compar key xs (Suc ?i) u = Some i"
      using "1.prems" lu by (simp add: bisect.simps [of compar key xs l u] Let_def)
    then show ?thesis using "1.IH"(2) [OF lu refl refl _ 2] 2 i by simp
  next
    case 3
    then have "?i = i"
      using "1.prems" lu by (simp add: bisect.simps [of compar key xs l u] Let_def)
    then show ?thesis using 3 i by simp
  qed
qed

lemma bisect_None:
  assumes "partitioned compar key xs" and "bisect compar key xs l u = None" and "u \<le> length xs"
    and "l \<le> j" and "j < u"
  shows "compar key (xs ! j) \<noteq> 0"
  using assms
proof (induction compar key xs l u rule: bisect.induct)
  case (1 compar key xs l u)
  let ?i = "(l + u) div 2"
  have lu: "l < u" using "1.prems" by simp
  then have i: "l \<le> ?i" "?i < u" by auto
  have mono: "sgn (compar key (xs ! a)) \<ge> sgn (compar key (xs ! b))"
    if "a < b" "b < length xs" for a b
    using "1.prems"(1) that by (auto simp: partitioned_def sorted_wrt_iff_nth_less)
  consider "compar key (xs ! ?i) < 0" | "compar key (xs ! ?i) > 0" | "compar key (xs ! ?i) = 0"
    by linarith
  then show ?case
  proof cases
    case 1
    show ?thesis
    proof (cases "j < ?i")
      case True
      then show ?thesis
        using "1.prems" 1 lu i "1.IH"(1) [OF lu refl refl]
        by (simp add: bisect.simps [of compar key xs l u] Let_def)
    next
      case False
      then show ?thesis
        using 1 mono [of ?i j] "1.prems" by (cases "j = ?i") (auto simp: sgn_if split: if_splits)
    qed
  next
    case 2
    show ?thesis
    proof (cases "?i < j")
      case True
      then show ?thesis
        using "1.prems" 2 lu i "1.IH"(2) [OF lu refl refl]
        by (simp add: bisect.simps [of compar key xs l u] Let_def)
    next
      case False
      then show ?thesis
        using 2 mono [of j ?i] "1.prems" i by (cases "j = ?i") (auto simp: sgn_if split: if_splits)
    qed
  next
    case 3
    then show ?thesis
      using "1.prems" lu by (simp add: bisect.simps [of compar key xs l u] Let_def)
  qed
qed

interpretation libc: libc_search quicksort bsearch
proof unfold_locales
  fix compar :: "'k \<Rightarrow> 'a \<Rightarrow> int" and key ys i
  assume "bsearch compar key ys = Some i"
  then show "i < length ys \<and> compar key (ys ! i) = 0"
    unfolding bsearch_def by (auto dest: bisect_Some)
next
  fix compar :: "'k \<Rightarrow> 'a \<Rightarrow> int" and key ys
  assume "partitioned compar key ys" "bsearch compar key ys = None"
  then show "\<forall>y\<in>set ys. compar key y \<noteq> 0"
    unfolding bsearch_def using bisect_None by (fastforce simp: in_set_conv_nth)
qed (simp_all add: quicksort_mset quicksort_sorted)


section \<open>bench/bsearch.c\<close>

text \<open>
  The loop of \<open>search\<close>: \<open>base\<close> is an index into the array \<open>xs\<close>, and reading past its end is
  undefined.  The count is halved before the probe and never reduced by the probed object.
\<close>

function search :: "('k \<Rightarrow> 'a \<Rightarrow> int) \<Rightarrow> 'k \<Rightarrow> 'a list \<Rightarrow> nat \<Rightarrow> nat \<Rightarrow> nat option res" where
  "search compar key xs base n =
     (if n = 0 then Inr None
      else let c = n div 2; ptr = base + c in
        if length xs \<le> ptr then Inl (Undefined ''read past the end of the array'')
        else let v = compar key (xs ! ptr) in
          if v = 0 then Inr (Some ptr)
          else if v > 0 then search compar key xs (ptr + 1) c
          else search compar key xs base c)"
  by pat_completeness auto
termination
  by (relation "measure (\<lambda>(compar, key, xs, base, n). n)") auto

declare search.simps [simp del]

lemma search_0 [simp]: "search compar key xs base 0 = Inr None"
  by (simp add: search.simps)

lemma search_Some:
  "search compar key xs base n = Inr (Some i) \<Longrightarrow> i < length xs \<and> compar key (xs ! i) = 0"
proof (induction compar key xs base n rule: search.induct)
  case (1 compar key xs base n)
  then show ?case
    by (simp add: search.simps [of compar key xs base n] Let_def split: if_splits)
qed

lemma search_None:
  assumes "partitioned compar key xs"
    and "search compar key xs base n = Inr None"
    and "\<forall>j<base. j < length xs \<longrightarrow> compar key (xs ! j) > 0"
    and "\<forall>j\<ge>base + n. j < length xs \<longrightarrow> compar key (xs ! j) < 0"
    and "j < length xs"
  shows "compar key (xs ! j) \<noteq> 0"
  using assms
proof (induction compar key xs base n rule: search.induct)
  case (1 compar key xs base n)
  have mono: "sgn (compar key (xs ! a)) \<ge> sgn (compar key (xs ! b))"
    if "a \<le> b" "b < length xs" for a b
    using "1.prems"(1) that by (cases "a = b") (auto simp: partitioned_def sorted_wrt_iff_nth_less)
  show ?case
  proof (cases "n = 0")
    case True
    then have "0 < compar key (xs ! j) \<or> compar key (xs ! j) < 0"
      using "1.prems"(3-5) by (cases "j < base") simp_all
    then show ?thesis by linarith
  next
    case False
    let ?p = "base + n div 2"
    have p: "?p < length xs" and nz: "compar key (xs ! ?p) \<noteq> 0"
      using "1.prems"(2) False
      by (simp_all add: search.simps [of compar key xs base n] Let_def split: if_splits)
    show ?thesis
    proof (cases "compar key (xs ! ?p) > 0")
      case True
      have s: "search compar key xs (?p + 1) (n div 2) = Inr None"
        using "1.prems"(2) False True p nz
        by (simp add: search.simps [of compar key xs base n] Let_def)
      have lo: "compar key (xs ! j) > 0" if "j < ?p + 1" "j < length xs" for j
        using mono [of j ?p] p that True by (simp add: sgn_if split: if_splits)
      have hi: "compar key (xs ! j) < 0" if "?p + 1 + n div 2 \<le> j" "j < length xs" for j
        using "1.prems"(4) that by auto
      show ?thesis
        using "1.IH"(1) [OF False refl refl _ refl nz True "1.prems"(1) s] lo hi p "1.prems"(5) by simp
    next
      case neg: False
      have s: "search compar key xs base (n div 2) = Inr None"
        using "1.prems"(2) False neg p nz
        by (simp add: search.simps [of compar key xs base n] Let_def)
      have hi: "compar key (xs ! j) < 0" if "?p \<le> j" "j < length xs" for j
        using mono [of ?p j] that neg nz by (simp add: sgn_if split: if_splits)
      show ?thesis
        using "1.IH"(2) [OF False refl refl _ refl nz neg "1.prems"(1) s] "1.prems"(3,5) hi p by simp
    qed
  qed
qed

lemma search_defined:
  "n + 1 = 2 ^ k \<Longrightarrow> base + n \<le> length xs \<Longrightarrow> \<exists>r. search compar key xs base n = Inr r"
proof (induction k arbitrary: base n)
  case (Suc k)
  let ?h = "n div 2"
  have e: "n + 1 = 2 * 2 ^ k" using Suc.prems(1) by simp
  have h: "?h + 1 = 2 ^ k" using e by presburger
  have n: "n = 2 * ?h + 1" using e by presburger
  have a: "\<exists>r. search compar key xs (base + ?h + 1) ?h = Inr r"
    and b: "\<exists>r. search compar key xs base ?h = Inr r"
    using Suc.IH [OF h] Suc.prems(2) n by auto
  have p: "base + ?h < length xs" using n Suc.prems(2) by linarith
  show ?case using a b p by (auto simp: search.simps [of compar key xs base n] Let_def)
qed simp

end
