(* ===== verification/Simif.thy ===== *)
theory Simif
  imports Run Search
begin

text \<open>
  The device table of \<^verbatim>\<open>src/simif.c\<close>: growing it (\<open>next_device\<close>), sorting and initialising it
  (\<open>devices_finalise\<close>), routing an access to the device that owns the address (\<open>dispatch_op\<close>),
  the clock (\<open>devices_dispatch_cycle\<close>) and the end (\<open>devices_teardown\<close>).  \<open>qsort\<close> and \<open>bsearch\<close>
  are the parameters of \<open>libc_search\<close>; the locale \<open>device_bus\<close> holds what follows from their
  contracts, and \<open>mounted_store\<close> that a memory stays a memory behind the dispatcher.
\<close>

section \<open>Devices and their table\<close>

text \<open>
  \<open>struct device\<close> with its \<open>struct device_ops\<close>; \<open>cookie\<close> is the state the operations work on,
  and \<open>cycle\<close> may be NULL.
\<close>

record 'c device =
  bounds0 :: u32
  bounds1 :: u32
  dev_init :: "'c \<Rightarrow> (int \<times> 'c) res"
  dev_op :: "'c dispatcher"
  dev_cycle :: "('c \<Rightarrow> (int \<times> 'c) res) option"
  dev_fini :: "'c \<Rightarrow> (int \<times> 'c) res"
  cookie :: 'c

text \<open>
  The device part of \<open>struct machine_state\<close>.  \<open>devices\<close> holds the used slots of the array, NULL being
  \<open>None\<close>, so that \<open>devices_count\<close> is its length; \<open>devices_room\<close> is the number of slots that the last
  \<open>malloc\<close> or \<open>realloc\<close> was asked for, whatever \<open>devices_max\<close> says.
\<close>

record 'c bus =
  devices_max :: u64
  devices_room :: nat
  devices :: "'c device option list"

abbreviation devices_count :: "('c, 'z) bus_scheme \<Rightarrow> nat" where
  "devices_count s \<equiv> length (devices s)"

text \<open>A slot is a pointer of eight bytes; sizes are products modulo \<open>2 ^ 64\<close>.\<close>

definition slots_of :: "u64 \<Rightarrow> nat" where
  "slots_of n = unat (n * 8) div 8"

definition devices_setup :: "'c bus" where
  "devices_setup = \<lparr>devices_max = 8, devices_room = slots_of 8, devices = []\<rparr>"

text \<open>\<open>realloc\<close> keeps what fits; \<open>junk\<close> is what any slot holds that was not kept or is fresh.\<close>

definition realloc_devices :: "'c device option \<Rightarrow> 'c bus \<Rightarrow> 'c bus" where
  "realloc_devices junk s =
     (let n = slots_of (devices_max s) in
      s\<lparr>devices_room := n, devices := take n (devices s) @ replicate (devices_count s - n) junk\<rparr>)"

partial_function (option) grow_devices :: "'c device option \<Rightarrow> 'c bus \<Rightarrow> 'c bus option" where
  "grow_devices junk s =
     (if of_nat (devices_count s) \<ge> devices_max s
      then grow_devices junk (realloc_devices junk (s\<lparr>devices_max := devices_max s * 2\<rparr>))
      else Some s)"

text \<open>The count is returned as an \<open>int\<close>.\<close>

definition next_device :: "'c device option \<Rightarrow> 'c bus \<Rightarrow> (int \<times> 'c bus) option" where
  "next_device junk s =
     map_option (\<lambda>t. (sint (of_nat (devices_count t) :: u32), t\<lparr>devices := devices t @ [junk]\<rparr>)) (grow_devices junk s)"

text \<open>What the callers do with the index: the slot is written, if there is one.\<close>

definition put_device :: "int \<Rightarrow> 'c device \<Rightarrow> 'c bus \<Rightarrow> 'c bus res" where
  "put_device index d s =
     (if 0 \<le> index \<and> nat index < devices_room s \<and> nat index < devices_count s
      then Inr (s\<lparr>devices := (devices s)[nat index := Some d]\<rparr>)
      else Inl (Undefined ''device slot''))"

definition find_device_by_addr :: "u32 \<Rightarrow> 'c device option \<Rightarrow> int" where
  "find_device_by_addr addr inn =
     (case inn of
        None \<Rightarrow> 0
      | Some d \<Rightarrow> if addr \<le> bounds1 d then (if addr \<ge> bounds0 d then 0 else -1) else 1)"

definition dispatch_op ::
  "((u32 \<Rightarrow> 'c device option \<Rightarrow> int) \<Rightarrow> u32 \<Rightarrow> 'c device option list \<Rightarrow> nat option)
     \<Rightarrow> 'c bus dispatcher" where
  "dispatch_op bs op addr data s =
     (case bs find_device_by_addr addr (devices s) of
        None \<Rightarrow> Inr (-1, data, s)
      | Some i \<Rightarrow>
          (case devices s ! i of
             None \<Rightarrow> Inr (-1, data, s)
           | Some d \<Rightarrow> bindE (dev_op d op addr data (cookie d)) (\<lambda>(rc, data, c).
               Inr (rc, data, s\<lparr>devices := (devices s)[i := Some (d\<lparr>cookie := c\<rparr>)]\<rparr>))))"

text \<open>The difference is taken on \<open>uint32_t\<close> and returned as an \<open>int\<close>.\<close>

definition compare_devices_by_base :: "'c device option \<Rightarrow> 'c device option \<Rightarrow> int" where
  "compare_devices_by_base a b =
     (case (a, b) of
        (Some a, Some b) \<Rightarrow> sint (bounds0 a - bounds0 b)
      | _ \<Rightarrow> 0)"

text \<open>The loops over the slots; what \<open>init\<close> and \<open>fini\<close> return is ignored.\<close>

fun init_all :: "'c device option list \<Rightarrow> 'c device option list res" where
  "init_all [] = Inr []"
| "init_all (None # ds) = bindE (init_all ds) (\<lambda>ds. Inr (None # ds))"
| "init_all (Some d # ds) =
     bindE (dev_init d (cookie d)) (\<lambda>(_, c).
       bindE (init_all ds) (\<lambda>ds. Inr (Some (d\<lparr>cookie := c\<rparr>) # ds)))"

fun fini_all :: "'c device option list \<Rightarrow> unit res" where
  "fini_all [] = Inr ()"
| "fini_all (None # ds) = Inl (Undefined ''NULL device'')"
| "fini_all (Some d # ds) = bindE (dev_fini d (cookie d)) (\<lambda>_. fini_all ds)"

fun cycle_all :: "'c device option list \<Rightarrow> (int \<times> 'c device option list) res" where
  "cycle_all [] = Inr (0, [])"
| "cycle_all (None # ds) = Inl (Undefined ''NULL device'')"
| "cycle_all (Some d # ds) =
     (case dev_cycle d of
        None \<Rightarrow> bindE (cycle_all ds) (\<lambda>(rc, ds). Inr (rc, Some d # ds))
      | Some cyc \<Rightarrow> bindE (cyc (cookie d)) (\<lambda>(rc, c).
          let d = d\<lparr>cookie := c\<rparr> in
          if rc \<noteq> 0 then Inr (1, Some d # ds)
          else bindE (cycle_all ds) (\<lambda>(rc, ds). Inr (rc, Some d # ds))))"

text \<open>
  A sort of two or more objects compares each of them at least once, so that one NULL slot fails
  the comparison's assertion.
\<close>

definition devices_finalise ::
  "(('c device option \<Rightarrow> 'c device option \<Rightarrow> int) \<Rightarrow> 'c device option list
       \<Rightarrow> 'c device option list) \<Rightarrow> 'c bus \<Rightarrow> (int \<times> 'c bus) res" where
  "devices_finalise qs s =
     (if devices_count s > 1 \<and> None \<in> set (devices s)
      then Inl (Assert ''device comparison is not NULL'')
      else bindE (init_all (qs compare_devices_by_base (devices s)))
             (\<lambda>ds. Inr (0, s\<lparr>devices := ds\<rparr>)))"

definition devices_teardown :: "'c bus \<Rightarrow> (int \<times> 'c bus) res" where
  "devices_teardown s = bindE (fini_all (devices s)) (\<lambda>_. Inr (0, s\<lparr>devices := []\<rparr>))"

definition devices_dispatch_cycle :: "'c bus \<Rightarrow> (int \<times> 'c bus) res" where
  "devices_dispatch_cycle s = bindE (cycle_all (devices s)) (\<lambda>(rc, ds). Inr (rc, s\<lparr>devices := ds\<rparr>))"

section \<open>Growing the table\<close>

text \<open>The array has as many slots as \<open>devices_max\<close> says, and they are enough.\<close>

definition bus_wf :: "'c bus \<Rightarrow> bool" where
  "bus_wf s \<longleftrightarrow> 0 < devices_max s \<and> devices_count s \<le> unat (devices_max s) \<and> devices_count s < 2 ^ 31 \<and>
     unat (devices_max s) \<le> 2 ^ 32 \<and> devices_room s = unat (devices_max s)"

lemma slots_of_small: "unat n \<le> 2 ^ 32 \<Longrightarrow> slots_of n = unat n"
  by (simp add: slots_of_def unat_word_ariths)

lemma bus_wf_setup: "bus_wf devices_setup"
  by (simp add: bus_wf_def devices_setup_def slots_of_small)

lemma grow_devices_room:
  assumes "bus_wf s"
  shows "\<exists>m. grow_devices junk s = Some (s\<lparr>devices_max := m, devices_room := unat m\<rparr>) \<and> devices_count s < unat m \<and>
    unat m \<le> 2 ^ 32"
proof (cases "of_nat (devices_count s) \<ge> devices_max s")
  case False
  have "unat (of_nat (devices_count s) :: u64) = devices_count s"
    using assms by (simp add: bus_wf_def unat_of_nat)
  then have "devices_count s < unat (devices_max s)" using False by (simp add: word_le_nat_alt)
  moreover have "s\<lparr>devices_max := devices_max s, devices_room := unat (devices_max s)\<rparr> = s"
    using assms by (simp add: bus_wf_def)
  ultimately show ?thesis
    using False assms by (intro exI [of _ "devices_max s"]) (simp add: grow_devices.simps bus_wf_def)
next
  case True
  let ?m = "devices_max s * 2"
  have c: "unat (of_nat (devices_count s) :: u64) = devices_count s"
    using assms by (simp add: bus_wf_def unat_of_nat)
  then have e: "unat (devices_max s) = devices_count s" "0 < devices_count s"
    using True assms by (auto simp: bus_wf_def word_le_nat_alt word_less_nat_alt)
  then have m: "unat ?m = 2 * devices_count s" using assms by (simp add: bus_wf_def unat_word_ariths)
  then have b: "unat ?m \<le> 2 ^ 32" using assms by (simp add: bus_wf_def)
  have r: "realloc_devices junk (s\<lparr>devices_max := ?m\<rparr>) = s\<lparr>devices_max := ?m, devices_room := unat ?m\<rparr>"
    using m slots_of_small [OF b] by (simp add: realloc_devices_def Let_def)
  have "\<not> of_nat (devices_count s) \<ge> ?m" using m c e(2) by (simp add: word_le_nat_alt)
  then have "grow_devices junk s = Some (s\<lparr>devices_max := ?m, devices_room := unat ?m\<rparr>)"
    using True r by (simp add: grow_devices.simps [of junk s] grow_devices.simps [of junk "s\<lparr>devices_max := ?m, devices_room := unat ?m\<rparr>"])
  then show ?thesis using m b e(2) by (intro exI [of _ ?m]) simp
qed

lemma next_device_wf:
  assumes "bus_wf s"
  shows "\<exists>t. next_device junk s = Some (int (devices_count s), t) \<and> devices t = devices s @ [junk] \<and>
    put_device (int (devices_count s)) d t = Inr (t\<lparr>devices := devices s @ [Some d]\<rparr>) \<and>
    (devices_count s + 1 < 2 ^ 31 \<longrightarrow> bus_wf t \<and> bus_wf (t\<lparr>devices := devices s @ [Some d]\<rparr>))"
proof -
  obtain m where m: "grow_devices junk s = Some (s\<lparr>devices_max := m, devices_room := unat m\<rparr>)"
    "devices_count s < unat m" "unat m \<le> 2 ^ 32"
    using grow_devices_room [OF assms] by blast
  have "uint (of_nat (devices_count s) :: u32) = int (devices_count s)"
    using assms by (simp add: bus_wf_def uint_nat unat_of_nat)
  then have "sint (of_nat (devices_count s) :: u32) = int (devices_count s)"
    using assms by (simp add: bus_wf_def sint_uint signed_take_bit_int_eq_self)
  then show ?thesis using m
    by (auto simp: next_device_def put_device_def bus_wf_def word_less_nat_alt)
qed

section \<open>Tables in address order\<close>

text \<open>Every slot used, every window proper, and the windows ascending without overlap.\<close>

definition in_window :: "u32 \<Rightarrow> 'c device option \<Rightarrow> bool" where
  "in_window addr inn = (case inn of None \<Rightarrow> False | Some d \<Rightarrow> bounds0 d \<le> addr \<and> addr \<le> bounds1 d)"

definition below :: "'c device option \<Rightarrow> 'c device option \<Rightarrow> bool" where
  "below a b = (case (a, b) of (Some a, Some b) \<Rightarrow> bounds1 a < bounds0 b | _ \<Rightarrow> False)"

definition proper :: "'c device option \<Rightarrow> bool" where
  "proper inn = (case inn of None \<Rightarrow> False | Some d \<Rightarrow> bounds0 d \<le> bounds1 d)"

definition ascending :: "'c device option list \<Rightarrow> bool" where
  "ascending ds \<longleftrightarrow> (\<forall>d\<in>set ds. proper d) \<and> sorted_wrt below ds"

lemma find_device_zero: "proper d \<Longrightarrow> find_device_by_addr a d = 0 \<longleftrightarrow> in_window a d"
  by (auto simp: find_device_by_addr_def in_window_def proper_def split: option.splits)

lemma ascending_partitioned: "ascending ds \<Longrightarrow> partitioned find_device_by_addr addr ds"
  unfolding ascending_def partitioned_def
  by (elim conjE, erule sorted_wrt_mono_rel [rotated])
    (auto simp: find_device_by_addr_def below_def proper_def split: option.splits)

lemma ascending_unique:
  assumes "ascending ds" and "i < length ds" "j < length ds"
    and "in_window a (ds ! i)" "in_window a (ds ! j)"
  shows "i = j"
proof (rule ccontr)
  assume "i \<noteq> j"
  then have "below (ds ! i) (ds ! j) \<or> below (ds ! j) (ds ! i)"
    using assms(1-3) by (metis ascending_def linorder_neqE_nat sorted_wrt_nth_less)
  then show False
    using assms(4,5) by (auto simp: below_def in_window_def split: option.splits)
qed

lemma proper_update: "proper (Some (d\<lparr>cookie := c\<rparr>)) = proper (Some d)"
  by (simp add: proper_def)

text \<open>Only the cookies change.\<close>

definition same_map :: "'c device option \<Rightarrow> 'c device option \<Rightarrow> bool" where
  "same_map a b = (case (a, b) of
     (Some a, Some b) \<Rightarrow> (\<exists>c. b = a\<lparr>cookie := c\<rparr>) | (None, None) \<Rightarrow> True | _ \<Rightarrow> False)"

lemma same_map_refl [simp]: "same_map d d"
proof (cases d)
  case (Some a)
  have "a = a\<lparr>cookie := cookie a\<rparr>" by simp
  then have "\<exists>c. a = a\<lparr>cookie := c\<rparr>" by (rule exI)
  with Some show ?thesis by (simp add: same_map_def)
qed (simp add: same_map_def)

lemma same_map_cookie [simp]: "same_map (Some d) (Some (d\<lparr>cookie := c\<rparr>))"
  by (auto simp: same_map_def)

lemma same_map_ascending:
  assumes "list_all2 same_map ds ds'"
  shows "ascending ds' = ascending ds"
proof -
  have p: "proper (ds' ! i) = proper (ds ! i)" if "i < length ds" for i
    using list_all2_nthD [OF assms that]
    by (auto simp: same_map_def proper_def split: option.splits)
  have b: "below (ds' ! i) (ds' ! j) = below (ds ! i) (ds ! j)" if "i < length ds" "j < length ds" for i j
    using list_all2_nthD [OF assms that(1)] list_all2_nthD [OF assms that(2)]
    by (auto simp: same_map_def below_def split: option.splits)
  show ?thesis
    using p b list_all2_lengthD [OF assms]
    by (simp add: ascending_def all_set_conv_all_nth sorted_wrt_iff_nth_less)
qed

lemma same_map_update:
  "i < length ds \<Longrightarrow> ds ! i = Some d \<Longrightarrow> list_all2 same_map ds (ds[i := Some (d\<lparr>cookie := c\<rparr>)])"
  by (auto simp: list_all2_conv_all_nth nth_list_update)

section \<open>Sorting by base\<close>

definition low_base :: "'c device option \<Rightarrow> bool" where
  "low_base inn = (case inn of None \<Rightarrow> False | Some d \<Rightarrow> bounds0 d < 0x80000000)"

lemma signed_take_bit_diff:
  "0 \<le> p \<Longrightarrow> p < 0x80000000 \<Longrightarrow> 0 \<le> q \<Longrightarrow> q < 0x80000000 \<Longrightarrow>
     signed_take_bit 31 (p - q) = p - (q :: int)"
  by (rule signed_take_bit_int_eq_self) simp_all

lemma compare_low:
  assumes "low_base a" and "low_base b"
  shows "compare_devices_by_base a b = uint (bounds0 (the a)) - uint (bounds0 (the b))"
proof -
  obtain x y where xy: "a = Some x" "b = Some y" and l: "bounds0 x < 0x80000000" "bounds0 y < 0x80000000"
    using assms by (auto simp: low_base_def split: option.splits)
  have u: "uint (bounds0 x) < 0x80000000" "uint (bounds0 y) < 0x80000000"
    using l by (simp_all add: word_less_def)
  have "signed_take_bit 31 (uint (bounds0 x) - uint (bounds0 y)) = uint (bounds0 x) - uint (bounds0 y)"
    by (rule signed_take_bit_diff [OF _ u(1) _ u(2)]) simp_all
  moreover have "bounds0 x - bounds0 y = word_of_int (uint (bounds0 x) - uint (bounds0 y))"
    by simp
  then have "sint (bounds0 x - bounds0 y) = signed_take_bit 31 (uint (bounds0 x) - uint (bounds0 y))"
    by (simp only: sint_sbintrunc' len_bit0 len_num1 numeral_One) simp
  ultimately show ?thesis by (simp add: compare_devices_by_base_def xy)
qed

lemma compare_low_preorder:
  "\<forall>d\<in>A. low_base d \<Longrightarrow> preorder_on A compare_devices_by_base"
  unfolding preorder_on_def by (auto simp: compare_low)

text \<open>Devices whose windows do not overlap, in whatever order they were added.\<close>

definition apart :: "'c device option \<Rightarrow> 'c device option \<Rightarrow> bool" where
  "apart a b \<longleftrightarrow> below a b \<or> below b a"

definition mappable :: "'c device option list \<Rightarrow> bool" where
  "mappable ds \<longleftrightarrow> (\<forall>d\<in>set ds. proper d \<and> low_base d) \<and>
     (\<forall>i<length ds. \<forall>j<i. apart (ds ! i) (ds ! j))"


lemma apart_sym: "apart a b \<Longrightarrow> apart b a"
  by (auto simp: apart_def)

lemma mappable_distinct: "mappable ds \<Longrightarrow> distinct ds"
  unfolding distinct_conv_nth mappable_def
  by (metis (no_types, lifting) apart_def below_def in_set_conv_nth linorder_neqE_nat option.case_eq_if
      option.exhaust_sel order_less_imp_not_less prod.case proper_def word_le_less_eq leD)

lemma mappable_apart:
  assumes "mappable ds" and "a \<in> set ds" "b \<in> set ds" "a \<noteq> b"
  shows "apart a b"
proof -
  obtain i j where "i < length ds" "j < length ds" "ds ! i = a" "ds ! j = b" "i \<noteq> j"
    using assms by (metis in_set_conv_nth)
  then show ?thesis
    using assms(1) apart_sym unfolding mappable_def by (metis linorder_neqE_nat)
qed

text \<open>Sorting a mappable table by base puts its windows in ascending order.\<close>

lemma sorted_mappable_ascending:
  assumes m: "mappable ds" and p: "mset ds' = mset ds"
    and s: "sorted_wrt (\<lambda>a b. compare_devices_by_base a b \<le> 0) ds'"
  shows "ascending ds'"
proof -
  have st: "set ds' = set ds" using p by (metis set_mset_mset)
  have d: "distinct ds'" using mappable_distinct [OF m] p by (metis mset_eq_imp_distinct_iff)
  have "below (ds' ! i) (ds' ! j)" if ij: "i < j" "j < length ds'" for i j
  proof -
    have ne: "ds' ! i \<noteq> ds' ! j" using d ij by (simp add: nth_eq_iff_index_eq)
    have mem: "ds' ! i \<in> set ds" "ds' ! j \<in> set ds" using ij nth_mem [of _ ds'] st by auto
    then have q: "low_base (ds' ! i)" "low_base (ds' ! j)" "proper (ds' ! i)" "proper (ds' ! j)"
      using m by (auto simp: mappable_def)
    have "compare_devices_by_base (ds' ! i) (ds' ! j) \<le> 0"
      by (rule sorted_wrt_nth_less [OF s ij])
    then have le: "bounds0 (the (ds' ! i)) \<le> bounds0 (the (ds' ! j))"
      by (simp add: compare_low q word_le_def)
    from mappable_apart [OF m mem ne] show ?thesis
    proof (unfold apart_def, elim disjE)
      assume "below (ds' ! j) (ds' ! i)"
      then show ?thesis
        using le q(3,4) by (auto simp: below_def proper_def split: option.splits)
    qed
  qed
  then show ?thesis
    using m st by (auto simp: ascending_def mappable_def sorted_wrt_iff_nth_less)
qed

section \<open>Initialisation and the clock\<close>

lemma init_all_map:
  "init_all ds = Inr ds' \<Longrightarrow> list_all2 same_map ds ds'"
  by (induction ds arbitrary: ds' rule: init_all.induct) (auto simp: bindE_eq_Inr)

text \<open>A device after its \<open>init\<close>: what that leaves as its cookie, whatever it returns.\<close>

definition initialised :: "'c device option \<Rightarrow> 'c device option \<Rightarrow> bool" where
  "initialised a b \<longleftrightarrow> (\<exists>d rc c. a = Some d \<and> dev_init d (cookie d) = Inr (rc, c) \<and> b = Some (d\<lparr>cookie := c\<rparr>))"

definition starts :: "'c device option \<Rightarrow> bool" where
  "starts a \<longleftrightarrow> (case a of None \<Rightarrow> False | Some d \<Rightarrow> \<exists>r. dev_init d (cookie d) = Inr r)"

lemma init_all_starts:
  "\<forall>d\<in>set ds. starts d \<Longrightarrow> \<exists>ds'. init_all ds = Inr ds' \<and> list_all2 initialised ds ds'"
proof (induction ds)
  case (Cons a ds)
  then obtain d rc c where a: "a = Some d" "dev_init d (cookie d) = Inr (rc, c)"
    by (fastforce simp: starts_def split: option.splits)
  then have "initialised a (Some (d\<lparr>cookie := c\<rparr>))" by (simp add: initialised_def)
  with a Cons show ?case by auto
qed simp

lemma cycle_all_map: "cycle_all ds = Inr (rc, ds') \<Longrightarrow> list_all2 same_map ds ds'"
  by (induction ds arbitrary: ds' rc rule: cycle_all.induct)
    (auto simp: bindE_eq_Inr Let_def list_all2_refl split: option.splits if_splits prod.splits)

text \<open>A table without clocked devices is left alone by the clock.\<close>

definition unclocked :: "'c device option list \<Rightarrow> bool" where
  "unclocked ds \<longleftrightarrow> (\<forall>d\<in>set ds. \<exists>x. d = Some x \<and> dev_cycle x = None)"

lemma cycle_all_unclocked: "unclocked ds \<Longrightarrow> cycle_all ds = Inr (0, ds)"
  by (induction ds) (auto simp: unclocked_def)


section \<open>The bus over any libc\<close>

locale device_bus = libc_search qs bs
  for qs :: "('c device option \<Rightarrow> 'c device option \<Rightarrow> int) \<Rightarrow> 'c device option list
               \<Rightarrow> 'c device option list"
    and bs :: "(u32 \<Rightarrow> 'c device option \<Rightarrow> int) \<Rightarrow> u32 \<Rightarrow> 'c device option list \<Rightarrow> nat option"
begin

lemma find_owner:
  assumes "ascending ds" and "i < length ds" and "in_window a (ds ! i)"
  shows "bs find_device_by_addr a ds = Some i"
proof (cases "bs find_device_by_addr a ds")
  case None
  have "proper (ds ! i)" using assms(1,2) by (simp add: ascending_def)
  moreover have "find_device_by_addr a (ds ! i) \<noteq> 0"
    using bsearch_None [OF ascending_partitioned [OF assms(1)] None] assms(2) by simp
  ultimately show ?thesis using assms(3) by (simp add: find_device_zero)
next
  case (Some j)
  note j = bsearch_Some [OF this]
  then have "in_window a (ds ! j)"
    using assms(1) find_device_zero [of "ds ! j" a] by (simp add: ascending_def)
  then show ?thesis using Some j ascending_unique [OF assms(1,2) _ assms(3)] by auto
qed

lemma find_nobody:
  assumes "ascending ds" and "\<forall>d\<in>set ds. \<not> in_window a d"
  shows "bs find_device_by_addr a ds = None"
proof (rule ccontr)
  assume "bs find_device_by_addr a ds \<noteq> None"
  then obtain j where "bs find_device_by_addr a ds = Some j" by blast
  from bsearch_Some [OF this] show False
    using assms by (auto simp: ascending_def find_device_zero)
qed

text \<open>An access reaches the one device that owns the address, and touches no other.\<close>

lemma dispatch_owner:
  assumes "ascending (devices s)" and "i < devices_count s" and "devices s ! i = Some d"
    and "bounds0 d \<le> a" "a \<le> bounds1 d"
  shows "dispatch_op bs op a v s = bindE (dev_op d op a v (cookie d)) (\<lambda>(rc, v, c).
    Inr (rc, v, s\<lparr>devices := (devices s)[i := Some (d\<lparr>cookie := c\<rparr>)]\<rparr>))"
  using find_owner [OF assms(1,2), of a] assms(3-5) by (simp add: in_window_def dispatch_op_def)

lemma dispatch_nobody:
  "ascending (devices s) \<Longrightarrow> \<forall>d\<in>set (devices s). \<not> in_window a d \<Longrightarrow>
     dispatch_op bs op a v s = Inr (-1, v, s)"
  by (simp add: find_nobody dispatch_op_def)

lemma dispatch_map:
  "dispatch_op bs op a v s = Inr (rc, v', t) \<Longrightarrow> list_all2 same_map (devices s) (devices t)"
  by (auto simp: dispatch_op_def bindE_eq_Inr list_all2_refl split: option.splits
      dest!: bsearch_Some intro: same_map_update)

text \<open>\<open>devices_finalise\<close> on a mappable table: every device is kept, initialised, in address order.\<close>

lemma finalise_ascending:
  assumes "mappable (devices s)" and "\<forall>d\<in>set (devices s). starts d"
  shows "\<exists>t. devices_finalise qs s = Inr (0, t) \<and> ascending (devices t) \<and>
    (\<exists>ds. mset ds = mset (devices s) \<and> list_all2 initialised ds (devices t))"
proof -
  let ?ds = "qs compare_devices_by_base (devices s)"
  have "preorder_on (set (devices s)) compare_devices_by_base"
    using assms(1) by (intro compare_low_preorder) (simp add: mappable_def)
  then have a: "ascending ?ds"
    by (intro sorted_mappable_ascending [OF assms(1) qsort_mset] qsort_sorted)
  have "set ?ds = set (devices s)" using qsort_mset by (metis set_mset_mset)
  then obtain ds where i: "init_all ?ds = Inr ds" "list_all2 initialised ?ds ds"
    using init_all_starts [of ?ds] assms(2) by auto
  have "None \<notin> set (devices s)" using assms(2) by (auto simp: starts_def)
  then have "devices_finalise qs s = Inr (0, s\<lparr>devices := ds\<rparr>)" by (simp add: devices_finalise_def i(1))
  then show ?thesis using a i(2) qsort_mset same_map_ascending [OF init_all_map [OF i(1)]] by auto
qed

end

interpretation bus: device_bus quicksort bsearch
  by unfold_locales

section \<open>A memory behind the dispatcher\<close>

text \<open>
  The device \<open>D\<close> sits in an ascending table without clocked devices, its window around \<open>window\<close>.
\<close>

definition mounted :: "'c dispatcher \<Rightarrow> u32 set \<Rightarrow> 'c device option \<Rightarrow> bool" where
  "mounted D window inn = (case inn of None \<Rightarrow> False
     | Some d \<Rightarrow> dev_op d = D \<and> (\<forall>a\<in>window. bounds0 d \<le> a \<and> a \<le> bounds1 d))"

definition bus_ok :: "'c dispatcher \<Rightarrow> ('c \<Rightarrow> bool) \<Rightarrow> u32 set \<Rightarrow> 'c bus \<Rightarrow> bool" where
  "bus_ok D ok window s \<longleftrightarrow> ascending (devices s) \<and> unclocked (devices s) \<and>
     (\<exists>d\<in>set (devices s). mounted D window d \<and> ok (cookie (the d)))"

definition bus_peek ::
  "((u32 \<Rightarrow> 'c device option \<Rightarrow> int) \<Rightarrow> u32 \<Rightarrow> 'c device option list \<Rightarrow> nat option)
     \<Rightarrow> ('c \<Rightarrow> u32 \<Rightarrow> u32) \<Rightarrow> 'c bus \<Rightarrow> u32 \<Rightarrow> u32" where
  "bus_peek bs peek s a =
     (case bs find_device_by_addr a (devices s) of
        None \<Rightarrow> 0 | Some i \<Rightarrow> peek (cookie (the (devices s ! i))) a)"

locale mounted_store = device_bus qs bs + word_store D ok window peek
  for qs :: "('c device option \<Rightarrow> 'c device option \<Rightarrow> int) \<Rightarrow> 'c device option list
               \<Rightarrow> 'c device option list"
    and bs :: "(u32 \<Rightarrow> 'c device option \<Rightarrow> int) \<Rightarrow> u32 \<Rightarrow> 'c device option list \<Rightarrow> nat option"
    and D :: "'c dispatcher"
    and ok :: "'c \<Rightarrow> bool"
    and window :: "u32 set"
    and peek :: "'c \<Rightarrow> u32 \<Rightarrow> u32"
begin

lemma bus_slot:
  assumes "bus_ok D ok window s"
  obtains i d where "i < devices_count s" and "devices s ! i = Some d" and "ok (cookie d)"
    and "dev_op d = D" and "\<And>a. a \<in> window \<Longrightarrow> bounds0 d \<le> a \<and> a \<le> bounds1 d"
    and "\<And>a. a \<in> window \<Longrightarrow> bs find_device_by_addr a (devices s) = Some i"
proof -
  obtain i d where "i < devices_count s" "devices s ! i = Some d" "ok (cookie d)" "dev_op d = D"
    and w: "\<forall>a\<in>window. bounds0 d \<le> a \<and> a \<le> bounds1 d"
    using assms by (auto simp: bus_ok_def mounted_def in_set_conv_nth split: option.splits)
  moreover have "bs find_device_by_addr a (devices s) = Some i" if "a \<in> window" for a
    using find_owner [of "devices s" i a] assms calculation that
    by (simp add: bus_ok_def in_window_def)
  ultimately show thesis using that by blast
qed

text \<open>Replacing the cookie of the mounted device.\<close>

lemma bus_update:
  assumes "bus_ok D ok window s" and "i < devices_count s" and "devices s ! i = Some d"
    and "dev_op d = D" and "\<And>a. a \<in> window \<Longrightarrow> bounds0 d \<le> a \<and> a \<le> bounds1 d" and "ok c"
  shows "bus_ok D ok window (s\<lparr>devices := (devices s)[i := Some (d\<lparr>cookie := c\<rparr>)]\<rparr>)"
    and "a \<in> window \<Longrightarrow>
      bus_peek bs peek (s\<lparr>devices := (devices s)[i := Some (d\<lparr>cookie := c\<rparr>)]\<rparr>) a = peek c a"
proof -
  let ?ds = "(devices s)[i := Some (d\<lparr>cookie := c\<rparr>)]"
  have a: "ascending ?ds"
    using same_map_ascending [OF same_map_update [OF assms(2,3)]] assms(1) by (simp add: bus_ok_def)
  have u: "unclocked ?ds"
    using assms(1-3) nth_mem [OF assms(2)] unfolding bus_ok_def unclocked_def
    by (fastforce dest!: set_update_subset_insert [THEN subsetD])
  have "Some (d\<lparr>cookie := c\<rparr>) \<in> set ?ds" using assms(2) by (simp add: set_update_memI)
  then show "bus_ok D ok window (s\<lparr>devices := ?ds\<rparr>)"
    unfolding bus_ok_def using a u assms(4-6)
    by (intro conjI bexI [of _ "Some (d\<lparr>cookie := c\<rparr>)"]) (auto simp: mounted_def)
  show "bus_peek bs peek (s\<lparr>devices := ?ds\<rparr>) a = peek c a" if "a \<in> window"
    using find_owner [OF a, of i a] assms(2,5) that by (simp add: bus_peek_def in_window_def)
qed

end

sublocale mounted_store \<subseteq> bus: clocked_store "dispatch_op bs" "bus_ok D ok window" window
  "bus_peek bs peek" devices_dispatch_cycle
proof unfold_locales
  fix s a op v assume s: "bus_ok D ok window s" and a: "a \<in> window"
    and op: "op = OP_INSN_READ \<or> op = OP_DATA_READ"
  obtain i d where d: "i < devices_count s" "devices s ! i = Some d" "ok (cookie d)" "dev_op d = D"
    "\<And>a. a \<in> window \<Longrightarrow> bounds0 d \<le> a \<and> a \<le> bounds1 d"
    "\<And>a. a \<in> window \<Longrightarrow> bs find_device_by_addr a (devices s) = Some i"
    using bus_slot [OF s] by blast
  obtain c where "D op a v (cookie d) = Inr (0, peek (cookie d) a, c)" "ok c"
    "\<forall>b\<in>window. peek c b = peek (cookie d) b"
    using read [OF d(3) a op] by blast
  with bus_update [OF s d(1,2,4,5)] d a
  show "\<exists>w'. dispatch_op bs op a v s = Inr (0, bus_peek bs peek s a, w') \<and> bus_ok D ok window w' \<and>
      (\<forall>b\<in>window. bus_peek bs peek w' b = bus_peek bs peek s b)"
    by (auto simp: dispatch_op_def bus_peek_def [of bs peek s])
next
  fix s a v assume s: "bus_ok D ok window s" and a: "a \<in> window"
  obtain i d where d: "i < devices_count s" "devices s ! i = Some d" "ok (cookie d)" "dev_op d = D"
    "\<And>a. a \<in> window \<Longrightarrow> bounds0 d \<le> a \<and> a \<le> bounds1 d"
    "\<And>a. a \<in> window \<Longrightarrow> bs find_device_by_addr a (devices s) = Some i"
    using bus_slot [OF s] by blast
  obtain c where "D OP_WRITE a v (cookie d) = Inr (0, v, c)" "ok c"
    "\<forall>b\<in>window. peek c b = (if b = a then v else peek (cookie d) b)"
    using store [OF d(3) a] by blast
  with bus_update [OF s d(1,2,4,5)] d a
  show "\<exists>w'. dispatch_op bs OP_WRITE a v s = Inr (0, v, w') \<and> bus_ok D ok window w' \<and>
      (\<forall>b\<in>window. bus_peek bs peek w' b = (if b = a then v else bus_peek bs peek s b))"
    by (auto simp: dispatch_op_def bus_peek_def [of bs peek s])
next
  fix s assume "bus_ok D ok window s"
  then show "\<exists>w'. devices_dispatch_cycle s = Inr (0, w') \<and> bus_ok D ok window w' \<and>
      (\<forall>b\<in>window. bus_peek bs peek w' b = bus_peek bs peek s b)"
    by (simp add: devices_dispatch_cycle_def bus_ok_def cycle_all_unclocked)
qed

end
