(* ===== verification/Memory.thy ===== *)
theory Memory
  imports Run
begin

unbundle bit_operations_syntax

text \<open>
  The devices of \<^verbatim>\<open>src/devices\<close> that hold or move words: the preallocated RAM (\<open>ram.c\<close>), the
  sparse RAM (\<open>sparseram.c\<close>) and the serial port (\<open>serial.c\<close>).  Both RAMs are shown to be a
  \<open>clocked_store\<close>, so what the interpreter proves of its memory holds of each of them.
\<close>

section \<open>The preallocated RAM\<close>

definition RAM_BASE :: u32 where "RAM_BASE = push_bit 12 1"
definition RAM_END :: u32 where "RAM_END = push_bit 14 1 - 1"

text \<open>
  \<open>mem\<close> is the array behind the pointer, indexed as the code indexes it, by the unsigned
  difference of the address and the base; only the first \<open>memsize\<close> words exist.
\<close>

record ram_state =
  base :: u32
  memsize :: nat
  mem :: "u32 \<Rightarrow> u32"

text \<open>
  \<open>ram_init\<close> on the cookie, \<open>None\<close> for NULL; \<open>junk\<close> is what \<open>malloc\<close> left in the array.
\<close>

definition ram_init :: "(u32 \<Rightarrow> u32) \<Rightarrow> ram_state option \<Rightarrow> ram_state" where
  "ram_init junk cookie =
     (let ram = (case cookie of
                   None \<Rightarrow> \<lparr>base = RAM_BASE, memsize = unat RAM_END + 1, mem = junk\<rparr>
                 | Some ram \<Rightarrow> ram)
      in ram\<lparr>mem := \<lambda>i. if unat i < memsize ram then 0x0f0f0fff else mem ram i\<rparr>)"

definition ram_op :: "ram_state dispatcher" where
  "ram_op op addr data ram =
     (let i = addr - base ram in
      if op = OP_WRITE then
        (if unat i < memsize ram then Inr (0, data, ram\<lparr>mem := (mem ram)(i := data)\<rparr>)
         else Inl (Undefined ''ram index''))
      else if op = OP_INSN_READ \<or> op = OP_DATA_READ then
        (if unat i < memsize ram then Inr (0, mem ram i, ram)
         else Inl (Undefined ''ram index''))
      else Inr (1, data, ram))"

text \<open>What \<open>ram_init\<close> establishes and every operation keeps.\<close>

definition ram_ok :: "ram_state \<Rightarrow> bool" where
  "ram_ok ram \<longleftrightarrow> base ram = RAM_BASE \<and> memsize ram = unat RAM_END + 1"

definition ram_window :: "u32 set" where
  "ram_window = {RAM_BASE..RAM_END}"

definition ram_peek :: "ram_state \<Rightarrow> u32 \<Rightarrow> u32" where
  "ram_peek ram a = mem ram (a - RAM_BASE)"

lemma ram_consts: "RAM_BASE = 0x1000" "RAM_END = 0x3fff" "unat RAM_END = 0x3fff"
  by (simp_all add: RAM_BASE_def RAM_END_def)

lemma ram_index_ok:
  assumes "ram_ok ram" and "a \<in> ram_window"
  shows "unat (a - base ram) < memsize ram"
proof -
  have "a \<ge> 0x1000" "a \<le> 0x3fff" using assms(2) by (simp_all add: ram_window_def ram_consts)
  then have "unat (a - 0x1000) \<le> unat a" "unat a \<le> 0x3fff"
    by (simp_all add: unat_sub word_le_nat_alt)
  then show ?thesis using assms(1) by (simp add: ram_ok_def ram_consts)
qed

lemma ram_init_ok: "ram_ok (ram_init junk None)"
  by (simp add: ram_init_def ram_ok_def)

lemma ram_init_peek: "a \<in> ram_window \<Longrightarrow> ram_peek (ram_init junk None) a = spin_word"
  using ram_index_ok [OF ram_init_ok [of junk], of a]
  by (auto simp: ram_init_def ram_peek_def spin_word_def)

definition no_cycle :: "'w \<Rightarrow> (int \<times> 'w) res" where
  "no_cycle w = Inr (0, w)"

interpretation ram: clocked_store ram_op ram_ok ram_window ram_peek no_cycle
proof unfold_locales
  fix w a op v assume "ram_ok w" "a \<in> ram_window" "op = OP_INSN_READ \<or> op = OP_DATA_READ"
  then show "\<exists>w'. ram_op op a v w = Inr (0, ram_peek w a, w') \<and> ram_ok w' \<and>
      (\<forall>b\<in>ram_window. ram_peek w' b = ram_peek w b)"
    using ram_index_ok [of w a] by (auto simp: ram_op_def ram_ok_def ram_peek_def)
next
  fix w a v assume "ram_ok w" "a \<in> ram_window"
  then show "\<exists>w'. ram_op OP_WRITE a v w = Inr (0, v, w') \<and> ram_ok w' \<and>
      (\<forall>b\<in>ram_window. ram_peek w' b = (if b = a then v else ram_peek w b))"
    using ram_index_ok [of w a] by (auto simp: ram_op_def ram_ok_def ram_peek_def)
qed (simp add: no_cycle_def)

section \<open>The sparse RAM\<close>

definition WORDMASK :: u32 where "WORDMASK = push_bit 10 1 - 1"
definition PAGESIZE :: nat where "PAGESIZE = 4096"

text \<open>
  The search tree of pages, as the finite map it implements: a page is found by its
  \<open>base\<close>, a bit-field of 24 bits, and \<open>tree_compare\<close> is 0 exactly on equal bases.  A page is
  the \<open>space\<close> array of its node.
\<close>

type_synonym page = "u32 \<Rightarrow> u32"

record sparseram_state =
  pages :: "24 word \<rightharpoonup> page"

definition sparseram_init :: sparseram_state where
  "sparseram_init = \<lparr>pages = Map.empty\<rparr>"

definition page_key :: "u32 \<Rightarrow> 24 word" where
  "page_key addr = ucast (addr AND NOT WORDMASK)"

text \<open>A node fresh from \<open>malloc\<close>: the first \<open>PAGESIZE\<close> words are filled.\<close>

definition new_page :: "page \<Rightarrow> page" where
  "new_page junk i = (if unat i < PAGESIZE then 0xffffffff else junk i)"

definition sparseram_op :: "page \<Rightarrow> sparseram_state dispatcher" where
  "sparseram_op junk op addr data s =
     (let key = page_key addr;
          p = (case pages s key of None \<Rightarrow> new_page junk | Some p \<Rightarrow> p);
          s = s\<lparr>pages := (pages s)(key \<mapsto> p)\<rparr>;
          i = addr AND WORDMASK
      in if op = OP_WRITE then Inr (0, data, s\<lparr>pages := (pages s)(key \<mapsto> p(i := data))\<rparr>)
         else if op = OP_INSN_READ \<or> op = OP_DATA_READ then Inr (0, p i, s)
         else Inr (1, data, s))"

definition sparse_peek :: "sparseram_state \<Rightarrow> u32 \<Rightarrow> u32" where
  "sparse_peek s a =
     (case pages s (page_key a) of None \<Rightarrow> illegal_word | Some p \<Rightarrow> p (a AND WORDMASK))"

text \<open>The addresses a 24-bit page base can tell apart.\<close>

definition sparse_window :: "u32 set" where
  "sparse_window = {a. a < 0x1000000}"

lemma WORDMASK_mask: "WORDMASK = mask 10"
  by (simp add: WORDMASK_def mask_eq_decr_exp)

lemma in_page: "unat (a AND WORDMASK) < PAGESIZE"
proof -
  have "a AND WORDMASK < 2 ^ 10" unfolding WORDMASK_mask by (rule and_mask_less') simp
  then show ?thesis by (simp add: PAGESIZE_def word_less_nat_alt)
qed

lemma sparse_window_bit:
  assumes "a \<in> sparse_window"
  shows "bit a n \<longleftrightarrow> n < 24 \<and> bit a n"
proof -
  have "take_bit 24 a = a"
    using assms less_mask_eq [of a 24] by (simp add: sparse_window_def take_bit_eq_mask)
  then show ?thesis by (metis bit_take_bit_iff)
qed

lemma page_address_inj:
  assumes a: "a \<in> sparse_window" and b: "b \<in> sparse_window"
  shows "page_key a = page_key b \<and> a AND WORDMASK = b AND WORDMASK \<longleftrightarrow> a = b"
proof
  assume eq: "page_key a = page_key b \<and> a AND WORDMASK = b AND WORDMASK"
  show "a = b"
  proof (rule bit_word_eqI)
    fix n assume n: "n < LENGTH(32)"
    have k: "bit (page_key a) n = bit (page_key b) n"
      and m: "bit (a AND WORDMASK) n = bit (b AND WORDMASK) n" using eq by simp_all
    show "bit a n = bit b n"
      using k m n sparse_window_bit [OF a, of n] sparse_window_bit [OF b, of n]
      by (cases "n < 10") (auto simp: page_key_def WORDMASK_mask bit_simps)
  qed
qed simp

text \<open>
  Reads and writes on any address: a word is determined by its page key and its index in
  the page, so addresses that agree on both share it.
\<close>

definition same_word :: "u32 \<Rightarrow> u32 \<Rightarrow> bool" where
  "same_word a b \<longleftrightarrow> page_key a = page_key b \<and> a AND WORDMASK = b AND WORDMASK"

lemma sparseram_read:
  assumes "op = OP_INSN_READ \<or> op = OP_DATA_READ"
  shows "\<exists>s'. sparseram_op junk op a v s = Inr (0, sparse_peek s a, s') \<and>
    (\<forall>b. sparse_peek s' b = sparse_peek s b)"
  using assms in_page [of a] in_page
  by (auto simp: sparseram_op_def sparse_peek_def Let_def new_page_def illegal_word_def
      split: option.splits)

lemma sparseram_write:
  "\<exists>s'. sparseram_op junk OP_WRITE a v s = Inr (0, v, s') \<and>
    (\<forall>b. sparse_peek s' b = (if same_word b a then v else sparse_peek s b))"
  using in_page
  by (auto simp: sparseram_op_def sparse_peek_def Let_def new_page_def illegal_word_def
      same_word_def split: option.splits)

lemma far_same_word: "same_word (a + 0x1000000) a"
proof -
  have "(0x1000000 :: u32) AND mask 24 = 0" by (simp add: mask_eq_decr_exp)
  then have d: "take_bit 24 (a + 0x1000000) = take_bit 24 a"
    unfolding take_bit_eq_mask by (metis add.right_neutral mask_eqs(2))
  have b: "bit (a + 0x1000000) n = bit a n" if "n < 24" for n
    using arg_cong [OF d, of "\<lambda>w. bit w n"] that by (simp add: bit_take_bit_iff)
  show ?thesis
    unfolding same_word_def
  proof (intro conjI bit_word_eqI)
    fix n assume "n < LENGTH(24)"
    then show "bit (page_key (a + 0x1000000)) n = bit (page_key a) n"
      using b [of n] by (auto simp: page_key_def bit_simps WORDMASK_mask)
  next
    fix n assume "n < LENGTH(32)"
    show "bit ((a + 0x1000000) AND WORDMASK) n = bit (a AND WORDMASK) n"
      using b [of n] by (auto simp: WORDMASK_mask bit_simps)
  qed
qed

lemma sparseram_init_peek: "sparse_peek sparseram_init a = illegal_word"
  by (simp add: sparse_peek_def sparseram_init_def)

interpretation sparse: clocked_store "sparseram_op junk" "\<lambda>_. True" sparse_window sparse_peek no_cycle
  for junk
proof unfold_locales
  fix s a op v assume "op = OP_INSN_READ \<or> op = OP_DATA_READ"
  then show "\<exists>w'. sparseram_op junk op a v s = Inr (0, sparse_peek s a, w') \<and> True \<and>
      (\<forall>b\<in>sparse_window. sparse_peek w' b = sparse_peek s b)"
    using sparseram_read [of op junk a v s] by auto
next
  fix s a v assume a: "a \<in> sparse_window"
  show "\<exists>w'. sparseram_op junk OP_WRITE a v s = Inr (0, v, w') \<and> True \<and>
      (\<forall>b\<in>sparse_window. sparse_peek w' b = (if b = a then v else sparse_peek s b))"
    using sparseram_write [of junk a v s] page_address_inj [OF _ a]
    by (fastforce simp: same_word_def)
qed (simp add: no_cycle_def)

section \<open>The serial port\<close>

definition SERIAL_BASE :: u32 where "SERIAL_BASE = push_bit 5 1"

text \<open>The process's standard streams: what is left to read and what was written.\<close>

record stdio =
  stdin :: "u8 list"
  stdout :: "u8 list"

text \<open>
  \<open>getchar\<close> yields the next byte as an \<open>int\<close>, or \<open>EOF\<close> (-1), which \<open>*data = tmp\<close> stores as
  all ones; \<open>putchar\<close> writes its argument converted to \<open>unsigned char\<close>.
\<close>

definition getchar :: "stdio \<Rightarrow> u32 \<times> stdio" where
  "getchar io = (case stdin io of [] \<Rightarrow> (-1, io) | c # cs \<Rightarrow> (ucast c, io\<lparr>stdin := cs\<rparr>))"

definition putchar :: "u32 \<Rightarrow> stdio \<Rightarrow> stdio" where
  "putchar c io = io\<lparr>stdout := stdout io @ [ucast c]\<rparr>"

definition serial_op :: "stdio dispatcher" where
  "serial_op op addr data io =
     (if op = OP_WRITE then Inr (0, data, putchar data io)
      else if op = OP_INSN_READ \<or> op = OP_DATA_READ then
        (let (tmp, io) = getchar io in
         if tmp \<noteq> 0 \<and> tmp = -1 then Inr (-1, tmp, io) else Inr (0, tmp, io))
      else Inr (1, data, io))"

lemma ucast_byte_not_EOF: "ucast (c :: u8) \<noteq> (-1 :: u32)"
proof
  assume "ucast c = (-1 :: u32)"
  then have "bit (ucast c :: u32) 31 = bit (-1 :: u32) 31" by simp
  then show False by (simp add: bit_simps bit_beyond)
qed

lemma serial_read_byte:
  "stdin io = c # cs \<Longrightarrow> op = OP_INSN_READ \<or> op = OP_DATA_READ \<Longrightarrow>
     serial_op op a v io = Inr (0, ucast c, io\<lparr>stdin := cs\<rparr>)"
  by (auto simp: serial_op_def getchar_def ucast_byte_not_EOF)

lemma serial_read_eof:
  "stdin io = [] \<Longrightarrow> op = OP_INSN_READ \<or> op = OP_DATA_READ \<Longrightarrow>
     serial_op op a v io = Inr (-1, -1, io)"
  by (auto simp: serial_op_def getchar_def)

text \<open>As many reads as there are bytes.\<close>

fun serial_reads :: "int \<Rightarrow> u32 \<Rightarrow> nat \<Rightarrow> stdio \<Rightarrow> (u32 list \<times> stdio) res" where
  "serial_reads op a 0 io = Inr ([], io)"
| "serial_reads op a (Suc n) io =
     bindE (serial_op op a 0 io) (\<lambda>(_, w, io). bindE (serial_reads op a n io) (\<lambda>(ws, io). Inr (w # ws, io)))"

lemma serial_reads_all:
  "op = OP_INSN_READ \<or> op = OP_DATA_READ \<Longrightarrow>
     serial_reads op a (length cs) \<lparr>stdin = cs, stdout = o'\<rparr> = Inr (map ucast cs, \<lparr>stdin = [], stdout = o'\<rparr>)"
  by (induction cs) (simp_all add: serial_read_byte)

end
