(* ===== verification/Tsim.thy ===== *)
theory Tsim
  imports Simif Memory
begin

text \<open>
  The simulator \<^verbatim>\<open>src/tsim.c\<close>: the recipes that populate the device table, and the order of
  \<open>main\<close> from \<open>devices_setup\<close> to the end of \<open>run_sim\<close>.  Shared objects opened with \<open>dlopen\<close>
  (plugins, the JIT) are arguments.  The two RAMs are mounted on the bus here.
\<close>

section \<open>The devices as the table holds them\<close>

text \<open>
  What a device's operations work on: the state behind its cookie, NULL before \<open>init\<close>; the
  serial port has no cookie and works on the process's streams.
\<close>

datatype cookie = No_cookie | Ram ram_state | Sparse sparseram_state | Serial stdio

definition on_ram :: "cookie dispatcher" where
  "on_ram op addr data c = (case c of
     Ram r \<Rightarrow> bindE (ram_op op addr data r) (\<lambda>(rc, data, r). Inr (rc, data, Ram r))
   | _ \<Rightarrow> Inl (Undefined ''cookie''))"

definition on_sparse :: "page \<Rightarrow> cookie dispatcher" where
  "on_sparse junk op addr data c = (case c of
     Sparse s \<Rightarrow> bindE (sparseram_op junk op addr data s) (\<lambda>(rc, data, s). Inr (rc, data, Sparse s))
   | _ \<Rightarrow> Inl (Undefined ''cookie''))"

definition on_serial :: "cookie dispatcher" where
  "on_serial op addr data c = (case c of
     Serial io \<Rightarrow> bindE (serial_op op addr data io) (\<lambda>(rc, data, io). Inr (rc, data, Serial io))
   | _ \<Rightarrow> Inl (Undefined ''cookie''))"

definition ram_init_cookie :: "(u32 \<Rightarrow> u32) \<Rightarrow> cookie \<Rightarrow> (int \<times> cookie) res" where
  "ram_init_cookie junk c = (case c of
     No_cookie \<Rightarrow> Inr (0, Ram (ram_init junk None))
   | Ram r \<Rightarrow> Inr (0, Ram (ram_init junk (Some r)))
   | _ \<Rightarrow> Inl (Undefined ''cookie''))"

text \<open>\<open>ram_add_device\<close>, \<open>sparseram_add_device\<close>, \<open>serial_add_device\<close>.\<close>

definition ram_device :: "(u32 \<Rightarrow> u32) \<Rightarrow> cookie device" where
  "ram_device junk = \<lparr>bounds0 = RAM_BASE, bounds1 = RAM_END, dev_init = ram_init_cookie junk,
     dev_op = on_ram, dev_cycle = None, dev_fini = \<lambda>c. Inr (0, No_cookie), cookie = No_cookie\<rparr>"

definition sparseram_device :: "page \<Rightarrow> cookie device" where
  "sparseram_device junk = \<lparr>bounds0 = RAM_BASE, bounds1 = RAM_END,
     dev_init = \<lambda>c. Inr (0, Sparse sparseram_init),
     dev_op = on_sparse junk, dev_cycle = None, dev_fini = \<lambda>c. Inr (0, No_cookie),
     cookie = No_cookie\<rparr>"

definition serial_device :: "stdio \<Rightarrow> cookie device" where
  "serial_device io = \<lparr>bounds0 = SERIAL_BASE, bounds1 = SERIAL_BASE + 1,
     dev_init = \<lambda>c. Inr (0, c), dev_op = on_serial, dev_cycle = None, dev_fini = \<lambda>c. Inr (0, c),
     cookie = Serial io\<rparr>"

section \<open>Paths\<close>

text \<open>
  \<open>build_path\<close>: the directory of \<open>base\<close>, up to and with its last slash, and what the format makes of
  its arguments, here \<open>suffix\<close>.  The directory becomes part of the format string.
\<close>

definition dir_of :: "string \<Rightarrow> string" where
  "dir_of path = rev (dropWhile (\<lambda>c. c \<noteq> CHR ''/'') (rev path))"

definition build_path :: "string \<Rightarrow> string \<Rightarrow> string res" where
  "build_path path suffix =
     (if CHR ''%'' \<in> set (dir_of path) then Inl (Undefined ''conversion in a directory name'')
      else Inr (dir_of path @ suffix))"

lemma build_path_plain: "CHR ''/'' \<notin> set path \<Longrightarrow> build_path path suffix = Inr suffix"
proof -
  assume "CHR ''/'' \<notin> set path"
  then have "dir_of path = []" by (auto simp: dir_of_def dropWhile_eq_Nil_conv)
  then show ?thesis by (simp add: build_path_def)
qed

lemma build_path_dir:
  "CHR ''/'' \<notin> set name \<Longrightarrow> CHR ''%'' \<notin> set dir \<Longrightarrow>
     build_path (dir @ ''/'' @ name) suffix = Inr (dir @ ''/'' @ suffix)"
proof -
  assume n: "CHR ''/'' \<notin> set name" "CHR ''%'' \<notin> set dir"
  have "dropWhile (\<lambda>c. c \<noteq> CHR ''/'') (rev name @ CHR ''/'' # rev dir) = CHR ''/'' # rev dir"
    using n(1) by (subst dropWhile_append2) auto
  then have "dir_of (dir @ ''/'' @ name) = dir @ ''/''" by (simp add: dir_of_def)
  then show ?thesis using n(2) by (simp add: build_path_def)
qed

section \<open>Recipes\<close>

datatype recipe = Prealloc | Sparse_mem | Serial_port | Plugin | Jit

text \<open>The parts of \<open>struct sim_state\<close> that \<open>main\<close> sets up before the run.\<close>

record sim_state =
  run_defaults :: bool
  recipes :: "recipe list"
  plugins_loaded :: bool
  jit_selected :: bool
  sim_bus :: "cookie bus"

text \<open>
  What is outside the program: the contents of fresh memory, the process's streams, what
  \<open>plugin_load\<close> does to the table, the path of the program, and for each library that can be opened
  whether it has a function \<open>jit_run_sim\<close>.
\<close>

record outside =
  fresh :: "u32 \<Rightarrow> u32"
  streams :: stdio
  plugin_load :: "cookie bus \<Rightarrow> int \<times> cookie bus"
  tsim_path :: string
  jit_library :: "string \<Rightarrow> bool option"

text \<open>The array \<open>entries\<close> of \<open>add_recipe\<close>; the new recipe goes to the front of the book.\<close>

definition recipe_entries :: "(string \<times> recipe) list" where
  "recipe_entries = [(''prealloc'', Prealloc), (''sparse'', Sparse_mem), (''serial'', Serial_port),
     (''plugin'', Plugin), (''jit'', Jit)]"

definition add_recipe :: "string \<Rightarrow> sim_state \<Rightarrow> int \<times> sim_state" where
  "add_recipe name s =
     (case lfind (\<lambda>a b. strcmp a (fst b)) name recipe_entries of
        Some i \<Rightarrow> (0, s\<lparr>recipes := snd (recipe_entries ! i) # recipes s\<rparr>)
      | None \<Rightarrow> (1, s))"

text \<open>\<open>DEVICE_RECIPE_TMPL\<close>; \<open>None\<close> if the table grows for ever.\<close>

definition device_recipe :: "cookie device \<Rightarrow> sim_state \<Rightarrow> (int \<times> sim_state) res option" where
  "device_recipe d s =
     (case next_device None (sim_bus s) of
        None \<Rightarrow> None
      | Some (index, b) \<Rightarrow> Some (bindE (put_device index d b) (\<lambda>b. Inr (0, s\<lparr>sim_bus := b\<rparr>))))"

definition recipe_plugin :: "outside \<Rightarrow> sim_state \<Rightarrow> (int \<times> sim_state) res option" where
  "recipe_plugin out s =
     (if plugins_loaded s then Some (Inr (0, s))
      else let (rc, b) = plugin_load out (sim_bus s); loaded = (rc = 0) in
        Some (Inr (if loaded then 0 else 1, s\<lparr>plugins_loaded := loaded, sim_bus := b\<rparr>)))"

text \<open>
  The search for the JIT's library: the condition of the loop looks at the first path, which is never
  NULL, so that without a library the NULL at the end is taken for a path.
\<close>

fun open_jit :: "(string \<Rightarrow> bool option) \<Rightarrow> string \<Rightarrow> string list \<Rightarrow> bool res" where
  "open_jit dlopen path [] = Inl (Undefined ''null path'')"
| "open_jit dlopen path (p # ps) =
     bindE (build_path path (p @ ''libtenyrjit.so'')) (\<lambda>buf.
       case dlopen buf of Some has_run \<Rightarrow> Inr has_run | None \<Rightarrow> open_jit dlopen path ps)"

definition recipe_jit :: "outside \<Rightarrow> sim_state \<Rightarrow> (int \<times> sim_state) res option" where
  "recipe_jit out s =
     Some (bindE (open_jit (jit_library out) (tsim_path out) [''../lib/'', ''./'', []]) (\<lambda>has_run.
       Inr (if has_run then (0, s\<lparr>jit_selected := True\<rparr>) else (1, s))))"

lemma recipe_jit_missing:
  assumes "CHR ''%'' \<notin> set (dir_of (tsim_path out))" and "\<forall>f. jit_library out f = None"
  shows "recipe_jit out s = Some (Inl (Undefined ''null path''))"
  using assms by (simp add: recipe_jit_def build_path_def)

definition run_recipe :: "outside \<Rightarrow> recipe \<Rightarrow> sim_state \<Rightarrow> (int \<times> sim_state) res option" where
  "run_recipe out r s = (case r of
     Prealloc \<Rightarrow> device_recipe (ram_device (fresh out)) s
   | Sparse_mem \<Rightarrow> device_recipe (sparseram_device (fresh out)) s
   | Serial_port \<Rightarrow> device_recipe (serial_device (streams out)) s
   | Plugin \<Rightarrow> recipe_plugin out s
   | Jit \<Rightarrow> recipe_jit out s)"

text \<open>The default recipes' return codes are ignored; a listed recipe must return 0.\<close>

fun run_defaults_loop :: "outside \<Rightarrow> recipe list \<Rightarrow> sim_state \<Rightarrow> sim_state res option" where
  "run_defaults_loop out [] s = Some (Inr s)"
| "run_defaults_loop out (r # rs) s =
     (case run_recipe out r s of
        None \<Rightarrow> None
      | Some (Inl e) \<Rightarrow> Some (Inl e)
      | Some (Inr (_, s)) \<Rightarrow> run_defaults_loop out rs s)"

fun run_book :: "outside \<Rightarrow> recipe list \<Rightarrow> sim_state \<Rightarrow> sim_state res option" where
  "run_book out [] s = Some (Inr s)"
| "run_book out (r # rs) s =
     (case run_recipe out r s of
        None \<Rightarrow> None
      | Some (Inl e) \<Rightarrow> Some (Inl e)
      | Some (Inr (rc, s)) \<Rightarrow>
          if rc \<noteq> 0 then Some (Inl (Fatal ''Running recipe failed'')) else run_book out rs s)"

definition run_recipes :: "outside \<Rightarrow> sim_state \<Rightarrow> sim_state res option" where
  "run_recipes out s =
     (case (if run_defaults s then run_defaults_loop out [Sparse_mem, Serial_port, Plugin] s
            else Some (Inr s)) of
        None \<Rightarrow> None
      | Some (Inl e) \<Rightarrow> Some (Inl e)
      | Some (Inr s) \<Rightarrow> run_book out (recipes s) s)"

section \<open>main\<close>

text \<open>From \<open>devices_setup\<close> to \<open>devices_finalise\<close>.\<close>

type_synonym 'a sorter = "('a \<Rightarrow> 'a \<Rightarrow> int) \<Rightarrow> 'a list \<Rightarrow> 'a list"
type_synonym ('k, 'a) searcher = "('k \<Rightarrow> 'a \<Rightarrow> int) \<Rightarrow> 'k \<Rightarrow> 'a list \<Rightarrow> nat option"

definition boot :: "cookie device option sorter \<Rightarrow> outside \<Rightarrow> sim_state \<Rightarrow> sim_state res option" where
  "boot qs out s =
     (case run_recipes out (s\<lparr>sim_bus := devices_setup\<rparr>) of
        None \<Rightarrow> None
      | Some r \<Rightarrow> Some (bindE r (\<lambda>s.
          bindE (devices_finalise qs (sim_bus s)) (\<lambda>(_, b). Inr (s\<lparr>sim_bus := b\<rparr>)))))"

text \<open>
  From \<open>load_sim\<close> on: the registers are cleared, the program counter set, and the interpreter
  is run; its return code does not reach the exit status.  \<open>junk\<close> is the indeterminate
  contents of the interpreter's locals.
\<close>

definition start_machine :: "u32 \<Rightarrow> cookie bus \<Rightarrow> cookie bus machine" where
  "start_machine start b =
     \<lparr>regs = (\<lambda>_. 0)(15 := start), insns_executed = 0, world = b\<rparr>"

definition load_and_run ::
  "(u32, cookie device option) searcher \<Rightarrow> u32 \<Rightarrow> 'u in_fun \<Rightarrow> 'u \<Rightarrow> element \<Rightarrow> u32 \<Rightarrow> u32 \<Rightarrow> cookie bus
     \<Rightarrow> (int \<times> cookie bus machine) res option" where
  "load_and_run bs junk f_in ud i load_addr start_addr b =
     (case load_sim (dispatch_op bs) f_in load_addr ud i b of
        None \<Rightarrow> None
      | Some (Inl e) \<Rightarrow> Some (Inl e)
      | Some (Inr (rc, b)) \<Rightarrow>
          if rc \<noteq> 0 then Some (Inl (Fatal ''Error while loading state into simulation''))
          else
            (case interp_run_sim (dispatch_op bs) junk (tsim_ops devices_dispatch_cycle)
                    (start_machine start_addr b) of
               None \<Rightarrow> None
             | Some (Inl e) \<Rightarrow> Some (Inl e)
             | Some (Inr (rc, s)) \<Rightarrow>
                 Some (bindE (devices_teardown (world s)) (\<lambda>(_, b). Inr (0, s\<lparr>world := b\<rparr>)))))"

section \<open>The RAMs behind the bus\<close>

definition sparse_ok :: "cookie \<Rightarrow> bool" where
  "sparse_ok c = (case c of Sparse _ \<Rightarrow> True | _ \<Rightarrow> False)"

definition sparse_look :: "cookie \<Rightarrow> u32 \<Rightarrow> u32" where
  "sparse_look c a = (case c of Sparse s \<Rightarrow> sparse_peek s a | _ \<Rightarrow> 0)"

definition ram_cookie_ok :: "cookie \<Rightarrow> bool" where
  "ram_cookie_ok c = (case c of Ram r \<Rightarrow> ram_ok r | _ \<Rightarrow> False)"

definition ram_look :: "cookie \<Rightarrow> u32 \<Rightarrow> u32" where
  "ram_look c a = (case c of Ram r \<Rightarrow> ram_peek r a | _ \<Rightarrow> 0)"

lemma ram_window_sparse: "a \<in> ram_window \<Longrightarrow> a \<in> sparse_window"
  unfolding ram_window_def sparse_window_def ram_consts
  by (simp add: word_le_nat_alt word_less_nat_alt)

locale tsim_bus = device_bus qs bs
  for qs :: "cookie device option sorter" and bs :: "(u32, cookie device option) searcher"

sublocale tsim_bus \<subseteq> sparse: mounted_store qs bs "on_sparse junk" sparse_ok ram_window sparse_look
  for junk
proof unfold_locales
  fix c a op v
  assume "sparse_ok c" and a: "a \<in> ram_window" and op: "op = OP_INSN_READ \<or> op = OP_DATA_READ"
  then obtain s where c: "c = Sparse s" by (auto simp: sparse_ok_def split: cookie.splits)
  obtain s' where "sparseram_op junk op a v s = Inr (0, sparse_peek s a, s')"
    "\<forall>b. sparse_peek s' b = sparse_peek s b"
    using sparseram_read [OF op] by blast
  then show "\<exists>w'. on_sparse junk op a v c = Inr (0, sparse_look c a, w') \<and> sparse_ok w' \<and>
      (\<forall>b\<in>ram_window. sparse_look w' b = sparse_look c b)"
    by (simp add: on_sparse_def c sparse_look_def sparse_ok_def)
next
  fix c a v assume "sparse_ok c" and a: "a \<in> ram_window"
  then obtain s where c: "c = Sparse s" by (auto simp: sparse_ok_def split: cookie.splits)
  obtain s' where "sparseram_op junk OP_WRITE a v s = Inr (0, v, s')"
    "\<forall>b\<in>sparse_window. sparse_peek s' b = (if b = a then v else sparse_peek s b)"
    using sparse.store [where w = s and a = a and junk = junk and v = v] ram_window_sparse [OF a] by blast
  then show "\<exists>w'. on_sparse junk OP_WRITE a v c = Inr (0, v, w') \<and> sparse_ok w' \<and>
      (\<forall>b\<in>ram_window. sparse_look w' b = (if b = a then v else sparse_look c b))"
    by (auto simp: on_sparse_def c sparse_look_def sparse_ok_def ram_window_sparse)
qed

sublocale tsim_bus \<subseteq> ram: mounted_store qs bs on_ram ram_cookie_ok ram_window ram_look
proof unfold_locales
  fix c a op v
  assume "ram_cookie_ok c" and a: "a \<in> ram_window" and op: "op = OP_INSN_READ \<or> op = OP_DATA_READ"
  then obtain r where c: "c = Ram r" "ram_ok r" by (auto simp: ram_cookie_ok_def split: cookie.splits)
  show "\<exists>w'. on_ram op a v c = Inr (0, ram_look c a, w') \<and> ram_cookie_ok w' \<and>
      (\<forall>b\<in>ram_window. ram_look w' b = ram_look c b)"
    using ram.read [OF c(2) a op, of v] c
    by (auto simp: on_ram_def ram_look_def ram_cookie_ok_def)
next
  fix c a v assume "ram_cookie_ok c" and a: "a \<in> ram_window"
  then obtain r where c: "c = Ram r" "ram_ok r" by (auto simp: ram_cookie_ok_def split: cookie.splits)
  show "\<exists>w'. on_ram OP_WRITE a v c = Inr (0, v, w') \<and> ram_cookie_ok w' \<and>
      (\<forall>b\<in>ram_window. ram_look w' b = (if b = a then v else ram_look c b))"
    using ram.store [OF c(2) a, of v] c
    by (auto simp: on_ram_def ram_look_def ram_cookie_ok_def)
qed


section \<open>The default machine\<close>

text \<open>Without plugins on the machine.\<close>

definition no_plugins :: "outside \<Rightarrow> bool" where
  "no_plugins out \<longleftrightarrow> (\<forall>b. snd (plugin_load out b) = b)"

definition default_state :: sim_state where
  "default_state = \<lparr>run_defaults = True, recipes = [], plugins_loaded = False,
     jit_selected = False, sim_bus = devices_setup\<rparr>"

definition default_bus :: "outside \<Rightarrow> cookie bus" where
  "default_bus out = \<lparr>devices_max = 8, devices_room = 8, devices =
     [Some (serial_device (streams out)),
      Some ((sparseram_device (fresh out))\<lparr>cookie := Sparse sparseram_init\<rparr>)]\<rparr>"

lemma next_device_small:
  "devices_count b < unat (devices_max b) \<Longrightarrow> unat (devices_max b) \<le> 8 \<Longrightarrow>
     next_device junk b = Some (int (devices_count b), b\<lparr>devices := devices b @ [junk]\<rparr>)"
proof -
  assume n: "devices_count b < unat (devices_max b)" "unat (devices_max b) \<le> 8"
  then have "unat (of_nat (devices_count b) :: u64) = devices_count b" by (simp add: unat_of_nat)
  then have "\<not> devices_max b \<le> of_nat (devices_count b)" using n by (simp add: word_le_nat_alt)
  moreover have "uint (of_nat (devices_count b) :: u32) = int (devices_count b)"
    using n by (simp add: uint_nat unat_of_nat)
  then have "sint (of_nat (devices_count b) :: u32) = int (devices_count b)"
    using n by (simp add: sint_uint signed_take_bit_int_eq_self)
  ultimately show ?thesis by (simp add: next_device_def grow_devices.simps)
qed

lemma mset_two: "mset xs = {#a, b#} \<Longrightarrow> xs = [a, b] \<or> xs = [b, a]"
proof -
  assume m: "mset xs = {#a, b#}"
  then have "length xs = 2" by (metis size_mset size_add_mset size_single numeral_2_eq_2 One_nat_def)
  then obtain x y where "xs = [x, y]" by (auto simp: length_Suc_conv numeral_2_eq_2)
  with m show ?thesis by (auto simp: add_eq_conv_ex)
qed

lemma default_bus_ok: "bus_ok (on_sparse (fresh out)) sparse_ok ram_window (default_bus out)"
  by (simp add: bus_ok_def default_bus_def ascending_def unclocked_def mounted_def proper_def
      below_def sparseram_device_def serial_device_def sparse_ok_def ram_window_def ram_consts
      SERIAL_BASE_def)

context tsim_bus
begin

lemma default_order:
  "qs compare_devices_by_base [Some (sparseram_device j), Some (serial_device io)] =
     [Some (serial_device io), Some (sparseram_device j)]"
proof -
  let ?a = "Some (sparseram_device j)" and ?b = "Some (serial_device io)"
  let ?l = "qs compare_devices_by_base [?a, ?b]"
  have cmp: "compare_devices_by_base ?a ?b = 4064"
    by (simp add: compare_devices_by_base_def sparseram_device_def serial_device_def RAM_BASE_def
        SERIAL_BASE_def)
  have "preorder_on (set [?a, ?b]) compare_devices_by_base"
    by (rule compare_low_preorder)
      (simp add: low_base_def sparseram_device_def serial_device_def RAM_BASE_def SERIAL_BASE_def)
  then have "sorted_wrt (\<lambda>a b. compare_devices_by_base a b \<le> 0) ?l" by (rule qsort_sorted)
  moreover have "mset ?l = {#?a, ?b#}" using qsort_mset [of compare_devices_by_base "[?a, ?b]"] by simp
  then have "?l = [?a, ?b] \<or> ?l = [?b, ?a]" by (rule mset_two)
  ultimately show ?thesis using cmp by auto
qed

lemma boot_default:
  "no_plugins out \<Longrightarrow> \<exists>l. boot qs out default_state =
     Some (Inr (default_state\<lparr>plugins_loaded := l, sim_bus := default_bus out\<rparr>))"
  by (simp add: boot_def run_recipes_def default_state_def run_recipe_def device_recipe_def
      recipe_plugin_def next_device_small devices_setup_def no_plugins_def split_beta Let_def
      devices_finalise_def default_order default_bus_def put_device_def slots_of_def)
    (simp add: sparseram_device_def serial_device_def)

lemma default_bus_peek:
  assumes "a \<in> ram_window"
  shows "bus_peek bs sparse_look (default_bus out) a = illegal_word"
proof -
  have "ascending (devices (default_bus out))" using default_bus_ok by (simp add: bus_ok_def)
  then have "bs find_device_by_addr a (devices (default_bus out)) = Some 1"
    using assms by (intro find_owner)
      (simp_all add: default_bus_def in_window_def sparseram_device_def ram_window_def)
  then show ?thesis
    by (simp add: bus_peek_def default_bus_def sparse_look_def sparseram_init_peek)
qed

text \<open>
  Loading an image into the default machine: each word of the window is the image's, or the
  filler where the image has none.
\<close>

lemma default_load:
  assumes "feeds f_in ud i es" and "\<forall>e\<in>set es. la + e_reladdr e \<in> ram_window"
  shows "\<exists>b. load_sim (dispatch_op bs) f_in la ud i (default_bus out) = Some (Inr (0, b)) \<and>
    bus_ok (on_sparse (fresh out)) sparse_ok ram_window b \<and>
    (\<forall>a\<in>ram_window. bus_peek bs sparse_look b a = image_of la es (\<lambda>_. illegal_word) a)"
proof -
  obtain b where "load_sim (dispatch_op bs) f_in la ud i (default_bus out) = Some (Inr (0, b))"
    and ok: "bus_ok (on_sparse (fresh out)) sparse_ok ram_window b"
    and p: "\<forall>a\<in>ram_window. bus_peek bs sparse_look b a =
      image_of la es (bus_peek bs sparse_look (default_bus out)) a"
    using sparse.bus.load_sim_image [OF assms(1) default_bus_ok [of out], of la] assms(2) by blast
  moreover have "image_of la es (bus_peek bs sparse_look (default_bus out)) a =
      image_of la es (\<lambda>_. illegal_word) a" if "a \<in> ram_window" for a
    by (rule image_of_cong [OF default_bus_peek that])
  ultimately show ?thesis by auto
qed

text \<open>What the interpreter starts from, and what its end means for \<open>main\<close>.\<close>

lemma load_and_run_default:
  assumes "feeds f_in ud i es" and "\<forall>e\<in>set es. la + e_reladdr e \<in> ram_window"
  obtains b where "bus_ok (on_sparse (fresh out)) sparse_ok ram_window b"
    and "\<forall>a\<in>ram_window. bus_peek bs sparse_look b a = image_of la es (\<lambda>_. illegal_word) a"
    and "load_and_run bs junk f_in ud i la sa (default_bus out) =
      (case interp_run_sim (dispatch_op bs) junk (tsim_ops devices_dispatch_cycle)
              (start_machine sa b) of
         None \<Rightarrow> None
       | Some (Inl e) \<Rightarrow> Some (Inl e)
       | Some (Inr (rc, s)) \<Rightarrow>
           Some (bindE (devices_teardown (world s)) (\<lambda>(_, b). Inr (0, s\<lparr>world := b\<rparr>))))"
  using default_load [OF assms, of out] that by (auto simp: load_and_run_def)

lemma default_spin:
  assumes "feeds f_in ud i es" and "\<forall>e\<in>set es. la + e_reladdr e \<in> ram_window"
    and "sa \<in> ram_window" and "image_of la es (\<lambda>_. illegal_word) sa = spin_word"
  shows "load_and_run bs junk f_in ud i la sa (default_bus out) = None"
proof -
  obtain b where ok: "bus_ok (on_sparse (fresh out)) sparse_ok ram_window b"
    and p: "\<forall>a\<in>ram_window. bus_peek bs sparse_look b a = image_of la es (\<lambda>_. illegal_word) a"
    and eq: "load_and_run bs junk f_in ud i la sa (default_bus out) =
      (case interp_run_sim (dispatch_op bs) junk (tsim_ops devices_dispatch_cycle)
              (start_machine sa b) of
         None \<Rightarrow> None
       | Some (Inl e) \<Rightarrow> Some (Inl e)
       | Some (Inr (rc, s)) \<Rightarrow>
           Some (bindE (devices_teardown (world s)) (\<lambda>(_, b). Inr (0, s\<lparr>world := b\<rparr>))))"
    by (rule load_and_run_default [OF assms(1,2), where out = out and junk = junk and sa = sa])
  have "sa \<noteq> 0xffffffff" using assms(3) by (auto simp: ram_window_def ram_consts)
  moreover have "spinning (bus_ok (on_sparse (fresh out)) sparse_ok ram_window)
      (bus_peek bs sparse_look) sa (start_machine sa b)"
    using ok p assms(3,4) by (simp add: spinning_def start_machine_def)
  ultimately show ?thesis
    using sparse.bus.spin_forever [OF assms(3)] by (simp add: eq)
qed

lemma default_halt:
  assumes "feeds f_in ud i es" and "\<forall>e\<in>set es. la + e_reladdr e \<in> ram_window"
    and "sa \<in> ram_window" and "image_of la es (\<lambda>_. illegal_word) sa = illegal_word"
  shows "\<exists>b t. load_sim (dispatch_op bs) f_in la ud i (default_bus out) = Some (Inr (0, b)) \<and>
    interp_run_sim (dispatch_op bs) junk (tsim_ops devices_dispatch_cycle) (start_machine sa b) =
      Some (Inr (-1, t)) \<and> insns_executed t = 1 \<and> regs t 15 = 0xffffffff"
proof -
  obtain b where l: "load_sim (dispatch_op bs) f_in la ud i (default_bus out) = Some (Inr (0, b))"
    and ok: "bus_ok (on_sparse (fresh out)) sparse_ok ram_window b"
    and p: "\<forall>a\<in>ram_window. bus_peek bs sparse_look b a = image_of la es (\<lambda>_. illegal_word) a"
    using default_load [OF assms(1,2)] by blast
  have "sa \<noteq> 0xffffffff" using assms(3) by (auto simp: ram_window_def ram_consts)
  with sparse.bus.illegal_halts [of "fresh out" "start_machine sa b" sa junk] ok p assms(3,4) l
  show ?thesis by (auto simp: start_machine_def)
qed

end

text \<open>A machine without plugins, whose input is empty.\<close>

definition bare_outside :: outside where
  "bare_outside = \<lparr>fresh = (\<lambda>_. 0), streams = \<lparr>stdin = [], stdout = []\<rparr>,
     plugin_load = (\<lambda>b. (0, b)), tsim_path = ''tsim'', jit_library = (\<lambda>_. None)\<rparr>"

interpretation tsim: tsim_bus quicksort bsearch
  by unfold_locales

end
