(* ===== verification/Link.thy ===== *)
theory Link
  imports Obj
begin

unbundle bit_operations_syntax

text \<open>
  The linker \<^verbatim>\<open>src/tld.c\<close>: objects are loaded, packed one after another, their relocations are
  applied and the result is emitted as one object.  An object is known by its place in the list of
  inputs; the two search trees are the finite maps that \<open>tsearch\<close> and \<open>tfind\<close> make of them, keyed
  by that place and by symbol name.
\<close>

section \<open>State\<close>

text \<open>\<open>struct defn\<close>, found by its name, and the \<open>offset\<close> of \<open>struct objmeta\<close>.\<close>

record defn =
  def_obj :: nat
  def_reladdr :: u32
  def_flags :: u32

type_synonym objtree = "nat \<rightharpoonup> u32"
type_synonym defns = "u8 list \<rightharpoonup> defn"

record link_state =
  running :: u32
  objtree :: objtree
  defns :: defns

definition name_key :: "u8 list \<Rightarrow> u8 list res" where
  "name_key nm = bindE (strcopy nm SYMBOL_LEN) (\<lambda>c. Inr (cstr c))"

section \<open>do_link_build_state\<close>

definition add_defn :: "nat \<Rightarrow> objsym \<Rightarrow> link_state \<Rightarrow> link_state res" where
  "add_defn i y s =
     bindE (name_key (sym_name y)) (\<lambda>k.
       if defns s k \<noteq> None then Inl (Fatal ''Duplicate definition for symbol'')
       else Inr (s\<lparr>defns := (defns s)(k \<mapsto> \<lparr>def_obj = i, def_reladdr = sym_value y,
                                                 def_flags = sym_flags y\<rparr>)\<rparr>))"

definition add_obj :: "nat \<times> obj \<Rightarrow> link_state \<Rightarrow> link_state res" where
  "add_obj = (\<lambda>(i, ob) s.
     if rec_count ob = 0 then Inr s
     else (case records ob of
         [] \<Rightarrow> Inl (Undefined ''no record'')
       | r # _ \<Rightarrow>
           if objtree s i \<noteq> None then Inl (Fatal ''Duplicate object'')
           else foldE (add_defn i) (symbols ob)
             (s\<lparr>objtree := (objtree s)(i \<mapsto> running s), running := running s + rec_size r\<rparr>)))"

definition do_link_build_state :: "obj list \<Rightarrow> link_state res" where
  "do_link_build_state objs =
     foldE add_obj (enumerate 0 objs) \<lparr>running = 0, objtree = Map.empty, defns = Map.empty\<rparr>"

section \<open>Relocation\<close>

text \<open>The value a relocation adds.\<close>

definition reloc_value :: "link_state \<Rightarrow> nat \<Rightarrow> objrlc \<Rightarrow> u32 res" where
  "reloc_value s i rlc =
     (if hd (rlc_name rlc) \<noteq> 0 then
        bindE (name_key (rlc_name rlc)) (\<lambda>k.
          case defns s k of
            None \<Rightarrow> Inl (Fatal ''Missing definition for symbol'')
          | Some d \<Rightarrow>
              if def_flags d AND RLC_ABSOLUTE = 0 then
                (case objtree s (def_obj d) of
                   None \<Rightarrow> Inl (Undefined ''NULL objmeta'')
                 | Some off \<Rightarrow> Inr (def_reladdr d + off))
              else Inr (def_reladdr d))
      else
        (case objtree s i of
           None \<Rightarrow> Inl (Undefined ''NULL objmeta'')
         | Some off \<Rightarrow> Inr (if rlc_flags rlc AND RLC_NEGATE \<noteq> 0 then - off else off)))"

text \<open>\<open>(1 << (width - 1)) << 1) - 1\<close>; a shift by 32 or more is undefined.\<close>

definition reloc_mask :: "u32 \<Rightarrow> u32 res" where
  "reloc_mask width =
     (if width - 1 \<ge> 32 then Inl (Undefined ''shift'')
      else Inr (push_bit 1 (push_bit (unat (width - 1)) 1) - 1))"

definition do_link_relocate_obj_reloc ::
  "link_state \<Rightarrow> nat \<Rightarrow> objrlc \<Rightarrow> obj \<Rightarrow> (int \<times> obj) res" where
  "do_link_relocate_obj_reloc s i rlc ob =
     (if rec_count ob > 1 then Inl (Fatal ''Object has more than one record, unsupported'')
      else if rec_count ob < 1 then Inl (Fatal ''Object has invalid record count, aborting'')
      else (case records ob of
          [] \<Rightarrow> Inl (Undefined ''no record'')
        | r # rs \<Rightarrow>
            if rlc_addr rlc < rec_addr r \<or> rlc_addr rlc - rec_addr r > rec_size r then Inr (1, ob)
            else bindE (reloc_value s i rlc) (\<lambda>reladdr.
              let at = unat (rlc_addr rlc - rec_addr r) in
              if length (rec_data r) \<le> at then Inl (Undefined ''relocation past the record'')
              else bindE (reloc_mask (rlc_width rlc)) (\<lambda>mask.
                let dest = rec_data r ! at;
                    updated = (dest + reladdr) AND mask
                in Inr (0, ob\<lparr>records :=
                     r\<lparr>rec_data := (rec_data r)[at := (dest AND NOT mask) OR updated]\<rparr> # rs\<rparr>)))))"

text \<open>The return code of each relocation is ignored.\<close>

definition do_link_relocate_obj :: "link_state \<Rightarrow> nat \<Rightarrow> obj \<Rightarrow> obj res" where
  "do_link_relocate_obj s i ob =
     foldE (\<lambda>rlc ob. bindE (do_link_relocate_obj_reloc s i rlc ob) (\<lambda>(_, ob). Inr ob)) (relocs ob) ob"

fun do_link_relocate :: "link_state \<Rightarrow> (nat \<times> obj) list \<Rightarrow> obj list res" where
  "do_link_relocate s [] = Inr []"
| "do_link_relocate s ((i, ob) # obs) =
     bindE (if rec_count ob = 0 then Inr ob else do_link_relocate_obj s i ob) (\<lambda>ob.
       bindE (do_link_relocate s obs) (\<lambda>obs. Inr (ob # obs)))"

definition do_link_process :: "obj list \<Rightarrow> obj list res" where
  "do_link_process objs =
     bindE (do_link_build_state objs) (\<lambda>s. do_link_relocate s (enumerate 0 objs))"

section \<open>Emission\<close>

text \<open>Every record of every object, at consecutive addresses.\<close>

fun emit_records :: "u32 \<Rightarrow> objrec list \<Rightarrow> objrec list res" where
  "emit_records addr [] = Inr []"
| "emit_records addr (r # rs) =
     (if length (rec_data r) < unat (rec_size r) then Inl (Undefined ''read past the record'')
      else bindE (emit_records (addr + rec_size r) rs) (\<lambda>ns.
        Inr (\<lparr>rec_addr = addr, rec_size = rec_size r,
               rec_data = take (unat (rec_size r)) (rec_data r)\<rparr> # ns)))"

definition do_link_emit :: "obj list \<Rightarrow> obj res" where
  "do_link_emit objs =
     bindE (emit_records 0 (concat (map records objs))) (\<lambda>rs.
       Inr \<lparr>version = 0, obj_flags = 0, rec_count = of_nat (length rs), records = rs,
            sym_count = 0, symbols = [], rlc_count = 0, relocs = []\<rparr>)"

definition do_link :: "obj list \<Rightarrow> obj res" where
  "do_link objs = bindE (do_link_process objs) do_link_emit"

section \<open>main\<close>

text \<open>\<open>do_load_all\<close>; a refused object makes \<open>main\<close> give up.\<close>

fun do_load_all :: "bool \<Rightarrow> instream list \<Rightarrow> obj list res" where
  "do_load_all little [] = Inr []"
| "do_load_all little (s # ss) =
     bindE (obj_read little s) (\<lambda>(ob, _). case ob of
         None \<Rightarrow> Inl (Fatal ''Failed to load objects'')
       | Some ob \<Rightarrow> bindE (do_load_all little ss) (\<lambda>obs. Inr (ob # obs)))"

definition tld :: "bool \<Rightarrow> instream list \<Rightarrow> u8 list res" where
  "tld little ss = bindE (do_load_all little ss) (\<lambda>objs. bindE (do_link objs) (obj_write little))"

section \<open>The layout\<close>

text \<open>The words the objects before the \<open>k\<close>-th one take, counting first records only.\<close>

definition first_size :: "obj \<Rightarrow> u32" where
  "first_size ob = (if rec_count ob = 0 then 0 else rec_size (hd (records ob)))"

definition offset :: "obj list \<Rightarrow> nat \<Rightarrow> u32" where
  "offset objs k = sum_list (map first_size (take k objs))"

lemma offset_0 [simp]: "offset objs 0 = 0"
  by (simp add: offset_def)

lemma offset_Cons [simp]: "offset (ob # objs) (Suc k) = first_size ob + offset objs k"
  by (simp add: offset_def)

text \<open>The symbols an input brings in, by name.\<close>

definition sym_key :: "objsym \<Rightarrow> u8 list" where
  "sym_key y = cstr ((sym_name y)[31 := 0])"

definition exports :: "obj \<Rightarrow> objsym list" where
  "exports ob = (if rec_count ob = 0 then [] else symbols ob)"

definition loaded :: "obj list \<Rightarrow> bool" where
  "loaded objs \<longleftrightarrow> (\<forall>ob\<in>set objs. wf_obj ob)"

lemma name_key_ok: "length nm = SYMBOL_LEN \<Longrightarrow> name_key nm = Inr (cstr (nm[31 := 0]))"
  by (simp add: name_key_def strcopy_def SYMBOL_LEN_def)

lemma wf_rec_count: "wf_obj ob \<Longrightarrow> rec_count ob = 0 \<longleftrightarrow> records ob = []"
  by (auto simp: wf_obj_def unat_eq_zero)

definition defn_of :: "nat \<Rightarrow> objsym \<Rightarrow> defn" where
  "defn_of i y = \<lparr>def_obj = i, def_reladdr = sym_value y, def_flags = sym_flags y\<rparr>"

definition defn_list :: "nat \<Rightarrow> objsym list \<Rightarrow> (u8 list \<times> defn) list" where
  "defn_list i ys = map (\<lambda>y. (sym_key y, defn_of i y)) ys"

fun all_defns :: "nat \<Rightarrow> obj list \<Rightarrow> (u8 list \<times> defn) list" where
  "all_defns n [] = []"
| "all_defns n (ob # objs) = defn_list n (exports ob) @ all_defns (Suc n) objs"

text \<open>Adding the symbols of one object: all of them, or a duplicate.\<close>

lemma add_defns:
  assumes "\<forall>y\<in>set ys. length (sym_name y) = SYMBOL_LEN" and "defns s = map_of A"
    and "distinct (map fst A)"
  shows "foldE (add_defn i) ys s =
    (if distinct (map fst (A @ defn_list i ys)) then Inr (s\<lparr>defns := map_of (A @ defn_list i ys)\<rparr>)
     else Inl (Fatal ''Duplicate definition for symbol''))"
  using assms
proof (induction ys arbitrary: s A)
  case (Cons y ys)
  then have y: "name_key (sym_name y) = Inr (sym_key y)"
    by (simp add: name_key_ok sym_key_def)
  show ?case
  proof (cases "sym_key y \<in> fst ` set A")
    case True
    then have "defns s (sym_key y) \<noteq> None" using Cons.prems(2) by (simp add: map_of_eq_None_iff)
    then have "foldE (add_defn i) (y # ys) s = Inl (Fatal ''Duplicate definition for symbol'')"
      by (simp add: add_defn_def y)
    then show ?thesis using True by (auto simp: defn_list_def)
  next
    case False
    let ?s = "s\<lparr>defns := map_of (A @ [(sym_key y, defn_of i y)])\<rparr>"
    have "defns s (sym_key y) = None"
      using False Cons.prems(2) by (simp add: map_of_eq_None_iff)
    then have "foldE (add_defn i) (y # ys) s = foldE (add_defn i) ys ?s"
      using Cons.prems(2) map_of_snoc [OF False, of "defn_of i y"]
      by (simp add: add_defn_def y defn_of_def)
    moreover have "A @ defn_list i (y # ys) = (A @ [(sym_key y, defn_of i y)]) @ defn_list i ys"
      by (simp add: defn_list_def)
    moreover have "distinct (map fst (A @ [(sym_key y, defn_of i y)]))"
      using Cons.prems(3) False by auto
    ultimately show ?thesis
      using Cons.IH [of ?s "A @ [(sym_key y, defn_of i y)]"] Cons.prems(1) by simp
  qed
qed (simp add: defn_list_def)

definition tree_from :: "nat \<Rightarrow> u32 \<Rightarrow> obj list \<Rightarrow> objtree \<Rightarrow> objtree" where
  "tree_from n start objs t = (\<lambda>k.
     if n \<le> k \<and> k < n + length objs \<and> rec_count (objs ! (k - n)) \<noteq> 0
     then Some (start + offset objs (k - n)) else t k)"

lemma tree_from_Nil: "tree_from n start [] t = t"
  by (rule ext) (auto simp: tree_from_def)

lemma tree_from_Cons:
  "tree_from n start (ob # objs) t =
     tree_from (Suc n) (start + first_size ob) objs
       (if rec_count ob = 0 then t else t(n \<mapsto> start))"
proof
  fix k
  consider "k < n" | "k = n" | m where "k = n + Suc m"
    by (metis less_linear less_natE add_Suc_right)
  then show "tree_from n start (ob # objs) t k =
      tree_from (Suc n) (start + first_size ob) objs (if rec_count ob = 0 then t else t(n \<mapsto> start)) k"
    by cases (auto simp: tree_from_def add.assoc)
qed

lemma build_state_from:
  assumes "\<forall>ob\<in>set objs. wf_obj ob" and "defns s = map_of A" and "distinct (map fst A)"
    and "\<forall>k\<ge>n. objtree s k = None"
  shows "foldE add_obj (enumerate n objs) s =
    (if distinct (map fst (A @ all_defns n objs))
     then Inr \<lparr>running = running s + offset objs (length objs),
               objtree = tree_from n (running s) objs (objtree s),
               defns = map_of (A @ all_defns n objs)\<rparr>
     else Inl (Fatal ''Duplicate definition for symbol''))"
  using assms
proof (induction objs arbitrary: s A n)
  case Nil
  then show ?case by (simp add: tree_from_Nil)
next
  case (Cons ob objs)
  note wf = bspec [OF Cons.prems(1), of ob, simplified]
  show ?case
  proof (cases "rec_count ob = 0")
    case True
    then show ?thesis
      using Cons.IH [of s A "Suc n"] Cons.prems
      by (simp add: add_obj_def tree_from_Cons first_size_def exports_def defn_list_def)
  next
    case False
    then obtain r rs where r: "records ob = r # rs" using wf_rec_count [OF wf] by (cases "records ob") auto
    let ?s = "s\<lparr>objtree := (objtree s)(n \<mapsto> running s), running := running s + rec_size r\<rparr>"
    have add: "foldE add_obj (enumerate n (ob # objs)) s =
        bindE (foldE (add_defn n) (symbols ob) ?s) (foldE add_obj (enumerate (Suc n) objs))"
      using False r Cons.prems(4) by (simp add: add_obj_def)
    have ds: "foldE (add_defn n) (symbols ob) ?s =
      (if distinct (map fst (A @ defn_list n (symbols ob)))
       then Inr (?s\<lparr>defns := map_of (A @ defn_list n (symbols ob))\<rparr>)
       else Inl (Fatal ''Duplicate definition for symbol''))"
      using wf Cons.prems(2,3) by (intro add_defns) (auto simp: wf_obj_def)
    show ?thesis
    proof (cases "distinct (map fst (A @ defn_list n (symbols ob)))")
      case True
      then show ?thesis
        using Cons.IH [of "?s\<lparr>defns := map_of (A @ defn_list n (symbols ob))\<rparr>"
            "A @ defn_list n (symbols ob)" "Suc n"] Cons.prems False r
        unfolding add ds
        by (simp add: tree_from_Cons first_size_def exports_def add.assoc)
    next
      case False2: False
      then show ?thesis using False unfolding add ds by (auto simp: exports_def)
    qed
  qed
qed

text \<open>The state the linker works with, and when it gives up.\<close>

definition link_tables :: "obj list \<Rightarrow> link_state" where
  "link_tables objs = \<lparr>running = offset objs (length objs),
     objtree = tree_from 0 0 objs Map.empty, defns = map_of (all_defns 0 objs)\<rparr>"

lemma do_link_build_state_eq:
  "loaded objs \<Longrightarrow> do_link_build_state objs =
     (if distinct (map fst (all_defns 0 objs)) then Inr (link_tables objs)
      else Inl (Fatal ''Duplicate definition for symbol''))"
  using build_state_from [of objs "\<lparr>running = 0, objtree = Map.empty, defns = Map.empty\<rparr>" "[]" 0]
  by (simp add: do_link_build_state_def loaded_def link_tables_def)

section \<open>One relocation\<close>

text \<open>The slot: the low \<open>width\<close> bits take the sum, the others stay.\<close>

definition reloc_word :: "u32 \<Rightarrow> u32 \<Rightarrow> u32 \<Rightarrow> u32" where
  "reloc_word width dest v =
     (dest AND NOT (mask (unat width))) OR ((dest + v) AND mask (unat width))"

lemma bit_reloc_word:
  "bit (reloc_word width dest v) n \<longleftrightarrow> (if n < unat width then bit (dest + v) n else bit dest n)"
  by (auto simp: reloc_word_def bit_simps dest: bit_imp_le_length)

lemma reloc_mask_ok:
  assumes "1 \<le> width" and "width \<le> 32"
  shows "reloc_mask width = Inr (mask (unat width))"
proof -
  have u: "unat (width - 1) = unat width - 1" "1 \<le> unat width" "unat width \<le> 32"
    using assms by (simp_all add: unat_sub word_le_nat_alt)
  then have "\<not> 32 \<le> width - 1" by (simp add: word_le_nat_alt)
  moreover have "push_bit 1 (push_bit (unat (width - 1)) 1) - 1 = (mask (unat width) :: u32)"
    using u power_Suc [of "2 :: u32" "unat width - 1"]
    by (simp add: mask_eq_decr_exp push_bit_push_bit push_bit_of_1 mult.commute)
  ultimately show ?thesis by (simp add: reloc_mask_def)
qed

definition good_reloc :: "link_state \<Rightarrow> nat \<Rightarrow> objrec \<Rightarrow> objrlc \<Rightarrow> bool" where
  "good_reloc s i r l \<longleftrightarrow> rec_addr r \<le> rlc_addr l \<and> rlc_addr l - rec_addr r < rec_size r \<and>
     1 \<le> rlc_width l \<and> rlc_width l \<le> 32 \<and> isl (reloc_value s i l) = False"

definition reloc_at :: "objrec \<Rightarrow> objrlc \<Rightarrow> nat" where
  "reloc_at r l = unat (rlc_addr l - rec_addr r)"

text \<open>Applying the relocations to the words of a record.\<close>

definition patch :: "link_state \<Rightarrow> nat \<Rightarrow> objrec \<Rightarrow> objrlc \<Rightarrow> u32 list \<Rightarrow> u32 list" where
  "patch s i r l d =
     d[reloc_at r l := reloc_word (rlc_width l) (d ! reloc_at r l) (projr (reloc_value s i l))]"

lemma relocate_one:
  assumes "rec_count ob = 1" and "records ob = [r]" and "length (rec_data r) = unat (rec_size r)"
    and "good_reloc s i r l"
  shows "do_link_relocate_obj_reloc s i l ob =
    Inr (0, ob\<lparr>records := [r\<lparr>rec_data := patch s i r l (rec_data r)\<rparr>]\<rparr>)"
proof -
  obtain v where v: "reloc_value s i l = Inr v"
    using assms(4) by (cases "reloc_value s i l") (auto simp: good_reloc_def)
  have "reloc_at r l < length (rec_data r)"
    using assms(3,4) by (simp add: good_reloc_def reloc_at_def word_less_nat_alt)
  then show ?thesis
    using assms
    by (auto simp: do_link_relocate_obj_reloc_def good_reloc_def v patch_def reloc_mask_ok
        reloc_word_def reloc_at_def Let_def not_less)
qed

lemma length_patch [simp]: "length (patch s i r l d) = length d"
  by (simp add: patch_def)

lemma patch_record:
  "patch s i (r\<lparr>rec_data := d\<rparr>) l = patch s i r l"
  "good_reloc s i (r\<lparr>rec_data := d\<rparr>) l = good_reloc s i r l"
  by (rule ext) (simp_all add: patch_def good_reloc_def reloc_at_def)

lemma relocate_list:
  assumes "rec_count ob = 1" and "records ob = [r]" and "length (rec_data r) = unat (rec_size r)"
    and "\<forall>l\<in>set ls. good_reloc s i r l"
  shows "foldE (\<lambda>rlc ob. bindE (do_link_relocate_obj_reloc s i rlc ob) (\<lambda>(_, ob). Inr ob)) ls ob =
    Inr (ob\<lparr>records := [r\<lparr>rec_data := fold (patch s i r) ls (rec_data r)\<rparr>]\<rparr>)"
  using assms
proof (induction ls arbitrary: ob r)
  case (Cons l ls)
  let ?r = "r\<lparr>rec_data := patch s i r l (rec_data r)\<rparr>"
  show ?case
    using Cons.IH [of "ob\<lparr>records := [?r]\<rparr>" ?r] Cons.prems
    by (simp add: relocate_one patch_record)
qed simp

text \<open>A word no relocation is aimed at, and a word exactly one is aimed at.\<close>

lemma fold_patch_other:
  "\<forall>l\<in>set ls. reloc_at r l \<noteq> j \<Longrightarrow> fold (patch s i r) ls d ! j = d ! j"
  by (induction ls arbitrary: d) (simp_all add: patch_def)

lemma fold_patch_at:
  assumes "distinct (map (reloc_at r) ls)" and "l \<in> set ls" and "reloc_at r l < length d"
  shows "fold (patch s i r) ls d ! reloc_at r l =
    reloc_word (rlc_width l) (d ! reloc_at r l) (projr (reloc_value s i l))"
  using assms
proof (induction ls arbitrary: d)
  case (Cons a ls)
  show ?case
  proof (cases "a = l")
    case True
    then have "reloc_at r l \<notin> reloc_at r ` set ls" using Cons.prems(1) by simp
    then have "\<forall>l'\<in>set ls. reloc_at r l' \<noteq> reloc_at r l" by (metis imageI)
    then show ?thesis
      using True Cons.prems(3) by (simp add: fold_patch_other) (simp add: patch_def)
  next
    case False
    then have "l \<in> set ls" "reloc_at r a \<noteq> reloc_at r l" using Cons.prems by auto
    then show ?thesis
      using Cons.IH [of "patch s i r a d"] Cons.prems by (simp add: patch_def)
  qed
qed simp

section \<open>The values\<close>

lemma in_all_defns:
  "(k, d) \<in> set (all_defns n objs) \<longleftrightarrow>
     (\<exists>i<length objs. \<exists>y\<in>set (exports (objs ! i)). k = sym_key y \<and> d = defn_of (n + i) y)"
proof (induction objs arbitrary: n)
  case (Cons ob objs)
  have "(\<exists>i<length (ob # objs). P ((ob # objs) ! i) (n + i)) \<longleftrightarrow>
      P ob n \<or> (\<exists>i<length objs. P (objs ! i) (Suc n + i))" for P :: "obj \<Rightarrow> nat \<Rightarrow> bool"
    by (auto simp: less_Suc_eq_0_disj)
  from this [of "\<lambda>ob i. \<exists>y\<in>set (exports ob). k = sym_key y \<and> d = defn_of i y"]
  show ?case by (auto simp: Cons.IH defn_list_def)
qed simp

lemma link_tables_lookup:
  assumes "distinct (map fst (all_defns 0 objs))" and "i < length objs" and "y \<in> set (exports (objs ! i))"
  shows "defns (link_tables objs) (sym_key y) = Some (defn_of i y)"
    and "objtree (link_tables objs) i = Some (offset objs i)"
proof -
  have "(sym_key y, defn_of i y) \<in> set (all_defns 0 objs)"
    unfolding in_all_defns using assms(2,3) by auto
  then show "defns (link_tables objs) (sym_key y) = Some (defn_of i y)"
    using assms(1) by (simp add: link_tables_def)
  show "objtree (link_tables objs) i = Some (offset objs i)"
    using assms(2,3) by (auto simp: link_tables_def tree_from_def exports_def split: if_splits)
qed

text \<open>A relocation by name adds the address the symbol has in the image.\<close>

definition symbol_address :: "obj list \<Rightarrow> nat \<Rightarrow> objsym \<Rightarrow> u32" where
  "symbol_address objs i y =
     (if sym_flags y AND RLC_ABSOLUTE = 0 then sym_value y + offset objs i else sym_value y)"

lemma reloc_value_named:
  assumes "distinct (map fst (all_defns 0 objs))" and "i < length objs" "y \<in> set (exports (objs ! i))"
    and "length (rlc_name l) = SYMBOL_LEN" and "hd (rlc_name l) \<noteq> 0"
    and "cstr ((rlc_name l)[31 := 0]) = sym_key y"
  shows "reloc_value (link_tables objs) k l = Inr (symbol_address objs i y)"
  using link_tables_lookup [OF assms(1-3)] assms(4-6)
  by (simp add: reloc_value_def name_key_ok defn_of_def symbol_address_def)

lemma reloc_value_null:
  assumes "k < length objs" and "rec_count (objs ! k) \<noteq> 0" and "hd (rlc_name l) = 0"
  shows "reloc_value (link_tables objs) k l =
    Inr (if rlc_flags l AND RLC_NEGATE \<noteq> 0 then - offset objs k else offset objs k)"
  using assms by (simp add: reloc_value_def link_tables_def tree_from_def)

lemma reloc_value_missing:
  assumes "length (rlc_name l) = SYMBOL_LEN" and "hd (rlc_name l) \<noteq> 0"
    and "cstr ((rlc_name l)[31 := 0]) \<notin> fst ` set (all_defns 0 objs)"
  shows "reloc_value (link_tables objs) k l = Inl (Fatal ''Missing definition for symbol'')"
proof -
  have "defns (link_tables objs) (cstr ((rlc_name l)[31 := 0])) = None"
    using assms(3) by (simp add: link_tables_def map_of_eq_None_iff)
  then show ?thesis using assms(1,2) by (simp add: reloc_value_def name_key_ok)
qed

section \<open>The whole link\<close>

text \<open>
  Inputs the linker is written for: at most one record each, no symbol defined twice, every
  relocation inside its record, of a possible width, and resolved.
\<close>

definition linkable :: "obj list \<Rightarrow> bool" where
  "linkable objs \<longleftrightarrow> loaded objs \<and> length objs < 2 ^ 16 \<and> (\<forall>ob\<in>set objs. rec_count ob \<le> 1) \<and>
     distinct (map fst (all_defns 0 objs)) \<and>
     (\<forall>i<length objs. \<forall>r\<in>set (records (objs ! i)). \<forall>l\<in>set (relocs (objs ! i)).
        good_reloc (link_tables objs) i r l)"

definition patch_rec :: "link_state \<Rightarrow> nat \<Rightarrow> obj \<Rightarrow> objrec \<Rightarrow> objrec" where
  "patch_rec s i ob r = r\<lparr>rec_data := fold (patch s i r) (relocs ob) (rec_data r)\<rparr>"

definition patch_obj :: "link_state \<Rightarrow> nat \<times> obj \<Rightarrow> obj" where
  "patch_obj s = (\<lambda>(i, ob). ob\<lparr>records := map (patch_rec s i ob) (records ob)\<rparr>)"

lemma length_fold_patch [simp]: "length (fold (patch s i r) ls d) = length d"
  by (induction ls arbitrary: d) simp_all

lemma single_record: "wf_obj ob \<Longrightarrow> rec_count ob \<le> 1 \<Longrightarrow> rec_count ob \<noteq> 0 \<Longrightarrow> \<exists>r. records ob = [r] \<and> rec_count ob = 1"
proof -
  assume wf: "wf_obj ob" and "rec_count ob \<le> 1" "rec_count ob \<noteq> 0"
  then have "rec_count ob = 1"
    by (metis word_le_less_eq word_less_1)
  moreover have "length (records ob) = unat (rec_count ob)" using wf by (simp add: wf_obj_def)
  ultimately have "length (records ob) = 1" by simp
  then show ?thesis using \<open>rec_count ob = 1\<close> by (simp add: length_Suc_conv)
qed

lemma relocate_all:
  assumes "\<forall>ob\<in>set objs. wf_obj ob \<and> rec_count ob \<le> 1"
    and "\<forall>k<length objs. \<forall>r\<in>set (records (objs ! k)). \<forall>l\<in>set (relocs (objs ! k)). good_reloc s (n + k) r l"
  shows "do_link_relocate s (enumerate n objs) = Inr (map (patch_obj s) (enumerate n objs))"
  using assms
proof (induction objs arbitrary: n)
  case (Cons ob objs)
  have rest: "do_link_relocate s (enumerate (Suc n) objs) = Inr (map (patch_obj s) (enumerate (Suc n) objs))"
    using Cons.prems by (intro Cons.IH) force+
  have wf: "wf_obj ob" "rec_count ob \<le> 1" using Cons.prems(1) by simp_all
  show ?case
  proof (cases "rec_count ob = 0")
    case True
    then show ?thesis using rest wf_rec_count [OF wf(1)] by (simp add: patch_obj_def)
  next
    case False
    then obtain r where r: "records ob = [r]" "rec_count ob = 1" using single_record [OF wf] by blast
    have "do_link_relocate_obj s n ob = Inr (patch_obj s (n, ob))"
      unfolding do_link_relocate_obj_def
      using wf(1) r Cons.prems(2)
      by (subst relocate_list [of _ r]) (force simp: wf_obj_def wf_rec_def patch_obj_def patch_rec_def)+
    then show ?thesis using rest False by simp
  qed
qed simp

fun layout :: "u32 \<Rightarrow> objrec list \<Rightarrow> objrec list" where
  "layout a [] = []"
| "layout a (r # rs) = r\<lparr>rec_addr := a\<rparr> # layout (a + rec_size r) rs"

lemma emit_layout: "\<forall>r\<in>set rs. wf_rec r \<Longrightarrow> emit_records a rs = Inr (layout a rs)"
  by (induction rs arbitrary: a) (simp_all add: wf_rec_def)

lemma layout_wf: "\<forall>r\<in>set rs. wf_rec r \<Longrightarrow> r \<in> set (layout a rs) \<Longrightarrow> wf_rec r"
  by (induction rs arbitrary: a) (auto simp: wf_rec_def)

lemma length_layout [simp]: "length (layout a rs) = length rs"
  by (induction rs arbitrary: a) simp_all

lemma layout_mem:
  assumes "\<forall>ob\<in>set objs. wf_obj ob \<and> rec_count ob \<le> 1"
    and "k < length objs" and "records (objs ! k) = [r]"
  shows "(patch_rec s (n + k) (objs ! k) r)\<lparr>rec_addr := a + offset objs k\<rparr>
    \<in> set (layout a (concat (map records (map (patch_obj s) (enumerate n objs)))))"
  using assms
proof (induction objs arbitrary: n a k)
  case (Cons ob objs)
  have wf: "wf_obj ob" "rec_count ob \<le> 1" using Cons.prems(1) by simp_all
  have shape: "records ob = [] \<and> first_size ob = 0 \<or> (\<exists>r. records ob = [r] \<and> first_size ob = rec_size r)"
    using wf_rec_count [OF wf(1)] single_record [OF wf] by (auto simp: first_size_def)
  show ?case
  proof (cases k)
    case 0
    then show ?thesis using Cons.prems(3) by (simp add: patch_obj_def)
  next
    case (Suc m)
    have "(patch_rec s (Suc n + m) (objs ! m) r)\<lparr>rec_addr := (a + first_size ob) + offset objs m\<rparr>
        \<in> set (layout (a + first_size ob) (concat (map records (map (patch_obj s) (enumerate (Suc n) objs)))))"
      using Cons.prems Suc by (intro Cons.IH) auto
    then show ?thesis
      using shape Suc by (auto simp: patch_obj_def patch_rec_def add.assoc)
  qed
qed simp

lemma patch_obj_records:
  assumes "\<forall>ob\<in>set objs. wf_obj ob \<and> rec_count ob \<le> 1"
  shows "\<forall>r\<in>set (concat (map records (map (patch_obj s) (enumerate n objs)))). wf_rec r"
    and "length (concat (map records (map (patch_obj s) (enumerate n objs)))) \<le> length objs"
proof -
  show "\<forall>r\<in>set (concat (map records (map (patch_obj s) (enumerate n objs)))). wf_rec r"
    using assms
    by (auto simp: patch_obj_def patch_rec_def wf_rec_def wf_obj_def enumerate_eq_zip
        dest!: set_zip_rightD)
  show "length (concat (map records (map (patch_obj s) (enumerate n objs)))) \<le> length objs"
    using assms
  proof (induction objs arbitrary: n)
    case (Cons ob objs)
    have "length (records ob) \<le> 1"
      using Cons.prems single_record [of ob] wf_rec_count [of ob] by fastforce
    moreover have "length (concat (map records (map (patch_obj s) (enumerate (Suc n) objs)))) \<le> length objs"
      by (rule Cons.IH) (use Cons.prems in simp)
    ultimately show ?case by (simp add: patch_obj_def)
  qed simp
qed

definition linked :: "obj list \<Rightarrow> obj" where
  "linked objs =
     (let rs = concat (map records (map (patch_obj (link_tables objs)) (enumerate 0 objs))) in
      \<lparr>version = 0, obj_flags = 0, rec_count = of_nat (length rs), records = layout 0 rs,
       sym_count = 0, symbols = [], rlc_count = 0, relocs = []\<rparr>)"

lemma do_link_linked:
  assumes "linkable objs"
  shows "do_link objs = Inr (linked objs)"
proof -
  have wf: "\<forall>ob\<in>set objs. wf_obj ob \<and> rec_count ob \<le> 1"
    using assms by (auto simp: linkable_def loaded_def)
  have "do_link_build_state objs = Inr (link_tables objs)"
    using assms by (simp add: linkable_def do_link_build_state_eq)
  moreover have "do_link_relocate (link_tables objs) (enumerate 0 objs) =
      Inr (map (patch_obj (link_tables objs)) (enumerate 0 objs))"
    using assms by (intro relocate_all [OF wf]) (simp add: linkable_def)
  ultimately show ?thesis
    using emit_layout [OF patch_obj_records(1) [OF wf]]
    by (simp add: do_link_def do_link_process_def do_link_emit_def linked_def Let_def)
qed

lemma linked_wf:
  assumes "linkable objs"
  shows "wf_obj (linked objs)"
proof -
  have wf: "\<forall>ob\<in>set objs. wf_obj ob \<and> rec_count ob \<le> 1"
    using assms by (auto simp: linkable_def loaded_def)
  note p = patch_obj_records [OF wf, of "link_tables objs" 0]
  let ?n = "length (concat (map records (map (patch_obj (link_tables objs)) (enumerate 0 objs))))"
  have n: "?n < 2 ^ 16" using p(2) assms by (simp add: linkable_def)
  then have "unat (of_nat ?n :: u32) = ?n" by (simp add: unat_of_nat)
  moreover from this n have "(of_nat ?n :: u32) \<le> OBJ_MAX_REC_CNT"
    by (simp add: word_le_nat_alt OBJ_MAX_REC_CNT_def)
  ultimately show ?thesis
    using layout_wf [OF p(1)] by (auto simp: wf_obj_def linked_def Let_def)
qed

text \<open>
  Each input's record lands at its offset; a word that no relocation is aimed at is unchanged, and
  one that a relocation is aimed at has its value added in the relocation's field.
\<close>

lemma linked_record:
  assumes l: "linkable objs" and k: "k < length objs" and r: "records (objs ! k) = [r]"
  obtains r' where "r' \<in> set (records (linked objs))" and "rec_addr r' = offset objs k"
    and "rec_size r' = rec_size r" and "length (rec_data r') = unat (rec_size r)"
    and "\<And>j. \<forall>l\<in>set (relocs (objs ! k)). reloc_at r l \<noteq> j \<Longrightarrow> rec_data r' ! j = rec_data r ! j"
    and "\<And>l. distinct (map (reloc_at r) (relocs (objs ! k))) \<Longrightarrow> l \<in> set (relocs (objs ! k)) \<Longrightarrow>
      rec_data r' ! reloc_at r l = reloc_word (rlc_width l) (rec_data r ! reloc_at r l)
        (projr (reloc_value (link_tables objs) k l))"
proof -
  have wf: "\<forall>ob\<in>set objs. wf_obj ob \<and> rec_count ob \<le> 1"
    using l by (auto simp: linkable_def loaded_def)
  have len: "length (rec_data r) = unat (rec_size r)"
    using wf nth_mem [OF k] r by (auto simp: wf_obj_def wf_rec_def)
  let ?r = "(patch_rec (link_tables objs) k (objs ! k) r)\<lparr>rec_addr := offset objs k\<rparr>"
  show thesis
  proof (rule that [of ?r])
    show "?r \<in> set (records (linked objs))"
      using layout_mem [OF wf k r, where s = "link_tables objs" and n = 0 and a = 0] by (simp add: linked_def Let_def)
    fix l assume d: "distinct (map (reloc_at r) (relocs (objs ! k)))" "l \<in> set (relocs (objs ! k))"
    have "good_reloc (link_tables objs) k r l" using assms(1) k r d(2) by (auto simp: linkable_def)
    then have "reloc_at r l < length (rec_data r)"
      by (simp add: len good_reloc_def reloc_at_def word_less_nat_alt)
    then show "rec_data ?r ! reloc_at r l = reloc_word (rlc_width l) (rec_data r ! reloc_at r l)
        (projr (reloc_value (link_tables objs) k l))"
      by (simp add: patch_rec_def fold_patch_at [OF d])
  qed (simp_all add: patch_rec_def len fold_patch_other)
qed

lemma do_load_all_loaded: "do_load_all little ss = Inr objs \<Longrightarrow> loaded objs"
proof (induction ss arbitrary: objs)
  case (Cons s ss)
  then obtain ob t obs where o: "obj_read True s = Inr (Some ob, t)"
    and "do_load_all little ss = Inr obs" and "objs = ob # obs"
    by (auto simp: bindE_eq_Inr obj_read_host [of little] split: option.splits)
  then show ?case using Cons.IH obj_read_inv [OF o] by (simp add: loaded_def)
qed (simp add: loaded_def)

lemma do_load_all_bytes:
  assumes "\<forall>ob\<in>set objs. wf_obj ob \<and> length (obj_bytes ob) < 2 ^ 32"
  shows "do_load_all little (map (\<lambda>ob. \<lparr>pos = 0, rest = obj_bytes ob, seekable = True\<rparr>) objs) = Inr objs"
  using assms
proof (induction objs)
  case (Cons ob objs)
  then show ?case
    using obj_read_obj_bytes [of ob 0 "[]" True] by (simp add: obj_read_host [of little])
qed simp

lemma tld_bytes:
  assumes "linkable objs" and "\<forall>ob\<in>set objs. length (obj_bytes ob) < 2 ^ 32"
  shows "tld little (map (\<lambda>ob. \<lparr>pos = 0, rest = obj_bytes ob, seekable = True\<rparr>) objs) =
    Inr (obj_bytes (linked objs))"
proof -
  have "\<forall>ob\<in>set objs. wf_obj ob \<and> length (obj_bytes ob) < 2 ^ 32"
    using assms by (auto simp: linkable_def loaded_def)
  from do_load_all_bytes [OF this] show ?thesis
    using assms(1) by (simp add: tld_def do_link_linked obj_write_wf linked_wf)
qed

text \<open>The bounds check lets a relocation just past the record through.\<close>

lemma relocation_past_end:
  assumes "rec_count ob = 1" and "records ob = [r]" and "length (rec_data r) = unat (rec_size r)"
    and "rec_addr r \<le> rlc_addr l" and "rlc_addr l - rec_addr r = rec_size r"
    and "reloc_value s i l = Inr v"
  shows "do_link_relocate_obj_reloc s i l ob = Inl (Undefined ''relocation past the record'')"
  using assms by (simp add: do_link_relocate_obj_reloc_def)

end
