(* ===== verification/Pipeline.thy ===== *)
theory Pipeline
  imports Tsim Link ObjFormat
begin

text \<open>
  From the assembler's words to the simulated memory: an object's words, in the order \<open>obj_in\<close>
  delivers them, as a memory image, and the image that \<open>tsim\<close> has in memory when it has loaded the
  output of the assembler or of the linker.
\<close>

lemma image_of_append: "image_of la (xs @ ys) m = image_of la ys (image_of la xs m)"
  by (induction xs arbitrary: m) simp_all

lemma obj_image:
  assumes "n \<le> 2 ^ 32"
  shows "image_of la (set_words i (map (\<lambda>k. (a + of_nat k, d ! k)) [0..<n])) m b =
    (if unat (b - la - a) < n then d ! unat (b - la - a) else m b)"
  using assms
proof (induction n arbitrary: m)
  case (Suc n)
  have e: "la + (a + of_nat n) = b \<longleftrightarrow> unat (b - la - a) = n"
  proof
    assume "la + (a + of_nat n) = b"
    then have "b - la - a = of_nat n" by (simp add: algebra_simps)
    then show "unat (b - la - a) = n" using Suc.prems by (simp add: unat_of_nat)
  next
    assume "unat (b - la - a) = n"
    then have "of_nat n = b - la - a" using Suc.prems by (simp add: word_unat_eq_iff unat_of_nat)
    then show "la + (a + of_nat n) = b" by simp
  qed
  show ?case
    using Suc e by (auto simp: image_of_append set_words_def less_Suc_eq)
qed (simp add: set_words_def)

text \<open>The words of records laid out one after another.\<close>

lemma words_from_0:
  "wf_rec r \<Longrightarrow> words_from r 0 = map (\<lambda>k. (rec_addr r + of_nat k, rec_data r ! k)) [0..<length (rec_data r)]"
  by (simp add: words_from_def wf_rec_def)

lemma obj_words_layout:
  "\<forall>r\<in>set rs. wf_rec r \<Longrightarrow> obj_words (layout a rs) =
     map (\<lambda>k. (a + of_nat k, concat (map rec_data rs) ! k)) [0..<length (concat (map rec_data rs))]"
proof (induction rs arbitrary: a)
  case (Cons r rs)
  let ?n = "length (rec_data r)" and ?d = "concat (map rec_data rs)"
  have wf: "wf_rec (r\<lparr>rec_addr := a\<rparr>)" using Cons.prems by (simp add: wf_rec_def)
  have n: "of_nat ?n = rec_size r" using Cons.prems by (simp add: wf_rec_def)
  have "obj_words (layout a (r # rs)) = words_from (r\<lparr>rec_addr := a\<rparr>) 0 @ obj_words (layout (a + rec_size r) rs)"
    by (simp add: obj_words_def)
  also have "obj_words (layout (a + rec_size r) rs) =
      map (\<lambda>k. (a + rec_size r + of_nat k, ?d ! k)) [0..<length ?d]"
    using Cons by simp
  also have "\<dots> = map (\<lambda>k. (a + of_nat k, concat (map rec_data (r # rs)) ! k)) [?n..<?n + length ?d]"
    by (rule nth_equalityI) (simp_all add: nth_append n [symmetric] add.assoc)
  also have "words_from (r\<lparr>rec_addr := a\<rparr>) 0 =
      map (\<lambda>k. (a + of_nat k, concat (map rec_data (r # rs)) ! k)) [0..<?n]"
    unfolding words_from_0 [OF wf] by (simp add: nth_append)
  finally show ?case
    by (simp add: map_append [symmetric] upt_add_eq_append [symmetric] del: map_append upt_add_eq_append)
qed (simp add: obj_words_def)

lemma layout_position:
  "\<forall>r\<in>set rs. wf_rec r \<Longrightarrow> r' \<in> set (layout a rs) \<Longrightarrow>
     \<exists>n. rec_addr r' = a + of_nat n \<and> n + length (rec_data r') \<le> length (concat (map rec_data rs)) \<and>
       (\<forall>j<length (rec_data r'). concat (map rec_data rs) ! (n + j) = rec_data r' ! j)"
proof (induction rs arbitrary: a)
  case (Cons r rs)
  show ?case
  proof (cases "r' = r\<lparr>rec_addr := a\<rparr>")
    case True
    then show ?thesis by (intro exI [of _ 0]) (simp add: nth_append)
  next
    case False
    then have "r' \<in> set (layout (a + rec_size r) rs)" using Cons.prems(2) by simp
    then obtain n where n: "rec_addr r' = a + rec_size r + of_nat n"
      "n + length (rec_data r') \<le> length (concat (map rec_data rs))"
      "\<forall>j<length (rec_data r'). concat (map rec_data rs) ! (n + j) = rec_data r' ! j"
      using Cons.IH [of "a + rec_size r"] Cons.prems(1) by (auto simp: add.assoc)
    have "of_nat (length (rec_data r)) = rec_size r" using Cons.prems(1) by (simp add: wf_rec_def)
    with n show ?thesis
      by (intro exI [of _ "length (rec_data r) + n"]) (simp add: nth_append add.assoc)
  qed
qed simp

section \<open>Loading into the default machine\<close>

definition reading :: "obj \<Rightarrow> obj_fdata" where
  "reading ob = \<lparr>assembling = False, fd_obj = ob, syms = 0, rlcs = 0, curr_rec = records ob, fpos = 0,
     fd_error = 0\<rparr>"

lemma obj_init_bytes:
  assumes "wf_obj ob" and "length (obj_bytes ob) < 2 ^ 32"
  shows "obj_init little None \<lparr>pos = 0, rest = obj_bytes ob, seekable = k\<rparr> =
    Inr (0, reading ob, \<lparr>pos = length (obj_bytes ob), rest = [], seekable = k\<rparr>)"
  using obj_read_obj_bytes [OF assms(1), of 0 "[]" k] assms(2)
  by (simp add: obj_init_def reading_def obj_read_host [of little] Let_def)

lemma feeds_reading:
  assumes "wf_obj ob"
  shows "feeds obj_in (reading ob) i (set_words i (obj_words (records ob)))"
proof -
  have "reading ob = (reading ob)\<lparr>curr_rec := records ob, fpos := 0\<rparr>" by (simp add: reading_def)
  then show ?thesis using feeds_obj_in [of "records ob" "reading ob" i] assms by (simp add: wf_obj_def)
qed

context tsim_bus
begin

text \<open>An object whose words, counted from the load address, stay in the memory.\<close>

lemma load_records:
  assumes "wf_obj ob" and "records ob = layout 0 rs" and "\<forall>r\<in>set rs. wf_rec r"
    and n: "n = length (concat (map rec_data rs))" "n \<le> 2 ^ 32"
    and win: "\<And>k. k < n \<Longrightarrow> la + of_nat k \<in> ram_window"
  shows "\<exists>b. load_sim (dispatch_op bs) obj_in la (reading ob) i (default_bus out) = Some (Inr (0, b)) \<and>
    bus_ok (on_sparse (fresh out)) sparse_ok ram_window b \<and>
    (\<forall>a\<in>ram_window. bus_peek bs sparse_look b a =
      (if unat (a - la) < n then concat (map rec_data rs) ! unat (a - la) else illegal_word))"
proof -
  let ?d = "concat (map rec_data rs)"
  have w: "obj_words (records ob) = map (\<lambda>k. (0 + of_nat k, ?d ! k)) [0..<n]"
    using obj_words_layout [OF assms(3), of 0] by (simp add: assms(2) n(1))
  have "\<forall>e\<in>set (set_words i (obj_words (records ob))). la + e_reladdr e \<in> ram_window"
    using win by (auto simp: w set_words_def)
  from default_load [OF feeds_reading [OF assms(1)] this, of out]
  show ?thesis unfolding w obj_image [OF n(2)] by (simp cong: if_cong)
qed

end

text \<open>Programs of one-word elements, through the assembler's output format.\<close>

lemma code_layout: "records (code_obj ws) = layout 0 [\<lparr>rec_addr = 0, rec_size = of_nat (length ws), rec_data = ws\<rparr>]"
  by (simp add: code_obj_def)

context tsim_bus
begin

lemma load_code:
  assumes "length ws \<le> 0x3000"
  shows "\<exists>b. load_sim (dispatch_op bs) obj_in RAM_BASE (reading (code_obj ws)) i (default_bus out) =
      Some (Inr (0, b)) \<and>
    bus_ok (on_sparse (fresh out)) sparse_ok ram_window b \<and>
    (\<forall>a\<in>ram_window. bus_peek bs sparse_look b a =
      (if unat (a - RAM_BASE) < length ws then ws ! unat (a - RAM_BASE) else illegal_word))"
proof -
  let ?rs = "[\<lparr>rec_addr = 0, rec_size = of_nat (length ws), rec_data = ws\<rparr>]"
  have wf: "wf_obj (code_obj ws)" using assms by (intro code_obj_wf) simp
  then have "\<forall>r\<in>set ?rs. wf_rec r" by (simp add: wf_obj_def code_obj_def)
  moreover have "RAM_BASE + of_nat k \<in> ram_window" if "k < length ws" for k
    using that assms
    by (simp add: ram_window_def ram_consts word_le_nat_alt unat_word_ariths unat_of_nat)
  ultimately show ?thesis
    using load_records [OF wf code_layout, of "length ws" RAM_BASE i out] assms
    by (simp cong: if_cong)
qed

text \<open>
  A linked image of \<open>n\<close> words: each input's words are found at its offset, relocated as
  \<open>linked_record\<close> says.
\<close>

lemma load_linked:
  assumes l: "linkable objs"
    and n: "n = length (concat (map rec_data (records (linked objs))))" "n \<le> 0x3000"
  shows "\<exists>b. load_sim (dispatch_op bs) obj_in RAM_BASE (reading (linked objs)) i (default_bus out) =
      Some (Inr (0, b)) \<and>
    bus_ok (on_sparse (fresh out)) sparse_ok ram_window b \<and>
    (\<forall>r\<in>set (records (linked objs)). \<forall>j<length (rec_data r).
       bus_peek bs sparse_look b (RAM_BASE + rec_addr r + of_nat j) = rec_data r ! j)"
proof -
  define rs where "rs = concat (map records (map (patch_obj (link_tables objs)) (enumerate 0 objs)))"
  have rs: "records (linked objs) = layout 0 rs" by (simp add: linked_def rs_def Let_def)
  have "\<forall>ob\<in>set objs. wf_obj ob \<and> rec_count ob \<le> 1"
    using l by (auto simp: linkable_def loaded_def)
  then have wf: "\<forall>r\<in>set rs. wf_rec r" unfolding rs_def by (rule patch_obj_records)
  have d: "map rec_data (layout a rs) = map rec_data rs" for a
    by (induction rs arbitrary: a) simp_all
  have len: "n = length (concat (map rec_data rs))" using n(1) by (simp only: rs d)
  have win: "RAM_BASE + of_nat k \<in> ram_window" if "k < n" for k
    using that n(2)
    by (simp add: ram_window_def ram_consts word_le_nat_alt unat_word_ariths unat_of_nat)
  obtain b where b: "load_sim (dispatch_op bs) obj_in RAM_BASE (reading (linked objs)) i (default_bus out) =
      Some (Inr (0, b))" "bus_ok (on_sparse (fresh out)) sparse_ok ram_window b"
    and m: "\<And>a. a \<in> ram_window \<Longrightarrow> bus_peek bs sparse_look b a =
      (if unat (a - RAM_BASE) < n then concat (map rec_data rs) ! unat (a - RAM_BASE) else illegal_word)"
    using load_records [OF linked_wf [OF l] rs wf len _ win, of i out] n(2) by auto
  have "bus_peek bs sparse_look b (RAM_BASE + rec_addr r + of_nat j) = rec_data r ! j"
    if r: "r \<in> set (records (linked objs))" and j: "j < length (rec_data r)" for r j
  proof -
    obtain p where p: "rec_addr r = of_nat p" "p + length (rec_data r) \<le> n"
      "\<forall>j<length (rec_data r). concat (map rec_data rs) ! (p + j) = rec_data r ! j"
      using layout_position [OF wf, of r 0] r rs len by auto
    have a: "RAM_BASE + rec_addr r + of_nat j = RAM_BASE + of_nat (p + j)" by (simp add: p(1) add.assoc)
    have "unat (of_nat (p + j) :: u32) = p + j"
      using p(2) j n(2) by (simp add: unat_of_nat del: of_nat_add)
    then show ?thesis
      using m [OF win [of "p + j"]] p(2,3) j by (simp add: a del: of_nat_add)
  qed
  with b show ?thesis by blast
qed

end

section \<open>From source words to memory\<close>

lemma tsim_bus_libc: "libc_search qs bs \<Longrightarrow> tsim_bus qs bs"
  by (simp add: tsim_bus_def device_bus_def)

lemma length_code_bytes: "length (obj_bytes (code_obj ws)) = 28 + 4 * length ws"
  by (simp add: obj_bytes_def code_obj_def length_section_bytes rec_bytes_def MAGIC_BYTES_def empty_obj_def)

lemma length_records_bytes:
  "length (concat (map rec_bytes rs)) = 8 * length rs + 4 * length (concat (map rec_data rs))"
  by (induction rs) (simp_all add: rec_bytes_def)

lemma length_linked_bytes:
  assumes "linkable objs" and "length (concat (map rec_data (records (linked objs)))) \<le> 0x3000"
  shows "length (obj_bytes (linked objs)) < 2 ^ 32"
proof -
  have "length (records (linked objs)) < 2 ^ 16"
    using linked_wf [OF assms(1)]
    by (simp add: wf_obj_def OBJ_MAX_REC_CNT_def word_le_nat_alt)
  moreover have "length (obj_bytes (linked objs)) = 20 + length (concat (map rec_bytes (records (linked objs))))"
    by (simp add: obj_bytes_def length_section_bytes MAGIC_BYTES_def linked_def Let_def)
  ultimately show ?thesis
    unfolding length_records_bytes using assms(2) by simp
qed

context tsim_bus
begin

text \<open>Assembling, then starting \<open>tsim\<close> on the result.\<close>

lemma assemble_and_load:
  assumes "no_plugins out" and es: "\<forall>e\<in>set es. e_size e = 1" and n: "length es \<le> 0x3000"
  shows "\<exists>u u' bytes v t s b.
    obj_init little (Some (Some 1)) file = Inr (0, u, file) \<and>
    obj_out_all little junk es u = Some (Inr u') \<and> obj_emit little u' = Inr (0, bytes) \<and>
    obj_init little' None \<lparr>pos = 0, rest = bytes, seekable = k\<rparr> = Inr (0, v, t) \<and>
    boot qs out default_state = Some (Inr s) \<and>
    load_sim (dispatch_op bs) obj_in RAM_BASE v i (sim_bus s) = Some (Inr (0, b)) \<and>
    (\<forall>a\<in>ram_window. bus_peek bs sparse_look b a =
      (if unat (a - RAM_BASE) < length es then e_word (es ! unat (a - RAM_BASE)) else illegal_word))"
proof -
  let ?ob = "code_obj (map e_word es)"
  obtain u' where out: "obj_out_all little junk es fresh_fdata = Some (Inr u')"
    "obj_emit little u' = Inr (0, obj_bytes ?ob)"
    using obj_emit_words [OF es] n by fastforce
  have wf: "wf_obj ?ob" using n by (intro code_obj_wf) simp
  have "length (obj_bytes ?ob) < 2 ^ 32" using n by (simp add: length_code_bytes)
  note read = obj_init_bytes [OF wf this, of little' k]
  obtain s where s: "boot qs out default_state = Some (Inr s)" "sim_bus s = default_bus out"
    using boot_default [OF assms(1)] by fastforce
  obtain b where "load_sim (dispatch_op bs) obj_in RAM_BASE (reading ?ob) i (default_bus out) =
      Some (Inr (0, b))"
    and "\<forall>a\<in>ram_window. bus_peek bs sparse_look b a =
      (if unat (a - RAM_BASE) < length es then e_word (es ! unat (a - RAM_BASE)) else illegal_word)"
    using load_code [of "map e_word es" i out] n by (auto cong: if_cong)
  then show ?thesis
    unfolding obj_init_assembling using out read s by auto
qed

text \<open>Linking, then starting \<open>tsim\<close> on the result.\<close>

lemma link_and_load:
  assumes "no_plugins out" and l: "linkable objs" and "\<forall>ob\<in>set objs. length (obj_bytes ob) < 2 ^ 32"
    and n: "length (concat (map rec_data (records (linked objs)))) \<le> 0x3000"
  shows "\<exists>bytes v t s b.
    tld little (map (\<lambda>ob. \<lparr>pos = 0, rest = obj_bytes ob, seekable = True\<rparr>) objs) = Inr bytes \<and>
    obj_init little' None \<lparr>pos = 0, rest = bytes, seekable = k\<rparr> = Inr (0, v, t) \<and>
    boot qs out default_state = Some (Inr s) \<and>
    load_sim (dispatch_op bs) obj_in RAM_BASE v i (sim_bus s) = Some (Inr (0, b)) \<and>
    (\<forall>n<length objs. \<forall>r. records (objs ! n) = [r] \<longrightarrow> (\<forall>j<unat (rec_size r).
      (\<forall>l\<in>set (relocs (objs ! n)). reloc_at r l \<noteq> j) \<longrightarrow>
      bus_peek bs sparse_look b (RAM_BASE + offset objs n + of_nat j) = rec_data r ! j)) \<and>
    (\<forall>n<length objs. \<forall>r. records (objs ! n) = [r] \<longrightarrow>
      distinct (map (reloc_at r) (relocs (objs ! n))) \<longrightarrow> (\<forall>l\<in>set (relocs (objs ! n)).
      bus_peek bs sparse_look b (RAM_BASE + offset objs n + of_nat (reloc_at r l)) =
        reloc_word (rlc_width l) (rec_data r ! reloc_at r l)
          (projr (reloc_value (link_tables objs) n l))))"
proof -
  obtain s where s: "boot qs out default_state = Some (Inr s)" "sim_bus s = default_bus out"
    using boot_default [OF assms(1)] by fastforce
  note read = obj_init_bytes [OF linked_wf [OF l] length_linked_bytes [OF l n], of little' k]
  obtain b where b: "load_sim (dispatch_op bs) obj_in RAM_BASE (reading (linked objs)) i (default_bus out) =
      Some (Inr (0, b))"
    and look: "\<And>r j. r \<in> set (records (linked objs)) \<Longrightarrow> j < length (rec_data r) \<Longrightarrow>
       bus_peek bs sparse_look b (RAM_BASE + rec_addr r + of_nat j) = rec_data r ! j"
    using load_linked [OF l refl n, of i out] by blast
  have plain: "bus_peek bs sparse_look b (RAM_BASE + offset objs n + of_nat j) = rec_data r ! j"
    if "n < length objs" "records (objs ! n) = [r]" "j < unat (rec_size r)"
      "\<forall>l\<in>set (relocs (objs ! n)). reloc_at r l \<noteq> j" for n r j
    using linked_record [OF l that(1,2)] look that(3,4) by metis
  have slot: "bus_peek bs sparse_look b (RAM_BASE + offset objs n + of_nat (reloc_at r x)) =
      reloc_word (rlc_width x) (rec_data r ! reloc_at r x) (projr (reloc_value (link_tables objs) n x))"
    if "n < length objs" "records (objs ! n) = [r]" "distinct (map (reloc_at r) (relocs (objs ! n)))"
      "x \<in> set (relocs (objs ! n))" for n r x
  proof -
    have "good_reloc (link_tables objs) n r x"
      using l that by (auto simp: linkable_def)
    then have "reloc_at r x < unat (rec_size r)"
      by (simp add: good_reloc_def reloc_at_def word_less_nat_alt)
    then show ?thesis
      using linked_record [OF l that(1,2)] look that(3,4) by metis
  qed
  show ?thesis
    unfolding tld_bytes [OF l assms(3)] using read s b plain slot by auto
qed

end

end
