(* ===== verification/Disasm.thy ===== *)
theory Disasm
  imports Sim
begin

unbundle bit_operations_syntax

text \<open>
  The disassembler of \<^verbatim>\<open>src/asm.c\<close>: \<open>print_disassembly\<close> yields the characters it prints (its
  return value is their number), and \<open>print_registers\<close> likewise.  \<open>printf\<close> is modelled for the
  conversions the code uses.
\<close>

section \<open>printf\<close>

definition digit :: "nat \<Rightarrow> char" where
  "digit n = (if n < 10 then char_of (48 + n) else char_of (87 + n))"

fun digits :: "nat \<Rightarrow> nat \<Rightarrow> string" where
  "digits b n = (if b < 2 \<or> n < b then [digit n] else digits b (n div b) @ [digit (n mod b)])"

declare digits.simps [simp del]

text \<open>\<open>%d\<close>, \<open>%08x\<close>, \<open>%-ns\<close> and \<open>%ns\<close>.\<close>

definition fmt_d :: "u32 \<Rightarrow> string" where
  "fmt_d w = (if sint w < 0 then ''-'' @ digits 10 (nat (- sint w)) else digits 10 (nat (sint w)))"

definition fmt_08x :: "u32 \<Rightarrow> string" where
  "fmt_08x w = (let s = digits 16 (unat w) in replicate (8 - length s) CHR ''0'' @ s)"

definition pad_right :: "nat \<Rightarrow> string \<Rightarrow> string" where
  "pad_right n s = s @ replicate (n - length s) CHR '' ''"

definition pad_left :: "nat \<Rightarrow> string \<Rightarrow> string" where
  "pad_left n s = replicate (n - length s) CHR '' '' @ s"

section \<open>Flags and names\<close>

abbreviation (input) ASM_AS_INSN :: nat where "ASM_AS_INSN \<equiv> 1"
abbreviation (input) ASM_AS_DATA :: nat where "ASM_AS_DATA \<equiv> 2"
abbreviation (input) ASM_AS_CHAR :: nat where "ASM_AS_CHAR \<equiv> 4"
abbreviation (input) ASM_VERBOSE :: nat where "ASM_VERBOSE \<equiv> 8"
abbreviation (input) ASM_QUIET :: nat where "ASM_QUIET \<equiv> 16"

primrec op_name :: "opcode \<Rightarrow> string" where
  "op_name OP_ADD = ''+''" | "op_name OP_SUBTRACT = ''-''" | "op_name OP_MULTIPLY = ''*''"
| "op_name OP_PACK = ''^^''" | "op_name OP_TEST_BIT = ''@''"
| "op_name OP_COMPARE_LT = ''<''" | "op_name OP_COMPARE_EQ = ''==''"
| "op_name OP_COMPARE_GE = ''>=''" | "op_name OP_BITWISE_OR = ''|''"
| "op_name OP_BITWISE_ORN = ''|~''" | "op_name OP_BITWISE_AND = ''&''"
| "op_name OP_BITWISE_ANDN = ''&~''" | "op_name OP_BITWISE_XOR = ''^''"
| "op_name OP_SHIFT_LEFT = ''<<''" | "op_name OP_SHIFT_RIGHT_ARITH = ''>>''"
| "op_name OP_SHIFT_RIGHT_LOGIC = ''>>>''"

definition reg_name :: "4 word \<Rightarrow> string" where
  "reg_name r = [char_of (65 + unat r)]"

section \<open>is_printable\<close>

text \<open>The truth value and the text in \<open>buf\<close>; \<open>isprint\<close> is that of the C locale.\<close>

definition is_printable :: "u32 \<Rightarrow> bool \<times> string" where
  "is_printable ch =
     (if ch = 32 then (True, '' '')
      else if ch = 92 then (True, [char_of (92 :: nat), char_of (92 :: nat)])
      else if ch = 0 then (True, char_of (92 :: nat) # ''0'')
      else if ch = 8 then (True, char_of (92 :: nat) # ''b'')
      else if ch = 12 then (True, char_of (92 :: nat) # ''f'')
      else if ch = 10 then (True, char_of (92 :: nat) # ''n'')
      else if ch = 13 then (True, char_of (92 :: nat) # ''r'')
      else if ch = 9 then (True, char_of (92 :: nat) # ''t'')
      else if ch = 11 then (True, char_of (92 :: nat) # ''v'')
      else (ch < 255 \<and> 32 \<le> ch \<and> ch \<le> 126,
            if (ucast ch :: u8) = 0 then '''' else [char_of (unat (ucast ch :: u8))]))"

section \<open>print_disassembly\<close>

text \<open>
  Which of the three operands are shown, as the code computes it up to the choice of format, and
  the pieces \<open>sA\<close> and \<open>s6\<close> that the sugared forms replace.  \<open>p\<close>, \<open>x\<close>, \<open>y\<close>, \<open>t\<close> (the \<open>op\<close> field
  of the type-0 view) and \<open>imm\<close> are the fields.
\<close>

record shown =
  show1 :: bool
  show2 :: bool
  show3 :: bool
  strA :: string
  str6 :: string

definition first_shown :: "nat \<Rightarrow> nat \<Rightarrow> nat \<Rightarrow> nat \<Rightarrow> nat \<Rightarrow> nat \<Rightarrow> bool \<Rightarrow> bool \<times> bool \<times> bool" where
  "first_shown p op x y imm vx verbose =
     (let mid = (if p = 0 then y else if p = 2 then x else 0);
          s1 = ((if p > 1 then imm \<noteq> 0 else x \<noteq> 0) \<or> op \<noteq> op_code OP_BITWISE_OR);
          s2 = ((if p = 1 then imm \<noteq> 0 else mid \<noteq> 0) \<or> op \<noteq> op_code OP_BITWISE_OR);
          s3 = (if p = 0 then imm \<noteq> 0 else y \<noteq> 0);
          (s1, s2, s3) = (if verbose then (True, True, True) else (s1, s2, s3))
      in if p = 3 then (False, s2 \<or> vx \<noteq> 0, True) else (s1, s2, s3))"

definition edge_cases :: "nat \<Rightarrow> nat \<Rightarrow> nat \<Rightarrow> nat \<Rightarrow> nat \<Rightarrow> shown \<Rightarrow> shown" where
  "edge_cases p t x y imm s =
     (let all3 = s\<lparr>show1 := True, show2 := True, show3 := True\<rparr>;
          both = s\<lparr>show1 := True, show2 := True\<rparr>;
          SUB = op_code OP_SUBTRACT; ORN = op_code OP_BITWISE_ORN;
          OR' = op_code OP_BITWISE_OR; ADD = op_code OP_ADD
      in if show1 s \<and> show2 s \<and> show3 s then s
         else if t = SUB \<and> p = 1 then all3
         else if p = 0 then
           (if t = SUB \<and> x = 0 then s\<lparr>strA := '' '', show3 := True\<rparr>
            else if t = ORN \<and> x = 0 then s\<lparr>str6 := ''~'', strA := '' '', show3 := True\<rparr>
            else if t = OR' \<and> (if x \<noteq> 0 then y = 0 \<and> imm \<noteq> 0 else y \<noteq> 0) then all3
            else s)
         else if p = 1 then
           (if t \<noteq> OR' \<and> t \<noteq> ADD \<and> y = 0 then both
            else if x = 0 \<or> y \<noteq> 0 \<or> t = OR' then all3
            else s)
         else if p = 2 then
           (if t = SUB \<and> imm = 0 then s\<lparr>strA := '' ''\<rparr>
            else if t = ORN \<and> imm = 0 then s\<lparr>str6 := ''~'', strA := '' ''\<rparr>
            else if t \<noteq> OR' \<and> y = 0 then both
            else if imm = 0 \<or> (t = OR' \<and> x = 0) then all3
            else s)
         else s)"

definition last_edge :: "nat \<Rightarrow> shown \<Rightarrow> shown" where
  "last_edge p s =
     (if p \<noteq> 3 \<and> \<not> (show1 s \<or> show2 s \<or> show3 s)
      then s\<lparr>show1 := p \<noteq> 0, show2 := p \<noteq> 0, show3 := p \<noteq> 0\<rparr> else s)"

text \<open>The formats \<open>fmts\<close>, from the pieces before and after the operands.\<close>

definition layout_insn :: "string \<Rightarrow> char \<Rightarrow> shown \<Rightarrow> string \<Rightarrow> string \<Rightarrow> string res" where
  "layout_insn pre post s sB sC =
     (let op = pad_left 3 (pad_right 2 (str6 s)); plus = pad_left 3 '' + '' in
      case (show1 s, show2 s, show3 s) of
        (False, False, False) \<Rightarrow> Inr (pre @ ''0'' @ [post])
      | (False, False, True) \<Rightarrow> Inr (pre @ sC @ [post])
      | (False, True, True) \<Rightarrow> Inr (pre @ sB @ '' '' @ plus @ '' '' @ sC @ [post])
      | (True, False, False) \<Rightarrow> Inr (pre @ strA s @ [post])
      | (True, True, False) \<Rightarrow> Inr (pre @ strA s @ '' '' @ op @ '' '' @ sB @ [post])
      | (True, True, True) \<Rightarrow> Inr (pre @ strA s @ '' '' @ op @ '' '' @ sB @ '' + '' @ sC @ [post])
      | _ \<Rightarrow> Inl (Fatal ''Unsupported show1,show2,show3''))"

definition shown_of :: "u32 \<Rightarrow> bool \<Rightarrow> shown" where
  "shown_of w verbose =
     (let p = unat (insn_p w); t = unat (insn_op w);
          imm = (if p = 3 then unat (insn_imm20 w) else unat (insn_imm12 w));
          op = (if p = 3 then op_code OP_BITWISE_OR else t);
          x = unat (insn_x w); y = unat (insn_y w);
          (s1, s2, s3) = first_shown p op x y imm x verbose;
          i8 = (if p = 3 then SEXTEND32 20 (ucast (insn_imm20 w)) else SEXTEND32 12 (ucast (insn_imm12 w)));
          s8 = (if p = 3 \<or> verbose then ''0x'' @ fmt_08x i8 else fmt_d i8);
          sA = (if p = 2 then s8 else reg_name (insn_x w))
      in last_edge p (edge_cases p t x y imm
           \<lparr>show1 = s1, show2 = s2, show3 = s3, strA = sA, str6 = op_name (all_ops ! t)\<rparr>))"

definition print_disassembly :: "u32 \<Rightarrow> nat \<Rightarrow> string res" where
  "print_disassembly w flags =
     (if flags AND ASM_AS_DATA \<noteq> 0 then Inr (''.word 0x'' @ fmt_08x w)
      else if flags AND ASM_AS_CHAR \<noteq> 0 then
        (case is_printable w of
           (True, buf) \<Rightarrow> Inr (''.word '' @ [CHR 0x27] @ buf @ [CHR 0x27] @
             replicate (2 - length buf) CHR '' '')
         | (False, _) \<Rightarrow> Inr (replicate 10 CHR '' ''))
      else
        (let p = unat (insn_p w); dd = unat (insn_dd w); verbose = (flags AND ASM_VERBOSE \<noteq> 0);
             i8 = (if p = 3 then SEXTEND32 20 (ucast (insn_imm20 w))
                   else SEXTEND32 12 (ucast (insn_imm12 w)));
             s8 = (if p = 3 \<or> verbose then ''0x'' @ fmt_08x i8 else fmt_d i8);
             s5 = reg_name (insn_x w); s7 = reg_name (insn_y w);
             sB = (if p = 0 then s7 else if p = 1 then s8 else s5);
             sC = (if p = 0 \<or> p = 3 then s8 else s7);
             pre = [if dd = 2 then CHR ''['' else CHR '' ''] @ reg_name (insn_z w) @
                   [if dd = 2 then CHR '']'' else CHR '' ''] @ '' '' @
                   (if dd = 1 then ''->'' else ''<-'') @ '' '' @
                   [if odd dd then CHR ''['' else CHR '' ''];
             post = (if odd dd then CHR '']'' else CHR '' '')
         in layout_insn pre post (shown_of w verbose) sB sC))"

section \<open>The operands that can be shown\<close>

lemma last_edge_shown:
  "\<not> (\<not> show1 s \<and> show2 s \<and> \<not> show3 s) \<Longrightarrow> \<not> (show1 s \<and> \<not> show2 s \<and> show3 s) \<Longrightarrow>
     \<not> (\<not> show1 (last_edge p s) \<and> show2 (last_edge p s) \<and> \<not> show3 (last_edge p s)) \<and>
     \<not> (show1 (last_edge p s) \<and> \<not> show2 (last_edge p s) \<and> show3 (last_edge p s))"
  by (auto simp: last_edge_def)

text \<open>The two combinations the comments call impossible are.\<close>

lemma edge_cases_shown:
  assumes "p < 4" and "first_shown p (if p = 3 then op_code OP_BITWISE_OR else t) x y imm x v = (s1, s2, s3)"
    and "e = edge_cases p t x y imm \<lparr>show1 = s1, show2 = s2, show3 = s3, strA = a, str6 = b\<rparr>"
  shows "\<not> (\<not> show1 e \<and> show2 e \<and> \<not> show3 e)" and "\<not> (show1 e \<and> \<not> show2 e \<and> show3 e)"
proof -
  consider "p = 0" | "p = 1" | "p = 2" | "p = 3" using assms(1) by linarith
  then have "\<not> (\<not> show1 e \<and> show2 e \<and> \<not> show3 e) \<and> \<not> (show1 e \<and> \<not> show2 e \<and> show3 e)"
    using assms(2,3)
    by cases (simp_all add: first_shown_def edge_cases_def Let_def split: if_splits, auto)
  then show "\<not> (\<not> show1 e \<and> show2 e \<and> \<not> show3 e)" "\<not> (show1 e \<and> \<not> show2 e \<and> show3 e)" by simp_all
qed

lemma layout_insn_total:
  "\<not> (\<not> show1 s \<and> show2 s \<and> \<not> show3 s) \<Longrightarrow> \<not> (show1 s \<and> \<not> show2 s \<and> show3 s) \<Longrightarrow>
     \<exists>r. layout_insn pre post s sB sC = Inr r"
  by (cases "show1 s"; cases "show2 s"; cases "show3 s") (simp_all add: layout_insn_def Let_def)

lemma shown_of_possible:
  "\<not> (\<not> show1 (shown_of w v) \<and> show2 (shown_of w v) \<and> \<not> show3 (shown_of w v))"
  "\<not> (show1 (shown_of w v) \<and> \<not> show2 (shown_of w v) \<and> show3 (shown_of w v))"
proof -
  let ?p = "unat (insn_p w)" and ?t = "unat (insn_op w)" and ?x = "unat (insn_x w)" and ?y = "unat (insn_y w)"
  let ?imm = "if ?p = 3 then unat (insn_imm20 w) else unat (insn_imm12 w)"
  obtain a b c where f: "first_shown ?p (if ?p = 3 then op_code OP_BITWISE_OR else ?t) ?x ?y ?imm ?x v = (a, b, c)"
    by (metis prod_cases3)
  have p: "?p < 4" using unsigned_less [of "insn_p w", where 'a = nat] by simp
  note e = edge_cases_shown [OF p f refl]
  show "\<not> (\<not> show1 (shown_of w v) \<and> show2 (shown_of w v) \<and> \<not> show3 (shown_of w v))"
    using last_edge_shown [OF e] f by (simp add: shown_of_def Let_def)
  show "\<not> (show1 (shown_of w v) \<and> \<not> show2 (shown_of w v) \<and> show3 (shown_of w v))"
    using last_edge_shown [OF e] f by (simp add: shown_of_def Let_def)
qed

lemma print_disassembly_total: "\<exists>s. print_disassembly w flags = Inr s"
proof (cases "flags AND ASM_AS_DATA \<noteq> 0 \<or> flags AND ASM_AS_CHAR \<noteq> 0")
  case True
  then show ?thesis by (auto simp: print_disassembly_def split: prod.splits bool.splits)
next
  case False
  then show ?thesis
    using layout_insn_total [OF shown_of_possible] by (simp add: print_disassembly_def Let_def)
qed

section \<open>print_registers\<close>

definition show_reg :: "(4 word \<Rightarrow> u32) \<Rightarrow> nat \<Rightarrow> string" where
  "show_reg r i = reg_name (of_nat i) @ '' '' @
     fmt_08x (if i = 15 then r (of_nat i) + 1 else r (of_nat i)) @ '' ''"

definition newline :: string where "newline = [char_of (10 :: nat)]"

definition print_registers :: "(4 word \<Rightarrow> u32) \<Rightarrow> string" where
  "print_registers r =
     concat (map (show_reg r) [0..<6]) @ newline @ concat (map (show_reg r) [6..<12]) @ newline @
     concat (map (show_reg r) [12..<15]) @ show_reg r 15 @ newline"

section \<open>do_disassembly\<close>

text \<open>
  The loop of \<^verbatim>\<open>src/asmif.c\<close> over a format's \<open>in\<close> function; \<open>None\<close> is a stream that never ends.
  \<open>%*s\<close> pads to the absolute value of its width.
\<close>

definition disassembly_line :: "element \<Rightarrow> nat \<Rightarrow> string res" where
  "disassembly_line i flags =
     bindE (print_disassembly (e_word i) (ASM_AS_INSN OR flags)) (\<lambda>a.
       if flags AND ASM_QUIET = 0 then
         bindE (print_disassembly (e_word i) (ASM_AS_DATA OR flags)) (\<lambda>b.
         bindE (print_disassembly (e_word i) (ASM_AS_CHAR OR flags)) (\<lambda>c.
           Inr (a @ replicate (nat \<bar>30 - int (length a)\<bar>) CHR '' '' @ ''# '' @ b @ '' ; '' @ c @
                '' ; .addr 0x'' @ fmt_08x (e_reladdr i) @ newline)))
       else Inr (a @ newline))"

partial_function (option) do_disassembly ::
  "'u in_fun \<Rightarrow> ('u \<Rightarrow> int) option \<Rightarrow> 'u \<Rightarrow> element \<Rightarrow> nat \<Rightarrow> string \<Rightarrow> (int \<times> string) res option" where
  "do_disassembly f_in f_err ud i flags out =
     (case f_in ud i of
        Inl e \<Rightarrow> Some (Inl e)
      | Inr (rc, i, ud) \<Rightarrow>
          if rc < 0 then Some (Inr (case f_err of None \<Rightarrow> 0 | Some err \<Rightarrow> err ud, out))
          else if rc = 0 then do_disassembly f_in f_err ud i flags out
          else (case disassembly_line i flags of
              Inl e \<Rightarrow> Some (Inl e)
            | Inr line \<Rightarrow> do_disassembly f_in f_err ud i flags (out @ line)))"

lemma disassembly_line_total: "\<exists>s. disassembly_line i flags = Inr s"
proof -
  obtain a where "print_disassembly (e_word i) (ASM_AS_INSN OR flags) = Inr a"
    using print_disassembly_total by blast
  moreover obtain b where "print_disassembly (e_word i) (ASM_AS_DATA OR flags) = Inr b"
    using print_disassembly_total by blast
  moreover obtain c where "print_disassembly (e_word i) (ASM_AS_CHAR OR flags) = Inr c"
    using print_disassembly_total by blast
  ultimately show ?thesis by (simp add: disassembly_line_def)
qed

text \<open>The elements printed: those the format yields with a positive return code.\<close>

inductive yields :: "'u in_fun \<Rightarrow> 'u \<Rightarrow> element \<Rightarrow> element list \<Rightarrow> 'u \<Rightarrow> bool" for f_in where
  yields_end: "f_in ud i = Inr (rc, i', ud') \<Longrightarrow> rc < 0 \<Longrightarrow> yields f_in ud i [] ud'"
| yields_skip: "f_in ud i = Inr (0, e, ud') \<Longrightarrow> yields f_in ud' e es v \<Longrightarrow> yields f_in ud i es v"
| yields_more: "f_in ud i = Inr (rc, e, ud') \<Longrightarrow> rc > 0 \<Longrightarrow> yields f_in ud' e es v \<Longrightarrow>
     yields f_in ud i (e # es) v"

lemma do_disassembly_lines:
  assumes "yields f_in ud i es v"
  shows "do_disassembly f_in f_err ud i flags out =
    Some (Inr (case f_err of None \<Rightarrow> 0 | Some err \<Rightarrow> err v,
               out @ concat (map (\<lambda>e. projr (disassembly_line e flags)) es)))"
  using assms
proof (induction arbitrary: out rule: yields.induct)
  case (yields_more ud i rc e ud' es v)
  obtain l where "disassembly_line e flags = Inr l" using disassembly_line_total by blast
  then show ?case using yields_more by (subst do_disassembly.simps) simp
qed (subst do_disassembly.simps, simp)+

end
