(* ===== verification/Param.thy ===== *)
theory Param
  imports Search
begin

text \<open>
  The parameter set of \<^verbatim>\<open>src/param.c\<close>: an array of entries, each a key with the list of its values,
  searched with \<open>lfind\<close> and \<open>lsearch\<close>.  Values are pointers the set does not look at, so their
  type is left open; the flags that say who frees keys and values have no effect on the contents and
  are left out.  The set implements a finite map from keys to non-empty lists of values.
\<close>

section \<open>Growing an array\<close>

text \<open>
  The loop by which \<open>param_set\<close> doubles the size of its array until there is room; it does not end when
  it starts from 0.  The sizes are natural numbers: as a \<open>size_t\<close> the size would wrap only beyond \<open>2 ^ 63\<close>
  entries, more than memory has room for.
\<close>

partial_function (option) grow :: "nat \<Rightarrow> nat \<Rightarrow> nat option" where
  "grow used sz = (if used \<ge> sz then grow used (sz * 2) else Some sz)"

lemma grow_enough: "0 < sz \<Longrightarrow> \<exists>m. grow used sz = Some m \<and> used < m \<and> sz \<le> m"
proof (induction "used + 1 - sz" arbitrary: sz rule: less_induct)
  case less
  show ?case
  proof (cases "used \<ge> sz")
    case True
    then have "used + 1 - sz * 2 < used + 1 - sz" using less.prems by linarith
    then obtain m where "grow used (sz * 2) = Some m" "used < m" "sz * 2 \<le> m"
      using less.hyps less.prems by fastforce
    then show ?thesis using True by (subst grow.simps) auto
  qed (subst grow.simps, simp)
qed

section \<open>The set\<close>

record 'v param_state =
  params_size :: nat
  params :: "(string \<times> 'v list) list"

definition param_init :: "'v param_state" where
  "param_init = \<lparr>params_size = 16, params = []\<rparr>"

definition params_cmp :: "string \<times> 'v list \<Rightarrow> string \<times> 'v list \<Rightarrow> int" where
  "params_cmp a b = strcmp (fst a) (fst b)"

text \<open>The number of values of the key and what is stored in \<open>val\<close>, at most \<open>n\<close> of them.\<close>

definition param_get :: "'v param_state \<Rightarrow> string \<Rightarrow> nat \<Rightarrow> nat \<times> 'v list" where
  "param_get p key n =
     (case lfind params_cmp (key, []) (params p) of
        None \<Rightarrow> (0, [])
      | Some i \<Rightarrow> (length (snd (params p ! i)), take n (snd (params p ! i))))"

text \<open>\<open>None\<close> if the array cannot grow.\<close>

definition param_set :: "'v param_state \<Rightarrow> string \<Rightarrow> 'v \<Rightarrow> bool \<Rightarrow> (int \<times> 'v param_state) option" where
  "param_set p key val replace =
     (case grow (length (params p)) (params_size p) of
        None \<Rightarrow> None
      | Some m \<Rightarrow>
          let (i, ps) = lsearch params_cmp (key, []) (params p);
              q = ps ! i;
              q = (if replace then (key, [val]) else (fst q, snd q @ [val]))
          in Some (0, \<lparr>params_size = m, params = ps[i := q]\<rparr>))"

text \<open>
  The argument of an option: \<open>key=value\<close> replaces, \<open>key+=value\<close> appends.  The byte before the
  equals sign is read without asking whether there is one.  The value is handed on as a string.
\<close>

definition param_add :: "(string \<Rightarrow> 'v) \<Rightarrow> 'v param_state \<Rightarrow> string
    \<Rightarrow> (int \<times> 'v param_state) option res" where
  "param_add mk p optarg =
     (let key = takeWhile (\<lambda>c. c \<noteq> CHR ''='') optarg;
          val = mk (drop (Suc (length key)) optarg)
      in if CHR ''='' \<notin> set optarg then Inr (Some (1, p))
         else if key = [] then Inl (Undefined ''read before the string'')
         else if last key \<noteq> CHR ''+'' then Inr (param_set p key val True)
         else Inr (param_set p (butlast key) val False))"

section \<open>The map it implements\<close>

definition param_wf :: "'v param_state \<Rightarrow> bool" where
  "param_wf p \<longleftrightarrow> distinct (map fst (params p)) \<and> (\<forall>e\<in>set (params p). snd e \<noteq> []) \<and>
     0 < params_size p \<and> length (params p) \<le> params_size p"

definition param_map :: "'v param_state \<Rightarrow> string \<rightharpoonup> 'v list" where
  "param_map p = map_of (params p)"

lemma params_cmp_0 [simp]: "params_cmp a b = 0 \<longleftrightarrow> fst a = fst b"
  by (simp add: params_cmp_def)

lemma param_init_wf: "param_wf param_init"
  by (simp add: param_wf_def param_init_def)

lemma lfind_key_Some:
  "lfind params_cmp (key, vs) ps = Some i \<Longrightarrow> i < length ps \<and> fst (ps ! i) = key"
  by (simp add: lfind_Some_iff)

lemma lfind_key_None: "lfind params_cmp (key, vs) ps = None \<longleftrightarrow> key \<notin> fst ` set ps"
  by (auto simp: lfind_None_iff)

lemma map_of_nth_key:
  assumes "distinct (map fst ps)" and "i < length ps" and "fst (ps ! i) = k"
  shows "map_of ps k = Some (snd (ps ! i))"
  using assms nth_mem [of i ps] by (intro map_of_is_SomeI) (auto simp: prod_eq_iff)

lemma map_of_list_update:
  assumes "distinct (map fst ps)" and "i < length ps" and "fst (ps ! i) = k"
  shows "map_of (ps[i := (k, v)]) = (map_of ps)(k \<mapsto> v)"
proof -
  have ps: "ps = take i ps @ (k, snd (ps ! i)) # drop (Suc i) ps"
    using assms(2,3) by (metis id_take_nth_drop prod.collapse)
  have "k \<notin> fst ` set (take i ps)"
    using assms(1) arg_cong [OF ps, of "map fst"] by (metis distinct_append not_distinct_conv_prefix
        list.set_map list.simps(9) map_append prod.sel(1) distinct.simps(2) Un_iff disjoint_iff
        list.set_intros(1))
  then have n: "map_of (take i ps) k = None" by (simp add: map_of_eq_None_iff)
  show ?thesis
  proof
    fix x
    have "map_of (ps[i := (k, v)]) x = map_of (take i ps @ (k, v) # drop (Suc i) ps) x"
      using assms(2) by (simp add: upd_conv_take_nth_drop)
    moreover have "map_of ps x = map_of (take i ps @ (k, snd (ps ! i)) # drop (Suc i) ps) x"
      using ps by simp
    ultimately show "map_of (ps[i := (k, v)]) x = ((map_of ps)(k \<mapsto> v)) x"
      using n by (auto simp: map_add_def split: option.splits)
  qed
qed

lemma param_get_map:
  assumes "param_wf p"
  shows "param_get p key n =
    (case param_map p key of None \<Rightarrow> (0, []) | Some vs \<Rightarrow> (length vs, take n vs))"
proof (cases "lfind params_cmp (key, []) (params p)")
  case None
  then have "map_of (params p) key = None" by (simp add: lfind_key_None map_of_eq_None_iff)
  with None show ?thesis by (simp add: param_get_def param_map_def)
next
  case (Some i)
  note i = lfind_key_Some [OF Some]
  then have "map_of (params p) key = Some (snd (params p ! i))"
    using assms map_of_nth_key [of "params p" i key] by (simp add: param_wf_def)
  then show ?thesis using Some by (simp add: param_get_def param_map_def)
qed

definition param_update :: "(string \<rightharpoonup> 'v list) \<Rightarrow> string \<Rightarrow> 'v \<Rightarrow> bool \<Rightarrow> string \<rightharpoonup> 'v list" where
  "param_update m key v replace =
     m(key \<mapsto> (if replace then [v] else (case m key of None \<Rightarrow> [] | Some vs \<Rightarrow> vs) @ [v]))"

lemma param_set_map:
  assumes "param_wf p"
  shows "\<exists>q. param_set p key v replace = Some (0, q) \<and> param_wf q \<and>
    param_map q = param_update (param_map p) key v replace"
proof -
  obtain m where m: "grow (length (params p)) (params_size p) = Some m" "length (params p) < m"
    using grow_enough [of "params_size p" "length (params p)"] assms by (auto simp: param_wf_def)
  have d: "distinct (map fst (params p))" using assms by (simp add: param_wf_def)
  show ?thesis
  proof (cases "lfind params_cmp (key, []) (params p)")
    case None
    then have k: "key \<notin> fst ` set (params p)" by (simp add: lfind_key_None)
    then have "map_of (params p) key = None" by (simp add: map_of_eq_None_iff)
    then show ?thesis
      using None m k assms map_of_snoc [OF k, of "[v]"]
      by (auto simp: param_set_def lsearch_def param_wf_def param_map_def param_update_def)
  next
    case (Some i)
    note i = lfind_key_Some [OF Some]
    have mk: "map_of (params p) key = Some (snd (params p ! i))"
      using map_of_nth_key [OF d] i by simp
    let ?q = "\<lambda>vs. \<lparr>params_size = m, params = (params p)[i := (key, vs)]\<rparr>"
    have "map fst ((params p)[i := (key, vs)]) = map fst (params p)" for vs
      using i by (simp add: map_update) (metis list_update_id nth_map)
    then have wf: "param_wf (?q vs)" if "vs \<noteq> []" for vs
      using assms m that by (auto simp: param_wf_def dest!: set_update_subset_insert [THEN subsetD])
    have "param_set p key v replace =
        Some (0, ?q (if replace then [v] else snd (params p ! i) @ [v]))"
      using Some m i by (simp add: param_set_def lsearch_def)
    then show ?thesis
      using wf map_of_list_update [OF d] i mk
      by (simp add: param_map_def param_update_def)
  qed
qed

text \<open>An option argument, taken apart.\<close>

lemma takeWhile_key: "CHR ''='' \<notin> set k \<Longrightarrow> takeWhile (\<lambda>c. c \<noteq> CHR ''='') (k @ CHR ''='' # v) = k"
  by (induction k) auto

lemma param_add_split:
  assumes "CHR ''='' \<notin> set k" and "k \<noteq> []"
  shows "last k \<noteq> CHR ''+'' \<Longrightarrow>
      param_add mk p (k @ ''='' @ v) = Inr (param_set p k (mk v) True)"
    and "param_add mk p (k @ ''+='' @ v) = Inr (param_set p k (mk v) False)"
proof -
  show "param_add mk p (k @ ''='' @ v) = Inr (param_set p k (mk v) True)" if "last k \<noteq> CHR ''+''"
    using assms that by (simp add: param_add_def takeWhile_key Let_def)
  have "takeWhile (\<lambda>c. c \<noteq> CHR ''='') (k @ ''+='' @ v) = k @ ''+''"
    using takeWhile_key [of "k @ ''+''" v] assms(1) by simp
  then show "param_add mk p (k @ ''+='' @ v) = Inr (param_set p k (mk v) False)"
    using assms by (simp add: param_add_def Let_def)
qed

lemma param_add_rejects: "CHR ''='' \<notin> set arg \<Longrightarrow> param_add mk p arg = Inr (Some (1, p))"
  by (simp add: param_add_def)

lemma param_add_before: "param_add mk p (CHR ''='' # v) = Inl (Undefined ''read before the string'')"
  by (simp add: param_add_def)

end
