(* ===== verification/Formats.thy ===== *)
theory Formats
  imports ObjFormat Disasm Param
begin

unbundle bit_operations_syntax

text \<open>
  The other formats of \<^verbatim>\<open>src/asm.c\<close>, each over its private data and its stream: \<open>raw\<close> (words as
  bytes), \<open>text\<close> (hexadecimal numbers) and \<open>memh\<close> (addresses and words, as Verilog reads them);
  the table of formats and the two functions on it.  \<open>fscanf\<close> and \<open>strtol\<close> are modelled for the
  conversions the code uses, as C99 specifies them, on a host whose \<open>long\<close> has 64 bits.
\<close>

section \<open>Reading numbers\<close>

definition isspace :: "char \<Rightarrow> bool" where
  "isspace c \<longleftrightarrow> of_char c \<in> {32, 9, 10, 11, 12, 13 :: nat}"

definition xval :: "char \<Rightarrow> nat option" where
  "xval c = (let n = of_char c in
     if 48 \<le> n \<and> n \<le> 57 then Some (n - 48)
     else if 97 \<le> n \<and> n \<le> 102 then Some (n - 87)
     else if 65 \<le> n \<and> n \<le> 70 then Some (n - 55) else None)"

definition is_xdigit :: "char \<Rightarrow> bool" where "is_xdigit c \<longleftrightarrow> xval c \<noteq> None"

definition number :: "nat \<Rightarrow> string \<Rightarrow> nat" where
  "number b = foldl (\<lambda>n c. b * n + the (xval c)) 0"

definition skip_ws :: "string \<Rightarrow> string" where "skip_ws = dropWhile isspace"

fun skip_sign :: "string \<Rightarrow> bool \<times> string" where
  "skip_sign (c # s) = (if c = CHR ''-'' then (True, s) else if c = CHR ''+'' then (False, s) else (False, c # s))"
| "skip_sign [] = (False, [])"

fun skip_0x :: "string \<Rightarrow> string" where
  "skip_0x (c # d # s) = (if c = CHR ''0'' \<and> (d = CHR ''x'' \<or> d = CHR ''X'') then s else c # d # s)"
| "skip_0x s = s"

text \<open>An out-of-range number is \<open>ULONG_MAX\<close>; \<open>%x\<close> stores it in 32 bits.\<close>

definition ulong :: "bool \<Rightarrow> nat \<Rightarrow> u32" where
  "ulong neg n = (if n \<ge> 2 ^ 64 then -1 else if neg then - of_nat n else of_nat n)"

text \<open>\<open>%x\<close>: the value, if the conversion succeeds, and what is left of the stream.\<close>

definition scan_x :: "string \<Rightarrow> u32 option \<times> string" where
  "scan_x s =
     (let (neg, s) = skip_sign (skip_ws s); s = skip_0x s; ds = takeWhile is_xdigit s
      in (if ds = [] then None else Some (ulong neg (number 16 ds)), dropWhile is_xdigit s))"

text \<open>A literal of the format string: whether it matched, and what is left.\<close>

fun scan_lit :: "char \<Rightarrow> string \<Rightarrow> bool \<times> string" where
  "scan_lit c (d # s) = (if c = d then (True, s) else (False, d # s))"
| "scan_lit c [] = (False, [])"

definition scan_0x_x :: "string \<Rightarrow> u32 option \<times> string" where
  "scan_0x_x s =
     (let (m, s) = scan_lit CHR ''0'' (skip_ws s) in
      if \<not> m then (None, s)
      else let (m, s) = scan_lit CHR ''x'' s in if \<not> m then (None, s) else scan_x s)"

definition scan_at_x :: "string \<Rightarrow> u32 option \<times> string" where
  "scan_at_x s = (let (m, s) = scan_lit CHR ''@'' (skip_ws s) in if \<not> m then (None, s) else scan_x s)"

text \<open>\<open>strtol(s, NULL, 0)\<close>.\<close>

definition strtol :: "string \<Rightarrow> int" where
  "strtol s =
     (let (neg, s) = skip_sign (skip_ws s);
          hex = (skip_0x s \<noteq> s \<and> (\<exists>c. c \<in> set (take 1 (skip_0x s)) \<and> is_xdigit c));
          b = (if hex then 16 else if take 1 s = ''0'' then 8 else 10);
          ds = takeWhile (\<lambda>c. case xval c of None \<Rightarrow> False | Some v \<Rightarrow> v < b) (if hex then skip_0x s else s);
          n = int (number b ds)
      in max (- (2 ^ 63)) (min (2 ^ 63 - 1) (if neg then - n else n)))"

section \<open>raw\<close>

text \<open>\<open>gen_init\<close> makes the offset 0; the stream of bytes is read or written.\<close>

record raw_state =
  r_offset :: u32
  r_in :: "u8 list"
  r_out :: "u8 list"

definition gen_init :: "u8 list \<Rightarrow> raw_state" where
  "gen_init bytes = \<lparr>r_offset = 0, r_in = bytes, r_out = []\<rparr>"

text \<open>\<open>junk\<close> is what a short read leaves in the word.\<close>

definition raw_in :: "bool \<Rightarrow> u32 \<Rightarrow> raw_state in_fun" where
  "raw_in little junk u i =
     (let (rc, w, bytes) =
        (if length (r_in u) < 4 then (-1, junk, [])
         else (1, host_word little (take 4 (r_in u)), drop 4 (r_in u)))
      in Inr (rc, i\<lparr>e_word := fixup_endian little w, e_reladdr := r_offset u\<rparr>,
              u\<lparr>r_offset := r_offset u + 1, r_in := bytes\<rparr>))"

definition raw_out :: "bool \<Rightarrow> element \<Rightarrow> raw_state \<Rightarrow> int \<times> raw_state" where
  "raw_out little i u =
     (let pad = nat (sint (e_reladdr i) - sint (r_offset u));
          more = (if 0 <s e_size i then [fixup_endian little (e_word i)] else []) @
                 replicate (nat (sint (e_size i)) - 1) 0
      in (1, u\<lparr>r_offset := r_offset u + of_nat (pad + length more),
               r_out := r_out u @ concat (map (host_bytes little) (replicate pad 0 @ more))\<rparr>))"

section \<open>text\<close>

record text_state =
  t_offset :: u32
  t_in :: string
  t_out :: string

definition text_init :: "string \<Rightarrow> text_state" where
  "text_init s = \<lparr>t_offset = 0, t_in = s, t_out = []\<rparr>"

definition text_in :: "text_state in_fun" where
  "text_in u i =
     (let (r, s) = scan_x (t_in u);
          (r, s) = (case r of Some w \<Rightarrow> (r, s) | None \<Rightarrow> scan_0x_x s);
          i = (case r of Some w \<Rightarrow> i\<lparr>e_word := w\<rparr> | None \<Rightarrow> i)\<lparr>e_reladdr := t_offset u\<rparr>;
          bad = (case s of [] \<Rightarrow> False | c # _ \<Rightarrow> \<not> isspace c)
      in Inr (if bad then -1 else if r \<noteq> None then 1 else -1, i,
              u\<lparr>t_offset := t_offset u + 1, t_in := tl s\<rparr>))"

definition text_out :: "element \<Rightarrow> text_state \<Rightarrow> int \<times> text_state" where
  "text_out i u =
     (1, u\<lparr>t_out := t_out u @
        (if 0 <s e_size i then ''0x'' @ fmt_08x (e_word i) @ newline else []) @
        concat (replicate (nat (sint (e_size i)) - 1) (''0x00000000'' @ newline))\<rparr>)"

section \<open>memh\<close>

record memh_state =
  m_written :: u32
  m_marked :: u32
  m_offset :: u32
  first_done :: bool
  emit_zeros :: bool
  m_in :: string
  m_out :: string

text \<open>
  \<open>long\<close> values are stored in 32-bit fields.  The two parameters are those of the set \<open>p\<close>, as
  \<open>param_get\<close> delivers them.
\<close>

definition memh_init :: "string param_state \<Rightarrow> string \<Rightarrow> memh_state" where
  "memh_init p s =
     (let off = (case param_get p ''format.memh.offset'' 1 of
                   (n, v # _) \<Rightarrow> if n \<noteq> 0 then word_of_int (strtol v) else 0 | _ \<Rightarrow> 0);
          ez = (case param_get p ''format.memh.explicit'' 1 of
                   (n, v # _) \<Rightarrow> n \<noteq> 0 \<and> strtol v \<noteq> 0 | _ \<Rightarrow> False)
      in \<lparr>m_written = off, m_marked = off, m_offset = off, first_done = False, emit_zeros = ez,
          m_in = s, m_out = []\<rparr>)"

definition memh_in :: "memh_state in_fun" where
  "memh_in u i =
     (if m_written u <s m_marked u then
        Inr (1, i\<lparr>e_word := 0, e_reladdr := m_written u\<rparr>, u\<lparr>m_written := m_written u + 1\<rparr>)
      else if m_marked u = m_written u then
        (case scan_at_x (m_in u) of
           (Some a, s) \<Rightarrow> Inr (0, i, u\<lparr>m_marked := a, m_in := s\<rparr>)
         | (None, s) \<Rightarrow> (case scan_x s of
               (None, s) \<Rightarrow> Inr (-1, i, u\<lparr>m_in := s\<rparr>)
             | (Some w, s) \<Rightarrow> Inr (1, i\<lparr>e_word := w, e_reladdr := m_written u\<rparr>,
                 u\<lparr>m_written := m_written u + 1, m_marked := m_written u + 1, m_in := s\<rparr>)))
      else Inr (-1, i, u))"

definition fmt_x :: "u32 \<Rightarrow> string" where "fmt_x w = digits 16 (unat w)"

definition memh_out :: "element \<Rightarrow> memh_state \<Rightarrow> int \<times> memh_state" where
  "memh_out i u =
     (let addr = e_reladdr i + m_offset u; word = e_word i; diff = addr - m_written u in
      if word = 0 \<and> \<not> emit_zeros u then (0, u)
      else let at = (if 1 <s diff \<or> \<not> first_done u then ''@'' @ fmt_x addr @ '' '' else [])
        in (1, u\<lparr>m_written := addr, first_done := True, m_out := m_out u @ at @ fmt_08x word @ newline\<rparr>))"

section \<open>The table of formats\<close>

text \<open>The names, in the order of the table; the operations of each are the definitions above.\<close>

definition format_names :: "string list" where
  "format_names = [''obj'', ''raw'', ''text'', ''memh'']"

definition find_format_by_name :: "string \<Rightarrow> string \<Rightarrow> int" where
  "find_format_by_name a b = strcmp a b"

text \<open>The index of the format found; the return value is whether there is none.\<close>

definition find_format :: "string \<Rightarrow> bool \<times> nat option" where
  "find_format name = (let f = lfind find_format_by_name name format_names in (f = None, f))"

text \<open>
  The buffer as the string it holds.  \<open>snprintf\<close> returns the length it would have liked to
  print, which is what \<open>pos\<close> is advanced by, and prints what fits before the terminator.
\<close>

fun make_format_list :: "(string \<Rightarrow> bool) option \<Rightarrow> string list \<Rightarrow> nat \<Rightarrow> string \<Rightarrow> nat \<Rightarrow> string \<Rightarrow> nat \<times> string" where
  "make_format_list pred [] len sep p buf = (p, buf)"
| "make_format_list pred (f # fs) len sep p buf =
     (if p \<ge> len then (p, buf)
      else if (case pred of None \<Rightarrow> True | Some q \<Rightarrow> q f) then
        (let s = (if p \<noteq> 0 then sep else []) @ f in
         make_format_list pred fs len sep (p + length s) (buf @ take (len - p - 1) s))
      else make_format_list pred fs len sep p buf)"

section \<open>Printed numbers are read back\<close>

lemma xval_digit: "v < 16 \<Longrightarrow> xval (digit v) = Some v"
  by (auto simp: xval_def digit_def Let_def of_char_of take_bit_nat_eq_self)

lemma digits_xdigit: "\<forall>c\<in>set (digits 16 n). is_xdigit c"
proof (induction n rule: less_induct)
  case (less n)
  show ?case
    by (subst digits.simps) (use less [of "n div 16"] xval_digit in \<open>auto simp: is_xdigit_def\<close>)
qed

lemma digits_not_Nil [simp]: "digits b n \<noteq> []"
  by (subst digits.simps) auto

lemma number_snoc [simp]: "number b (s @ [c]) = b * number b s + the (xval c)"
  by (simp add: number_def)

lemma number_digits: "number 16 (digits 16 n) = n"
proof (induction n rule: less_induct)
  case (less n)
  show ?case
    by (subst digits.simps) (use less [of "n div 16"] in \<open>simp add: xval_digit, simp add: number_def xval_digit\<close>)
qed

lemma number_zeros: "number b (replicate k CHR ''0'' @ s) = number b s"
proof -
  have "foldl (\<lambda>n c. b * n + the (xval c)) 0 (replicate k CHR ''0'') = 0"
    by (induction k) (simp_all add: xval_def)
  then show ?thesis by (simp add: number_def)
qed

lemma xdigit_0: "is_xdigit CHR ''0''"
  by (simp add: is_xdigit_def xval_def)

lemma fmt_08x_xdigit: "\<forall>c\<in>set (fmt_08x w). is_xdigit c"
  using digits_xdigit [of "unat w"] by (auto simp: fmt_08x_def Let_def xdigit_0)

lemma number_fmt_08x [simp]: "number 16 (fmt_08x w) = unat w"
  by (simp add: fmt_08x_def Let_def number_zeros number_digits)

lemma fmt_08x_not_Nil [simp]: "fmt_08x w \<noteq> []"
  by (simp add: fmt_08x_def Let_def)

lemma xdigit_facts:
  "is_xdigit c \<Longrightarrow> \<not> isspace c \<and> c \<noteq> CHR ''-'' \<and> c \<noteq> CHR ''+'' \<and> c \<noteq> CHR ''x'' \<and> c \<noteq> CHR ''X'' \<and> c \<noteq> CHR ''@''"
  by (auto simp: is_xdigit_def xval_def isspace_def Let_def split: if_splits)

text \<open>Hexadecimal digits up to a character that is none: the value is theirs.\<close>

definition stops :: "string \<Rightarrow> bool" where
  "stops r = (case r of [] \<Rightarrow> True | c # _ \<Rightarrow> \<not> is_xdigit c \<and> c \<noteq> CHR ''x'' \<and> c \<noteq> CHR ''X'')"

lemma takeWhile_stops:
  assumes "\<forall>c\<in>set ds. is_xdigit c" and "stops r"
  shows "takeWhile is_xdigit (ds @ r) = ds" and "dropWhile is_xdigit (ds @ r) = r"
  using assms by (cases r; simp add: stops_def)+

lemma scan_digits:
  assumes d: "\<forall>c\<in>set ds. is_xdigit c" and "ds \<noteq> []" and r: "stops r"
    and s: "skip_ws s = ds @ r"
  shows "scan_x s = (Some (ulong False (number 16 ds)), r)"
proof -
  obtain c cs where c: "ds = c # cs" using assms(2) by (cases ds) auto
  have "skip_sign (ds @ r) = (False, ds @ r)" using d xdigit_facts [of c] by (simp add: c)
  moreover have "skip_0x (ds @ r) = ds @ r"
  proof (cases "cs @ r")
    case (Cons e t)
    then have "e \<noteq> CHR ''x'' \<and> e \<noteq> CHR ''X''"
      using d r xdigit_facts [of e] by (cases cs) (auto simp: c stops_def)
    then show ?thesis using Cons by (simp add: c)
  qed (simp add: c)
  ultimately show ?thesis
    using takeWhile_stops [OF d r] assms(2) by (simp add: scan_x_def s)
qed

lemma scan_0x_digits:
  assumes d: "\<forall>c\<in>set ds. is_xdigit c" and "ds \<noteq> []" and r: "stops r"
  shows "scan_x (''0x'' @ ds @ r) = (Some (ulong False (number 16 ds)), r)"
  using takeWhile_stops [OF d r] assms(2) by (simp add: scan_x_def skip_ws_def isspace_def)

lemma ulong_unat [simp]: "ulong False (unat w) = w"
proof -
  have "unat w < 2 ^ 32" using unsigned_less [of w] by simp
  then have "unat w < 2 ^ 64" by (rule less_trans) simp
  then show ?thesis by (simp add: ulong_def)
qed

lemma newline_char: "newline = [CHR 0x0A]"
  unfolding newline_def by code_simp

lemma stops_newline [simp]: "stops (newline @ r)" and stops_Nil [simp]: "stops []"
  by (simp_all add: stops_def newline_char is_xdigit_def xval_def Let_def)

section \<open>Elements laid out by the assembler\<close>

text \<open>Each element follows the one before it, and none has a negative size.\<close>

fun laid_out :: "u32 \<Rightarrow> element list \<Rightarrow> bool" where
  "laid_out a [] = True"
| "laid_out a (e # es) \<longleftrightarrow> e_reladdr e = a \<and> 0 \<le>s e_size e \<and> laid_out (a + e_size e) es"

definition words_of :: "element \<Rightarrow> u32 list" where
  "words_of e = (if 0 <s e_size e then e_word e # replicate (nat (sint (e_size e)) - 1) 0 else [])"

text \<open>The words, at consecutive addresses, as a format yields them.\<close>

fun numbered :: "element \<Rightarrow> u32 \<Rightarrow> u32 list \<Rightarrow> element list" where
  "numbered i a [] = []"
| "numbered i a (w # ws) =
     (let e = i\<lparr>e_word := w, e_reladdr := a\<rparr> in e # numbered e (a + 1) ws)"

subsection \<open>text\<close>

fun text_out_all :: "element list \<Rightarrow> text_state \<Rightarrow> text_state" where
  "text_out_all [] u = u"
| "text_out_all (e # es) u = text_out_all es (snd (text_out e u))"

definition text_line :: "u32 \<Rightarrow> string" where "text_line w = ''0x'' @ fmt_08x w @ newline"

lemma fmt_08x_0: "fmt_08x 0 = ''00000000''"
proof -
  have "digit 0 = CHR ''0''" by code_simp
  then have "digits 16 0 = ''0''" by (subst digits.simps) simp
  then show ?thesis by (simp add: fmt_08x_def numeral_eq_Suc)
qed

lemma text_out_lines: "t_out (snd (text_out e u)) = t_out u @ concat (map text_line (words_of e))"
  by (simp add: text_out_def words_of_def text_line_def fmt_08x_0 word_sless_alt)

lemma text_out_all_lines:
  "t_out (text_out_all es u) = t_out u @ concat (map text_line (concat (map words_of es)))"
  by (induction es arbitrary: u) (simp_all add: text_out_lines)

lemma feeds_text:
  "feeds text_in \<lparr>t_offset = a, t_in = concat (map text_line ws), t_out = x\<rparr> i (numbered i a ws)"
proof (induction ws arbitrary: a i)
  case Nil
  have "scan_x [] = (None, [])" by (simp add: scan_x_def skip_ws_def)
  then show ?case
    by (auto simp: text_in_def scan_0x_x_def skip_ws_def intro: feeds_end)
next
  case (Cons w ws)
  let ?u = "\<lambda>b ws. \<lparr>t_offset = b, t_in = concat (map text_line ws), t_out = x\<rparr>"
  let ?e = "i\<lparr>e_word := w, e_reladdr := a\<rparr>"
  have "scan_x (t_in (?u a (w # ws))) = (Some w, newline @ concat (map text_line ws))"
    using scan_0x_digits [OF fmt_08x_xdigit fmt_08x_not_Nil stops_newline]
    by (simp add: text_line_def)
  then have "text_in (?u a (w # ws)) i = Inr (1, ?e, ?u (a + 1) ws)"
    by (simp add: text_in_def newline_char isspace_def)
  then show ?case using Cons [of "a + 1" ?e] by (simp add: Let_def feeds_more)
qed

subsection \<open>raw\<close>

fun raw_out_all :: "bool \<Rightarrow> element list \<Rightarrow> raw_state \<Rightarrow> raw_state" where
  "raw_out_all little [] u = u"
| "raw_out_all little (e # es) u = raw_out_all little es (snd (raw_out little e u))"

lemma fixup_host_bytes [simp]: "host_bytes little (fixup_endian little w) = word_to_bytes w"
  using put_word_host [of little w] unfolding put_word_def fixup_endian_def by (cases little) simp_all

lemma host_bytes_0 [simp]: "host_bytes little 0 = word_to_bytes 0"
  by (simp add: host_bytes_def word_to_bytes_def)

lemma fixup_host_word [simp]: "fixup_endian little (host_word little (word_to_bytes w)) = w"
  using swapword_rev [of "word_to_bytes w"] by (simp add: fixup_endian_def host_word_def)

lemma raw_out_words:
  assumes "e_reladdr e = r_offset u" and "0 \<le>s e_size e"
  shows "snd (raw_out little e u) = u\<lparr>r_offset := r_offset u + e_size e,
    r_out := r_out u @ concat (map word_to_bytes (words_of e))\<rparr>"
proof -
  have "0 \<le> sint (e_size e)" using assms(2) by (simp add: word_sle_eq)
  moreover have "word_of_int (sint (e_size e)) = e_size e" by simp
  ultimately show ?thesis
    using assms(1)
    by (cases "sint (e_size e) = 0") (auto simp: raw_out_def words_of_def Let_def word_sless_alt
        of_nat_diff map_replicate_const dest: arg_cong [where f = "word_of_int :: int \<Rightarrow> u32"])
qed

lemma raw_out_all_words:
  "laid_out (r_offset u) es \<Longrightarrow>
     r_out (raw_out_all little es u) = r_out u @ concat (map word_to_bytes (concat (map words_of es)))"
  by (induction es arbitrary: u) (simp_all add: raw_out_words)

lemma feeds_raw:
  "feeds (raw_in little junk) \<lparr>r_offset = a, r_in = concat (map word_to_bytes ws), r_out = x\<rparr> i (numbered i a ws)"
proof (induction ws arbitrary: a i)
  case Nil
  show ?case by (auto simp: raw_in_def intro: feeds_end)
next
  case (Cons w ws)
  let ?e = "i\<lparr>e_word := w, e_reladdr := a\<rparr>"
  have "raw_in little junk \<lparr>r_offset = a, r_in = concat (map word_to_bytes (w # ws)), r_out = x\<rparr> i =
      Inr (1, ?e, \<lparr>r_offset = a + 1, r_in = concat (map word_to_bytes ws), r_out = x\<rparr>)"
    by (simp add: raw_in_def)
  then show ?case using Cons [of "a + 1" ?e] by (simp add: Let_def feeds_more)
qed

subsection \<open>memh\<close>

text \<open>A word at each address from \<open>c\<close> on, as \<open>memh_out\<close> is given them by the assembler.\<close>

fun memh_out_all :: "u32 \<Rightarrow> u32 list \<Rightarrow> memh_state \<Rightarrow> memh_state" where
  "memh_out_all c [] u = u"
| "memh_out_all c (w # ws) u =
     memh_out_all (c + 1) ws (snd (memh_out \<lparr>e_word = w, e_reladdr = c, e_size = 1\<rparr> u))"

text \<open>What is printed: \<open>prev\<close> is the address printed last, if there is one.\<close>

fun memh_text :: "bool \<Rightarrow> nat option \<Rightarrow> nat \<Rightarrow> u32 list \<Rightarrow> string" where
  "memh_text z prev c [] = []"
| "memh_text z prev c (w # ws) =
     (if w = 0 \<and> \<not> z then memh_text z prev (c + 1) ws
      else (if prev = None \<or> Suc (the prev) < c then ''@'' @ fmt_x (of_nat c) @ '' '' else []) @
           fmt_08x w @ newline @ memh_text z (Some c) (c + 1) ws)"

lemma sint_of_nat: "n < 2 ^ 31 \<Longrightarrow> sint (of_nat n :: u32) = int n"
proof -
  assume "n < 2 ^ 31"
  then have "signed_take_bit 31 (int n) = int n" by (intro signed_take_bit_int_eq_self) simp_all
  then show ?thesis by (simp add: signed_of_nat)
qed

lemma memh_out_all_text:
  assumes "m_offset u = 0" and "m_written u = of_nat (case prev of None \<Rightarrow> 0 | Some b \<Rightarrow> b)"
    and "first_done u \<longleftrightarrow> prev \<noteq> None" and "case prev of None \<Rightarrow> True | Some b \<Rightarrow> b < c"
    and "c + length ws < 2 ^ 31"
  shows "m_out (memh_out_all (of_nat c) ws u) = m_out u @ memh_text (emit_zeros u) prev c ws"
  using assms
proof (induction ws arbitrary: c prev u)
  case (Cons w ws)
  have c1: "of_nat c + 1 = (of_nat (Suc c) :: u32)" by simp
  show ?case
  proof (cases "w = 0 \<and> \<not> emit_zeros u")
    case True
    then have "memh_out \<lparr>e_word = w, e_reladdr = of_nat c, e_size = 1\<rparr> u = (0, u)"
      by (simp add: memh_out_def)
    then show ?thesis
      using True Cons.prems Cons.IH [of u prev "Suc c"] by (simp add: c1 less_Suc_eq split: option.splits)
  next
    case False
    let ?mark = "prev = None \<or> Suc (the prev) < c"
    let ?u = "snd (memh_out \<lparr>e_word = w, e_reladdr = of_nat c, e_size = 1\<rparr> u)"
    have m: "(1 <s of_nat c - m_written u \<or> \<not> first_done u) \<longleftrightarrow> ?mark"
    proof (cases prev)
      case (Some b)
      then have d: "of_nat c - m_written u = (of_nat (c - b) :: u32)"
        using Cons.prems by (simp add: of_nat_diff)
      have "sint (of_nat (c - b) :: u32) = int (c - b)" using Cons.prems by (intro sint_of_nat) simp
      then show ?thesis
        unfolding d using Some Cons.prems by (auto simp: word_sless_alt simp del: of_nat_diff)
    qed (use Cons.prems in simp)
    have "?u = u\<lparr>m_written := of_nat c, first_done := True,
        m_out := m_out u @ (if ?mark then ''@'' @ fmt_x (of_nat c) @ '' '' else []) @ fmt_08x w @ newline\<rparr>"
      using False Cons.prems(1) m by (cases "emit_zeros u") (simp_all add: memh_out_def Let_def)
    then show ?thesis
      using False Cons.prems Cons.IH [of ?u "Some c" "Suc c"]
      by (cases "emit_zeros u") (simp_all add: c1)
  qed
qed simp

text \<open>The words that come back: zeros at the end are lost unless they are explicit.\<close>

fun trimmed :: "bool \<Rightarrow> u32 list \<Rightarrow> u32 list" where
  "trimmed z [] = []"
| "trimmed z (w # ws) = (if \<not> z \<and> w = 0 \<and> trimmed z ws = [] then [] else w # trimmed z ws)"

lemma trimmed_explicit: "trimmed True ws = ws"
  by (induction ws) simp_all

lemma trimmed_prefix: "\<exists>n. ws = trimmed z ws @ replicate n 0"
proof (induction ws)
  case (Cons w ws)
  then obtain n where n: "ws = trimmed z ws @ replicate n 0" by blast
  show ?case
  proof (cases "\<not> z \<and> w = 0 \<and> trimmed z ws = []")
    case True
    then have "w # ws = replicate (Suc n) 0" using n by (metis append_Nil replicate_Suc)
    moreover have "trimmed z (w # ws) = []" by (subst trimmed.simps) (rule if_P [OF True])
    ultimately show ?thesis by (intro exI [of _ "Suc n"]) (simp only: append_Nil)
  qed (use n in auto)
qed simp

text \<open>A state of the reader, and its next word.\<close>

abbreviation reader :: "nat \<Rightarrow> nat \<Rightarrow> string \<Rightarrow> memh_state \<Rightarrow> memh_state" where
  "reader p c s u \<equiv> u\<lparr>m_written := of_nat p, m_marked := of_nat c, m_in := s\<rparr>"

lemma skip_ws_digits: "\<forall>c\<in>set ds. is_xdigit c \<Longrightarrow> ds \<noteq> [] \<Longrightarrow> skip_ws (ds @ r) = ds @ r"
  using xdigit_facts by (cases ds) (auto simp: skip_ws_def)

lemma of_nat_inj: "p < 2 ^ 31 \<Longrightarrow> c < 2 ^ 31 \<Longrightarrow> (of_nat p :: u32) = of_nat c \<longleftrightarrow> p = c"
  using sint_of_nat [of p] sint_of_nat [of c] by (metis of_nat_eq_iff)

lemma memh_fills:
  assumes "p \<le> c" and "c < 2 ^ 31"
    and "\<And>i. yields memh_in (reader c c s u) i (numbered i (of_nat c) ws) v"
  shows "yields memh_in (reader p c s u) i (numbered i (of_nat p) (replicate (c - p) 0 @ ws)) v"
  using assms(1)
proof (induction "c - p" arbitrary: p i)
  case (Suc n)
  then have p: "p < c" by simp
  let ?e = "i\<lparr>e_word := 0, e_reladdr := of_nat p\<rparr>"
  have "sint (of_nat p :: u32) < sint (of_nat c :: u32)"
    using p assms(2) by (simp add: sint_of_nat)
  then have "memh_in (reader p c s u) i = Inr (1, ?e, reader (Suc p) c s u)"
    by (simp add: memh_in_def word_sless_alt add.commute)
  moreover have "replicate (c - p) (0 :: u32) @ ws = 0 # replicate (c - Suc p) 0 @ ws"
    using p by (simp flip: replicate_Suc add: Suc_diff_Suc)
  ultimately show ?case
    using Suc.hyps(1) [of "Suc p" ?e] Suc.hyps(2) p by (simp add: Let_def add.commute yields_more)
qed (use assms(3) in simp)

lemma memh_reads_word:
  assumes "skip_ws s = fmt_08x w @ newline @ r" and "c < 2 ^ 31"
  shows "memh_in (reader c c s u) i =
    Inr (1, i\<lparr>e_word := w, e_reladdr := of_nat c\<rparr>, reader (Suc c) (Suc c) (newline @ r) u)"
proof -
  obtain d ds where d: "fmt_08x w = d # ds" by (cases "fmt_08x w") simp_all
  have "scan_at_x s = (None, fmt_08x w @ newline @ r)"
    using fmt_08x_xdigit [of w] xdigit_facts [of d] by (auto simp: scan_at_x_def assms(1) d)
  moreover have "scan_x (fmt_08x w @ newline @ r) = (Some (ulong False (number 16 (fmt_08x w))), newline @ r)"
    using skip_ws_digits [OF fmt_08x_xdigit fmt_08x_not_Nil]
    by (intro scan_digits fmt_08x_xdigit fmt_08x_not_Nil stops_newline) simp
  ultimately show ?thesis by (simp add: memh_in_def add.commute)
qed

lemma memh_reads_mark:
  assumes "skip_ws s = ''@'' @ fmt_x a @ '' '' @ r" and "p < 2 ^ 31"
  shows "memh_in (reader p p s u) i = Inr (0, i, u\<lparr>m_written := of_nat p, m_marked := a, m_in := '' '' @ r\<rparr>)"
proof -
  have x: "\<forall>c\<in>set (fmt_x a). is_xdigit c" "fmt_x a \<noteq> []"
    using digits_xdigit by (simp_all add: fmt_x_def)
  have "scan_x (fmt_x a @ '' '' @ r) = (Some (ulong False (number 16 (fmt_x a))), '' '' @ r)"
    using skip_ws_digits [OF x]
    by (intro scan_digits x) (simp_all add: stops_def is_xdigit_def xval_def)
  then have "scan_at_x s = (Some a, '' '' @ r)"
    by (simp add: scan_at_x_def assms(1) number_digits fmt_x_def)
  then show ?thesis by (simp add: memh_in_def)
qed

lemma skip_ws_space: "skip_ws ('' '' @ fmt_08x w @ r) = fmt_08x w @ r"
  and skip_ws_newline: "skip_ws (newline @ s) = skip_ws s"
  using skip_ws_digits [OF fmt_08x_xdigit fmt_08x_not_Nil, of w r]
  by (simp_all add: skip_ws_def isspace_def newline_char)

lemma memh_text_start: "skip_ws (memh_text z prev c ws) = memh_text z prev c ws"
proof (induction ws arbitrary: prev c)
  case (Cons w ws)
  then show ?case
    using skip_ws_digits [OF fmt_08x_xdigit fmt_08x_not_Nil, of w]
    by (auto simp: skip_ws_def isspace_def)
qed (simp add: skip_ws_def)

lemma yields_memh:
  assumes "skip_ws s = memh_text z prev c ws" and "p \<le> c" and "\<And>b. prev = Some b \<Longrightarrow> p = Suc b"
    and "c + length ws < 2 ^ 31"
  shows "\<exists>v. \<forall>i. yields memh_in (reader p p s u) i
    (numbered i (of_nat p) (if trimmed z ws = [] then [] else replicate (c - p) 0 @ trimmed z ws)) v"
  using assms
proof (induction ws arbitrary: s prev c p)
  case Nil
  have "scan_at_x s = (None, [])" "scan_x [] = (None, [])"
    using Nil(1) by (simp add: scan_at_x_def, simp add: scan_x_def skip_ws_def)
  then have "memh_in (reader p p s u) i = Inr (-1, i, reader p p [] u)" for i
    by (simp add: memh_in_def)
  then have "yields memh_in (reader p p s u) i [] (reader p p [] u)" for i by (rule yields_end) simp
  then show ?case by auto
next
  case (Cons w ws)
  show ?case
  proof (cases "w = 0 \<and> \<not> z")
    case True
    have r: "replicate (Suc c - p) (0 :: u32) @ t = replicate (c - p) 0 @ 0 # t" for t
      using Cons.prems(2) by (simp add: Suc_diff_le replicate_append_same [symmetric])
    obtain v where "\<forall>i. yields memh_in (reader p p s u) i
        (numbered i (of_nat p) (if trimmed z ws = [] then [] else replicate (Suc c - p) 0 @ trimmed z ws)) v"
      using True Cons.prems Cons.IH [of s prev "Suc c" p] by auto
    then show ?thesis using True by (intro exI [of _ v]) (auto simp: r)
  next
    case False
    let ?t = "fmt_08x w @ newline @ memh_text z (Some c) (Suc c) ws"
    have c: "c < 2 ^ 31" using Cons.prems(4) by simp
    let ?n = "newline @ memh_text z (Some c) (Suc c) ws"
    have "\<exists>v. \<forall>e. yields memh_in (reader (Suc c) (Suc c) ?n u) e (numbered e (of_nat (Suc c))
        (if trimmed z ws = [] then [] else replicate (Suc c - Suc c) 0 @ trimmed z ws)) v"
      by (rule Cons.IH) (use Cons.prems(4) in \<open>auto simp: skip_ws_newline memh_text_start\<close>)
    then obtain v where v: "\<And>e. yields memh_in (reader (Suc c) (Suc c) ?n u) e
        (numbered e (of_nat (Suc c)) (trimmed z ws)) v"
      by (cases "trimmed z ws = []") auto
    have word: "yields memh_in (reader c c s u) i (numbered i (of_nat c) (w # trimmed z ws)) v"
      if s: "skip_ws s = ?t" for s i
      using memh_reads_word [OF s c] v by (auto simp: Let_def add.commute intro: yields_more)
    have t: "trimmed z (w # ws) = w # trimmed z ws" using False by auto
    show ?thesis
    proof (cases "prev = None \<or> Suc (the prev) < c")
      case True
      then have "skip_ws s = ''@'' @ fmt_x (of_nat c) @ '' '' @ ?t" using Cons.prems(1) False by auto
      then have "memh_in (reader p p s u) i = Inr (0, i, reader p c ('' '' @ ?t) u)" for i
        using Cons.prems(2) c by (intro memh_reads_mark) simp_all
      moreover have "yields memh_in (reader p c ('' '' @ ?t) u) i
          (numbered i (of_nat p) (replicate (c - p) 0 @ w # trimmed z ws)) v" for i
        using Cons.prems(2) c by (intro memh_fills word skip_ws_space)
      ultimately show ?thesis unfolding t by (auto intro: yields_skip)
    next
      case False
      then have "p = c" using Cons.prems(2,3) by auto
      moreover have "skip_ws s = ?t" using Cons.prems(1) False \<open>\<not> (w = 0 \<and> \<not> z)\<close> by auto
      ultimately show ?thesis unfolding t using word by auto
    qed
  qed
qed

text \<open>From the start of a file: what \<open>memh_out\<close> printed.\<close>

lemma memh_roundtrip:
  assumes "m_offset u = 0" and "m_written u = 0" and "m_marked u = 0" and "\<not> first_done u"
    and "m_out u = []" and "length ws < 2 ^ 31"
  shows "\<exists>v. yields memh_in (u\<lparr>m_in := m_out (memh_out_all 0 ws u)\<rparr>) i
    (numbered i 0 (trimmed (emit_zeros u) ws)) v"
proof -
  have t: "m_out (memh_out_all 0 ws u) = memh_text (emit_zeros u) None 0 ws"
    using memh_out_all_text [of u None 0 ws] assms by simp
  have "\<exists>v. \<forall>i. yields memh_in (reader 0 0 (memh_text (emit_zeros u) None 0 ws) u) i (numbered i (of_nat 0)
      (if trimmed (emit_zeros u) ws = [] then [] else replicate (0 - 0) 0 @ trimmed (emit_zeros u) ws)) v"
    by (rule yields_memh [OF memh_text_start]) (use assms(6) in simp_all)
  then obtain v where "yields memh_in (reader 0 0 (memh_text (emit_zeros u) None 0 ws) u) i (numbered i (of_nat 0)
      (if trimmed (emit_zeros u) ws = [] then [] else replicate (0 - 0) 0 @ trimmed (emit_zeros u) ws)) v"
    by blast
  moreover have "reader 0 0 s u = u\<lparr>m_in := s\<rparr>" for s using assms(2,3) by simp
  ultimately show ?thesis unfolding t by (cases "trimmed (emit_zeros u) ws = []") auto
qed

text \<open>
  An address mark makes \<open>memh_in\<close> return 0 without filling the element, and \<open>load_sim\<close> writes
  the element it has: at the start of a file, one that was never initialised.
\<close>

lemma memh_mark_loads_stale:
  assumes "m_marked u = m_written u" and "scan_at_x (m_in u) = (Some a, s)"
  shows "load_sim D memh_in la u i wd =
    (case D OP_WRITE (la + e_reladdr i) (e_word i) wd of
       Inl e \<Rightarrow> Some (Inl e)
     | Inr (rc, d, wd) \<Rightarrow> if rc \<noteq> 0 then Some (Inr (-1, wd))
         else load_sim D memh_in la (u\<lparr>m_marked := a, m_in := s\<rparr>) (i\<lparr>e_word := d\<rparr>) wd)"
  by (subst load_sim.simps) (simp add: memh_in_def assms)

section \<open>The table\<close>

lemma find_format_Some:
  "find_format name = (False, Some i) \<longleftrightarrow> i < length format_names \<and> format_names ! i = name"
proof -
  have d: "distinct format_names" by (simp add: format_names_def)
  have "lfind find_format_by_name name format_names = Some i \<longleftrightarrow>
      i < length format_names \<and> format_names ! i = name"
    unfolding lfind_Some_iff find_format_by_name_def strcmp_eq_0
    using d by (auto simp: nth_eq_iff_index_eq)
  then show ?thesis by (auto simp: find_format_def Let_def)
qed

lemma find_format_None: "find_format name = (True, None) \<longleftrightarrow> name \<notin> set format_names"
  by (auto simp: find_format_def Let_def find_format_by_name_def lfind_None_iff)

text \<open>The selected names, separated.\<close>

definition selected :: "(string \<Rightarrow> bool) option \<Rightarrow> string list \<Rightarrow> string list" where
  "selected pred fs = (case pred of None \<Rightarrow> fs | Some q \<Rightarrow> filter q fs)"

fun joined :: "string \<Rightarrow> string list \<Rightarrow> string" where
  "joined sep [] = []"
| "joined sep (f # fs) = f @ concat (map (\<lambda>g. sep @ g) fs)"

lemma format_list_rest:
  assumes "make_format_list pred fs len sep (length s) (take (len - 1) s) = (q, b)"
    and "s \<noteq> []" and "0 < len"
  shows "\<exists>n. b = take (len - 1) (s @ concat (map (\<lambda>g. sep @ g) (take n (selected pred fs)))) \<and>
    q = length (s @ concat (map (\<lambda>g. sep @ g) (take n (selected pred fs)))) \<and>
    (q < len \<longrightarrow> take n (selected pred fs) = selected pred fs)"
  using assms
proof (induction fs arbitrary: s)
  case Nil
  then show ?case by (auto simp: selected_def split: option.splits)
next
  case (Cons f fs)
  show ?case
  proof (cases "len \<le> length s")
    case True
    then show ?thesis using Cons.prems by (intro exI [of _ 0]) auto
  next
    case False
    let ?p = "case pred of None \<Rightarrow> True | Some q \<Rightarrow> q f"
    have sel: "selected pred (f # fs) = (if ?p then f # selected pred fs else selected pred fs)"
      by (auto simp: selected_def split: option.splits)
    show ?thesis
    proof (cases ?p)
      case True
      have "take (len - 1) s = s" using False by simp
      then have "make_format_list pred fs len sep (length (s @ sep @ f)) (take (len - 1) (s @ sep @ f)) = (q, b)"
        using Cons.prems(1,2) False True by simp
      from Cons.IH [OF this] obtain n where
        "b = take (len - 1) ((s @ sep @ f) @ concat (map (\<lambda>g. sep @ g) (take n (selected pred fs))))"
        "q = length ((s @ sep @ f) @ concat (map (\<lambda>g. sep @ g) (take n (selected pred fs))))"
        "q < len \<longrightarrow> take n (selected pred fs) = selected pred fs"
        using Cons.prems(2,3) by auto
      then show ?thesis using True by (intro exI [of _ "Suc n"]) (auto simp: sel)
    next
      case no: False
      then have "make_format_list pred fs len sep (length s) (take (len - 1) s) = (q, b)"
        using Cons.prems(1) False by simp
      from Cons.IH [OF this Cons.prems(2,3)] show ?thesis using no by (auto simp: sel)
    qed
  qed
qed

lemma format_list_from_start:
  assumes "make_format_list pred fs len sep 0 [] = (q, b)" and "\<forall>f\<in>set fs. f \<noteq> []" and "0 < len"
  shows "length b < len \<and> (q < len \<longrightarrow> q = length b \<and> b = joined sep (selected pred fs))"
  using assms
proof (induction fs)
  case Nil
  then show ?case by (auto simp: selected_def split: option.splits)
next
  case (Cons f fs)
  show ?case
  proof (cases "case pred of None \<Rightarrow> True | Some q \<Rightarrow> q f")
    case True
    then have "make_format_list pred fs len sep (length f) (take (len - 1) f) = (q, b)"
      using Cons.prems by simp
    from format_list_rest [OF this] obtain n where
      "b = take (len - 1) (f @ concat (map (\<lambda>g. sep @ g) (take n (selected pred fs))))"
      "q = length (f @ concat (map (\<lambda>g. sep @ g) (take n (selected pred fs))))"
      "q < len \<longrightarrow> take n (selected pred fs) = selected pred fs"
      using Cons.prems(2,3) by auto
    moreover have "selected pred (f # fs) = f # selected pred fs"
      using True by (auto simp: selected_def split: option.splits)
    ultimately show ?thesis using Cons.prems(3) by auto
  next
    case False
    then show ?thesis
      using Cons by (auto simp: selected_def split: option.splits)
  qed
qed

end
