(* ===== verification/Loads.thy ===== *)
theory Loads
  imports Pipeline Formats
begin

text \<open>
  Programs in the text and raw formats, from the assembler's elements to the memory of \<open>tsim\<close>'s
  default machine.
\<close>

lemma numbered_set_words:
  "numbered i a ws = set_words i (map (\<lambda>k. (a + of_nat k, ws ! k)) [0..<length ws])"
proof (induction ws arbitrary: i a)
  case (Cons w ws)
  let ?e = "i\<lparr>e_word := w, e_reladdr := a\<rparr>"
  have "map (\<lambda>k. (a + of_nat k, (w # ws) ! k)) [0..<length (w # ws)] =
      (a, w) # map (\<lambda>k. (a + 1 + of_nat k, ws ! k)) [0..<length ws]"
    by (rule nth_equalityI) (auto simp: nth_Cons algebra_simps simp del: upt_Suc split: nat.splits)
  moreover have "set_words ?e ps = set_words i ps" for ps by (simp add: set_words_def)
  moreover have "?e = i\<lparr>e_reladdr := a, e_word := w\<rparr>" by simp
  ultimately show ?case using Cons [of ?e "a + 1"] by (simp add: Let_def set_words_def)
qed (simp add: set_words_def)

lemma numbered_addresses:
  "e \<in> set (numbered i a ws) \<Longrightarrow> \<exists>k<length ws. e_reladdr e = a + of_nat k"
  by (auto simp: numbered_set_words set_words_def)

context tsim_bus
begin

lemma load_numbered:
  assumes "feeds f_in ud i (numbered i 0 ws)" and n: "length ws \<le> 0x3000"
  shows "\<exists>b. load_sim (dispatch_op bs) f_in RAM_BASE ud i (default_bus out) = Some (Inr (0, b)) \<and>
    (\<forall>a\<in>ram_window. bus_peek bs sparse_look b a =
      (if unat (a - RAM_BASE) < length ws then ws ! unat (a - RAM_BASE) else illegal_word))"
proof -
  have "RAM_BASE + of_nat k \<in> ram_window" if "k < length ws" for k
    using that n by (simp add: ram_window_def ram_consts word_le_nat_alt unat_word_ariths unat_of_nat)
  then have "\<forall>e\<in>set (numbered i 0 ws). RAM_BASE + e_reladdr e \<in> ram_window"
    using numbered_addresses [of _ i 0 ws] by force
  moreover have "length ws \<le> 2 ^ 32" using n by simp
  then have "image_of RAM_BASE (numbered i 0 ws) m a =
      (if unat (a - RAM_BASE) < length ws then ws ! unat (a - RAM_BASE) else m a)" for m a
    unfolding numbered_set_words using obj_image [of "length ws" RAM_BASE i 0 ws m a] by simp
  ultimately show ?thesis using default_load [OF assms(1), of RAM_BASE out] by auto
qed

lemma text_load:
  assumes "length (concat (map words_of es)) \<le> 0x3000"
  shows "\<exists>b. load_sim (dispatch_op bs) text_in RAM_BASE (text_init (t_out (text_out_all es (text_init []))))
      i (default_bus out) = Some (Inr (0, b)) \<and>
    (\<forall>a\<in>ram_window. bus_peek bs sparse_look b a =
      (if unat (a - RAM_BASE) < length (concat (map words_of es))
       then concat (map words_of es) ! unat (a - RAM_BASE) else illegal_word))"
proof -
  have "t_out (text_out_all es (text_init [])) = concat (map text_line (concat (map words_of es)))"
    by (simp add: text_out_all_lines text_init_def)
  then show ?thesis
    using load_numbered [OF feeds_text assms] by (simp add: text_init_def)
qed

lemma raw_load:
  assumes "laid_out 0 es" and "length (concat (map words_of es)) \<le> 0x3000"
  shows "\<exists>b. load_sim (dispatch_op bs) (raw_in little' junk) RAM_BASE
      (gen_init (r_out (raw_out_all little es (gen_init [])))) i (default_bus out) = Some (Inr (0, b)) \<and>
    (\<forall>a\<in>ram_window. bus_peek bs sparse_look b a =
      (if unat (a - RAM_BASE) < length (concat (map words_of es))
       then concat (map words_of es) ! unat (a - RAM_BASE) else illegal_word))"
proof -
  have "r_out (raw_out_all little es (gen_init [])) = concat (map word_to_bytes (concat (map words_of es)))"
    using raw_out_all_words [of "gen_init []" es little] assms(1) by (simp add: gen_init_def)
  then show ?thesis
    using load_numbered [OF feeds_raw assms(2)] by (simp add: gen_init_def)
qed

end

end
