(* ===== verification/Build.thy ===== *)
theory Build
  imports Assemble Loads
begin

text \<open>
  Whole assemblies: a program whose symbols are labels, from what the parser has collected to the
  output of a format.
\<close>

section \<open>The values in a program\<close>

definition label_addr :: "(nat \<Rightarrow> nat) \<Rightarrow> parse_data \<Rightarrow> nat option \<Rightarrow> u8 list \<Rightarrow> u32" where
  "label_addr home pd s buf = (case symbol_find (pd_symbols pd) (ref_name pd s buf) of Some l \<Rightarrow> addr_of pd (home l) | None \<Rightarrow> 0)"

definition source_value :: "(nat \<Rightarrow> nat) \<Rightarrow> parse_data \<Rightarrow> deferred_expr \<Rightarrow> u32 res" where
  "source_value home pd r = value_of (label_addr home pd)
     (case ce_insn (head (d_ce r)) of Some k \<Rightarrow> addr_of pd k | None \<Rightarrow> 0) (d_ce r)"

text \<open>
  A program with labels: the labels that must be unique are, and each deferred expression belongs to
  an element, refers by name, and has a value that fits its field.
\<close>

definition program :: "(nat \<Rightarrow> nat) \<Rightarrow> (deferred_expr \<Rightarrow> u32) \<Rightarrow> parse_data \<Rightarrow> bool" where
  "program home v pd \<longleftrightarrow> labelled home pd \<and> distinct (map y_name (filter y_unique (pd_symbols pd))) \<and>
     (\<forall>r\<in>set (pd_defexprs pd). refers (length (pd_symbols pd)) (d_ce r) \<and> source_value home pd r = Inr (v r) \<and> fits v r \<and>
        d_dest r < length (pd_top pd) \<and>
        (\<forall>k. ce_insn (head (d_ce r)) = Some k \<longrightarrow> k < length (pd_top pd) \<and> pd_top pd ! k \<noteq> None))"

lemma programD:
  assumes "program home v pd" and "r \<in> set (pd_defexprs pd)"
  shows "refers (length (pd_symbols pd)) (d_ce r)" and "source_value home pd r = Inr (v r)" and "fits v r"
    and "d_dest r < length (pd_top pd)"
    and "ce_insn (head (d_ce r)) = Some k \<Longrightarrow> k < length (pd_top pd) \<and> pd_top pd ! k \<noteq> None"
  using assms unfolding program_def by blast+

definition checked :: "(nat \<Rightarrow> nat) \<Rightarrow> parse_data \<Rightarrow> parse_data" where
  "checked home pd = (resolved home pd)\<lparr>pd_symbols := mark_globals (pd_globals pd) (pd_symbols (resolved home pd))\<rparr>"

lemma checked_simps [simp]:
  "pd_top (checked home pd) = pd_top (resolved home pd)" "pd_defexprs (checked home pd) = pd_defexprs pd"
  "length (pd_symbols (checked home pd)) = length (pd_symbols pd)"
  using mark_globals_nth [of "pd_globals pd" "pd_symbols (resolved home pd)"] by (simp_all add: checked_def)

lemma checked_symbol:
  assumes "labelled home pd" and "l < length (pd_symbols pd)"
  shows "y_name (pd_symbols (checked home pd) ! l) = y_name (pd_symbols pd ! l)"
    and "y_ce (pd_symbols (checked home pd) ! l) = None"
    and "y_unique (pd_symbols (checked home pd) ! l) = y_unique (pd_symbols pd ! l)"
    and "y_reladdr (pd_symbols (checked home pd) ! l) = addr_of pd (home l)"
    and "y_resolved (pd_symbols (checked home pd) ! l)"
  using assms labelledD(1) [OF assms]
    mark_globals_fields [of l "pd_symbols (resolved home pd)" "pd_globals pd"]
  by (simp_all add: checked_def resolved_symbol)

lemma checked_unique:
  assumes "labelled home pd"
  shows "map y_name (filter y_unique (pd_symbols (checked home pd))) = map y_name (filter y_unique (pd_symbols pd))"
proof -
  have p: "map (\<lambda>y. (y_unique y, y_name y)) (pd_symbols (checked home pd)) =
      map (\<lambda>y. (y_unique y, y_name y)) (pd_symbols pd)"
    by (rule nth_equalityI) (simp_all add: checked_symbol [OF assms])
  have f: "map y_name (filter y_unique ss) = map snd (filter fst (map (\<lambda>y. (y_unique y, y_name y)) ss))" for ss :: "symbol list"
    by (induction ss) auto
  show ?thesis by (simp only: f p)
qed

lemma name_value_checked:
  assumes "labelled home pd" and "\<And>k. s = Some k \<Longrightarrow> k < length (pd_symbols pd)"
  shows "name_value (checked home pd) s buf = label_addr home pd s buf"
proof -
  have "symbol_find (pd_symbols (checked home pd)) name = symbol_find (pd_symbols pd) name" for name
    by (rule symbol_find_cong) (simp_all add: checked_symbol(1) [OF assms(1)])
  moreover have "ref_name (checked home pd) s buf = ref_name pd s buf"
    using assms(2) checked_symbol(1) [OF assms(1)] by (cases s) (simp_all add: ref_name_def)
  ultimately show ?thesis
    using checked_symbol(4) [OF assms(1)] symbol_find_less [of "pd_symbols pd"]
    by (auto simp: name_value_def label_addr_def split: option.split)
qed

lemma elem_reladdr_checked:
  "k < length (pd_top pd) \<Longrightarrow> pd_top pd ! k \<noteq> None \<Longrightarrow> elem_reladdr (checked home pd) k = addr_of pd k"
  by (auto simp: elem_reladdr_def)

text \<open>What a whole assembly does: the words are fixed, then everything is written.\<close>

definition fixed :: "(nat \<Rightarrow> nat) \<Rightarrow> (deferred_expr \<Rightarrow> u32) \<Rightarrow> parse_data \<Rightarrow> parse_data" where
  "fixed home v pd = with_words (fixed_word v (pd_defexprs pd)) (checked home pd)"

lemma assembly_inner_program:
  assumes "program home v pd"
  shows "\<exists>rl. assembly_inner junk after f pd u =
    (let pd' = (fixed home v pd)\<lparr>pd_relocs := rl\<rparr> in
     bindO (out_elements f pd' u) (\<lambda>u. bindO (Some (out_symbols f pd' u)) (\<lambda>u.
       bindO (Some (out_relocs f pd' u)) (\<lambda>u. Some (Inr (0, u))))))"
proof -
  have l: "labelled home pd" and d: "distinct (map y_name (filter y_unique (pd_symbols pd)))"
    using assms by (simp_all add: program_def)
  let ?pd = "checked home pd"
  have ce: "\<forall>y\<in>set (pd_symbols ?pd). y_ce y = None"
    using checked_symbol(2) [OF l] by (auto simp: in_set_conv_nth)
  have "deferred_value ?pd r = source_value home pd r" if "r \<in> set (pd_defexprs pd)" for r
  proof -
    have "(case ce_insn (head (d_ce r)) of Some k \<Rightarrow> elem_reladdr ?pd k | None \<Rightarrow> 0) =
        (case ce_insn (head (d_ce r)) of Some k \<Rightarrow> addr_of pd k | None \<Rightarrow> 0)"
      using programD(5) [OF assms that] elem_reladdr_checked [of _ pd home] by (auto split: option.split)
    then show ?thesis
      unfolding deferred_value_def source_value_def
      by (simp add: value_of_cong [OF name_value_checked [OF l] programD(1) [OF assms that]])
  qed
  then have "\<forall>r\<in>set (pd_defexprs pd). refers (length (pd_symbols ?pd)) (d_ce r) \<and> deferred_value ?pd r = Inr (v r) \<and> d_dest r < length (pd_top ?pd)"
    using programD [OF assms] by simp
  note loop = fixup_loop [OF ce this, of junk after 0]
  have fit: "\<forall>r\<in>set (pd_defexprs pd). fits v r" using programD(3) [OF assms] by blast
  from loop obtain rl where
    "foldO (fixup_deferred_expr junk after) (pd_defexprs pd) (0, ?pd) = Some (Inr (0, (fixed home v pd)\<lparr>pd_relocs := rl\<rparr>))"
    using fit by (auto simp: fixed_def)
  then have fx: "fixup_deferred_exprs junk after ?pd = Some (Inr (0, (fixed home v pd)\<lparr>pd_relocs := rl\<rparr>))"
    by (simp add: fixup_deferred_exprs_def)
  have chk: "check_symbols (pd_symbols ?pd) = 0"
    using d by (simp add: check_symbols_0 checked_unique [OF l])
  then have m: "check_symbols (mark_globals (pd_globals pd) (pd_symbols (resolved home pd))) = 0"
    by (simp add: checked_def)
  let ?fin = "(fixed home v pd)\<lparr>pd_relocs := rl\<rparr>"
  have "pd_symbols ?fin = pd_symbols ?pd" by (simp add: fixed_def)
  then have "foldO (\<lambda>k pd. case y_ce (pd_symbols pd ! k) of None \<Rightarrow> Some (Inr pd) | Some c \<Rightarrow> ce_free pd c) ks ?fin =
      Some (Inr ?fin)" if "\<forall>k\<in>set ks. k < length (pd_symbols pd)" for ks
    using that checked_symbol(2) [OF l] by (induction ks) simp_all
  then have "assembly_cleanup ?fin = Some (Inr ?fin)"
    by (simp add: assembly_cleanup_def sym_order_def \<open>pd_symbols ?fin = pd_symbols ?pd\<close>)
  then show ?thesis
    using assembly_fixup_labelled [OF l, of junk after] m fx
    by (intro exI [of _ rl]) (simp add: assembly_inner_def checked_def [symmetric] Let_def)
qed

text \<open>The elements that are written.\<close>

definition program_elements :: "(nat \<Rightarrow> nat) \<Rightarrow> (deferred_expr \<Rightarrow> u32) \<Rightarrow> parse_data \<Rightarrow> element list" where
  "program_elements home v pd = map element.truncate (List.map_filter (\<lambda>e. e) (pd_top (fixed home v pd)))"

lemma out_elements_program:
  "out_elements f ((fixed home v pd)\<lparr>pd_relocs := rl\<rparr>) u =
     foldO (\<lambda>e u. bindO (f_out f e u) (\<lambda>(rc, u). Some (Inr u))) (program_elements home v pd) u"
proof -
  have "foldO (\<lambda>e u. case e of None \<Rightarrow> Some (Inr u) | Some e \<Rightarrow> bindO (f_out f (element.truncate e) u) (\<lambda>(rc, u). Some (Inr u))) es u =
      foldO (\<lambda>e u. bindO (f_out f e u) (\<lambda>(rc, u). Some (Inr u))) (map element.truncate (List.map_filter (\<lambda>e. e) es)) u" for es u
  proof (induction es arbitrary: u)
    case (Cons e es)
    then have "(\<lambda>u. foldO (\<lambda>e u. case e of None \<Rightarrow> Some (Inr u)
        | Some e \<Rightarrow> bindO (f_out f (element.truncate e) u) (\<lambda>(rc, u). Some (Inr u))) es u) =
      (\<lambda>u. foldO (\<lambda>e u. bindO (f_out f e u) (\<lambda>(rc, u). Some (Inr u))) (map element.truncate (List.map_filter (\<lambda>e. e) es)) u)"
      by blast
    then show ?case by (cases e) (simp_all add: List.map_filter_simps)
  qed (simp add: List.map_filter_simps)
  then show ?thesis by (simp add: out_elements_def program_elements_def)
qed

section \<open>Through the text format to memory\<close>

definition text_format :: "text_state out_format" where
  "text_format = \<lparr>f_out = (\<lambda>e u. Some (Inr (text_out e u))), f_sym = None, f_reloc = None\<rparr>"

lemma assemble_text:
  assumes "program home v pd"
  shows "assembly_inner junk after text_format pd u =
    Some (Inr (0, text_out_all (program_elements home v pd) u))"
proof -
  have "foldO (\<lambda>e u. bindO (f_out text_format e u) (\<lambda>(rc, u). Some (Inr u))) es u = Some (Inr (text_out_all es u))" for es u
    by (induction es arbitrary: u) (simp_all add: text_format_def split: prod.split)
  then show ?thesis
    using assembly_inner_program [OF assms, of junk after text_format u]
    by (auto simp: Let_def out_elements_program) (simp add: out_symbols_def out_relocs_def text_format_def)
qed

text \<open>Where the words of an element are.\<close>

definition words_at :: "asm_element option \<Rightarrow> u32 list" where
  "words_at e = (case e of None \<Rightarrow> [] | Some e \<Rightarrow> words_of (element.truncate e))"

lemma words_of_program:
  "concat (map words_of (map element.truncate (List.map_filter (\<lambda>e. e) es))) = concat (map words_at es)"
  by (induction es) (auto simp: words_at_def List.map_filter_simps split: option.split)

lemma length_words_at:
  assumes "\<And>e'. e = Some e' \<Longrightarrow> 0 \<le>s e_size e'"
  shows "of_nat (length (words_at e)) = size_of e"
proof (cases e)
  case (Some f)
  have s: "0 \<le> sint (e_size f)" using assms [OF Some] by (simp add: word_sle_eq)
  then have n: "(of_nat (nat (sint (e_size f))) :: u32) = e_size f" by (simp add: word_of_int_nat)
  show ?thesis
  proof (cases "0 < sint (e_size f)")
    case True
    then have "length (words_at e) = nat (sint (e_size f))"
      by (simp add: Some words_at_def words_of_def word_sless_alt element.truncate_def)
    then show ?thesis using n by (simp add: Some size_of_def)
  next
    case False
    with s n have "e_size f = 0" by simp
    then show ?thesis by (simp add: Some words_at_def size_of_def words_of_def element.truncate_def)
  qed
qed (simp add: words_at_def size_of_def)

definition sized :: "parse_data \<Rightarrow> bool" where
  "sized pd \<longleftrightarrow> (\<forall>e. Some e \<in> set (pd_top pd) \<longrightarrow> 0 \<le>s e_size e)"

lemma words_at_fixed:
  "k < length (pd_top pd) \<Longrightarrow> pd_top pd ! k = Some e \<Longrightarrow> 0 <s e_size e \<Longrightarrow>
     \<exists>ws. words_at (pd_top (fixed home v pd) ! k) = fixed_word v (pd_defexprs pd) k (e_word e) # ws"
  by (simp add: fixed_def words_at_def words_of_def element.truncate_def)

lemma program_word:
  fixes home :: "nat \<Rightarrow> nat" and v :: "deferred_expr \<Rightarrow> u32"
  assumes "sized pd" and "k < length (pd_top pd)" and "pd_top pd ! k = Some e" and "0 <s e_size e"
  defines "ws \<equiv> concat (map words_of (program_elements home v pd))"
  shows "\<exists>n<length ws. of_nat n = addr_of pd k \<and> ws ! n = fixed_word v (pd_defexprs pd) k (e_word e)"
proof -
  let ?T = "pd_top (fixed home v pd)"
  have len: "length ?T = length (pd_top pd)" by (simp add: fixed_def)
  have ws: "ws = concat (map words_at ?T)" unfolding ws_def program_elements_def by (rule words_of_program)
  have n: "of_nat (length (words_at (?T ! j))) = size_of (pd_top pd ! j)" if j: "j < length (pd_top pd)" for j
  proof -
    have "size_of (?T ! j) = size_of (pd_top pd ! j)"
      using j by (cases "pd_top pd ! j") (simp_all add: fixed_def size_of_def)
    moreover have "0 \<le>s e_size f" if f: "?T ! j = Some f" for f
    proof -
      obtain g where g: "pd_top pd ! j = Some g" "e_size f = e_size g"
        using f j by (auto simp: fixed_def)
      then have "Some g \<in> set (pd_top pd)" using j by (metis nth_mem)
      then show ?thesis using assms(1) g(2) by (simp add: sized_def)
    qed
    ultimately show ?thesis using length_words_at [of "?T ! j"] by simp
  qed
  let ?n = "length (concat (map words_at (take k ?T)))"
  have "of_nat (length (concat (map words_at (take j ?T)))) = addr_of pd j" if "j \<le> length (pd_top pd)" for j
    using that
  proof (induction j)
    case (Suc j)
    then show ?case using len n [of j] by (simp add: take_Suc_conv_app_nth addr_of_Suc)
  qed (simp add: addr_of_def)
  then have a: "of_nat ?n = addr_of pd k" using assms(2) by simp
  obtain xs where xs: "words_at (?T ! k) = fixed_word v (pd_defexprs pd) k (e_word e) # xs"
    using words_at_fixed [OF assms(2-4)] by blast
  have "ws = concat (map words_at (take k ?T)) @ words_at (?T ! k) @ concat (map words_at (drop (Suc k) ?T))"
    unfolding ws using assms(2) len
    by (subst id_take_nth_drop [of k ?T], simp) (simp only: map_append concat_append list.map concat.simps)
  then have "?n < length ws" "ws ! ?n = fixed_word v (pd_defexprs pd) k (e_word e)"
    using xs by (simp_all add: nth_append)
  with a show ?thesis by blast
qed

context tsim_bus
begin

lemma source_load:
  assumes "program home v pd" and "sized pd"
    and n: "length (concat (map words_of (program_elements home v pd))) \<le> 0x3000"
  shows "\<exists>u b. assembly_inner junk after text_format pd (text_init []) = Some (Inr (0, u)) \<and>
    load_sim (dispatch_op bs) text_in RAM_BASE (text_init (t_out u)) i (default_bus out) = Some (Inr (0, b)) \<and>
    (\<forall>k<length (pd_top pd). \<forall>e. pd_top pd ! k = Some e \<longrightarrow> 0 <s e_size e \<longrightarrow>
       bus_peek bs sparse_look b (RAM_BASE + addr_of pd k) = fixed_word v (pd_defexprs pd) k (e_word e))"
proof -
  let ?es = "program_elements home v pd"
  let ?ws = "concat (map words_of ?es)"
  obtain b where b: "load_sim (dispatch_op bs) text_in RAM_BASE (text_init (t_out (text_out_all ?es (text_init []))))
      i (default_bus out) = Some (Inr (0, b))"
    "\<And>a. a \<in> ram_window \<Longrightarrow> bus_peek bs sparse_look b a =
      (if unat (a - RAM_BASE) < length ?ws then ?ws ! unat (a - RAM_BASE) else illegal_word)"
    using text_load [OF n] by blast
  have "bus_peek bs sparse_look b (RAM_BASE + addr_of pd k) = fixed_word v (pd_defexprs pd) k (e_word e)"
    if k: "k < length (pd_top pd)" "pd_top pd ! k = Some e" "0 <s e_size e" for k e
  proof -
    obtain m where m: "m < length ?ws" "of_nat m = addr_of pd k"
      "?ws ! m = fixed_word v (pd_defexprs pd) k (e_word e)"
      using program_word [OF assms(2) k] by blast
    have u: "unat (addr_of pd k) = m" using m(1) n by (simp add: m(2) [symmetric] unat_of_nat)
    have "RAM_BASE + addr_of pd k \<in> ram_window"
      using m(1) n unfolding m(2) [symmetric]
      by (simp add: ram_window_def ram_consts word_le_nat_alt unat_word_ariths unat_of_nat)
    then show ?thesis using b(2) m u by simp
  qed
  then show ?thesis using b(1) assemble_text [OF assms(1), of junk after "text_init []"] by auto
qed

end

end
