(* ===== verification/Spi.thy ===== *)
theory Spi
  imports Sim
begin

unbundle bit_operations_syntax

text \<open>
  The SPI master of \<^verbatim>\<open>src/devices/spi.c\<close>: its registers on the bus (\<open>spi_op\<close>), the 128-bit shift
  register (\<open>do_one_shift\<close>), the transfer state machine (\<open>spi_slave_cycle\<close>) and the clock divider
  (\<open>spi_emu_cycle\<close>); and the echoing slave of \<^verbatim>\<open>src/devices/spidummy.c\<close>.  Slaves are
  records of functions on their own state, as the callbacks loaded by \<open>dlsym\<close> are.
\<close>

section \<open>State\<close>

datatype spi_phase =
    SPI_EMU_RESET | SPI_EMU_STARTED | SPI_EMU_SELECTED | SPI_EMU_BUSY | SPI_EMU_DONE

text \<open>
  \<open>clock cookie ss in out\<close> yields the return code, what \<open>*out\<close> holds afterwards and the new
  state; a callback may be NULL.
\<close>

record 'k spi_ops =
  spi_select :: "('k \<Rightarrow> int \<Rightarrow> (int \<times> 'k) res) option"
  spi_clock :: "('k \<Rightarrow> int \<Rightarrow> int \<Rightarrow> int \<Rightarrow> (int \<times> int \<times> 'k) res) option"

record 'k spi_state =
  impls :: "'k spi_ops list"
  impl_cookies :: "'k list"
  phase :: spi_phase
  dividend :: u32
  cyc :: u32
  remaining :: u32
  raw :: "u32 list"

definition SPI_BASE :: u32 where "SPI_BASE = 0x200"
definition NINST :: nat where "NINST = 8"
definition SPI_INIT_CYCLES :: u32 where "SPI_INIT_CYCLES = 3"

text \<open>The bit-fields of the registers CTRL (4), DIVIDER (5) and SS (6).\<close>

definition CHAR_LEN :: "'k spi_state \<Rightarrow> nat" where "CHAR_LEN s = unat (raw s ! 4 AND mask 7)"
definition LSB :: "'k spi_state \<Rightarrow> bool" where "LSB s = bit (raw s ! 4) 11"
definition ASS :: "'k spi_state \<Rightarrow> bool" where "ASS s = bit (raw s ! 4) 13"
definition DIVIDER :: "'k spi_state \<Rightarrow> u32" where "DIVIDER s = raw s ! 5 AND mask 16"
definition SS :: "'k spi_state \<Rightarrow> u32" where "SS s = raw s ! 6 AND mask 8"

text \<open>\<open>calloc\<close> and \<open>spi_reset_defaults\<close>, with the slaves that the plugin parameters name.\<close>

definition spi_reset_defaults :: "u32 list \<Rightarrow> u32 list" where
  "spi_reset_defaults r =
     (let r = r[0 := 0, 1 := 0, 2 := 0, 3 := 0];
          r = r[4 := r ! 4 AND NOT (mask 13)];
          r = r[5 := (r ! 5 AND NOT (mask 16)) OR 0xffff]
      in r[6 := r ! 6 AND NOT (mask 8)])"

definition spi_emu_init :: "'k spi_ops list \<Rightarrow> 'k list \<Rightarrow> 'k spi_state" where
  "spi_emu_init ops cookies = \<lparr>impls = ops, impl_cookies = cookies, phase = SPI_EMU_RESET,
     dividend = 0, cyc = 0, remaining = 0, raw = spi_reset_defaults (replicate 7 0)\<rparr>"

section \<open>spi_op\<close>

text \<open>The loop over the slaves when SS is written; what \<open>select\<close> returns is ignored.\<close>

fun select_loop :: "u32 \<Rightarrow> u32 \<Rightarrow> nat \<Rightarrow> 'k spi_ops list \<Rightarrow> 'k list \<Rightarrow> 'k list res" where
  "select_loop old new n (ops # os) (c # cs) =
     (let changed = (bit new n \<noteq> bit old n); b = (if bit new n then 1 else 0) in
      bindE (case spi_select ops of
               None \<Rightarrow> Inr c
             | Some f \<Rightarrow> if changed then bindE (f c b) (\<lambda>(_, c). Inr c) else Inr c)
        (\<lambda>c. bindE (select_loop old new (Suc n) os cs) (\<lambda>cs. Inr (c # cs))))"
| "select_loop old new n _ cs = Inr cs"

definition spi_op :: "'k spi_state dispatcher" where
  "spi_op op addr data s =
     (let off = addr - SPI_BASE; regnum = unat (drop_bit 2 off) in
      if off AND 3 \<noteq> 0 then Inl (Assert ''Lower bits of offset are cleared'')
      else if op = OP_DATA_READ \<or> op = OP_INSN_READ then
        (if length (raw s) \<le> regnum then Inl (Undefined ''register'') else Inr (0, raw s ! regnum, s))
      else if op = OP_WRITE \<and> phase s = SPI_EMU_RESET then
        (if length (raw s) \<le> regnum then Inl (Undefined ''register'')
         else
           let old = raw s ! regnum; store = (\<lambda>s. Inr (0, data, s\<lparr>raw := (raw s)[regnum := data]\<rparr>)) in
           if off = 0x10 then
             (if bit data 8 \<noteq> bit old 8 \<and> data AND NOT (push_bit 8 1) \<noteq> old AND NOT (push_bit 8 1)
              then Inl (Fatal ''GO_BSY bit changed at the same time as other control bits'')
              else if bit data 8 then
                store (s\<lparr>phase := SPI_EMU_STARTED,
                         remaining := (if CHAR_LEN s = 0 then 128 else of_nat (CHAR_LEN s))\<rparr>)
              else store s)
           else if off = 0x18 then
             (if ASS s then store s
              else bindE (select_loop (SS s) data 0 (impls s) (impl_cookies s))
                     (\<lambda>cs. store (s\<lparr>impl_cookies := cs\<rparr>)))
           else store s)
      else Inr (0, data, s))"

section \<open>The shift register\<close>

text \<open>Bit \<open>b\<close> is put at position \<open>k\<close> of a word.\<close>

definition put_bit :: "nat \<Rightarrow> int \<Rightarrow> u32 \<Rightarrow> u32" where
  "put_bit k b w = (w AND NOT (push_bit k 1)) OR push_bit k (word_of_int b)"

definition shift_down :: "u32 list \<Rightarrow> u32 list" where
  "shift_down r = map (\<lambda>i. (drop_bit 1 (r ! i) AND NOT (push_bit 31 1)) OR
      (if i < 3 then push_bit 31 (r ! (i + 1) AND 1) else 0)) [0..<4] @ drop 4 r"

definition shift_up :: "u32 list \<Rightarrow> u32 list" where
  "shift_up r = map (\<lambda>i. (push_bit 1 (r ! i) AND NOT 1) OR
      (if i > 0 then drop_bit 31 (r ! (i - 1) AND push_bit 31 1) else 0)) [0..<4] @ drop 4 r"

text \<open>A width of 0 makes the least-significant-bit-first mode shift by a negative amount.\<close>

definition do_one_shift :: "'k spi_state \<Rightarrow> nat \<Rightarrow> int \<Rightarrow> 'k spi_state res" where
  "do_one_shift s width inn =
     (if LSB s then
        (if width = 0 then Inl (Undefined ''shift'')
         else let r = shift_down (raw s); k = (width - 1) div 32 in
           Inr (s\<lparr>raw := r[k := put_bit ((width - 1) mod 32) inn (r ! k)]\<rparr>))
      else (let r = shift_up (raw s) in Inr (s\<lparr>raw := r[0 := put_bit 0 inn (r ! 0)]\<rparr>)))"

section \<open>The state machine\<close>

text \<open>The bit pushed to the slaves.\<close>

definition push_of :: "'k spi_state \<Rightarrow> int res" where
  "push_of s =
     (if phase s = SPI_EMU_RESET then Inr (-1)
      else if SS s AND (SS s - 1) \<noteq> 0 then Inl (Fatal ''SPI slave select is not one-hot'')
      else if LSB s then Inr (uint (raw s ! 0 AND 1))
      else if CHAR_LEN s = 0 then Inl (Undefined ''shift'')
      else (let k = (CHAR_LEN s - 1) mod 32 in
        Inr (uint (drop_bit k (raw s ! ((CHAR_LEN s - 1) div 32) AND push_bit k 1)))))"

definition set_cookie :: "nat \<Rightarrow> 'k \<Rightarrow> 'k spi_state \<Rightarrow> 'k spi_state" where
  "set_cookie n c s = s\<lparr>impl_cookies := (impl_cookies s)[n := c]\<rparr>"

text \<open>\<open>select\<close> is called when the slave has one and the selection is automatic.\<close>

definition auto_select :: "nat \<Rightarrow> int \<Rightarrow> 'k spi_state \<Rightarrow> 'k spi_state res" where
  "auto_select n v s =
     (case spi_select (impls s ! n) of
        Some f \<Rightarrow> if ASS s then bindE (f (impl_cookies s ! n) v) (\<lambda>(_, c). Inr (set_cookie n c s))
                  else Inr s
      | None \<Rightarrow> Inr s)"

text \<open>What one cycle does for slave \<open>n\<close>; \<open>ss\<close> and \<open>width\<close> were read at its start.\<close>

definition slave_turn :: "u32 \<Rightarrow> nat \<Rightarrow> int \<Rightarrow> nat \<Rightarrow> 'k spi_state \<Rightarrow> 'k spi_state res" where
  "slave_turn ss width push n s =
     (case spi_clock (impls s ! n) of
        None \<Rightarrow> Inr s
      | Some clock \<Rightarrow>
          if bit ss n then
            (case phase s of
               SPI_EMU_RESET \<Rightarrow> Inr s
             | SPI_EMU_STARTED \<Rightarrow>
                 bindE (auto_select n 1 s) (\<lambda>s. Inr (s\<lparr>phase := SPI_EMU_SELECTED\<rparr>))
             | SPI_EMU_SELECTED \<Rightarrow>
                 Inr (if cyc s > SPI_INIT_CYCLES then s\<lparr>phase := SPI_EMU_BUSY\<rparr> else s)
             | SPI_EMU_BUSY \<Rightarrow>
                 bindE (clock (impl_cookies s ! n) 1 push (-1)) (\<lambda>(_, pull, c).
                   if pull \<noteq> 0 \<and> pull \<noteq> 1 then Inl (Fatal ''SPI generated bit'')
                   else bindE (do_one_shift (set_cookie n c s) width pull) (\<lambda>s.
                     let s = s\<lparr>remaining := remaining s - 1\<rparr> in
                     Inr (if remaining s = 0 then s\<lparr>phase := SPI_EMU_DONE\<rparr> else s)))
             | SPI_EMU_DONE \<Rightarrow>
                 bindE (auto_select n 0 s) (\<lambda>s.
                   Inr (s\<lparr>phase := SPI_EMU_RESET,
                          raw := (raw s)[4 := raw s ! 4 AND NOT (push_bit 8 1)]\<rparr>)))
          else if phase s = SPI_EMU_SELECTED then
            bindE (clock (impl_cookies s ! n) 0 push (-1)) (\<lambda>(_, pull, c).
              if pull \<noteq> -1 then Inl (Fatal ''SPI slave generated traffic when not selected'')
              else Inr (set_cookie n c s))
          else Inr s)"

definition spi_slave_cycle :: "'k spi_state \<Rightarrow> 'k spi_state res" where
  "spi_slave_cycle s =
     bindE (push_of s) (\<lambda>push. foldE (slave_turn (SS s) (CHAR_LEN s) push) [0..<NINST] s)"

definition spi_emu_cycle :: "'k spi_state \<Rightarrow> (int \<times> 'k spi_state) res" where
  "spi_emu_cycle s =
     (let d = dividend s; s = s\<lparr>dividend := d + 1\<rparr> in
      if d \<ge> (DIVIDER s + 1) * 2 - 1 then
        bindE (spi_slave_cycle s) (\<lambda>s. Inr (0, s\<lparr>cyc := cyc s + 1, dividend := 0\<rparr>))
      else Inr (0, s))"

text \<open>\<open>spidummy_spi_select\<close> and \<open>spidummy_spi_clock\<close>: the bit that came in goes out.\<close>

definition spidummy :: "'k spi_ops" where
  "spidummy = \<lparr>spi_select = Some (\<lambda>c ss. Inr (0, c)), spi_clock = Some (\<lambda>c ss inn out. Inr (0, inn, c))\<rparr>"

section \<open>The 128-bit view\<close>

definition rbit :: "u32 list \<Rightarrow> nat \<Rightarrow> bool" where
  "rbit r n \<longleftrightarrow> n < 128 \<and> bit (r ! (n div 32)) (n mod 32)"

lemma lt4_cases: "(i :: nat) < 4 \<Longrightarrow> i = 0 \<or> i = 1 \<or> i = 2 \<or> i = 3"
  by auto

lemma nth_shift_up: "i < 4 \<Longrightarrow> shift_up r ! i = (push_bit 1 (r ! i) AND NOT 1) OR
      (if i > 0 then drop_bit 31 (r ! (i - 1) AND push_bit 31 1) else 0)"
  by (simp add: shift_up_def nth_append del: upt_Suc upt_conv_Cons_Cons)

lemma nth_shift_down: "i < 4 \<Longrightarrow> shift_down r ! i = (drop_bit 1 (r ! i) AND NOT (push_bit 31 1)) OR
      (if i < 3 then push_bit 31 (r ! (i + 1) AND 1) else 0)"
  by (simp add: shift_down_def nth_append del: upt_Suc upt_conv_Cons_Cons)

lemma rbit_word: "m < 32 \<Longrightarrow> rbit r (32 * q + m) \<longleftrightarrow> q < 4 \<and> bit (r ! q) m"
  by (auto simp: rbit_def)

lemma position:
  fixes n :: nat
  obtains q m where "m < 32" and "n = 32 * q + m"
  by (metis mod_less_divisor mult_div_mod_eq zero_less_numeral)

lemma bit_shift_up:
  assumes "q < 4" and "m < 32"
  shows "bit (shift_up r ! q) m \<longleftrightarrow> (if m = 0 then 0 < q \<and> bit (r ! (q - 1)) 31 else bit (r ! q) (m - 1))"
  unfolding nth_shift_up [OF assms(1)]
  by (cases "0 < q"; simp only: if_True if_False bit_or_iff bit_and_iff bit_not_iff bit_push_bit_iff
      bit_drop_bit_eq comp_def bit_1_iff bit_0_eq bot_apply)
    (use assms in auto)

lemma bit_shift_down:
  assumes "q < 4" and "m < 32"
  shows "bit (shift_down r ! q) m \<longleftrightarrow> (if m = 31 then q < 3 \<and> bit (r ! (q + 1)) 0 else bit (r ! q) (m + 1))"
  unfolding nth_shift_down [OF assms(1)]
  by (cases "q < 3"; simp only: if_True if_False bit_or_iff bit_and_iff bit_not_iff bit_push_bit_iff
      bit_drop_bit_eq comp_def bit_1_iff bit_0_eq bot_apply)
    (use assms in \<open>auto dest: bit_imp_le_length\<close>)

lemma rbit_shift_up: "rbit (shift_up r) n \<longleftrightarrow> n < 128 \<and> 0 < n \<and> rbit r (n - 1)"
proof -
  obtain q m where m: "m < 32" "n = 32 * q + m" by (rule position)
  consider "\<not> q < 4" | "q < 4" "0 < m" | "m = 0" "q = 0" | k where "m = 0" "q = Suc k" "k < 3"
    by (cases q) auto
  then show ?thesis
  proof cases
    case 2
    then have "n - 1 = 32 * q + (m - 1)" using m(2) by simp
    then show ?thesis using 2 m rbit_word [of "m - 1" r q] by (auto simp: rbit_word bit_shift_up)
  next
    case 4
    then have e: "n - 1 = 32 * k + 31" using m(2) by simp
    have "rbit r (n - 1) \<longleftrightarrow> bit (r ! k) 31" unfolding e using 4 by (simp add: rbit_word)
    moreover have "rbit (shift_up r) n \<longleftrightarrow> bit (r ! k) 31"
      using 4 m rbit_word [of 0 "shift_up r" "Suc k"] by (simp add: bit_shift_up)
    ultimately show ?thesis using 4 m by simp
  qed (use m rbit_word [of 0 "shift_up r" 0] in \<open>auto simp: rbit_word bit_shift_up\<close>)
qed

lemma rbit_shift_down: "rbit (shift_down r) n \<longleftrightarrow> n < 127 \<and> rbit r (n + 1)"
proof -
  obtain q m where m: "m < 32" "n = 32 * q + m" by (rule position)
  consider "\<not> q < 4" | "q < 4" "m < 31" | "q < 4" "m = 31"
    using m(1) by linarith
  then show ?thesis
  proof cases
    case 2
    then have "n + 1 = 32 * q + (m + 1)" using m(2) by simp
    then show ?thesis using 2 m rbit_word [of "m + 1" r q] by (auto simp: rbit_word bit_shift_down)
  next
    case 3
    then have "n + 1 = 32 * (q + 1) + 0" using m(2) by simp
    then show ?thesis
      using 3 m rbit_word [of 0 r "q + 1"] by (auto simp: rbit_word bit_shift_down)
  qed (use m in \<open>auto simp: rbit_word\<close>)
qed

lemma length_shift [simp]: "length r = 7 \<Longrightarrow> length (shift_up r) = 7" "length r = 7 \<Longrightarrow> length (shift_down r) = 7"
  by (simp_all add: shift_up_def shift_down_def)

lemma shift_high [simp]: "4 \<le> i \<Longrightarrow> length r = 7 \<Longrightarrow> shift_up r ! i = r ! i"
  "4 \<le> i \<Longrightarrow> length r = 7 \<Longrightarrow> shift_down r ! i = r ! i"
  by (simp_all add: shift_up_def shift_down_def nth_append)

lemma bit_put_bit: "b = 0 \<or> b = 1 \<Longrightarrow> k < 32 \<Longrightarrow> m < 32 \<Longrightarrow>
    bit (put_bit k b w) m \<longleftrightarrow> (if m = k then b = 1 else bit w m)"
  by (auto simp: put_bit_def bit_simps)

lemma rbit_put:
  assumes "length r = 7" "p < 128" "b = 0 \<or> b = 1"
  shows "rbit (r[p div 32 := put_bit (p mod 32) b (r ! (p div 32))]) n \<longleftrightarrow>
    (if n = p then b = 1 else rbit r n)"
proof -
  have "n div 32 = p div 32 \<and> n mod 32 = p mod 32 \<longleftrightarrow> n = p" by (metis div_mult_mod_eq)
  then show ?thesis
    using assms by (auto simp: rbit_def nth_list_update bit_put_bit)
qed

lemma do_one_shift_msb:
  assumes "length (raw s) = 7" "\<not> LSB s" "b = 0 \<or> b = 1"
  shows "\<exists>r. do_one_shift s w b = Inr (s\<lparr>raw := r\<rparr>) \<and> length r = 7 \<and> (\<forall>i\<ge>4. r ! i = raw s ! i) \<and>
    (\<forall>n. rbit r n \<longleftrightarrow> (if n = 0 then b = 1 else n < 128 \<and> rbit (raw s) (n - 1)))"
proof -
  let ?r = "(shift_up (raw s))[0 := put_bit 0 b (shift_up (raw s) ! 0)]"
  have "rbit ?r n \<longleftrightarrow> (if n = 0 then b = 1 else n < 128 \<and> rbit (raw s) (n - 1))" for n
    using rbit_put [of "shift_up (raw s)" 0 b n] assms by (simp add: rbit_shift_up)
  then show ?thesis using assms by (intro exI [of _ ?r]) (simp add: do_one_shift_def Let_def)
qed

lemma do_one_shift_lsb:
  assumes "length (raw s) = 7" "LSB s" "b = 0 \<or> b = 1" "0 < w" "w \<le> 128"
  shows "\<exists>r. do_one_shift s w b = Inr (s\<lparr>raw := r\<rparr>) \<and> length r = 7 \<and> (\<forall>i\<ge>4. r ! i = raw s ! i) \<and>
    (\<forall>n. rbit r n \<longleftrightarrow> (if n = w - 1 then b = 1 else n < 127 \<and> rbit (raw s) (n + 1)))"
proof -
  let ?d = "shift_down (raw s)" and ?k = "(w - 1) div 32"
  let ?r = "?d[?k := put_bit ((w - 1) mod 32) b (?d ! ?k)]"
  have "rbit ?r n \<longleftrightarrow> (if n = w - 1 then b = 1 else n < 127 \<and> rbit (raw s) (n + 1))" for n
    using rbit_put [of ?d "w - 1" b n] assms by (auto simp: rbit_shift_down)
  moreover have "?k < 4" using assms(5) by (simp add: div_less_iff_less_mult)
  ultimately show ?thesis using assms by (intro exI [of _ ?r]) (simp add: do_one_shift_def Let_def)
qed

section \<open>One slave on the bus\<close>

definition of_bit :: "bool \<Rightarrow> int" where "of_bit b = (if b then 1 else 0)"

text \<open>Slave \<open>n\<close>, and it alone, is attached and selected.\<close>

definition attached :: "'k spi_state \<Rightarrow> nat \<Rightarrow> ('k \<Rightarrow> int \<Rightarrow> int \<Rightarrow> int \<Rightarrow> (int \<times> int \<times> 'k) res) \<Rightarrow> bool" where
  "attached s n clock \<longleftrightarrow> n < NINST \<and> length (impls s) = NINST \<and> length (impl_cookies s) = NINST \<and>
     length (raw s) = 7 \<and> SS s = push_bit n 1 \<and> spi_clock (impls s ! n) = Some clock \<and>
     (\<forall>k<NINST. k \<noteq> n \<longrightarrow> spi_clock (impls s ! k) = None)"

lemma foldE_only:
  assumes "\<And>k s. k \<in> set xs \<Longrightarrow> k \<noteq> n \<Longrightarrow> P s \<Longrightarrow> f k s = Inr s"
    and "f n s = Inr t" and "P s" "P t" and "distinct xs" "n \<in> set xs"
  shows "foldE f xs s = Inr t"
proof -
  have other: "foldE f ys u = Inr u" if "set ys \<subseteq> set xs - {n}" "P u" for ys u
    using that assms(1) by (induction ys) auto
  obtain ys zs where xs: "xs = ys @ n # zs" using split_list [OF assms(6)] by blast
  then show ?thesis using other [of ys s] other [of zs t] assms(2-5) by (auto simp: foldE_append)
qed

lemma slave_turn_idle: "spi_clock (impls s ! k) = None \<Longrightarrow> slave_turn ss w p k s = Inr s"
  by (simp add: slave_turn_def)

lemma slave_cycle_single:
  assumes "attached s n clock" and "push_of s = Inr p"
    and "slave_turn (SS s) (CHAR_LEN s) p n s = Inr t" and "impls t = impls s"
  shows "spi_slave_cycle s = Inr t"
proof -
  have "foldE (slave_turn (SS s) (CHAR_LEN s) p) [0..<NINST] s = Inr t"
    by (rule foldE_only [where n = n and P = "\<lambda>u. impls u = impls s"])
      (use assms in \<open>auto simp: attached_def slave_turn_idle\<close>)
  then show ?thesis by (simp add: spi_slave_cycle_def assms(2))
qed

lemma one_hot: "n < 32 \<Longrightarrow> (push_bit n 1 :: u32) AND (push_bit n 1 - 1) = 0"
proof -
  assume "n < 32"
  have "(push_bit n 1 :: u32) - 1 = mask n" by (simp add: mask_eq_decr_exp push_bit_of_1)
  moreover have "(push_bit n 1 :: u32) AND mask n = 0"
    by (rule bit_word_eqI) (simp only: bit_and_iff bit_push_bit_iff bit_mask_iff bit_0_eq bot_apply bit_1_iff, auto)
  ultimately show ?thesis by simp
qed

text \<open>The bit sent out: the top of the field, or its bottom.\<close>

definition out_pos :: "'k spi_state \<Rightarrow> nat" where
  "out_pos s = (if LSB s then 0 else CHAR_LEN s - 1)"

lemma CHAR_LEN_less: "CHAR_LEN s < 128"
proof -
  have "raw s ! 4 AND mask 7 < 2 ^ 7" by (rule and_mask_less') simp
  then show ?thesis by (simp add: CHAR_LEN_def word_less_nat_alt)
qed

lemma uint_single_bit: "k < 32 \<Longrightarrow> uint (drop_bit k (w AND push_bit k 1) :: u32) = of_bit (bit w k)"
proof -
  assume k: "k < 32"
  have "drop_bit k (w AND push_bit k 1) = (if bit w k then 1 else 0 :: u32)"
    by (rule bit_word_eqI)
      (use k in \<open>auto simp only: bit_drop_bit_eq bit_and_iff bit_push_bit_iff bit_1_iff comp_def
        bit_0_eq bot_apply split: if_splits\<close>, auto)
  then show ?thesis by (simp add: of_bit_def)
qed

lemma push_of_bit:
  assumes "attached s n clock" and "phase s \<noteq> SPI_EMU_RESET" and "0 < CHAR_LEN s"
  shows "push_of s = Inr (of_bit (rbit (raw s) (out_pos s)))"
proof -
  have "n < 32" using assms(1) by (simp add: attached_def NINST_def)
  then have "SS s AND (SS s - 1) = 0" using assms(1) one_hot by (simp add: attached_def)
  moreover have "uint (raw s ! 0 AND 1) = of_bit (bit (raw s ! 0) 0)"
    using uint_single_bit [of 0 "raw s ! 0"] by simp
  moreover have "uint (drop_bit ((CHAR_LEN s - 1) mod 32)
      (raw s ! ((CHAR_LEN s - 1) div 32) AND push_bit ((CHAR_LEN s - 1) mod 32) 1)) =
      of_bit (bit (raw s ! ((CHAR_LEN s - 1) div 32)) ((CHAR_LEN s - 1) mod 32))"
    by (rule uint_single_bit) simp
  moreover have "CHAR_LEN s - 1 < 128" using CHAR_LEN_less [of s] by simp
  ultimately show ?thesis
    using assms(2,3) by (simp add: push_of_def rbit_def out_pos_def Let_def)
qed

text \<open>One busy cycle: a bit out, a bit in.\<close>

definition shifted :: "bool \<Rightarrow> nat \<Rightarrow> int \<Rightarrow> u32 list \<Rightarrow> u32 list \<Rightarrow> bool" where
  "shifted lsb w b r r' \<longleftrightarrow> length r' = 7 \<and> (\<forall>i\<ge>4. r' ! i = r ! i) \<and>
     (\<forall>n. rbit r' n \<longleftrightarrow>
       (if lsb then (if n = w - 1 then b = 1 else n < 127 \<and> rbit r (n + 1))
        else (if n = 0 then b = 1 else n < 128 \<and> rbit r (n - 1))))"

lemma busy_cycle:
  assumes a: "attached s n clock" and ph: "phase s = SPI_EMU_BUSY" and w: "0 < CHAR_LEN s"
    and cl: "clock (impl_cookies s ! n) 1 (of_bit (rbit (raw s) (out_pos s))) (-1) = Inr (rc, b, c)"
    and b: "b = 0 \<or> b = 1"
  shows "\<exists>r. shifted (LSB s) (CHAR_LEN s) b (raw s) r \<and>
    spi_slave_cycle s = Inr (s\<lparr>raw := r, impl_cookies := (impl_cookies s)[n := c],
      remaining := remaining s - 1,
      phase := (if remaining s = 1 then SPI_EMU_DONE else SPI_EMU_BUSY)\<rparr>)"
proof -
  let ?s = "set_cookie n c s"
  have same: "raw ?s = raw s" "LSB ?s = LSB s" "length (raw ?s) = 7"
    using a by (simp_all add: set_cookie_def LSB_def attached_def)
  have w128: "CHAR_LEN s \<le> 128" using CHAR_LEN_less [of s] by simp
  obtain r where r: "do_one_shift ?s (CHAR_LEN s) b = Inr (?s\<lparr>raw := r\<rparr>)"
    and sh: "shifted (LSB s) (CHAR_LEN s) b (raw s) r"
    using do_one_shift_msb [OF same(3) _ b, of "CHAR_LEN s"] do_one_shift_lsb [OF same(3) _ b w w128]
    by (cases "LSB s") (auto simp: shifted_def same)
  let ?t = "s\<lparr>raw := r, impl_cookies := (impl_cookies s)[n := c], remaining := remaining s - 1,
      phase := (if remaining s = 1 then SPI_EMU_DONE else SPI_EMU_BUSY)\<rparr>"
  have "n < 32" using a by (simp add: attached_def NINST_def)
  then have "bit (SS s) n" using a unfolding attached_def
    by (simp only: bit_push_bit_iff bit_1_iff) simp
  moreover have "s = s\<lparr>phase := SPI_EMU_BUSY\<rparr>" using ph by simp
  ultimately have "slave_turn (SS s) (CHAR_LEN s) (of_bit (rbit (raw s) (out_pos s))) n s = Inr ?t"
    using a b ph cl r by (auto simp: slave_turn_def attached_def set_cookie_def Let_def)
  moreover have "push_of s = Inr (of_bit (rbit (raw s) (out_pos s)))"
    using push_of_bit [OF a] ph w by simp
  ultimately have "spi_slave_cycle s = Inr ?t"
    by (intro slave_cycle_single [OF a]) simp_all
  with sh show ?thesis by blast
qed

section \<open>A whole transfer\<close>

text \<open>The slave fed with bits, and the bits it answers with, all of which must be 0 or 1.\<close>

inductive answers :: "('k \<Rightarrow> int \<Rightarrow> int \<Rightarrow> int \<Rightarrow> (int \<times> int \<times> 'k) res) \<Rightarrow> 'k \<Rightarrow> bool list \<Rightarrow> bool list \<Rightarrow> 'k \<Rightarrow> bool"
  for clock where
  answers_Nil: "answers clock c [] [] c"
| answers_Cons: "clock c 1 (of_bit p) (-1) = Inr (rc, of_bit q, c') \<Longrightarrow> answers clock c' ps qs c'' \<Longrightarrow>
     answers clock c (p # ps) (q # qs) c''"

inductive_cases answers_ConsE: "answers clock c (p # ps) qs c''"
inductive_cases answers_NilE: "answers clock c [] qs c''"

fun cycles :: "nat \<Rightarrow> 'k spi_state \<Rightarrow> 'k spi_state res" where
  "cycles 0 s = Inr s"
| "cycles (Suc k) s = bindE (spi_slave_cycle s) (cycles k)"

lemma answers_length: "answers clock c ps qs c' \<Longrightarrow> length qs = length ps"
  by (induction rule: answers.induct) simp_all

lemma of_bit_01 [simp]: "of_bit q = 0 \<longleftrightarrow> \<not> q" "of_bit q = 1 \<longleftrightarrow> q"
  by (simp_all add: of_bit_def)

text \<open>Bits sent in the next \<open>m\<close> cycles, and the register after them.\<close>

definition sent :: "bool \<Rightarrow> nat \<Rightarrow> u32 list \<Rightarrow> nat \<Rightarrow> bool list" where
  "sent lsb w r m = map (\<lambda>t. rbit r (if lsb then t else w - 1 - t)) [0..<m]"

definition received :: "bool \<Rightarrow> nat \<Rightarrow> u32 list \<Rightarrow> bool list \<Rightarrow> u32 list \<Rightarrow> bool" where
  "received lsb w r qs r' \<longleftrightarrow> (\<forall>n<w. rbit r' n \<longleftrightarrow>
     (if lsb then (if w - length qs \<le> n then qs ! (n - (w - length qs)) else rbit r (n + length qs))
      else (if n < length qs then qs ! (length qs - 1 - n) else rbit r (n - length qs))))"

lemma sent_Suc:
  assumes "shifted lsb w b r r'" and "Suc m \<le> w" and "w \<le> 128"
  shows "sent lsb w r (Suc m) = rbit r (if lsb then 0 else w - 1) # sent lsb w r' m"
proof -
  have "sent lsb w r' m = map (\<lambda>t. rbit r (if lsb then Suc t else w - 1 - Suc t)) [0..<m]"
    using assms by (auto simp: sent_def shifted_def)
  then show ?thesis
    unfolding sent_def by (simp add: upt_conv_Cons map_Suc_upt [symmetric] del: upt_Suc)
qed

lemma received_Suc:
  assumes "shifted lsb w (of_bit q) r r'" and "received lsb w r' qs r''" and "Suc (length qs) \<le> w" and "w \<le> 128"
  shows "received lsb w r (q # qs) r''"
  unfolding received_def
proof (intro allI impI)
  fix n assume n: "n < w"
  let ?m = "length qs"
  have r': "rbit r' k \<longleftrightarrow> (if lsb then (if k = w - 1 then q else k < 127 \<and> rbit r (k + 1))
        else (if k = 0 then q else k < 128 \<and> rbit r (k - 1)))" for k
    using assms(1) by (simp add: shifted_def)
  have r'': "rbit r'' n \<longleftrightarrow>
     (if lsb then (if w - ?m \<le> n then qs ! (n - (w - ?m)) else rbit r' (n + ?m))
      else (if n < ?m then qs ! (?m - 1 - n) else rbit r' (n - ?m)))"
    using assms(2) n by (simp add: received_def)
  show "rbit r'' n \<longleftrightarrow>
     (if lsb then (if w - length (q # qs) \<le> n then (q # qs) ! (n - (w - length (q # qs)))
                   else rbit r (n + length (q # qs)))
      else (if n < length (q # qs) then (q # qs) ! (length (q # qs) - 1 - n)
            else rbit r (n - length (q # qs))))"
  proof (cases lsb)
    case True
    consider "w - ?m \<le> n" | "n = w - Suc ?m" | "n < w - Suc ?m" by linarith
    then show ?thesis
    proof cases
      case 1
      then have "n - (w - Suc ?m) = Suc (n - (w - ?m))" using assms(3) by simp
      then show ?thesis using 1 True r'' by auto
    next
      case 2
      then have "n + ?m = w - 1" "\<not> w - ?m \<le> n" using assms(3) by auto
      then show ?thesis using 2 True r'' r' [of "n + ?m"] by simp
    next
      case 3
      then have "n + ?m \<noteq> w - 1" "\<not> w - ?m \<le> n" "n + ?m < 127" using assms(3,4) by auto
      then show ?thesis using 3 True r'' r' [of "n + ?m"] by simp
    qed
  next
    case False
    consider "n < ?m" | "n = ?m" | "?m < n" by linarith
    then show ?thesis
    proof cases
      case 1
      then have "?m - n = Suc (?m - 1 - n)" by simp
      then show ?thesis using 1 False r'' by simp
    next
      case 2
      then show ?thesis using False r'' r' [of 0] by simp
    next
      case 3
      moreover have "n - ?m < 128" using n assms(4) by simp
      ultimately show ?thesis using False r'' r' [of "n - ?m"] by simp
    qed
  qed
qed

lemma transfer_cycles:
  assumes "attached s n clock" and "phase s = SPI_EMU_BUSY" and "unat (remaining s) = Suc m"
    and "Suc m \<le> CHAR_LEN s"
    and "answers clock (impl_cookies s ! n) (sent (LSB s) (CHAR_LEN s) (raw s) (Suc m)) qs c"
  shows "\<exists>t. cycles (Suc m) s = Inr t \<and> phase t = SPI_EMU_DONE \<and> impl_cookies t ! n = c \<and>
    received (LSB s) (CHAR_LEN s) (raw s) qs (raw t) \<and> remaining t = 0"
  using assms
proof (induction m arbitrary: s qs)
  case (0 s)
  have w: "0 < CHAR_LEN s" "CHAR_LEN s \<le> 128" using 0 CHAR_LEN_less [of s] by simp_all
  have "remaining s = 1" using 0(3) by (simp add: word_unat_eq_iff)
  have "sent (LSB s) (CHAR_LEN s) (raw s) (Suc 0) = [rbit (raw s) (out_pos s)]"
    by (simp add: sent_def out_pos_def)
  then have "answers clock (impl_cookies s ! n) [rbit (raw s) (out_pos s)] qs c" using 0(5) by simp
  then obtain q rc where q: "qs = [q]"
    "clock (impl_cookies s ! n) 1 (of_bit (rbit (raw s) (out_pos s))) (-1) = Inr (rc, of_bit q, c)"
    by (auto elim!: answers_ConsE answers_NilE)
  obtain r where r: "shifted (LSB s) (CHAR_LEN s) (of_bit q) (raw s) r"
    "spi_slave_cycle s = Inr (s\<lparr>raw := r, impl_cookies := (impl_cookies s)[n := c],
      remaining := remaining s - 1, phase := SPI_EMU_DONE\<rparr>)"
    using busy_cycle [OF 0(1,2) w(1) q(2)] \<open>remaining s = 1\<close> by auto
  have "received (LSB s) (CHAR_LEN s) r [] r" by (simp add: received_def)
  then have "received (LSB s) (CHAR_LEN s) (raw s) [q] r"
    using received_Suc [OF r(1)] w by simp
  moreover have "n < length (impl_cookies s)" using 0(1) by (simp add: attached_def)
  ultimately show ?case
    using r(2) q(1) \<open>remaining s = 1\<close> by simp
next
  case (Suc m)
  have w: "0 < CHAR_LEN s" "CHAR_LEN s \<le> 128" using Suc.prems(4) CHAR_LEN_less [of s] by simp_all
  have rem: "remaining s \<noteq> 1" "unat (remaining s - 1) = Suc m"
    using Suc.prems(3) by (auto simp: unat_sub word_le_nat_alt)
  let ?sent = "sent (LSB s) (CHAR_LEN s) (raw s) (Suc (Suc m))"
  have "length ?sent = Suc (Suc m)" by (simp add: sent_def)
  then obtain p ps where ps: "?sent = p # ps" by (cases ?sent) auto
  have "?sent ! 0 = rbit (raw s) (out_pos s)"
    by (simp add: sent_def out_pos_def del: upt_Suc)
  then have p: "p = rbit (raw s) (out_pos s)" using ps by simp
  obtain q qs' rc c1 where q: "qs = q # qs'"
    "clock (impl_cookies s ! n) 1 (of_bit p) (-1) = Inr (rc, of_bit q, c1)"
    "answers clock c1 ps qs' c"
    using Suc.prems(5) unfolding ps by (auto elim: answers_ConsE)
  obtain r where r: "shifted (LSB s) (CHAR_LEN s) (of_bit q) (raw s) r"
    "spi_slave_cycle s = Inr (s\<lparr>raw := r, impl_cookies := (impl_cookies s)[n := c1],
      remaining := remaining s - 1, phase := SPI_EMU_BUSY\<rparr>)"
    using busy_cycle [OF Suc.prems(1,2) w(1) q(2) [unfolded p]] rem(1) by auto
  let ?s = "s\<lparr>raw := r, impl_cookies := (impl_cookies s)[n := c1],
      remaining := remaining s - 1, phase := SPI_EMU_BUSY\<rparr>"
  have keep: "CHAR_LEN ?s = CHAR_LEN s" "LSB ?s = LSB s"
    using r(1) by (simp_all add: shifted_def CHAR_LEN_def LSB_def)
  have att: "attached ?s n clock"
    using Suc.prems(1) r(1) by (simp add: attached_def shifted_def SS_def)
  have ck: "impl_cookies ?s ! n = c1" using Suc.prems(1) by (simp add: attached_def)
  have len: "Suc m \<le> CHAR_LEN s" "Suc (Suc m) \<le> CHAR_LEN s" using Suc.prems(4) by simp_all
  have "ps = sent (LSB s) (CHAR_LEN s) r (Suc m)"
    using sent_Suc [OF r(1) len(2) w(2)] ps by simp
  then have "answers clock (impl_cookies ?s ! n) (sent (LSB ?s) (CHAR_LEN ?s) (raw ?s) (Suc m)) qs' c"
    using q(3) unfolding ck keep by simp
  from Suc.IH [OF att _ _ _ this] obtain t where t: "cycles (Suc m) ?s = Inr t"
    "phase t = SPI_EMU_DONE" "impl_cookies t ! n = c" "remaining t = 0"
    "received (LSB s) (CHAR_LEN s) r qs' (raw t)"
    using rem(2) len(1) unfolding keep by auto
  have "length qs' = Suc m" using answers_length [OF q(3)] ps by (auto simp: sent_def dest: arg_cong [where f = length])
  then have "received (LSB s) (CHAR_LEN s) (raw s) qs (raw t)"
    unfolding q(1) using received_Suc [OF r(1) t(5)] len(2) w(2) by simp
  then show ?case using r(2) t(1-4) by auto
qed

text \<open>
  A transfer of \<open>CHAR_LEN\<close> bits: the slave sees the field in order, and the field ends up holding
  its answers in the same order.
\<close>

definition field :: "bool \<Rightarrow> nat \<Rightarrow> u32 list \<Rightarrow> bool list" where
  "field lsb w r = map (\<lambda>t. rbit r (if lsb then t else w - 1 - t)) [0..<w]"

lemma transfer_exchanges:
  assumes "attached s n clock" and "phase s = SPI_EMU_BUSY" and "unat (remaining s) = CHAR_LEN s"
    and "0 < CHAR_LEN s"
    and "answers clock (impl_cookies s ! n) (field (LSB s) (CHAR_LEN s) (raw s)) qs c"
  shows "\<exists>t. cycles (CHAR_LEN s) s = Inr t \<and> phase t = SPI_EMU_DONE \<and> impl_cookies t ! n = c \<and>
    field (LSB s) (CHAR_LEN s) (raw t) = qs"
proof -
  obtain m where m: "CHAR_LEN s = Suc m" using assms(4) by (cases "CHAR_LEN s") auto
  have f: "field l w r = sent l w r w" for l w r by (simp add: field_def sent_def)
  obtain t where t: "cycles (Suc m) s = Inr t" "phase t = SPI_EMU_DONE" "impl_cookies t ! n = c"
    "received (LSB s) (CHAR_LEN s) (raw s) qs (raw t)"
    using transfer_cycles [OF assms(1,2), of m qs c] assms(3,5) m by (auto simp: f)
  have len: "length qs = CHAR_LEN s" using answers_length [OF assms(5)] by (simp add: field_def)
  have "field (LSB s) (CHAR_LEN s) (raw t) = qs"
    using t(4) len by (intro nth_equalityI) (auto simp: field_def received_def)
  with t m show ?thesis by auto
qed

lemma dummy_answers:
  "spi_clock spidummy = Some clock \<Longrightarrow> answers clock c ps ps c"
  by (induction ps) (auto simp: spidummy_def intro: answers.intros)

end
