(* ===== verification/Spisd.thy ===== *)
theory Spisd
  imports Spi
begin

unbundle bit_operations_syntax

text \<open>
  The SD card of \<^verbatim>\<open>src/devices/spisd.c\<close>, a slave of the SPI master: it shifts a command in bit by
  bit, runs the command's handler on the 48th, and shifts the response out during the bits that
  follow.  The store file is opened and not used further.

  Before the first response \<open>out_shift_len\<close> is 0 and the output bit is selected by
  \<open>1ull << -1\<close>, which C leaves undefined.  \<open>wild = None\<close> is C: the clock is \<open>Inl (Undefined _)\<close>.
  \<open>wild = Some w\<close> is a platform on which such a shift yields some word \<open>w\<close>.
  \<open>pad\<close> is what the padding of the response structures holds.
\<close>

section \<open>State\<close>

datatype spisd_phase = SPISD_INVALID | SPISD_UNINITIALISED | SPISD_IDLE | SPISD_READY

record 'f spisd_state =
  sd_phase :: spisd_phase
  shift_in :: u64
  shift_out :: u64
  out_shift_len :: nat
  bit_count :: nat
  cycle_count :: u64
  last_reset :: u64
  sd_store :: "'f option"

definition RESET_CYCLE_REQ :: u64 where "RESET_CYCLE_REQ = 50"

text \<open>\<open>struct spisd_rsp_R1\<close>, least significant bit first, and what reading it as an \<open>int\<close> yields.\<close>

record rsp_R1 =
  rsp_idle :: bool
  rsp_erase_reset :: bool
  rsp_illegal :: bool
  rsp_crc_error :: bool
  rsp_erase_seq_error :: bool
  rsp_address_error :: bool
  rsp_parameter_error :: bool
  rsp_must_be_zero :: bool

definition no_rsp :: rsp_R1 where
  "no_rsp = \<lparr>rsp_idle = False, rsp_erase_reset = False, rsp_illegal = False, rsp_crc_error = False,
     rsp_erase_seq_error = False, rsp_address_error = False, rsp_parameter_error = False,
     rsp_must_be_zero = False\<rparr>"

definition rsp_bits :: "rsp_R1 \<Rightarrow> bool list" where
  "rsp_bits r = [rsp_idle r, rsp_erase_reset r, rsp_illegal r, rsp_crc_error r, rsp_erase_seq_error r,
     rsp_address_error r, rsp_parameter_error r, rsp_must_be_zero r]"

definition punned :: "24 word \<Rightarrow> rsp_R1 \<Rightarrow> u64" where
  "punned pad r = scast (push_bit 8 (ucast pad) OR (horner_sum of_bool 2 (rsp_bits r)) :: u32)"

section \<open>The handlers\<close>

text \<open>\<open>rsp_minbytes\<close> of R1 is 1.\<close>

definition respond :: "24 word \<Rightarrow> rsp_R1 \<Rightarrow> 'f spisd_state \<Rightarrow> 'f spisd_state" where
  "respond pad r s = s\<lparr>shift_out := punned pad r, out_shift_len := 8 * 1\<rparr>"

definition spisd_go_idle_handler :: "24 word \<Rightarrow> u8 \<Rightarrow> 'f spisd_state \<Rightarrow> 'f spisd_state" where
  "spisd_go_idle_handler pad crc s =
     (if crc = 0x4a \<or> sd_phase s \<noteq> SPISD_UNINITIALISED
      then respond pad (no_rsp\<lparr>rsp_idle := True\<rparr>) (s\<lparr>sd_phase := SPISD_IDLE, last_reset := cycle_count s\<rparr>)
      else respond pad (no_rsp\<lparr>rsp_crc_error := True\<rparr>) (s\<lparr>sd_phase := SPISD_UNINITIALISED\<rparr>))"

definition spisd_send_op_handler :: "24 word \<Rightarrow> 'f spisd_state \<Rightarrow> 'f spisd_state" where
  "spisd_send_op_handler pad s =
     (let ready = (case sd_phase s of SPISD_READY \<Rightarrow> True
                     | SPISD_IDLE \<Rightarrow> False | SPISD_UNINITIALISED \<Rightarrow> False | SPISD_INVALID \<Rightarrow> False)
      in respond pad (no_rsp\<lparr>rsp_idle := \<not> ready\<rparr>) s)"

definition spisd_unimp_app_handler :: "'f spisd_state \<Rightarrow> 'f spisd_state" where
  "spisd_unimp_app_handler s = s"

definition spisd_cycle_handler :: "'f spisd_state \<Rightarrow> 'f spisd_state" where
  "spisd_cycle_handler s =
     (let ready = cycle_count s - last_reset s > RESET_CYCLE_REQ in
      if sd_phase s = SPISD_IDLE \<and> ready then s\<lparr>sd_phase := SPISD_READY\<rparr> else s)"

text \<open>The table of commands by their number: GO_IDLE_STATE, SEND_OP_COND and SET_BLOCKLEN.\<close>

definition spisd_commands :: "24 word \<Rightarrow> nat \<Rightarrow> u8 \<Rightarrow> 'f spisd_state \<Rightarrow> 'f spisd_state" where
  "spisd_commands pad type crc =
     (if type = 0 then spisd_go_idle_handler pad crc
      else if type = 1 then spisd_send_op_handler pad
      else if type = 16 then spisd_unimp_app_handler else id)"

section \<open>The callbacks\<close>

text \<open>
  \<open>spisd_spi_init\<close> with \<open>open_storefile\<close>: the parameter's value, if it is set, and \<open>fopen\<close>.
\<close>

definition spisd_spi_init :: "string option \<Rightarrow> (string \<Rightarrow> 'f option) \<Rightarrow> 'f spisd_state res" where
  "spisd_spi_init storefile fopen =
     (let s = \<lparr>sd_phase = SPISD_UNINITIALISED, shift_in = 0, shift_out = 0, out_shift_len = 0,
               bit_count = 0, cycle_count = 0, last_reset = 0, sd_store = None\<rparr>
      in case storefile of
           None \<Rightarrow> Inr s
         | Some f \<Rightarrow> (case fopen f of
               None \<Rightarrow> Inl (Fatal ''Failed to open SD store file'')
             | Some h \<Rightarrow> Inr (s\<lparr>sd_store := Some h\<rparr>)))"

definition spisd_spi_select :: "'f spisd_state \<Rightarrow> int \<Rightarrow> (int \<times> 'f spisd_state) res" where
  "spisd_spi_select s ss = Inr (0, if ss \<noteq> 0 then s\<lparr>bit_count := 0\<rparr> else s)"

text \<open>\<open>1ull << (len - 1)\<close>, undefined unless \<open>len - 1\<close> is a bit number.\<close>

definition top_bit :: "u64 option \<Rightarrow> nat \<Rightarrow> u64 option" where
  "top_bit wild len = (if 1 \<le> len \<and> len \<le> 64 then Some (push_bit (len - 1) 1) else wild)"

definition sd_shift :: "u64 option \<Rightarrow> int \<Rightarrow> 'f spisd_state \<Rightarrow> (int \<times> 'f spisd_state) res" where
  "sd_shift wild inn s =
     (let s = s\<lparr>shift_in := push_bit 1 (shift_in s)\<rparr>;
          s = s\<lparr>shift_in := shift_in s OR word_of_int inn, bit_count := bit_count s + 1\<rparr>
      in case top_bit wild (out_shift_len s) of
           None \<Rightarrow> Inl (Undefined ''shift'')
         | Some b \<Rightarrow>
             (let out = (if shift_out s AND b \<noteq> 0 then 1 else 0)
              in Inr (out, s\<lparr>shift_out := push_bit 1 (shift_out s)\<rparr>)))"

text \<open>The 48th bit is in: the framing bits are checked and the command is run.\<close>

definition sd_command :: "24 word \<Rightarrow> 'f spisd_state \<Rightarrow> 'f spisd_state res" where
  "sd_command pad s =
     (if shift_in s AND push_bit 47 1 \<noteq> 0
      then Inl (Fatal ''forced-zero bit in SPI command at bit position 47 is nonzero'')
      else if shift_in s AND push_bit 46 1 = 0
      then Inl (Fatal ''forced-one bit in SPI command at bit position 46 is zero'')
      else if shift_in s AND push_bit 0 1 = 0
      then Inl (Fatal ''forced-one bit in SPI command at bit position 0 is zero'')
      else
        let type = unat (drop_bit 40 (shift_in s) AND 0x1f);
            crc = ucast (drop_bit 1 (shift_in s) AND 0x7f)
        in Inr ((spisd_commands pad type crc (spisd_cycle_handler s))\<lparr>bit_count := 0\<rparr>))"

definition spisd_spi_clock ::
  "u64 option \<Rightarrow> 24 word \<Rightarrow> 'f spisd_state \<Rightarrow> int \<Rightarrow> int \<Rightarrow> int \<Rightarrow> (int \<times> int \<times> 'f spisd_state) res" where
  "spisd_spi_clock wild pad s ss inn out =
     (let s = s\<lparr>cycle_count := cycle_count s + 1\<rparr> in
      if ss = 0 then Inr (0, out, s)
      else
        bindE (sd_shift wild inn s) (\<lambda>(out, s).
          if bit_count s = 48 then bindE (sd_command pad s) (\<lambda>s. Inr (0, out, s)) else Inr (0, out, s)))"

definition spisd :: "u64 option \<Rightarrow> 24 word \<Rightarrow> 'f spisd_state spi_ops" where
  "spisd wild pad = \<lparr>spi_select = Some spisd_spi_select, spi_clock = Some (spisd_spi_clock wild pad)\<rparr>"

section \<open>The invariant\<close>

text \<open>A command is in progress, and there is output only after a response.\<close>

definition output_ok :: "'f spisd_state \<Rightarrow> bool" where
  "output_ok s \<longleftrightarrow> sd_phase s \<noteq> SPISD_INVALID \<and>
     (out_shift_len s = 8 \<or> out_shift_len s = 0 \<and> shift_out s = 0)"

definition spisd_inv :: "'f spisd_state \<Rightarrow> bool" where
  "spisd_inv s \<longleftrightarrow> bit_count s < 48 \<and> output_ok s"

lemmas spisd_handler_defs = spisd_commands_def spisd_go_idle_handler_def spisd_send_op_handler_def
  spisd_unimp_app_handler_def spisd_cycle_handler_def respond_def

lemma spisd_inv_init: "spisd_spi_init storefile fopen = Inr s \<Longrightarrow> spisd_inv s"
  by (auto simp: spisd_spi_init_def spisd_inv_def output_ok_def Let_def split: option.splits)

lemma spisd_inv_select: "spisd_inv s \<Longrightarrow> spisd_spi_select s ss = Inr (rc, t) \<Longrightarrow> spisd_inv t"
  by (auto simp: spisd_spi_select_def spisd_inv_def output_ok_def split: if_splits)

lemma output_ok_handled: "output_ok s \<Longrightarrow> output_ok (spisd_commands pad type crc (spisd_cycle_handler s))"
  by (auto simp: output_ok_def spisd_handler_defs Let_def split: spisd_phase.splits)

lemma output_ok_update [simp]:
  "output_ok (s\<lparr>bit_count := n\<rparr>) = output_ok s" "output_ok (s\<lparr>shift_in := x\<rparr>) = output_ok s"
  "output_ok (s\<lparr>cycle_count := k\<rparr>) = output_ok s"
  by (simp_all add: output_ok_def)

lemma output_ok_shift:
  assumes "output_ok s" and "sd_shift wild inn s = Inr (out, t)"
  shows "output_ok t \<and> bit_count t = Suc (bit_count s) \<and> (out = 0 \<or> out = 1)"
  using assms by (auto simp: sd_shift_def Let_def output_ok_def split: if_splits option.splits)

lemma spisd_inv_clock:
  assumes "spisd_inv s" and "spisd_spi_clock wild pad s ss inn out = Inr (rc, out', t)"
  shows "spisd_inv t \<and> rc = 0 \<and> (if ss = 0 then out' = out else out' = 0 \<or> out' = 1)"
proof (cases "sd_shift wild inn (s\<lparr>cycle_count := cycle_count s + 1\<rparr>)")
  case (Inl e)
  then show ?thesis
    using assms by (auto simp: spisd_spi_clock_def spisd_inv_def Let_def split: if_splits)
next
  case (Inr p)
  then obtain o1 u where u: "sd_shift wild inn (s\<lparr>cycle_count := cycle_count s + 1\<rparr>) = Inr (o1, u)" by fastforce
  have "output_ok (s\<lparr>cycle_count := cycle_count s + 1\<rparr>)" using assms(1) by (simp add: spisd_inv_def)
  note u' = output_ok_shift [OF this u]
  show ?thesis
    using assms u u' output_ok_handled
    by (auto simp: spisd_spi_clock_def sd_command_def spisd_inv_def bindE_eq_Inr Let_def split: if_splits)
qed

section \<open>Commands, bit by bit\<close>

definition msb_bits :: "'a::len word \<Rightarrow> bool list" where
  "msb_bits w = map (bit w) (rev [0..<LENGTH('a)])"

lemma length_msb_bits [simp]: "length (msb_bits (w :: 'a::len word)) = LENGTH('a)"
  by (simp add: msb_bits_def)

lemma nth_msb_bits [simp]:
  "k < LENGTH('a) \<Longrightarrow> msb_bits (w :: 'a::len word) ! k = bit w (LENGTH('a) - 1 - k)"
  by (simp add: msb_bits_def rev_nth)

text \<open>A command frame: the forced bits, the number, the argument and the checksum.\<close>

definition sd_frame :: "6 word \<Rightarrow> u32 \<Rightarrow> 7 word \<Rightarrow> bool list" where
  "sd_frame type arg crc = [False, True] @ msb_bits type @ msb_bits arg @ msb_bits crc @ [True]"

lemma length_sd_frame [simp]: "length (sd_frame type arg crc) = 48"
  by (simp add: sd_frame_def)

definition shift_bits :: "u64 \<Rightarrow> bool list \<Rightarrow> u64" where
  "shift_bits = foldl (\<lambda>x b. push_bit 1 x OR of_bool b)"

lemma shift_bits_simps [simp]:
  "shift_bits x [] = x" "shift_bits x (b # bs) = shift_bits (push_bit 1 x OR of_bool b) bs"
  by (simp_all add: shift_bits_def)

lemma bit_twice: "bit (x * 2 :: u64) n \<longleftrightarrow> 0 < n \<and> n < 64 \<and> bit x (n - 1)"
  using bit_push_bit_iff [of 1 x n] by (auto simp: Suc_le_eq)

lemma bit_shift_bits:
  "n < 64 \<Longrightarrow> bit (shift_bits x bs) n =
     (if n < length bs then bs ! (length bs - 1 - n) else bit x (n - length bs))"
proof (induction bs arbitrary: x)
  case (Cons b bs)
  have e: "bit (push_bit 1 x OR of_bool b) m = (if m = 0 then b else bit x (m - 1))" if "m < 64" for m
    using that by (cases m) (auto simp: bit_simps bit_twice)
  have "n - length bs < 64" using Cons.prems by simp
  note e = e [OF this]
  show ?case
  proof (cases "n < length bs")
    case True
    then have "length bs - n = Suc (length bs - Suc n)" by simp
    then show ?thesis using Cons.IH [OF Cons.prems] True by simp
  next
    case False
    then show ?thesis using Cons.IH [OF Cons.prems] e by (cases "n = length bs") simp_all
  qed
qed simp

text \<open>
  What comes out during the next bits, where the shift of \<open>top_bit\<close> yields a word: always on a
  card that has answered, and on any card if the platform defines it.
\<close>

definition shifts :: "u64 option \<Rightarrow> 'f spisd_state \<Rightarrow> bool" where
  "shifts wild s \<longleftrightarrow> wild \<noteq> None \<or> out_shift_len s \<noteq> 0"

lemma shifts_Some [simp]: "shifts (Some w) s"
  by (simp add: shifts_def)

definition next_out :: "'f spisd_state \<Rightarrow> nat \<Rightarrow> bool" where
  "next_out s k \<longleftrightarrow> out_shift_len s = 8 \<and> k \<le> 7 \<and> bit (shift_out s) (7 - k)"

definition after_bits :: "'f spisd_state \<Rightarrow> bool list \<Rightarrow> 'f spisd_state" where
  "after_bits s bs = s\<lparr>cycle_count := cycle_count s + of_nat (length bs), shift_in := shift_bits (shift_in s) bs,
     bit_count := bit_count s + length bs, shift_out := push_bit (length bs) (shift_out s)\<rparr>"

lemma sd_shift_bit:
  assumes "output_ok s" and "shifts wild s"
  shows "sd_shift wild (of_bit p) (s\<lparr>cycle_count := cycle_count s + 1\<rparr>) =
    Inr (of_bit (next_out s 0), after_bits s [p])"
proof -
  have "shift_out s AND push_bit 7 1 \<noteq> 0 \<longleftrightarrow> bit (shift_out s) 7"
    by (simp add: bit_iff_and_push_bit_not_eq_0)
  then show ?thesis
    using assms
    by (auto simp: sd_shift_def next_out_def after_bits_def top_bit_def output_ok_def shifts_def of_bit_def Let_def)
qed

lemma fresh_card_undefined:
  "out_shift_len s = 0 \<Longrightarrow> ss \<noteq> 0 \<Longrightarrow> spisd_spi_clock None pad s ss inn out = Inl (Undefined ''shift'')"
  by (simp add: spisd_spi_clock_def sd_shift_def top_bit_def Let_def)

lemma shifts_after [simp]: "shifts wild (after_bits s bs) = shifts wild s"
  by (simp add: shifts_def after_bits_def)

lemma bit_count_after [simp]: "bit_count (after_bits s bs) = bit_count s + length bs"
  by (simp add: after_bits_def)

lemma next_out_after: "next_out (after_bits s [p]) k = next_out s (Suc k)"
  by (auto simp: next_out_def after_bits_def bit_twice)

lemma output_ok_after: "output_ok s \<Longrightarrow> output_ok (after_bits s bs)"
  by (auto simp: output_ok_def after_bits_def)

lemma after_bits_Cons: "after_bits (after_bits s [p]) ps = after_bits s (p # ps)"
  by (simp add: after_bits_def add.assoc push_bit_push_bit)

lemma answers_shift:
  "output_ok s \<Longrightarrow> shifts wild s \<Longrightarrow> bit_count s + length bs < 48 \<Longrightarrow>
     answers (spisd_spi_clock wild pad) s bs (map (next_out s) [0..<length bs]) (after_bits s bs)"
proof (induction bs arbitrary: s)
  case Nil
  have "after_bits s [] = s" by (simp add: after_bits_def)
  then show ?case by (simp add: answers_Nil)
next
  case (Cons p ps)
  have "bit_count (after_bits s [p]) \<noteq> 48" using Cons.prems by (simp add: after_bits_def)
  then have c: "spisd_spi_clock wild pad s 1 (of_bit p) (-1) = Inr (0, of_bit (next_out s 0), after_bits s [p])"
    using sd_shift_bit [OF Cons.prems(1,2), of p] by (simp add: spisd_spi_clock_def Let_def)
  have "answers (spisd_spi_clock wild pad) (after_bits s [p]) ps
      (map (next_out (after_bits s [p])) [0..<length ps]) (after_bits (after_bits s [p]) ps)"
    using Cons.prems by (intro Cons.IH) (simp_all add: output_ok_after)
  moreover have "map (next_out s) [0..<length (p # ps)] =
      next_out s 0 # map (next_out (after_bits s [p])) [0..<length ps]"
    by (rule nth_equalityI) (auto simp: next_out_after nth_Cons simp del: upt_Suc split: nat.splits)
  ultimately show ?case
    by (simp add: after_bits_Cons answers_Cons [where clock = "spisd_spi_clock wild pad", OF c])
qed

lemma answers_append:
  "answers clock c ps qs c' \<Longrightarrow> answers clock c' ps' qs' c'' \<Longrightarrow> answers clock c (ps @ ps') (qs @ qs') c''"
  by (induction rule: answers.induct) (auto intro: answers.intros)

text \<open>The fields of a frame in the shift register.\<close>

lemma frame_nth:
  "k < 6 \<Longrightarrow> sd_frame type arg crc ! (2 + k) = bit type (5 - k)"
  "k < 7 \<Longrightarrow> sd_frame type arg crc ! (40 + k) = bit crc (6 - k)"
  by (simp_all add: sd_frame_def nth_append)

lemma frame_fields:
  fixes type :: "6 word" and crc :: "7 word" and y :: u64 and arg :: u32
  defines "x \<equiv> shift_bits y (sd_frame type arg crc)"
  shows "\<not> bit x 47" and "bit x 46" and "bit x 0"
    and "drop_bit 40 x AND 0x1f = ucast type AND 0x1f"
    and "(drop_bit 1 x AND 0x7f) = ucast crc"
proof -
  have f: "bit x n = sd_frame type arg crc ! (47 - n)" if "n < 48" for n
    using that by (simp add: x_def bit_shift_bits)
  show "\<not> bit x 47" "bit x 46" "bit x 0" by (simp_all add: f sd_frame_def nth_append)
  have m: "(0x1f :: u64) = mask 5" "(0x7f :: u64) = mask 7" by (simp_all add: mask_eq_decr_exp)
  have "bit x (40 + n) = bit type n" if "n < 6" for n
  proof -
    have "47 - (40 + n) = 2 + (5 - n)" "5 - n < 6" using that by simp_all
    then show ?thesis using that frame_nth(1) [of "5 - n" type arg crc] f [of "40 + n"] by simp
  qed
  then show "drop_bit 40 x AND 0x1f = ucast type AND 0x1f"
    unfolding m by (intro bit_word_eqI) (auto simp: bit_simps add.commute)
  have "bit x (1 + n) = bit crc n" if "n < 7" for n
  proof -
    have "47 - (1 + n) = 40 + (6 - n)" "6 - n < 7" using that by simp_all
    then show ?thesis using that frame_nth(2) [of "6 - n" type arg crc] f [of "1 + n"] by simp
  qed
  moreover have "n < 7" if "bit crc n" for n using bit_imp_le_length [OF that] by simp
  ultimately show "drop_bit 1 x AND 0x7f = ucast crc"
    unfolding m by (intro bit_word_eqI) (auto simp: bit_simps)
qed

text \<open>A whole frame: the card runs the command in the state the 48 bits left it in.\<close>

definition commanded :: "24 word \<Rightarrow> 6 word \<Rightarrow> u32 \<Rightarrow> 7 word \<Rightarrow> 'f spisd_state \<Rightarrow> 'f spisd_state" where
  "commanded pad type arg crc s =
     (spisd_commands pad (unat type mod 32) (ucast crc)
        (spisd_cycle_handler (after_bits s (sd_frame type arg crc))))\<lparr>bit_count := 0\<rparr>"

lemma sd_command_frame:
  "bit_count s = 0 \<Longrightarrow> sd_command pad (after_bits s (sd_frame type arg crc)) = Inr (commanded pad type arg crc s)"
proof -
  have m: "(shift_in t AND push_bit n 1 = 0) = (\<not> bit (shift_in t) n)" for t :: "'f spisd_state" and n
    by (simp add: bit_iff_and_push_bit_not_eq_0)
  have i: "shift_in (after_bits s (sd_frame type arg crc)) = shift_bits (shift_in s) (sd_frame type arg crc)"
    by (simp add: after_bits_def)
  note f = frame_fields [of "shift_in s" type arg crc, folded i]
  have "unat (ucast type AND 0x1f :: u64) = unat type mod 32"
  proof -
    have "(ucast type AND 0x1f :: u64) = take_bit 5 (ucast type)"
      by (simp add: take_bit_eq_mask mask_eq_decr_exp)
    then have "unat (ucast type AND 0x1f :: u64) = take_bit 5 (unat (ucast type :: u64))"
      by (simp only: unsigned_take_bit_eq)
    moreover have "unat (ucast type :: u64) = unat type"
      using unsigned_less [of type, where ?'a = nat] by (simp add: unsigned_ucast_eq take_bit_eq_mod)
    ultimately show ?thesis by (simp add: take_bit_eq_mod)
  qed
  moreover have "ucast (ucast crc :: u64) = (ucast crc :: u8)"
    by (rule bit_word_eqI) (auto simp: bit_simps)
  ultimately show ?thesis
    by (simp only: sd_command_def commanded_def Let_def m f simp_thms if_True if_False)
qed

text \<open>Forty-seven bits are shifted, and the last of them runs the command.\<close>

lemma answers_frame:
  assumes "output_ok s" and "bit_count s = 0" and "shifts wild s"
  shows "answers (spisd_spi_clock wild pad) s (sd_frame type arg crc) (map (next_out s) [0..<48])
    (commanded pad type arg crc s)"
proof -
  define bs where "bs = butlast (sd_frame type arg crc)"
  have f: "sd_frame type arg crc = bs @ [True]" by (simp add: bs_def sd_frame_def butlast_append)
  have l: "length bs = 47" by (simp add: bs_def)
  have a: "after_bits (after_bits s bs) [True] = after_bits s (sd_frame type arg crc)"
    by (simp add: after_bits_def f shift_bits_def l push_bit_push_bit)
  have "next_out (after_bits s bs) 0 = next_out s 47"
    by (auto simp: next_out_def after_bits_def l bit_simps)
  then have "spisd_spi_clock wild pad (after_bits s bs) 1 (of_bit True) (-1) =
      Inr (0, of_bit (next_out s 47), commanded pad type arg crc s)"
    using sd_shift_bit [OF output_ok_after [OF assms(1)], of wild bs True]
      sd_command_frame [OF assms(2), of pad type arg crc] assms(2,3)
    by (simp add: spisd_spi_clock_def a bindE_def Let_def)
  then have "answers (spisd_spi_clock wild pad) (after_bits s bs) [True] [next_out s 47] (commanded pad type arg crc s)"
    by (rule answers_Cons [where clock = "spisd_spi_clock wild pad", OF _ answers_Nil])
  from answers_append [OF answers_shift [OF assms(1,3)] this]
  have "answers (spisd_spi_clock wild pad) s (bs @ [True]) (map (next_out s) [0..<47] @ [next_out s 47])
      (commanded pad type arg crc s)"
    by (simp add: assms(2) l)
  moreover have "map (next_out s) [0..<47] @ [next_out s 47] = map (next_out s) [0..<48]"
    using upt_Suc_append [of 0 47] by simp
  ultimately show ?thesis by (simp add: f)
qed

lemma output_ok_commanded:
  "output_ok s \<Longrightarrow> output_ok (commanded pad type arg crc s)"
  by (simp add: commanded_def output_ok_handled output_ok_after)

lemma bit_count_commanded [simp]: "bit_count (commanded pad type arg crc s) = 0"
  by (simp add: commanded_def)

text \<open>What a response puts on the line, the first bit first.\<close>

lemma bit_punned: "k < 8 \<Longrightarrow> bit (punned pad r) k = rsp_bits r ! k"
proof -
  assume k: "k < 8"
  have "length (rsp_bits r) = 8" by (simp add: rsp_bits_def)
  then show ?thesis using k
    by (auto simp: punned_def bit_simps signed_scast_eq bit_horner_sum_bit_iff)
qed

lemma respond_next:
  "k < 8 \<Longrightarrow> next_out (respond pad r s) k = rsp_bits r ! (7 - k)"
  by (simp add: next_out_def respond_def bit_punned)

lemma response_bits:
  assumes "shift_out s = punned pad r" and "out_shift_len s = 8"
  shows "map (next_out s) [0..<8] = rev (rsp_bits r)"
    and "map (next_out s) [0..<48] = rev (rsp_bits r) @ replicate 40 False"
proof -
  have l: "length (rsp_bits r) = 8" by (simp add: rsp_bits_def)
  have n: "next_out s k = (k < 8 \<and> rsp_bits r ! (7 - k))" for k
    using assms by (auto simp: next_out_def bit_punned)
  show "map (next_out s) [0..<8] = rev (rsp_bits r)"
    by (rule nth_equalityI) (simp_all add: l n rev_nth)
  show "map (next_out s) [0..<48] = rev (rsp_bits r) @ replicate 40 False"
    by (rule nth_equalityI) (auto simp: l n rev_nth nth_append)
qed

text \<open>The commands that are implemented, by what they leave behind.\<close>

lemma commanded_go_idle:
  fixes pad :: "24 word" and type :: "6 word" and arg :: u32 and crc :: "7 word" and s :: "'f spisd_state"
  assumes "unat type mod 32 = 0" and "sd_phase s = SPISD_UNINITIALISED \<Longrightarrow> crc = 0x4a"
  defines "t \<equiv> commanded pad type arg crc s"
  shows "sd_phase t = SPISD_IDLE" and "last_reset t = cycle_count t" and "cycle_count t = cycle_count s + 48"
    and "shift_out t = punned pad (no_rsp\<lparr>rsp_idle := True\<rparr>)" and "out_shift_len t = 8"
proof -
  have "crc = 0x4a \<Longrightarrow> (ucast crc :: u8) = 0x4a" by simp
  then have "(ucast crc :: u8) = 0x4a \<or> sd_phase s \<noteq> SPISD_UNINITIALISED" using assms(2) by blast
  then show "sd_phase t = SPISD_IDLE" "last_reset t = cycle_count t" "cycle_count t = cycle_count s + 48"
    "shift_out t = punned pad (no_rsp\<lparr>rsp_idle := True\<rparr>)" "out_shift_len t = 8"
    unfolding t_def using assms(1)
    by (auto simp: commanded_def spisd_handler_defs after_bits_def Let_def)
qed

lemma commanded_send_op:
  fixes pad :: "24 word" and type :: "6 word" and arg :: u32 and crc :: "7 word" and s :: "'f spisd_state"
  assumes "unat type mod 32 = 1" and "sd_phase s = SPISD_IDLE"
  defines "t \<equiv> commanded pad type arg crc s"
    and "ready \<equiv> cycle_count s + 48 - last_reset s > RESET_CYCLE_REQ"
  shows "sd_phase t = (if ready then SPISD_READY else SPISD_IDLE)"
    and "last_reset t = last_reset s" and "cycle_count t = cycle_count s + 48"
    and "shift_out t = punned pad (no_rsp\<lparr>rsp_idle := \<not> ready\<rparr>)" and "out_shift_len t = 8"
  unfolding t_def ready_def using assms(1,2)
  by (simp_all add: commanded_def spisd_handler_defs after_bits_def Let_def)

text \<open>An uninitialised card that is sent a wrong checksum stays so and says why.\<close>

lemma commanded_bad_crc:
  fixes pad :: "24 word" and type :: "6 word" and arg :: u32 and crc :: "7 word" and s :: "'f spisd_state"
  assumes "unat type mod 32 = 0" and "sd_phase s = SPISD_UNINITIALISED" and "crc \<noteq> 0x4a"
  defines "t \<equiv> commanded pad type arg crc s"
  shows "sd_phase t = SPISD_UNINITIALISED" and "shift_out t = punned pad (no_rsp\<lparr>rsp_crc_error := True\<rparr>)"
    and "out_shift_len t = 8"
proof -
  have "(ucast crc :: u8) \<noteq> 0x4a"
  proof
    assume "(ucast crc :: u8) = 0x4a"
    then have "unat (ucast crc :: u8) = 0x4a" by simp
    then have "unat crc = 0x4a" using unsigned_less [of crc, where ?'a = nat] by (simp add: unsigned_ucast_eq take_bit_eq_mod)
    then show False using assms(3) by (simp add: word_unat_eq_iff)
  qed
  then show "sd_phase t = SPISD_UNINITIALISED" "shift_out t = punned pad (no_rsp\<lparr>rsp_crc_error := True\<rparr>)"
    "out_shift_len t = 8"
    unfolding t_def using assms(1,2)
    by (simp_all add: commanded_def spisd_handler_defs after_bits_def Let_def)
qed

text \<open>
  A session: go idle, then ask twice whether the card is ready.  The first answer comes 48 cycles
  after the reset, too early; the second 96 after it.
\<close>

lemma rsp_idle_bits:
  "rev (rsp_bits (no_rsp\<lparr>rsp_idle := b\<rparr>)) = replicate 7 False @ [b]"
  by (simp add: rsp_bits_def no_rsp_def numeral_eq_Suc)

lemma card_session:
  assumes "output_ok s" and "bit_count s = 0" and w: "shifts wild s"
    and "sd_phase s = SPISD_UNINITIALISED \<Longrightarrow> crc = 0x4a" and that: "length bs8 \<le> 8"
  shows "\<exists>t. answers (spisd_spi_clock wild pad) s
      (sd_frame 0 arg crc @ sd_frame 1 arg1 crc1 @ sd_frame 1 arg2 crc2 @ bs8)
      (map (next_out s) [0..<48] @
       (replicate 7 False @ [True]) @ replicate 40 False @
       (replicate 7 False @ [True]) @ replicate 40 False @
       take (length bs8) (replicate 8 False)) t
    \<and> sd_phase t = SPISD_READY"
proof -
  define s1 where "s1 = commanded pad 0 arg crc s"
  define s2 where "s2 = commanded pad 1 arg1 crc1 s1"
  define s3 where "s3 = commanded pad 1 arg2 crc2 s2"
  have z: "unat (0 :: 6 word) mod 32 = 0" "unat (1 :: 6 word) mod 32 = 1" by simp_all
  note c1 = commanded_go_idle [OF z(1) assms(4), where s = s and pad = pad and arg = arg, folded s1_def]
  note c2 = commanded_send_op [OF z(2) c1(1), where pad = pad and arg = arg1 and crc = crc1, folded s2_def]
  have d1: "cycle_count s1 + 48 - last_reset s1 = 48" using c1(2) by simp
  have p2: "sd_phase s2 = SPISD_IDLE" by (simp add: c2 d1 RESET_CYCLE_REQ_def)
  note c3 = commanded_send_op [OF z(2) p2, where pad = pad and arg = arg2 and crc = crc2, folded s3_def]
  have d2: "cycle_count s2 + 48 - last_reset s2 = 96" by (simp add: c2 c1)
  have r: "shift_out s1 = punned pad (no_rsp\<lparr>rsp_idle := True\<rparr>)"
    "shift_out s2 = punned pad (no_rsp\<lparr>rsp_idle := True\<rparr>)"
    "shift_out s3 = punned pad (no_rsp\<lparr>rsp_idle := False\<rparr>)"
    by (simp_all add: c1 c2(4) c3(4) d1 d2 RESET_CYCLE_REQ_def)
  have o: "output_ok s1" "output_ok s2" "output_ok s3" "bit_count s1 = 0" "bit_count s2 = 0" "bit_count s3 = 0"
    using assms(1) by (simp_all add: s1_def s2_def s3_def output_ok_commanded)
  have w': "shifts wild s1" "shifts wild s2" "shifts wild s3" by (simp_all add: shifts_def c1 c2 c3)
  have b: "map (next_out s1) [0..<48] = (replicate 7 False @ [True]) @ replicate 40 False"
    "map (next_out s2) [0..<48] = (replicate 7 False @ [True]) @ replicate 40 False"
    "map (next_out s3) [0..<8] = replicate 8 False"
    using response_bits(2) [OF r(1) c1(5)] response_bits(2) [OF r(2) c2(5)] response_bits(1) [OF r(3) c3(5)]
    by (simp_all add: rsp_idle_bits) (simp add: numeral_eq_Suc)
  have "map (next_out s3) [0..<length bs8] = take (length bs8) (map (next_out s3) [0..<8])"
    using that by (simp add: take_map)
  moreover have "answers (spisd_spi_clock wild pad) s3 bs8 (map (next_out s3) [0..<length bs8]) (after_bits s3 bs8)"
    using that o w' by (intro answers_shift) simp_all
  ultimately have "answers (spisd_spi_clock wild pad) s3 bs8 (take (length bs8) (replicate 8 False)) (after_bits s3 bs8)"
    by (simp only: b)
  note a4 = this
  have f: "answers (spisd_spi_clock wild pad) s (sd_frame 0 arg crc) (map (next_out s) [0..<48]) s1"
    "answers (spisd_spi_clock wild pad) s1 (sd_frame 1 arg1 crc1) (map (next_out s1) [0..<48]) s2"
    "answers (spisd_spi_clock wild pad) s2 (sd_frame 1 arg2 crc2) (map (next_out s2) [0..<48]) s3"
    using answers_frame [OF assms(1,2) w] answers_frame [OF o(1,4) w'(1)] answers_frame [OF o(2,5) w'(2)]
    by (simp_all only: s1_def s2_def s3_def)
  have "answers (spisd_spi_clock wild pad) s
      (sd_frame 0 arg crc @ sd_frame 1 arg1 crc1 @ sd_frame 1 arg2 crc2 @ bs8)
      (map (next_out s) [0..<48] @ map (next_out s1) [0..<48] @ map (next_out s2) [0..<48] @
       take (length bs8) (replicate 8 False)) (after_bits s3 bs8)"
    by (intro answers_append [OF f(1)] answers_append [OF f(2)] answers_append [OF f(3)] a4)
  moreover have "sd_phase (after_bits s3 bs8) = SPISD_READY"
    by (simp add: after_bits_def c3(1) d2 RESET_CYCLE_REQ_def)
  ultimately show ?thesis by (auto simp only: b append_assoc)
qed

end
