(* ===== verification/Examples.thy ===== *)
theory Examples
  imports Build Spisd
begin

unbundle bit_operations_syntax

text \<open>
  Concrete objects at which the properties are evaluated: a caller of two words with one relocation
  by name, and a callee of three words that defines the symbol.
\<close>

definition name_f :: "u8 list" where "name_f = 102 # replicate 31 0"

definition caller :: obj where
  "caller = \<lparr>version = 0, obj_flags = 0, rec_count = 1,
     records = [\<lparr>rec_addr = 0, rec_size = 2, rec_data = [0x00000000, 0x0f00ffff]\<rparr>],
     sym_count = 0, symbols = [], rlc_count = 1,
     relocs = [\<lparr>rlc_flags = 0, rlc_name = name_f, rlc_addr = 1, rlc_width = 12\<rparr>]\<rparr>"

definition callee :: obj where
  "callee = \<lparr>version = 0, obj_flags = 0, rec_count = 1,
     records = [\<lparr>rec_addr = 0, rec_size = 3, rec_data = [1, 2, 3]\<rparr>],
     sym_count = 1, symbols = [\<lparr>sym_flags = 0, sym_name = name_f, sym_value = 1, sym_size = 0\<rparr>],
     rlc_count = 0, relocs = []\<rparr>"


lemma demo_wf: "wf_obj caller" "wf_obj callee"
  by (simp_all add: caller_def callee_def wf_obj_def wf_rec_def SYMBOL_LEN_def name_f_def OBJ_MAX_REC_CNT_def
    OBJ_MAX_SYMBOLS_def OBJ_MAX_RELOCS_def OBJ_MAX_REC_SIZE_def)


lemma sym_key_f: "cstr (name_f[31 := 0]) = [102]"
proof -
  have "(replicate 31 0 :: u8 list)[30 := 0] = replicate 31 0" by (rule nth_equalityI) (simp_all add: nth_list_update)
  moreover have "takeWhile (\<lambda>b. b \<noteq> 0) (replicate 31 0 :: u8 list) = []" by simp
  ultimately show ?thesis by (simp add: cstr_def name_f_def)
qed

lemma demo_defns: "all_defns 0 [caller, callee] =
    [([102], \<lparr>def_obj = 1, def_reladdr = 1, def_flags = 0\<rparr>)]"
  using sym_key_f by (simp add: caller_def callee_def exports_def defn_list_def defn_of_def sym_key_def)

lemma demo_linkable: "linkable [caller, callee]"
proof -
  have "reloc_value (link_tables [caller, callee]) 0 (hd (relocs caller)) = 
     Inr (symbol_address [caller, callee] 1 (hd (symbols callee)))"
    by (rule reloc_value_named, unfold demo_defns)
      (simp_all add: caller_def callee_def exports_def name_f_def SYMBOL_LEN_def sym_key_def)
  then show ?thesis
    unfolding linkable_def demo_defns loaded_def
    by (simp add: demo_wf less_Suc_eq) (simp add: caller_def callee_def good_reloc_def)
qed

lemma demo_sizes: "\<forall>ob\<in>set [caller, callee]. length (obj_bytes ob) < 2 ^ 32"
  by (simp add: caller_def callee_def obj_bytes_def length_section_bytes MAGIC_BYTES_def rec_bytes_def
      sym_bytes_def rlc_bytes_def name_f_def)

lemma demo_length: "length (concat (map rec_data (records (linked [caller, callee])))) \<le> 0x3000"
  by (simp add: linked_def patch_obj_def patch_rec_def caller_def callee_def Let_def)

text \<open>An SPI master busy with slave 0, a dummy, eight bits most significant first.\<close>

definition echo :: "unit \<Rightarrow> int \<Rightarrow> int \<Rightarrow> int \<Rightarrow> (int \<times> int \<times> unit) res" where
  "echo = (\<lambda>c ss inn out. Inr (0, inn, c))"

definition spi_demo :: "unit spi_state" where
  "spi_demo = \<lparr>impls = spidummy # replicate 7 \<lparr>spi_select = None, spi_clock = None\<rparr>,
     impl_cookies = replicate 8 (), phase = SPI_EMU_BUSY, dividend = 0, cyc = 5, remaining = 8,
     raw = [0xa5, 0, 0, 0, 0x108, 0xffff, 1]\<rparr>"

lemma demo_attached: "attached spi_demo 0 echo"
  by (auto simp: attached_def spi_demo_def NINST_def SS_def mask_eq_decr_exp spidummy_def echo_def
      nth_Cons split: nat.splits)

text \<open>
  A fresh card; a card that has answered a reset, on a platform that gets over the first shift; and a
  master of one such card, about to send it the command that resets it.
\<close>

definition new_card :: "unit spisd_state" where
  "new_card = \<lparr>sd_phase = SPISD_UNINITIALISED, shift_in = 0, shift_out = 0, out_shift_len = 0,
     bit_count = 0, cycle_count = 0, last_reset = 0, sd_store = None\<rparr>"

definition told_card :: "unit spisd_state" where
  "told_card = commanded 0 0 0 0x4a new_card"

definition sd_demo :: "unit spisd_state spi_state" where
  "sd_demo = \<lparr>impls = spisd None 0 # replicate 7 \<lparr>spi_select = None, spi_clock = None\<rparr>,
     impl_cookies = replicate 8 told_card, phase = SPI_EMU_BUSY, dividend = 0, cyc = 5, remaining = 48,
     raw = [0x95, 0x4000, 0, 0, 0x130, 0xffff, 1]\<rparr>"

lemma sd_demo_attached: "attached sd_demo 0 (spisd_spi_clock None 0)"
  by (auto simp: attached_def sd_demo_def NINST_def SS_def mask_eq_decr_exp spisd_def
      nth_Cons split: nat.splits)

lemma sd_demo_control: "CHAR_LEN sd_demo = 48" "LSB sd_demo = False"
  by (simp_all add: CHAR_LEN_def LSB_def sd_demo_def mask_eq_decr_exp)

lemma sd_demo_field: "field False 48 (raw sd_demo) = sd_frame 0 0 0x4a"
proof (rule nth_equalityI)
  fix i assume "i < length (field False 48 (raw sd_demo))"
  then have "i \<in> set [0..<48]" by (simp add: field_def)
  moreover have "\<forall>i \<in> set [0..<48]. rbit (raw sd_demo) (47 - i) = sd_frame 0 0 0x4a ! i"
    unfolding sd_frame_def msb_bits_def by (simp add: sd_demo_def rbit_def upt_rec)
  ultimately show "field False 48 (raw sd_demo) ! i = sd_frame 0 0 0x4a ! i"
    by (simp add: field_def)
qed (simp add: field_def)

text \<open>
  A source of two words, of which the first is the address of the second, and one in which two words
  are the value of a symbol that was set to the place of the second.
\<close>

definition plain_head :: ce_head where
  "plain_head = \<lparr>ce_i = 0, ce_flags = 0, ce_insn = Some 0, ce_deferred = None\<rparr>"

definition one_word :: "nat list \<Rightarrow> asm_element option" where
  "one_word ls = Some \<lparr>e_word = 7, e_reladdr = 0, e_size = 1, el_symbol = ls\<rparr>"

definition label_source :: parse_data where
  "label_source = \<lparr>pd_errored = 0, pd_top = [one_word [], one_word [0], None],
     pd_symbols = [\<lparr>y_name = [76], y_reladdr = 0, y_resolved = False, y_global = False, y_unique = True,
       y_ce = None, y_next = []\<rparr>],
     pd_defexprs = [\<lparr>d_ce = CE_REF plain_head CE_EXT None (76 # replicate 31 0), d_dest = 0, d_width = 32,
       d_mult = 1\<rparr>],
     pd_globals = [], pd_relocs = []\<rparr>"

lemma label_source_found: "symbol_find (pd_symbols label_source) [76] = Some 0"
  by (simp add: symbol_find_def sym_order_def label_source_def strneq_def)

lemma label_source_program: "program (\<lambda>_. 1) (\<lambda>_. 1) label_source"
proof -
  have "takeWhile (\<lambda>b. b \<noteq> 0) (replicate 31 0 :: u8 list) = []" by simp
  then have c: "cstr (76 # replicate 31 0) = [76]" by (simp add: cstr_def)
  have "addr_of label_source (Suc 0) = 1"
    by (simp add: addr_of_def label_source_def one_word_def size_of_def)
  then have a: "label_addr (\<lambda>_. 1) label_source None (76 # replicate 31 0) = 1"
    using label_source_found by (simp add: label_addr_def ref_name_def c [simplified])
  have l: "labelled (\<lambda>_. 1) label_source"
    by (auto simp: labelled_def label_source_def one_word_def less_Suc_eq)
  have u: "distinct (map y_name (filter y_unique (pd_symbols label_source)))"
    by (simp add: label_source_def)
  define r where "r = \<lparr>d_ce = CE_REF plain_head CE_EXT None (76 # replicate 31 0), d_dest = 0, d_width = 32,
    d_mult = 1\<rparr>"
  have "source_value (\<lambda>_. 1) label_source r = Inr 1" "fits (\<lambda>_. 1) r" "refers (length (pd_symbols label_source)) (d_ce r)"
    by (simp_all add: source_value_def r_def c a [simplified] fits_def field_value_def SEXTEND32_def SYMBOL_LEN_def)
  moreover have "pd_defexprs label_source = [r]" "d_dest r = 0" "ce_insn (head (d_ce r)) = Some 0"
    "length (pd_top label_source) = 3" "pd_top label_source ! 0 \<noteq> None"
    by (simp_all add: label_source_def r_def plain_head_def one_word_def)
  ultimately show ?thesis using l u by (simp add: program_def)
qed

lemma label_source_sized: "sized label_source"
  by (auto simp: sized_def label_source_def one_word_def word_sle_eq)

definition set_source :: parse_data where
  "set_source = \<lparr>pd_errored = 0,
     pd_top = [one_word [], Some \<lparr>e_word = 7, e_reladdr = 1, e_size = 1, el_symbol = []\<rparr>, None],
     pd_symbols = [\<lparr>y_name = [76], y_reladdr = 0, y_resolved = True, y_global = True, y_unique = False,
       y_ce = Some (CE_ICI (plain_head\<lparr>ce_deferred := Some 1\<rparr>)), y_next = []\<rparr>],
     pd_defexprs = [], pd_globals = [], pd_relocs = []\<rparr>"

definition set_use :: "nat \<Rightarrow> deferred_expr" where
  "set_use k = \<lparr>d_ce = CE_REF plain_head CE_EXT (Some 0) [], d_dest = k, d_width = 32, d_mult = 1\<rparr>"

end
