(* ===== verification/Tsearch.thy ===== *)
theory Tsearch
  imports Assemble "HOL-Library.Tree"
begin

text \<open>
  The binary search trees of \<^verbatim>\<open>src/ui/web/src/emtsearch.c\<close>, \<open>tsearch\<close> and its family for the web
  builds, at the level of the pointers: nodes in a heap, and the slots that hold pointers to them.
\<close>

section \<open>Nodes and slots\<close>

record 'k tnode =
  datum :: 'k
  lft :: nat
  rgt :: nat

text \<open>The heap, address 0 being NULL, and the variable that \<open>rootp\<close> points to.\<close>

record 'k tstore =
  cells :: "nat \<Rightarrow> 'k tnode option"
  root :: nat

text \<open>A \<open>struct tree **\<close>: the root variable, a field of a node, or \<open>&null_tree_p\<close>.\<close>

datatype slot = Rootp | Left_of nat | Right_of nat | Null_tree_p

definition rd :: "'k tstore \<Rightarrow> slot \<Rightarrow> nat" where
  "rd s q =
     (case q of Rootp \<Rightarrow> root s
      | Left_of a \<Rightarrow> (case cells s a of Some n \<Rightarrow> lft n | None \<Rightarrow> 0)
      | Right_of a \<Rightarrow> (case cells s a of Some n \<Rightarrow> rgt n | None \<Rightarrow> 0)
      | Null_tree_p \<Rightarrow> 0)"

definition wr :: "slot \<Rightarrow> nat \<Rightarrow> 'k tstore \<Rightarrow> 'k tstore" where
  "wr q p s =
     (case q of Rootp \<Rightarrow> s\<lparr>root := p\<rparr>
      | Left_of a \<Rightarrow> s\<lparr>cells := (cells s)(a := map_option (\<lambda>n. n\<lparr>lft := p\<rparr>) (cells s a))\<rparr>
      | Right_of a \<Rightarrow> s\<lparr>cells := (cells s)(a := map_option (\<lambda>n. n\<lparr>rgt := p\<rparr>) (cells s a))\<rparr>
      | Null_tree_p \<Rightarrow> s)"

section \<open>The operations\<close>

text \<open>
  \<open>traverse\<close>: the slot of the key and the variable \<open>*parent\<close>; \<open>fresh\<close> is what \<open>malloc\<close> returns.
\<close>

partial_function (option) traverse ::
  "('k \<Rightarrow> 'k \<Rightarrow> int) \<Rightarrow> 'k \<Rightarrow> bool \<Rightarrow> nat \<Rightarrow> slot \<Rightarrow> nat \<Rightarrow> 'k tstore \<Rightarrow> (slot \<times> nat \<times> 'k tstore) res option" where
  "traverse compar key create fresh rootp parent s =
     (if rd s rootp = 0 then
        if create then
          Some (Inr (rootp, parent,
            wr rootp fresh (s\<lparr>cells := (cells s)(fresh \<mapsto> \<lparr>datum = key, lft = 0, rgt = 0\<rparr>)\<rparr>)))
        else Some (Inr (Null_tree_p, parent, s))
      else case cells s (rd s rootp) of
        None \<Rightarrow> Some (Inl (Undefined ''dangling pointer''))
      | Some p \<Rightarrow>
          let result = compar key (datum p); parent = rd s rootp in
          if result = 0 then Some (Inr (rootp, parent, s))
          else if result < 0 then traverse compar key create fresh (Left_of (rd s rootp)) parent s
          else traverse compar key create fresh (Right_of (rd s rootp)) parent s)"

text \<open>The node found, or NULL.\<close>

definition tfind :: "('k \<Rightarrow> 'k \<Rightarrow> int) \<Rightarrow> 'k \<Rightarrow> 'k tstore \<Rightarrow> nat res option" where
  "tfind compar key s =
     bindO (traverse compar key False 0 Rootp 0 s) (\<lambda>(q, parent, s). Some (Inr (rd s q)))"

definition tsearch :: "('k \<Rightarrow> 'k \<Rightarrow> int) \<Rightarrow> 'k \<Rightarrow> nat \<Rightarrow> 'k tstore \<Rightarrow> (nat \<times> 'k tstore) res option" where
  "tsearch compar key fresh s =
     bindO (traverse compar key True fresh Rootp 0 s) (\<lambda>(q, parent, s). Some (Inr (rd s q, s)))"

text \<open>
  The descent of \<open>tdelete\<close>: \<open>r\<close> moves down the left spine until the left child of its node has no
  left child; the node and its left child are returned.  Reading a field of NULL is undefined.
\<close>

partial_function (option) spine :: "'k tstore \<Rightarrow> nat \<Rightarrow> (nat \<times> nat) res option" where
  "spine s r =
     (let sp = rd s (Left_of r) in
      if rd s (Left_of sp) \<noteq> 0 then spine s sp else Some (Inr (r, sp)))"

definition tdelete :: "('k \<Rightarrow> 'k \<Rightarrow> int) \<Rightarrow> 'k \<Rightarrow> 'k tstore \<Rightarrow> (nat \<times> 'k tstore) res option" where
  "tdelete compar key s =
     bindO (traverse compar key False 0 Rootp 0 s) (\<lambda>(q, parent, s).
       let t = rd s q in
       if t = 0 then Some (Inl (Undefined ''null pointer''))
       else
         let free = (\<lambda>s. s\<lparr>cells := (cells s)(t := None)\<rparr>); l = rd s (Left_of t); r = rd s (Right_of t) in
         if r = 0 then Some (Inr (parent, free (wr q l s)))
         else if rd s (Left_of r) = 0 then Some (Inr (parent, free (wr q r (wr (Left_of r) l s))))
         else bindO (spine s r) (\<lambda>(r', sp).
           let s = wr (Left_of sp) l s;
               s = wr (Left_of r') (rd s (Right_of sp)) s;
               now = rd s (Left_of r')
           in if now = 0 then Some (Inl (Undefined ''null pointer''))
              else Some (Inr (parent, free (wr q now (wr (Right_of now) r s))))))"

text \<open>\<open>twalk\<close>: the visits in order; \<open>tdestroy\<close>: the data that are freed, in order.\<close>

datatype VISIT = preorder | postorder | endorder | leaf

partial_function (option) walk :: "'k tstore \<Rightarrow> nat \<Rightarrow> nat \<Rightarrow> (nat \<times> VISIT \<times> nat) list option" where
  "walk s p level =
     (if p = 0 then Some []
      else if rd s (Left_of p) = 0 \<and> rd s (Right_of p) = 0 then Some [(p, leaf, level)]
      else Option.bind (walk s (rd s (Left_of p)) (level + 1)) (\<lambda>xs.
        Option.bind (walk s (rd s (Right_of p)) (level + 1)) (\<lambda>ys.
          Some ((p, preorder, level) # xs @ (p, postorder, level) # ys @ [(p, endorder, level)]))))"

definition twalk :: "'k tstore \<Rightarrow> (nat \<times> VISIT \<times> nat) list option" where
  "twalk s = walk s (root s) 0"

partial_function (option) tdestroy :: "'k tstore \<Rightarrow> nat \<Rightarrow> nat list option" where
  "tdestroy s p =
     (if p = 0 then Some []
      else Option.bind (tdestroy s (rd s (Left_of p))) (\<lambda>xs.
        Option.bind (tdestroy s (rd s (Right_of p))) (\<lambda>ys. Some (xs @ ys @ [p]))))"

section \<open>The trees they implement\<close>

text \<open>A tree of addresses and data, as the heap holds it from a pointer on.\<close>

fun tree_at :: "'k tstore \<Rightarrow> nat \<Rightarrow> (nat \<times> 'k) tree \<Rightarrow> bool" where
  "tree_at s p Leaf \<longleftrightarrow> p = 0"
| "tree_at s p (Node l (a, x) r) \<longleftrightarrow> p = a \<and> a \<noteq> 0 \<and>
     (\<exists>pl pr. cells s a = Some \<lparr>datum = x, lft = pl, rgt = pr\<rparr> \<and> tree_at s pl l \<and> tree_at s pr r)"

definition addrs :: "(nat \<times> 'k) tree \<Rightarrow> nat set" where
  "addrs t = fst ` set_tree t"

definition holds :: "'k tstore \<Rightarrow> (nat \<times> 'k) tree \<Rightarrow> bool" where
  "holds s t \<longleftrightarrow> tree_at s (root s) t \<and> distinct (map fst (inorder t))"

fun lookup :: "('k \<Rightarrow> 'k \<Rightarrow> int) \<Rightarrow> 'k \<Rightarrow> (nat \<times> 'k) tree \<Rightarrow> nat" where
  "lookup compar key Leaf = 0"
| "lookup compar key (Node l (a, x) r) =
     (if compar key x = 0 then a
      else if compar key x < 0 then lookup compar key l else lookup compar key r)"

fun insert_new :: "('k \<Rightarrow> 'k \<Rightarrow> int) \<Rightarrow> 'k \<Rightarrow> nat \<Rightarrow> (nat \<times> 'k) tree \<Rightarrow> (nat \<times> 'k) tree" where
  "insert_new compar key n Leaf = Node Leaf (n, key) Leaf"
| "insert_new compar key n (Node l (a, x) r) =
     (if compar key x = 0 then Node l (a, x) r
      else if compar key x < 0 then Node (insert_new compar key n l) (a, x) r
      else Node l (a, x) (insert_new compar key n r))"

lemma tree_at_null: "tree_at s 0 t \<longleftrightarrow> t = Leaf"
  by (cases t) auto

lemma traverse_find:
  "tree_at s (rd s q) t \<Longrightarrow>
     \<exists>q' parent'. traverse compar key False n q parent s = Some (Inr (q', parent', s)) \<and>
       rd s q' = lookup compar key t"
proof (induction t arbitrary: q parent)
  case Leaf
  then show ?case by (subst traverse.simps) (auto simp: rd_def [of s Null_tree_p])
next
  case (Node l ax r)
  obtain a x where ax: "ax = (a, x)" by (cases ax)
  from Node.prems obtain pl pr where h: "rd s q = a" "a \<noteq> 0"
    "cells s a = Some \<lparr>datum = x, lft = pl, rgt = pr\<rparr>" "tree_at s pl l" "tree_at s pr r"
    by (auto simp: ax)
  have "rd s (Left_of a) = pl" "rd s (Right_of a) = pr" by (simp_all add: rd_def h(3))
  then show ?case
    using Node.IH(1) [of "Left_of a" a] Node.IH(2) [of "Right_of a" a] h
    by (subst traverse.simps) (auto simp: ax Let_def)
qed

lemma tfind_lookup: "holds s t \<Longrightarrow> tfind compar key s = Some (Inr (lookup compar key t))"
proof -
  assume "holds s t"
  then have "tree_at s (rd s Rootp) t" by (simp add: holds_def rd_def)
  from traverse_find [OF this, of compar key 0 0] show ?thesis by (auto simp: tfind_def)
qed

section \<open>Insertion\<close>

definition slot_node :: "slot \<Rightarrow> nat option" where
  "slot_node q = (case q of Left_of a \<Rightarrow> Some a | Right_of a \<Rightarrow> Some a | _ \<Rightarrow> None)"

lemma cells_wr: "slot_node q \<noteq> Some b \<Longrightarrow> cells (wr q p s) b = cells s b"
  by (auto simp: wr_def slot_node_def split: slot.splits)

lemma root_wr: "q \<noteq> Rootp \<Longrightarrow> root (wr q p s) = root s"
  by (auto simp: wr_def split: slot.split)

lemma addrs_simps [simp]: "addrs Leaf = {}" "addrs (Node l (a, x) r) = insert a (addrs l \<union> addrs r)"
  by (auto simp: addrs_def)

lemma tree_at_cong: "(\<And>b. b \<in> addrs t \<Longrightarrow> cells s' b = cells s b) \<Longrightarrow> tree_at s' p t \<longleftrightarrow> tree_at s p t"
proof (induction t arbitrary: p)
  case (Node l ax r)
  obtain a x where ax: "ax = (a, x)" by (cases ax)
  have "cells s' a = cells s a" "\<And>p. tree_at s' p l \<longleftrightarrow> tree_at s p l" "\<And>p. tree_at s' p r \<longleftrightarrow> tree_at s p r"
    using Node.prems Node.IH unfolding ax addrs_simps by blast+
  then show ?case by (simp add: ax)
qed simp

lemma rd_wr_same:
  "q \<noteq> Null_tree_p \<Longrightarrow> (\<And>b. slot_node q = Some b \<Longrightarrow> cells s b \<noteq> None) \<Longrightarrow> rd (wr q p s) q = p"
  by (auto simp: rd_def wr_def slot_node_def split: slot.splits option.splits)

lemma rd_wr_other:
  "(\<And>b. slot_node q = Some b \<Longrightarrow> slot_node q' \<noteq> Some b) \<Longrightarrow> (q = Rootp \<longrightarrow> q' \<noteq> Rootp) \<Longrightarrow> rd (wr q' p s) q = rd s q"
  by (cases q) (auto simp: rd_def cells_wr root_wr slot_node_def split: slot.splits)

text \<open>A key that is there is found; another one is put in a slot of the tree, or the one above it.\<close>

lemma traverse_insert:
  assumes "tree_at s (rd s q) t" and "distinct (map fst (inorder t))" and "n \<noteq> 0" "n \<notin> addrs t"
    and "q \<noteq> Null_tree_p" and "\<And>b. slot_node q = Some b \<Longrightarrow> cells s b \<noteq> None \<and> b \<noteq> n \<and> b \<notin> addrs t"
  shows "\<exists>q' parent' s'. traverse compar key True n q parent s = Some (Inr (q', parent', s')) \<and>
    (if lookup compar key t \<noteq> 0 then s' = s \<and> rd s q' = lookup compar key t
     else (q' = q \<or> (\<exists>b\<in>addrs t. slot_node q' = Some b)) \<and> rd s' q' = n \<and>
       s' = wr q' n (s\<lparr>cells := (cells s)(n \<mapsto> \<lparr>datum = key, lft = 0, rgt = 0\<rparr>)\<rparr>)) \<and>
    tree_at s' (rd s' q) (insert_new compar key n t)"
  using assms
proof (induction t arbitrary: q parent)
  case Leaf
  let ?s = "s\<lparr>cells := (cells s)(n \<mapsto> \<lparr>datum = key, lft = 0, rgt = 0\<rparr>)\<rparr>"
  have r: "rd (wr q n ?s) q = n" using Leaf.prems(5,6) by (intro rd_wr_same) auto
  have "cells (wr q n ?s) n = Some \<lparr>datum = key, lft = 0, rgt = 0\<rparr>"
    using Leaf.prems(6) by (subst cells_wr) auto
  then have "tree_at (wr q n ?s) (rd (wr q n ?s) q) (Node Leaf (n, key) Leaf)" using r Leaf.prems(3) by simp
  then show ?case using Leaf.prems(1) r by (subst traverse.simps) simp
next
  case (Node l ax r)
  obtain a x where ax: "ax = (a, x)" by (cases ax)
  from Node.prems(1) obtain pl pr where h: "rd s q = a" "a \<noteq> 0"
    "cells s a = Some \<lparr>datum = x, lft = pl, rgt = pr\<rparr>" "tree_at s pl l" "tree_at s pr r"
    by (auto simp: ax)
  have sub: "rd s (Left_of a) = pl" "rd s (Right_of a) = pr" by (simp_all add: rd_def h(3))
  have d: "distinct (map fst (inorder l))" "distinct (map fst (inorder r))" "a \<notin> addrs l" "a \<notin> addrs r"
    "addrs l \<inter> addrs r = {}" "addrs r \<inter> addrs l = {}" "n \<noteq> a" "n \<notin> addrs l" "n \<notin> addrs r"
    using Node.prems(2,4) by (auto simp: ax addrs_def)
  have q: "slot_node q \<noteq> Some a" "\<And>b. slot_node q = Some b \<Longrightarrow> b \<noteq> a \<and> b \<notin> addrs l \<and> b \<notin> addrs r \<and> b \<noteq> n"
    using Node.prems(6) by (auto simp: ax)
  let ?S = "s\<lparr>cells := (cells s)(n \<mapsto> \<lparr>datum = key, lft = 0, rgt = 0\<rparr>)\<rparr>"
  show ?case
  proof (cases "compar key x = 0")
    case True
    then have "traverse compar key True n q parent s = Some (Inr (q, a, s))"
      using h by (subst traverse.simps) simp
    then show ?thesis using True h by (auto simp: ax)
  next
    case False
    have down: "\<exists>q' parent' s'. traverse compar key True n q parent s = Some (Inr (q', parent', s')) \<and>
        (if lookup compar key c \<noteq> 0 then s' = s \<and> rd s q' = lookup compar key c
         else (q' = q \<or> (\<exists>b\<in>addrs (Node l ax r). slot_node q' = Some b)) \<and> rd s' q' = n \<and> s' = wr q' n ?S) \<and>
        rd s' q = a \<and> tree_at s' (rd s' Q) (insert_new compar key n c) \<and> tree_at s' p sib \<and>
        (\<exists>nd. cells s' a = Some nd \<and> datum nd = x \<and> (Q = Left_of a \<longrightarrow> rgt nd = pr) \<and> (Q = Right_of a \<longrightarrow> lft nd = pl))"
      if Q: "slot_node Q = Some a" "Q = Left_of a \<or> Q = Right_of a"
        and step: "traverse compar key True n q parent s = traverse compar key True n Q a s"
        and ih: "\<exists>q' parent' s'. traverse compar key True n Q a s = Some (Inr (q', parent', s')) \<and>
          (if lookup compar key c \<noteq> 0 then s' = s \<and> rd s q' = lookup compar key c
           else (q' = Q \<or> (\<exists>b\<in>addrs c. slot_node q' = Some b)) \<and> rd s' q' = n \<and> s' = wr q' n ?S) \<and>
          tree_at s' (rd s' Q) (insert_new compar key n c)"
        and c: "addrs c \<subseteq> addrs l \<union> addrs r" "a \<notin> addrs c" and o: "tree_at s p sib" "addrs sib \<inter> addrs c = {}"
          "addrs sib \<subseteq> addrs l \<union> addrs r" for Q c p sib
    proof -
      obtain q' parent' s' where s': "traverse compar key True n Q a s = Some (Inr (q', parent', s'))"
        "if lookup compar key c \<noteq> 0 then s' = s \<and> rd s q' = lookup compar key c
           else (q' = Q \<or> (\<exists>b\<in>addrs c. slot_node q' = Some b)) \<and> rd s' q' = n \<and> s' = wr q' n ?S"
        "tree_at s' (rd s' Q) (insert_new compar key n c)"
        using ih by blast
      show ?thesis
      proof (cases "lookup compar key c = 0")
        case False
        then have "s' = s" using s'(2) by simp
        then show ?thesis using s' False step h o(1) by auto
      next
        case True
        then have w: "q' = Q \<or> (\<exists>b\<in>addrs c. slot_node q' = Some b)" "rd s' q' = n" "s' = wr q' n ?S"
          using s'(2) by auto
        then obtain b where b: "slot_node q' = Some b" "b = a \<or> b \<in> addrs c" using Q(1) by auto
        have fr: "cells s' e = cells s e" if "e \<noteq> n" "e \<noteq> b" for e
          using that b(1) by (simp add: w(3) cells_wr)
        have "rd s' q = rd ?S q"
          unfolding w(3) using b q(2) c(1) by (intro rd_wr_other) (auto simp: slot_node_def)
        moreover have "rd ?S q = rd s q"
          using q(2) by (cases q) (auto simp: rd_def slot_node_def)
        moreover have "tree_at s' p sib"
        proof -
          have "e \<noteq> n \<and> e \<noteq> b" if "e \<in> addrs sib" for e using that o(2,3) b(2) d by auto
          then show ?thesis using fr o(1) tree_at_cong [of sib s' s p] by blast
        qed
        moreover have "\<exists>nd. cells s' a = Some nd \<and> datum nd = x \<and> (Q = Left_of a \<longrightarrow> rgt nd = pr) \<and>
            (Q = Right_of a \<longrightarrow> lft nd = pl)"
        proof (cases "b = a")
          case True
          then have "q' = Q" using w(1) b(1) c(2) by auto
          then show ?thesis using Q(2) h(3) d(7) by (auto simp: w(3) wr_def)
        next
          case False
          then show ?thesis using fr [of a] d(7) h(3) by auto
        qed
        moreover have "\<exists>b\<in>addrs (Node l ax r). slot_node q' = Some b" using b c(1) by (auto simp: ax)
        ultimately show ?thesis using s'(1,3) True step w h(1) by auto
      qed
    qed
    show ?thesis
    proof (cases "compar key x < 0")
      case True
      have step: "traverse compar key True n q parent s = traverse compar key True n (Left_of a) a s"
        using True False h by (subst traverse.simps) simp
      have ih: "\<exists>q' parent' s'. traverse compar key True n (Left_of a) a s = Some (Inr (q', parent', s')) \<and>
          (if lookup compar key l \<noteq> 0 then s' = s \<and> rd s q' = lookup compar key l
           else (q' = Left_of a \<or> (\<exists>b\<in>addrs l. slot_node q' = Some b)) \<and> rd s' q' = n \<and> s' = wr q' n ?S) \<and>
          tree_at s' (rd s' (Left_of a)) (insert_new compar key n l)"
        using h d Node.prems(3) by (intro Node.IH(1)) (auto simp: sub slot_node_def)
      from down [OF _ _ step ih, of pr r] obtain q' parent' s' nd where
        "traverse compar key True n q parent s = Some (Inr (q', parent', s'))"
        "if lookup compar key l \<noteq> 0 then s' = s \<and> rd s q' = lookup compar key l
         else (q' = q \<or> (\<exists>b\<in>addrs (Node l ax r). slot_node q' = Some b)) \<and> rd s' q' = n \<and> s' = wr q' n ?S"
        "rd s' q = a" "tree_at s' (rd s' (Left_of a)) (insert_new compar key n l)" "tree_at s' pr r"
        "cells s' a = Some nd" "datum nd = x" "rgt nd = pr"
        using d h(5) by (auto simp: slot_node_def simp del: not_gr_zero)
      then show ?thesis
        using True False h(2) by (intro exI [of _ q'] exI [of _ parent'] exI [of _ s'], cases nd) (auto simp: ax rd_def)
    next
      case right: False
      have step: "traverse compar key True n q parent s = traverse compar key True n (Right_of a) a s"
        using right False h by (subst traverse.simps) simp
      have ih: "\<exists>q' parent' s'. traverse compar key True n (Right_of a) a s = Some (Inr (q', parent', s')) \<and>
          (if lookup compar key r \<noteq> 0 then s' = s \<and> rd s q' = lookup compar key r
           else (q' = Right_of a \<or> (\<exists>b\<in>addrs r. slot_node q' = Some b)) \<and> rd s' q' = n \<and> s' = wr q' n ?S) \<and>
          tree_at s' (rd s' (Right_of a)) (insert_new compar key n r)"
        using h d Node.prems(3) by (intro Node.IH(2)) (auto simp: sub slot_node_def)
      from down [OF _ _ step ih, of pl l] obtain q' parent' s' nd where
        "traverse compar key True n q parent s = Some (Inr (q', parent', s'))"
        "if lookup compar key r \<noteq> 0 then s' = s \<and> rd s q' = lookup compar key r
         else (q' = q \<or> (\<exists>b\<in>addrs (Node l ax r). slot_node q' = Some b)) \<and> rd s' q' = n \<and> s' = wr q' n ?S"
        "rd s' q = a" "tree_at s' (rd s' (Right_of a)) (insert_new compar key n r)" "tree_at s' pl l"
        "cells s' a = Some nd" "datum nd = x" "lft nd = pl"
        using d h(4) by (auto simp: slot_node_def)
      then show ?thesis
        using right False h(2) by (intro exI [of _ q'] exI [of _ parent'] exI [of _ s'], cases nd) (auto simp: ax rd_def)
    qed
  qed
qed

lemma addrs_inorder: "addrs t = set (map fst (inorder t))"
  by (simp add: addrs_def)

lemma inorder_insert:
  "lookup compar key t \<noteq> 0 \<Longrightarrow> insert_new compar key n t = t"
  "lookup compar key t = 0 \<Longrightarrow> 0 \<notin> addrs t \<Longrightarrow> n \<notin> addrs t \<Longrightarrow> distinct (map fst (inorder t)) \<Longrightarrow>
     distinct (map fst (inorder (insert_new compar key n t))) \<and> addrs (insert_new compar key n t) = insert n (addrs t)"
proof (induction compar key n t rule: insert_new.induct)
  case (2 compar key n l a x r)
  {
    case 1
    with 2 show ?case by (auto split: if_splits)
  next
    case 2
    consider "compar key x = 0" | "compar key x < 0" | "0 < compar key x" by linarith
    then show ?case
    proof cases
      case 1
      with 2 show ?thesis by auto
    next
      case c: 2
      then have "distinct (map fst (inorder (insert_new compar key n l))) \<and>
          addrs (insert_new compar key n l) = insert n (addrs l)"
        using "2.IH"(2) 2 by auto
      then show ?thesis using c 2 by (auto simp: addrs_inorder)
    next
      case c: 3
      then have "distinct (map fst (inorder (insert_new compar key n r))) \<and>
          addrs (insert_new compar key n r) = insert n (addrs r)"
        using "2.IH"(4) 2 by auto
      then show ?thesis using c 2 by (auto simp: addrs_inorder)
    qed
  }
qed auto

lemma tree_at_nonzero: "tree_at s p t \<Longrightarrow> 0 \<notin> addrs t"
  by (induction s p t rule: tree_at.induct) auto

lemma tree_at_cells: "tree_at s p t \<Longrightarrow> b \<in> addrs t \<Longrightarrow> cells s b \<noteq> None"
  by (induction s p t rule: tree_at.induct) auto

text \<open>\<open>tsearch\<close> with a fresh node.\<close>

lemma tsearch_inserts:
  assumes "holds s t" and "n \<noteq> 0" and "cells s n = None"
  shows "\<exists>s'. tsearch compar key n s =
      Some (Inr (if lookup compar key t = 0 then n else lookup compar key t, s')) \<and>
    holds s' (insert_new compar key n t) \<and> (\<forall>b. b \<noteq> n \<longrightarrow> cells s b = None \<longrightarrow> cells s' b = None)"
proof -
  have t: "tree_at s (rd s Rootp) t" "distinct (map fst (inorder t))"
    using assms(1) by (simp_all add: holds_def rd_def)
  have n: "n \<notin> addrs t" using tree_at_cells [OF t(1)] assms(3) by blast
  obtain q' parent' s' where s': "traverse compar key True n Rootp 0 s = Some (Inr (q', parent', s'))"
    "if lookup compar key t \<noteq> 0 then s' = s \<and> rd s q' = lookup compar key t
     else (q' = Rootp \<or> (\<exists>b\<in>addrs t. slot_node q' = Some b)) \<and> rd s' q' = n \<and>
       s' = wr q' n (s\<lparr>cells := (cells s)(n \<mapsto> \<lparr>datum = key, lft = 0, rgt = 0\<rparr>)\<rparr>)"
    "tree_at s' (rd s' Rootp) (insert_new compar key n t)"
    using traverse_insert [OF t assms(2) n, of compar key 0] by (auto simp: slot_node_def)
  have "rd s' q' = (if lookup compar key t = 0 then n else lookup compar key t)" using s'(2) by auto
  moreover have "distinct (map fst (inorder (insert_new compar key n t)))"
    using inorder_insert [of compar key t n] tree_at_nonzero [OF t(1)] t(2) n by (cases "lookup compar key t = 0") auto
  moreover have "cells s' b = None" if b: "b \<noteq> n" "cells s b = None" for b
  proof (cases "lookup compar key t = 0")
    case True
    then have "q' = Rootp \<or> (\<exists>e\<in>addrs t. slot_node q' = Some e)"
      and w: "s' = wr q' n (s\<lparr>cells := (cells s)(n \<mapsto> \<lparr>datum = key, lft = 0, rgt = 0\<rparr>)\<rparr>)"
      using s'(2) by auto
    then have "b \<in> addrs t" if "slot_node q' = Some b" using that by (auto simp: slot_node_def)
    then have "slot_node q' \<noteq> Some b" using tree_at_cells [OF t(1)] b(2) by blast
    then show ?thesis using b by (simp add: w cells_wr)
  qed (use s'(2) b in auto)
  ultimately show ?thesis
    using s'(1,3) by (auto simp: tsearch_def holds_def rd_def)
qed

lemma lookup_other: "compar j k \<noteq> 0 \<Longrightarrow> lookup compar j (insert_new compar k n t) = lookup compar j t"
  by (induction compar k n t rule: insert_new.induct) auto

lemma lookup_inserted:
  "compar k k = 0 \<Longrightarrow> 0 \<notin> addrs t \<Longrightarrow>
     lookup compar k (insert_new compar k n t) = (if lookup compar k t = 0 then n else lookup compar k t)"
  by (induction compar k n t rule: insert_new.induct) auto

section \<open>The check for duplicate labels\<close>

text \<open>
  A string is its address and its characters.  The name of the assembler's symbol \<open>k\<close> is the string
  at the address \<open>k\<close>: each symbol has memory of its own for it.
\<close>

type_synonym cstring = "nat \<times> u8 list"

definition strcmp8 :: "u8 list \<Rightarrow> u8 list \<Rightarrow> int" where
  "strcmp8 a b = strcmp (map (\<lambda>x. char_of (unat x)) a) (map (\<lambda>x. char_of (unat x)) b)"

lemma strcmp8_eq_0 [simp]: "strcmp8 a b = 0 \<longleftrightarrow> a = b"
proof -
  have "inj (\<lambda>x :: u8. char_of (unat x) :: char)"
  proof (rule injI)
    fix x y :: u8
    assume "(char_of (unat x) :: char) = char_of (unat y)"
    then have "(of_char (char_of (unat x) :: char) :: nat) = of_char (char_of (unat y) :: char)" by simp
    moreover have "(of_char (char_of (unat z) :: char) :: nat) = unat z" for z :: u8
      using unsigned_less [of z, where ?'a = nat] by simp
    ultimately show "x = y" by (simp add: word_unat_eq_iff)
  qed
  then show ?thesis by (simp add: strcmp8_def inj_map_eq_map)
qed

definition name_cmp :: "cstring \<Rightarrow> cstring \<Rightarrow> int" where
  "name_cmp a b = strcmp8 (snd a) (snd b)"

text \<open>
  The first walk of \<open>check_symbols\<close> in \<^verbatim>\<open>src/asmif.c\<close>.  \<open>search\<close> is \<open>tsearch\<close> with \<open>strcmp\<close>, returning
  what the node it returns points to; \<open>node_at k\<close> is what \<open>malloc\<close> returns for the node of symbol \<open>k\<close>.
  It ends at a name that is not the string the tree has for it.
\<close>

fun check_walk ::
  "(cstring \<Rightarrow> nat \<Rightarrow> 's \<Rightarrow> (cstring \<times> 's) res option) \<Rightarrow> (nat \<Rightarrow> nat) \<Rightarrow> symbol list \<Rightarrow> nat list \<Rightarrow> 's \<Rightarrow>
     (int \<times> 's) res option" where
  "check_walk search node_at ss [] s = Some (Inr (0, s))"
| "check_walk search node_at ss (k # ks) s =
     (if \<not> y_unique (ss ! k) then check_walk search node_at ss ks s
      else bindO (search (k, y_name (ss ! k)) (node_at k) s) (\<lambda>(name, s).
        if fst name \<noteq> k then Some (Inr (1, s)) else check_walk search node_at ss ks s))"

text \<open>
  The second walk: \<open>struct_at k\<close> is what the bytes of the \<open>struct symbol\<close> itself are as a string,
  which is what \<open>tdelete\<close> is given.
\<close>

fun delete_walk ::
  "(cstring \<Rightarrow> 's \<Rightarrow> (nat \<times> 's) res option) \<Rightarrow> ('s \<Rightarrow> nat) \<Rightarrow> (nat \<Rightarrow> cstring) \<Rightarrow> nat list \<Rightarrow> 's \<Rightarrow> 's res option" where
  "delete_walk del tree struct_at [] s = Some (Inr s)"
| "delete_walk del tree struct_at (k # ks) s =
     (if tree s = 0 then Some (Inr s)
      else bindO (del (struct_at k) s) (\<lambda>(_, s). delete_walk del tree struct_at ks s))"

text \<open>\<open>tsearch\<close> of the web build and a read through the pointer it returns; the whole check over it.\<close>

definition web_search :: "cstring \<Rightarrow> nat \<Rightarrow> cstring tstore \<Rightarrow> (cstring \<times> cstring tstore) res option" where
  "web_search key fresh s =
     bindO (tsearch name_cmp key fresh s) (\<lambda>(p, s).
       case cells s p of
         None \<Rightarrow> Some (Inl (Undefined ''dangling pointer''))
       | Some n \<Rightarrow> Some (Inr (datum n, s)))"

definition no_tree :: "'k tstore" where
  "no_tree = \<lparr>cells = (\<lambda>_. None), root = 0\<rparr>"

definition web_check_symbols :: "(nat \<Rightarrow> nat) \<Rightarrow> (nat \<Rightarrow> cstring) \<Rightarrow> symbol list \<Rightarrow> int res option" where
  "web_check_symbols node_at struct_at ss =
     bindO (check_walk web_search node_at ss (sym_order ss) no_tree) (\<lambda>(rc, s).
       bindO (delete_walk (tdelete name_cmp) root struct_at (sym_order ss) s) (\<lambda>_. Some (Inr rc)))"

text \<open>
  The contract of a \<open>tsearch\<close> for strings, as its callers rely on it: \<open>valid\<close> states, addresses that
  are \<open>fresh\<close> in them, and the string that the tree has for each, if any.
\<close>

locale search_contract =
  fixes search :: "cstring \<Rightarrow> nat \<Rightarrow> 's \<Rightarrow> (cstring \<times> 's) res option" and entry :: "cstring \<Rightarrow> 's \<Rightarrow> cstring option"
    and valid :: "'s \<Rightarrow> bool" and fresh :: "nat \<Rightarrow> 's \<Rightarrow> bool"
  assumes search_keeps: "valid s \<Longrightarrow> fresh n s \<Longrightarrow>
      \<exists>s'. search k n s = Some (Inr (case entry k s of None \<Rightarrow> k | Some j \<Rightarrow> j, s')) \<and> valid s' \<and>
        (\<forall>j. entry j s' = (if snd j = snd k \<and> entry k s = None then Some k else entry j s)) \<and>
        (\<forall>m. fresh m s \<longrightarrow> m \<noteq> n \<longrightarrow> fresh m s')"
    and entry_same: "valid s \<Longrightarrow> snd j = snd k \<Longrightarrow> entry j s = entry k s"
begin

text \<open>
  The walk returns what \<open>check_from\<close> does, when the tree has exactly the names that were seen, under
  symbols that are not to be visited again.
\<close>

lemma check_walk_from:
  assumes "valid s" and "\<forall>k\<in>set ks. fresh (node_at k) s" and "inj node_at" and "distinct ks"
    and "\<forall>j. entry j s \<noteq> None \<longleftrightarrow> snd j \<in> set seen" and "\<forall>j k. entry j s = Some k \<longrightarrow> fst k \<notin> set ks"
  shows "\<exists>s'. check_walk search node_at ss ks s = Some (Inr (check_from ss ks seen, s')) \<and> valid s' \<and>
    (\<forall>j. entry j s' \<noteq> None \<longrightarrow> snd j \<in> set seen \<or> (\<exists>k\<in>set ks. y_unique (ss ! k) \<and> snd j = y_name (ss ! k))) \<and>
    (\<forall>k\<in>set ks. y_unique (ss ! k) \<longrightarrow> (\<exists>j. entry j s' \<noteq> None)) \<and>
    ((\<exists>j. entry j s \<noteq> None) \<longrightarrow> (\<exists>j. entry j s' \<noteq> None))"
  using assms
proof (induction ks arbitrary: s seen)
  case (Cons k ks)
  show ?case
  proof (cases "y_unique (ss ! k)")
    case False
    then show ?thesis using Cons.IH [of s seen] Cons.prems by auto
  next
    case u: True
    let ?k = "(k, y_name (ss ! k))"
    obtain s1 where s1: "search ?k (node_at k) s = Some (Inr (case entry ?k s of None \<Rightarrow> ?k | Some j \<Rightarrow> j, s1))" "valid s1"
      "\<And>j. entry j s1 = (if snd j = y_name (ss ! k) \<and> entry ?k s = None then Some ?k else entry j s)"
      "\<And>m. fresh m s \<Longrightarrow> m \<noteq> node_at k \<Longrightarrow> fresh m s1"
      using search_keeps [OF Cons.prems(1), of "node_at k" ?k] Cons.prems(2) by auto
    show ?thesis
    proof (cases "entry ?k s")
      case (Some j)
      then have m: "y_name (ss ! k) \<in> set seen" using Cons.prems(5) [rule_format, of ?k] by simp
      have "fst j \<noteq> k" using Cons.prems(6) [rule_format, OF Some] by auto
      then have w: "check_walk search node_at ss (k # ks) s = Some (Inr (1, s1))" using u s1(1) Some by simp
      have e: "entry i s1 = entry i s" for i using s1(3) Some by simp
      have "check_from ss (k # ks) seen = 1" using u m by simp
      then show ?thesis using w s1(2) Cons.prems(5) Some by (metis e option.distinct(1))
    next
      case None
      then have m: "y_name (ss ! k) \<notin> set seen" using Cons.prems(5) [rule_format, of ?k] by simp
      have e: "entry j s1 = (if snd j = y_name (ss ! k) then Some ?k else entry j s)" for j
        using s1(3) None by simp
      have "fresh (node_at i) s1" if "i \<in> set ks" for i
        using that Cons.prems(2-4) by (intro s1(4)) (auto simp: inj_eq)
      then have fr: "\<forall>i\<in>set ks. fresh (node_at i) s1" by blast
      have en: "\<forall>j. entry j s1 \<noteq> None \<longleftrightarrow> snd j \<in> set (y_name (ss ! k) # seen)"
        using Cons.prems(5) by (simp add: e)
      have ks: "distinct ks" "\<forall>j i. entry j s1 = Some i \<longrightarrow> fst i \<notin> set ks"
        using Cons.prems(4,6) by (auto simp: e split: if_splits)
      from Cons.IH [OF s1(2) fr Cons.prems(3) ks(1) en ks(2)] obtain s2 where s2: "check_walk search node_at ss ks s1 =
          Some (Inr (check_from ss ks (y_name (ss ! k) # seen), s2))" "valid s2"
        "\<forall>j. entry j s2 \<noteq> None \<longrightarrow> snd j \<in> set (y_name (ss ! k) # seen) \<or>
          (\<exists>i\<in>set ks. y_unique (ss ! i) \<and> snd j = y_name (ss ! i))"
        "(\<exists>j. entry j s1 \<noteq> None) \<longrightarrow> (\<exists>j. entry j s2 \<noteq> None)"
        by (elim exE conjE)
      have "entry ?k s1 \<noteq> None" by (simp add: e)
      then have x: "\<exists>j. entry j s2 \<noteq> None" using s2(4) by blast
      have "check_walk search node_at ss (k # ks) s = Some (Inr (check_from ss (k # ks) seen, s2))"
        using u s1(1) None m s2(1) by simp
      then show ?thesis using s2(2) s2(3) x u by (intro exI [of _ s2]) auto
    qed
  qed
qed auto

end

definition web_entry :: "cstring \<Rightarrow> cstring tstore \<Rightarrow> cstring option" where
  "web_entry k s =
     (case tfind name_cmp k s of
        Some (Inr p) \<Rightarrow> if p = 0 then None else map_option datum (cells s p)
      | _ \<Rightarrow> None)"

definition web_valid :: "'k tstore \<Rightarrow> bool" where
  "web_valid s \<longleftrightarrow> (\<exists>t. holds s t)"

definition web_fresh :: "nat \<Rightarrow> 'k tstore \<Rightarrow> bool" where
  "web_fresh n s \<longleftrightarrow> n \<noteq> 0 \<and> cells s n = None"

text \<open>The datum that a tree has for a key.\<close>

fun lookup_datum :: "('k \<Rightarrow> 'k \<Rightarrow> int) \<Rightarrow> 'k \<Rightarrow> (nat \<times> 'k) tree \<Rightarrow> 'k option" where
  "lookup_datum compar key Leaf = None"
| "lookup_datum compar key (Node l (a, x) r) =
     (if compar key x = 0 then Some x
      else if compar key x < 0 then lookup_datum compar key l else lookup_datum compar key r)"

lemma lookup_cell:
  "tree_at s p t \<Longrightarrow>
     (case lookup_datum compar k t of
        None \<Rightarrow> lookup compar k t = 0
      | Some x \<Rightarrow> lookup compar k t \<noteq> 0 \<and> (\<exists>nd. cells s (lookup compar k t) = Some nd \<and> datum nd = x))"
  by (induction s p t rule: tree_at.induct) (auto split: option.splits)

lemma lookup_datum_insert:
  assumes "compar k k = 0" and "\<And>j. compar j k = 0 \<Longrightarrow> compar j = compar k"
  shows "lookup_datum compar j (insert_new compar k n t) =
    (if compar j k = 0 \<and> lookup_datum compar k t = None then Some k else lookup_datum compar j t)"
proof (cases "compar j k = 0")
  case True
  then have "compar j = compar k" by (rule assms(2))
  then show ?thesis using assms(1) by (induction compar k n t rule: insert_new.induct) auto
next
  case False
  then show ?thesis by (induction compar k n t rule: insert_new.induct) auto
qed

lemma web_entry_datum: "holds s t \<Longrightarrow> web_entry k s = lookup_datum name_cmp k t"
  using lookup_cell [of s "root s" t name_cmp k]
  by (auto simp: web_entry_def tfind_lookup holds_def split: option.splits)

lemma lookup_cong_key: "compar j = compar k \<Longrightarrow> lookup compar j t = lookup compar k t"
  by (induction compar j t rule: lookup.induct) auto

interpretation web: search_contract web_search web_entry web_valid web_fresh
proof
  fix s :: "cstring tstore" and n k
  assume "web_valid s" and n: "web_fresh n s"
  then obtain t where t: "holds s t" by (auto simp: web_valid_def)
  obtain s' where s': "tsearch name_cmp k n s =
      Some (Inr (if lookup name_cmp k t = 0 then n else lookup name_cmp k t, s'))"
    "holds s' (insert_new name_cmp k n t)" "\<And>b. b \<noteq> n \<Longrightarrow> cells s b = None \<Longrightarrow> cells s' b = None"
    using tsearch_inserts [OF t, of n name_cmp k] n by (auto simp: web_fresh_def)
  have kk: "name_cmp k k = 0" by (simp add: name_cmp_def)
  have "name_cmp j = name_cmp k" if "name_cmp j k = 0" for j using that by (simp add: name_cmp_def fun_eq_iff)
  then have ins: "lookup_datum name_cmp j (insert_new name_cmp k n t) =
      (if name_cmp j k = 0 \<and> lookup_datum name_cmp k t = None then Some k else lookup_datum name_cmp j t)" for j
    by (rule lookup_datum_insert [of name_cmp k, OF kk])
  have z: "0 \<notin> addrs t" using t tree_at_nonzero by (auto simp: holds_def)
  have e: "web_entry j s' = (if snd j = snd k \<and> web_entry k s = None then Some k else web_entry j s)" for j
    unfolding web_entry_datum [OF t] web_entry_datum [OF s'(2)] ins by (simp add: name_cmp_def)
  have "(if lookup name_cmp k t = 0 then n else lookup name_cmp k t) = lookup name_cmp k (insert_new name_cmp k n t)"
    using z kk by (simp add: lookup_inserted)
  moreover have "tree_at s' (root s') (insert_new name_cmp k n t)" using s'(2) by (simp add: holds_def)
  note c = lookup_cell [OF this, of name_cmp k]
  have "web_search k n s = Some (Inr (case web_entry k s of None \<Rightarrow> k | Some j \<Rightarrow> j, s'))"
    using c e [of k] unfolding web_search_def s'(1) calculation web_entry_datum [OF s'(2)]
    by (auto split: option.splits)
  then show "\<exists>s'. web_search k n s = Some (Inr (case web_entry k s of None \<Rightarrow> k | Some j \<Rightarrow> j, s')) \<and> web_valid s' \<and>
      (\<forall>j. web_entry j s' = (if snd j = snd k \<and> web_entry k s = None then Some k else web_entry j s)) \<and>
      (\<forall>m. web_fresh m s \<longrightarrow> m \<noteq> n \<longrightarrow> web_fresh m s')"
    using e s'(2,3) by (auto simp: web_valid_def web_fresh_def)
next
  fix s :: "cstring tstore" and j k :: cstring
  assume "web_valid s" and "snd j = snd k"
  moreover from this(2) have "name_cmp j = name_cmp k" by (simp add: name_cmp_def fun_eq_iff)
  ultimately have "tfind name_cmp j s = tfind name_cmp k s"
    by (auto simp: web_valid_def tfind_lookup intro!: lookup_cong_key)
  then show "web_entry j s = web_entry k s" by (simp add: web_entry_def)
qed

section \<open>Deletion\<close>

text \<open>A key that is not there: \<open>traverse\<close> returns the slot that holds NULL, and \<open>tdelete\<close> follows it.\<close>

lemma tdelete_missing:
  assumes "holds s t" and "lookup compar key t = 0"
  shows "tdelete compar key s = Some (Inl (Undefined ''null pointer''))"
proof -
  have "tree_at s (rd s Rootp) t" using assms(1) by (simp add: holds_def rd_def)
  from traverse_find [OF this, of compar key 0 0] show ?thesis
    using assms(2) by (auto simp: tdelete_def Let_def)
qed

text \<open>
  The whole check: the first walk gives the verdict, and the second is stopped by the first symbol
  whose \<open>struct\<close> is not a name in the tree.
\<close>

lemma web_walk_verdict:
  assumes "inj node_at" and "\<forall>k. node_at k \<noteq> 0"
  shows "\<exists>s t. check_walk web_search node_at ss (sym_order ss) no_tree = Some (Inr (check_symbols ss, s)) \<and> holds s t \<and>
    (\<forall>j. lookup_datum name_cmp j t \<noteq> None \<longrightarrow> snd j \<in> y_name ` set ss) \<and>
    (t = Leaf \<longleftrightarrow> \<not> (\<exists>y\<in>set ss. y_unique y))"
proof -
  have h: "holds (no_tree :: cstring tstore) Leaf" by (simp add: holds_def no_tree_def)
  have e: "web_entry j no_tree = None" for j by (simp add: web_entry_datum [OF h])
  have o: "set (sym_order ss) = {0..<length ss}" "distinct (sym_order ss)" by (simp_all add: sym_order_def)
  have "\<exists>s'. check_walk web_search node_at ss (sym_order ss) no_tree = Some (Inr (check_from ss (sym_order ss) [], s')) \<and>
      web_valid s' \<and>
      (\<forall>j. web_entry j s' \<noteq> None \<longrightarrow>
        snd j \<in> set [] \<or> (\<exists>k\<in>set (sym_order ss). y_unique (ss ! k) \<and> snd j = y_name (ss ! k))) \<and>
      (\<forall>k\<in>set (sym_order ss). y_unique (ss ! k) \<longrightarrow> (\<exists>j. web_entry j s' \<noteq> None)) \<and>
      ((\<exists>j. web_entry j no_tree \<noteq> None) \<longrightarrow> (\<exists>j. web_entry j s' \<noteq> None))"
  proof (rule web.check_walk_from)
    show "web_valid (no_tree :: cstring tstore)" using h by (auto simp: web_valid_def)
    show "\<forall>k\<in>set (sym_order ss). web_fresh (node_at k) (no_tree :: cstring tstore)"
      using assms(2) by (simp add: web_fresh_def no_tree_def)
  qed (simp_all add: e o assms(1))
  then obtain s where s: "check_walk web_search node_at ss (sym_order ss) no_tree = Some (Inr (check_symbols ss, s))"
    "web_valid s" "\<forall>j. web_entry j s \<noteq> None \<longrightarrow>
      snd j \<in> set [] \<or> (\<exists>k\<in>set (sym_order ss). y_unique (ss ! k) \<and> snd j = y_name (ss ! k))"
    "\<forall>k\<in>set (sym_order ss). y_unique (ss ! k) \<longrightarrow> (\<exists>j. web_entry j s \<noteq> None)"
    unfolding check_symbols_def by (elim exE conjE)
  then obtain t where t: "holds s t" by (auto simp: web_valid_def)
  note d = web_entry_datum [OF t]
  have "\<exists>j. lookup_datum name_cmp j t \<noteq> None" if "t \<noteq> Leaf"
  proof -
    from that obtain l a x r where "t = Node l (a, x) r" by (cases t) auto
    then have "lookup_datum name_cmp x t = Some x" by (simp add: name_cmp_def)
    then show ?thesis by blast
  qed
  moreover have "\<exists>y\<in>set ss. y_unique y" if "lookup_datum name_cmp j t \<noteq> None" for j
    using s(3) that unfolding d o by (fastforce simp: in_set_conv_nth)
  moreover have "t \<noteq> Leaf" if "\<exists>y\<in>set ss. y_unique y"
    using s(4) that unfolding d o by (auto simp: in_set_conv_nth)
  ultimately have "t = Leaf \<longleftrightarrow> \<not> (\<exists>y\<in>set ss. y_unique y)" by blast
  moreover have "snd j \<in> y_name ` set ss" if "lookup_datum name_cmp j t \<noteq> None" for j
    using s(3) that unfolding d o by (fastforce simp: in_set_conv_nth)
  ultimately show ?thesis using s(1) t by blast
qed

lemma web_check_symbols_fails:
  assumes "inj node_at" and "\<forall>k. node_at k \<noteq> 0" and "\<forall>k<length ss. snd (struct_at k) \<notin> y_name ` set ss"
  shows "web_check_symbols node_at struct_at ss =
    (if \<exists>y\<in>set ss. y_unique y then Some (Inl (Undefined ''null pointer'')) else Some (Inr 0))"
proof -
  obtain s t where s: "check_walk web_search node_at ss (sym_order ss) no_tree = Some (Inr (check_symbols ss, s))"
    "holds s t" "\<And>j. lookup_datum name_cmp j t \<noteq> None \<Longrightarrow> snd j \<in> y_name ` set ss"
    "t = Leaf \<longleftrightarrow> \<not> (\<exists>y\<in>set ss. y_unique y)"
    using web_walk_verdict [OF assms(1,2), of ss] by blast
  have r: "tree_at s (root s) t" using s(2) by (simp add: holds_def)
  have o: "set (sym_order ss) = {0..<length ss}" by (simp add: sym_order_def)
  show ?thesis
  proof (cases "t = Leaf")
    case True
    then have "root s = 0" using r by simp
    then have "delete_walk (tdelete name_cmp) root struct_at ks s = Some (Inr s)" for ks by (cases ks) simp_all
    moreover have "check_symbols ss = 0" using True s(4) by (simp add: check_symbols_0 filter_empty_conv)
    ultimately show ?thesis using True s(1,4) by (simp add: web_check_symbols_def)
  next
    case False
    then have u: "\<exists>y\<in>set ss. y_unique y" using s(4) by simp
    then obtain k ks where k: "sym_order ss = k # ks"
      using o by (cases "sym_order ss") auto
    have "k \<in> {0..<length ss}" unfolding o [symmetric] k by simp
    then have "snd (struct_at k) \<notin> y_name ` set ss" using assms(3) by simp
    then have "lookup_datum name_cmp (struct_at k) t = None" using s(3) [of "struct_at k"] by blast
    then have "lookup name_cmp (struct_at k) t = 0" using lookup_cell [OF r, of name_cmp "struct_at k"] by simp
    have "root s \<noteq> 0" using False r tree_at_null by metis
    with tdelete_missing [OF s(2) \<open>lookup name_cmp (struct_at k) t = 0\<close>] have "delete_walk (tdelete name_cmp) root struct_at (sym_order ss) s =
        Some (Inl (Undefined ''null pointer''))"
      by (simp add: k)
    then show ?thesis using u s(1) by (simp add: web_check_symbols_def)
  qed
qed

text \<open>The leftmost node of a tree, and the end of \<open>spine\<close>.\<close>

fun leftmost_right :: "'a tree \<Rightarrow> 'a tree" where
  "leftmost_right (Node Leaf x r) = r"
| "leftmost_right (Node l x r) = leftmost_right l"
| "leftmost_right Leaf = Leaf"

lemma spine_leftmost:
  "tree_at s p (Node l ax r) \<Longrightarrow> l \<noteq> Leaf \<Longrightarrow> distinct (map fst (inorder (Node l ax r))) \<Longrightarrow>
     \<exists>r' sp. spine s p = Some (Inr (r', sp)) \<and> sp \<noteq> 0 \<and> r' \<noteq> sp \<and> sp \<in> addrs l \<and> r' \<in> insert (fst ax) (addrs l) \<and>
       tree_at s (rd s (Right_of sp)) (leftmost_right l)"
proof (induction l arbitrary: p ax r)
  case (Node ll bx lr)
  obtain a x b y where ax: "ax = (a, x)" "bx = (b, y)" by (cases ax, cases bx)
  from Node.prems(1) obtain pr ql qr where h: "p = a" "a \<noteq> 0" "cells s a = Some \<lparr>datum = x, lft = b, rgt = pr\<rparr>"
    "b \<noteq> 0" "cells s b = Some \<lparr>datum = y, lft = ql, rgt = qr\<rparr>" "tree_at s ql ll" "tree_at s qr lr"
    by (auto simp: ax)
  have sp: "rd s (Left_of p) = b" "rd s (Left_of b) = ql" "rd s (Right_of b) = qr"
    by (simp_all add: rd_def h)
  have ne: "a \<noteq> b" using Node.prems(3) by (auto simp: ax)
  show ?case
  proof (cases ll)
    case Leaf
    then have "ql = 0" using h(6) by simp
    then have "spine s p = Some (Inr (p, b))" by (subst spine.simps) (simp add: sp Let_def)
    then show ?thesis using h ne Leaf by (auto simp: ax sp)
  next
    case (Node l2 cx r2)
    then have "ql \<noteq> 0" using h(6) by (cases cx) auto
    then have step: "spine s p = spine s b" by (subst spine.simps) (simp add: sp Let_def)
    have "tree_at s b (Node ll bx lr)" using h by (simp add: ax)
    moreover have "distinct (map fst (inorder (Node ll bx lr)))" using Node.prems(3) by auto
    ultimately obtain r' s2 where "spine s b = Some (Inr (r', s2))" "s2 \<noteq> 0" "r' \<noteq> s2" "s2 \<in> addrs ll"
      "r' \<in> insert b (addrs ll)" "tree_at s (rd s (Right_of s2)) (leftmost_right ll)"
      using Node.IH(1) [of b bx lr] Node by (auto simp: ax)
    then show ?thesis using step Node by (auto simp: ax)
  qed
qed simp

text \<open>
  Deleting the root when the successor is below the right child: \<open>s\<close> points to the field that the
  second assignment overwrites, so that \<open>*s\<close> is the successor's right child by then.  When there is
  none, the third assignment writes through NULL.
\<close>

lemma tdelete_deep:
  assumes "holds s (Node l (a, x) (Node rl bx rr))" and "compar key x = 0" and "rl \<noteq> Leaf"
    and "leftmost_right rl = Leaf"
  shows "tdelete compar key s = Some (Inl (Undefined ''null pointer''))"
proof -
  obtain b y where bx: "bx = (b, y)" by (cases bx)
  have t: "tree_at s (root s) (Node l (a, x) (Node rl bx rr))"
    and d: "distinct (map fst (inorder (Node l (a, x) (Node rl bx rr))))"
    using assms(1) by (simp_all add: holds_def)
  from t obtain pl ql qr where h: "root s = a" "a \<noteq> 0" "cells s a = Some \<lparr>datum = x, lft = pl, rgt = b\<rparr>"
    "b \<noteq> 0" "cells s b = Some \<lparr>datum = y, lft = ql, rgt = qr\<rparr>" "tree_at s ql rl" "tree_at s b (Node rl bx rr)"
    by (auto simp: bx)
  have r: "rd s Rootp = a" "rd s (Left_of a) = pl" "rd s (Right_of a) = b" "rd s (Left_of b) = ql"
    by (simp_all add: rd_def h)
  have "ql \<noteq> 0" using h(6) assms(3) tree_at_null by metis
  have "traverse compar key False 0 Rootp 0 s = Some (Inr (Rootp, a, s))"
    using assms(2) h by (subst traverse.simps) (simp add: r)
  moreover obtain r' sp where sp: "spine s b = Some (Inr (r', sp))" "sp \<noteq> 0" "r' \<noteq> sp" "sp \<in> addrs rl"
    "r' \<in> insert b (addrs rl)" "tree_at s (rd s (Right_of sp)) (leftmost_right rl)"
    using spine_leftmost [OF h(7) assms(3)] d by (auto simp: bx)
  moreover have "rd s (Right_of sp) = 0" using sp(6) assms(4) by simp
  moreover have "r' \<in> addrs (Node rl bx rr)" using sp(5) by (auto simp: bx)
  then have "cells s r' \<noteq> None" by (rule tree_at_cells [OF h(7)])
  moreover have "cells s sp \<noteq> None" using tree_at_cells [OF h(6) sp(4)] .
  ultimately show ?thesis
    using \<open>ql \<noteq> 0\<close> h(2,4) by (auto simp: tdelete_def Let_def r) (auto simp: rd_def wr_def)
qed

end
