(* ===== verification/Plugins.thy ===== *)
theory Plugins
  imports Tsim Formats Expr
begin

text \<open>
  What the tools do around their cores: reading numbers (\<^verbatim>\<open>src/common.c\<close>), finding the
  program's own path (\<^verbatim>\<open>src/os\<close>), and loading plugins named by parameters (\<^verbatim>\<open>src/plugin.c\<close>), with
  the callback by which \<^verbatim>\<open>src/tsim.c\<close> adds a device.  The dynamic linker is an argument.
\<close>

section \<open>common.c\<close>

text \<open>
  \<open>numberise\<close>: each underscore is moved over by what follows it; then \<open>strtoll\<close> in the given base,
  of which the scanner uses 0, 2 and 10.
\<close>

definition strtoll :: "string \<Rightarrow> nat \<Rightarrow> int" where
  "strtoll s radix =
     (let (neg, s) = skip_sign (skip_ws s);
          hex = ((radix = 0 \<or> radix = 16) \<and> skip_0x s \<noteq> s \<and> (\<exists>c. c \<in> set (take 1 (skip_0x s)) \<and> is_xdigit c));
          b = (if radix \<noteq> 0 then radix else if hex then 16 else if take 1 s = ''0'' then 8 else 10);
          ds = takeWhile (\<lambda>c. case xval c of None \<Rightarrow> False | Some v \<Rightarrow> v < b) (if hex then skip_0x s else s);
          n = int (number b ds)
      in max (- (2 ^ 63)) (min (2 ^ 63 - 1) (if neg then - n else n)))"

fun strip_underscores :: "string \<Rightarrow> string" where
  "strip_underscores [] = []"
| "strip_underscores (c # s) = (if c = CHR ''_'' then strip_underscores s else c # strip_underscores s)"

definition numberise :: "string \<Rightarrow> nat \<Rightarrow> int" where
  "numberise str radix = strtoll (strip_underscores str) radix"

section \<open>os/default/findself.c\<close>

text \<open>
  \<open>os_walk_path_search_list\<close> with \<open>walker\<close>: the directories of PATH in order, empty ones skipped, until
  one has a file of the given name.
\<close>

function walk_path :: "(string \<Rightarrow> bool) \<Rightarrow> string \<Rightarrow> string \<Rightarrow> string option" where
  "walk_path access argv0 pathstr =
     (if pathstr = [] then None
      else
        let len = length (takeWhile (\<lambda>c. c \<noteq> CHR '':'') pathstr) in
        if len = 0 then walk_path access argv0 (tl pathstr)
        else
          let buf = take len pathstr @ ''/'' @ argv0 in
          if access buf then Some buf else walk_path access argv0 (drop len pathstr))"
  by pat_completeness auto
termination
  by (relation "measure (\<lambda>(access, argv0, p). length p)") (auto simp: length_greater_0_conv)

declare walk_path.simps [simp del]

definition os_find_self :: "(string \<Rightarrow> bool) \<Rightarrow> string option \<Rightarrow> string \<Rightarrow> string" where
  "os_find_self access path argv0 =
     (case path of None \<Rightarrow> argv0
      | Some p \<Rightarrow> (case walk_path access argv0 p of Some buf \<Rightarrow> buf | None \<Rightarrow> argv0))"

text \<open>
  The other systems (\<^verbatim>\<open>os/Linux\<close>, \<^verbatim>\<open>os/Darwin\<close>, \<^verbatim>\<open>os/Win32\<close>): one call that fills a buffer, given by its
  result and what it wrote.  The buffer is returned whole; \<open>readlink\<close> does not end it with a NUL.
\<close>

definition filled_buffer :: "nat \<Rightarrow> string \<Rightarrow> (nat \<Rightarrow> char) \<Rightarrow> string" where
  "filled_buffer len s junk = take len s @ map junk [length (take len s)..<len]"

definition os_find_self_linux :: "(nat \<Rightarrow> int \<times> string) \<Rightarrow> (nat \<Rightarrow> char) \<Rightarrow> string option" where
  "os_find_self_linux readlink junk =
     (case readlink 4096 of (used, s) \<Rightarrow>
       if uint (word_of_int used :: u64) < 4096 then Some (filled_buffer 4096 s junk) else None)"

definition os_find_self_other :: "nat \<Rightarrow> (nat \<Rightarrow> int \<times> string) \<Rightarrow> (nat \<Rightarrow> char) \<Rightarrow> string option" where
  "os_find_self_other len ask junk =
     (case ask len of (n, s) \<Rightarrow> if n > 0 then Some (filled_buffer len s junk) else None)"

lemma find_self_unterminated:
  assumes "readlink 4096 = (int (length s), s)" and "length s < 4096" and "CHR 0x00 \<notin> set s"
    and "\<forall>n. junk n \<noteq> CHR 0x00"
  shows "\<exists>buf. os_find_self_linux readlink junk = Some buf \<and> CHR 0x00 \<notin> set buf"
proof -
  have "uint (word_of_int (int (length s)) :: u64) = int (length s)"
    using assms(2) by (intro word_of_int_inverse [OF refl]) simp_all
  then show ?thesis using assms by (auto simp: os_find_self_linux_def filled_buffer_def min_def)
qed

text \<open>The directories of a search path.\<close>

lemma walk_path_dir:
  assumes "d \<noteq> []" and "CHR '':'' \<notin> set d"
  shows "walk_path access argv0 (d @ CHR '':'' # p) =
    (if access (d @ ''/'' @ argv0) then Some (d @ ''/'' @ argv0) else walk_path access argv0 p)"
proof -
  have "takeWhile (\<lambda>c. c \<noteq> CHR '':'') (d @ CHR '':'' # p) = d"
    using assms(2) by (subst takeWhile_append2) auto
  moreover have "walk_path access argv0 (CHR '':'' # p) = walk_path access argv0 p"
    by (subst walk_path.simps) simp
  ultimately show ?thesis using assms(1) by (subst walk_path.simps) (simp add: Let_def)
qed

lemma walk_path_found:
  assumes "\<forall>d\<in>set ds. d \<noteq> [] \<and> CHR '':'' \<notin> set d"
  shows "walk_path access argv0 (concat (map (\<lambda>d. d @ '':'') ds)) =
    map_option (\<lambda>d. d @ ''/'' @ argv0) (List.find (\<lambda>d. access (d @ ''/'' @ argv0)) ds)"
  using assms
proof (induction ds)
  case Nil
  then show ?case by (simp add: walk_path.simps)
next
  case (Cons d ds)
  then show ?case using walk_path_dir [of d access argv0] by simp
qed

section \<open>plugin.c\<close>

text \<open>
  The search paths may be NULL.  The dynamic linker: \<open>dlopen\<close>, None for a library that cannot be opened, and what an implementation's
  \<open>tenyr_plugin_init\<close> and the caller's \<open>success\<close> do to the state.  \<open>None\<close> as a handle is
  \<open>RTLD_DEFAULT\<close>.
\<close>

definition decimal :: "nat \<Rightarrow> string" where "decimal n = digits 10 n"

definition parent_key :: "string \<Rightarrow> nat \<Rightarrow> string" where
  "parent_key plug inst = take 255 (plug @ ''['' @ decimal inst @ '']'')"

definition stem_key :: "string \<Rightarrow> nat \<Rightarrow> string" where
  "stem_key plug inst = take 255 (plug @ ''['' @ decimal inst @ ''].stem'')"

fun open_library :: "(string \<Rightarrow> 'h option) \<Rightarrow> string \<Rightarrow> string \<Rightarrow> string list \<Rightarrow> 'h option res" where
  "open_library dlopen basepath implpath [] = Inr None"
| "open_library dlopen basepath implpath (p # ps) =
     bindE (build_path basepath (p @ implpath)) (\<lambda>resolved.
       case dlopen resolved of Some h \<Rightarrow> Inr (Some h) | None \<Rightarrow> open_library dlopen basepath implpath ps)"

definition load_impl ::
  "(string \<Rightarrow> nat \<Rightarrow> nat \<times> string list) \<Rightarrow> (string \<Rightarrow> 'h option) \<Rightarrow>
     ('h option \<Rightarrow> nat \<Rightarrow> string \<Rightarrow> string option \<Rightarrow> 's \<Rightarrow> 's res) \<Rightarrow>
     string \<Rightarrow> string list option \<Rightarrow> string \<Rightarrow> nat \<Rightarrow> string \<Rightarrow> 's \<Rightarrow> 's res" where
  "load_impl pget dlopen success basepath paths plug inst implname ud =
     (let implstem = (case pget (stem_key plug inst) 1 of (n, v # _) \<Rightarrow> Some v | _ \<Rightarrow> None);
          (implpath, implstem) =
            (if CHR ''/'' \<in> set implname then (implname, implstem)
             else (take 255 (''./libtenyr'' @ implname @ ''.so''),
                   case implstem of None \<Rightarrow> Some implname | Some s \<Rightarrow> Some s))
      in bindE (case paths of None \<Rightarrow> Inl (Undefined ''null paths'') | Some ps \<Rightarrow> open_library dlopen basepath implpath ps)
           (\<lambda>libhandle.
           success libhandle inst (parent_key plug inst) implstem ud))"

text \<open>
  The loop over the instances.  More names than the array holds are reported, and then read past its
  end.
\<close>

partial_function (option) plugin_load_from ::
  "(string \<Rightarrow> nat \<Rightarrow> nat \<times> string list) \<Rightarrow> (string \<Rightarrow> 'h option) \<Rightarrow>
     ('h option \<Rightarrow> nat \<Rightarrow> string \<Rightarrow> string option \<Rightarrow> 's \<Rightarrow> 's res) \<Rightarrow>
     string \<Rightarrow> string list option \<Rightarrow> string \<Rightarrow> nat \<Rightarrow> 's \<Rightarrow> (int \<times> 's) res option" where
  "plugin_load_from pget dlopen success basepath paths plug inst ud =
     (let (count, impls) = pget (parent_key plug inst) 16 in
      if count = 0 then Some (Inr (0, ud))
      else bindO (Some (foldE (load_impl pget dlopen success basepath paths plug inst) impls ud)) (\<lambda>ud.
        if count > 16 then Some (Inl (Undefined ''read past the names''))
        else plugin_load_from pget dlopen success basepath paths plug (inst + 1) ud))"

definition plugin_load_all where
  "plugin_load_all pget dlopen success basepath paths plug ud =
     plugin_load_from pget dlopen success basepath paths plug 0 ud"

text \<open>
  \<open>plugin_success\<close> of the simulator: the device that the library's function of the stem's name sets
  up, in the next slot of the table.  A stem that is NULL is printed by \<open>%s\<close>.
\<close>

definition plugin_success ::
  "('h option \<Rightarrow> string \<Rightarrow> 'c device option) \<Rightarrow> 'h option \<Rightarrow> nat \<Rightarrow> string \<Rightarrow> string option \<Rightarrow> 'c bus option \<Rightarrow>
     'c bus option res" where
  "plugin_success dlsym libhandle inst parent implstem b =
     (case implstem of
        None \<Rightarrow> Inl (Undefined ''null string'')
      | Some stem \<Rightarrow>
          (case dlsym libhandle (take 127 (stem @ ''_add_device'')) of
             None \<Rightarrow> Inr b
           | Some d \<Rightarrow> (case b of None \<Rightarrow> Inr None | Some b \<Rightarrow>
               (case next_device None b of
                  None \<Rightarrow> Inr None
                | Some (index, b) \<Rightarrow> bindE (put_device index d b) (\<lambda>b. Inr (Some b))))))"

text \<open>Without parameters there is nothing to load.\<close>

lemma plugin_load_none:
  "fst (pget (parent_key plug 0) 16) = 0 \<Longrightarrow>
     plugin_load_all pget dlopen success basepath paths plug ud = Some (Inr (0, ud))"
  by (subst plugin_load_all_def, subst plugin_load_from.simps) (auto split: prod.split)

text \<open>The libraries are tried in the order of the paths.\<close>

lemma open_library_first:
  assumes "CHR ''%'' \<notin> set (dir_of basepath)"
  shows "open_library dlopen basepath implpath ps =
    Inr (case List.find (\<lambda>p. dlopen (dir_of basepath @ p @ implpath) \<noteq> None) ps of
           None \<Rightarrow> None | Some p \<Rightarrow> dlopen (dir_of basepath @ p @ implpath))"
  using assms by (induction ps) (auto simp: build_path_def split: option.split)

text \<open>Seventeen names.\<close>

lemma plugin_load_overrun:
  assumes "fst (pget (parent_key plug inst) 16) > 16"
    and "foldE (load_impl pget dlopen success basepath paths plug inst)
      (snd (pget (parent_key plug inst) 16)) ud = Inr ud'"
  shows "plugin_load_from pget dlopen success basepath paths plug inst ud =
    Some (Inl (Undefined ''read past the names''))"
  using assms by (subst plugin_load_from.simps) (auto split: prod.split)

end
