(* ===== verification/Drivers.thy ===== *)
theory Drivers
  imports Plugins Build Pipeline
begin

unbundle bit_operations_syntax

text \<open>
  The \<open>main\<close> functions of \<^verbatim>\<open>src/tsim.c\<close>, \<^verbatim>\<open>src/tas.c\<close> and \<^verbatim>\<open>src/tld.c\<close>: options, options files, the
  choice of a format, and the order in which the parts are run.  \<open>getopt_long\<close> is an argument, as the
  options it finds in an argument vector, a character and an argument each; so are the files.

  A \<open>main\<close> that ends is its exit code and output; one that leaves through \<open>fatal\<close> returns
  \<open>EXIT_FAILURE\<close>, and is the fault here.
\<close>

section \<open>The outside of a program\<close>

record host =
  getopt :: "string list \<Rightarrow> (char \<times> string) list"
  files :: "string \<Rightarrow> u8 list option"
  stdin_bytes :: "u8 list"
  self_path :: string
  argv0 :: string
  build_name :: string

definition chars :: "u8 list \<Rightarrow> string" where
  "chars = map (\<lambda>b. char_of (unat b))"

definition open_input :: "host \<Rightarrow> string \<Rightarrow> u8 list res" where
  "open_input h name =
     (if name = ''-'' then Inr (stdin_bytes h)
      else case files h name of
        None \<Rightarrow> Inl (Fatal ''Failed to open input file'')
      | Some bs \<Rightarrow> Inr bs)"

section \<open>tsim: options\<close>

record tsim_conf =
  t_verbose :: nat
  t_debugging :: bool
  t_params :: "string param_state"
  t_start_addr :: u32
  t_load_addr :: u32
  t_fmt :: nat
  t_sim :: sim_state

definition tsim_conf_default :: tsim_conf where
  "tsim_conf_default = \<lparr>t_verbose = 0, t_debugging = False, t_params = param_init,
     t_start_addr = RAM_BASE, t_load_addr = RAM_BASE, t_fmt = 0,
     t_sim = \<lparr>run_defaults = True, recipes = [], plugins_loaded = False, jit_selected = False,
       sim_bus = devices_setup\<rparr>\<rparr>"

definition tsim_version :: "host \<Rightarrow> string" where "tsim_version h = ''tsim version '' @ build_name h"

definition tsim_usage :: "host \<Rightarrow> string" where
  "tsim_usage h =
     ''Usage: '' @ argv0 h @ '' [ OPTIONS ] image-file'' @ newline @
     ''Options:'' @ newline @
     ''  -@, --options=X       use options from file X'' @ newline @
     ''  -a, --address=N       load instructions into memory at word address N'' @ newline @
     ''  -f, --format=F        select input format ('' @
       snd (make_format_list None format_names 256 '', '' 0 []) @ '')'' @ newline @
     ''  -n, --scratch         don't run default recipes'' @ newline @
     ''  -p, --param=X=Y       set parameter X to value Y'' @ newline @
     ''  -r, --recipe=R        run recipe R (see list below)'' @ newline @
     ''  -s, --start=N         start execution at word address N'' @ newline @
     ''  -v, --verbose         increase verbosity of output'' @ newline @ newline @
     ''  -h, --help            display this message'' @ newline @
     ''  -V, --version         print the string `'' @ tsim_version h @ [CHR 0x27] @ newline @ newline @
     ''Available recipes:'' @ newline @
     ''  prealloc: preallocate memory (higher memory footprint, maybe faster)'' @ newline @
     ''  sparse: use sparse memory (lower memory footprint, maybe slower)'' @ newline @
     ''  serial: enable simple serial device and connect to stdio'' @ newline @
     ''  plugin: load plugins specified through param mechanism'' @ newline @
     ''  jit: use a JIT compiler (usually faster, but no -v supported)'' @ newline @
     ''Default recipes:'' @ newline @
     ''  sparse serial plugin '' @ newline"

text \<open>One option other than \<open>-@\<close>; \<open>param_add\<close>'s result is not looked at.\<close>

definition parse_arg :: "host \<Rightarrow> char \<Rightarrow> string \<Rightarrow> tsim_conf \<Rightarrow> tsim_conf res option" where
  "parse_arg h ch optarg s =
     (if ch = CHR ''a'' then Some (Inr (s\<lparr>t_load_addr := word_of_int (strtol optarg)\<rparr>))
      else if ch = CHR ''d'' then Some (Inr (s\<lparr>t_debugging := True\<rparr>))
      else if ch = CHR ''f'' then
        (case find_format optarg of
           (False, Some k) \<Rightarrow> Some (Inr (s\<lparr>t_fmt := k\<rparr>))
         | _ \<Rightarrow> Some (Inl (Exit 1 (tsim_usage h))))
      else if ch = CHR ''n'' then Some (Inr (s\<lparr>t_sim := (t_sim s)\<lparr>run_defaults := False\<rparr>\<rparr>))
      else if ch = CHR ''p'' then
        (case param_add id (t_params s) optarg of
           Inl e \<Rightarrow> Some (Inl e)
         | Inr None \<Rightarrow> None
         | Inr (Some (rc, p)) \<Rightarrow> Some (Inr (s\<lparr>t_params := p\<rparr>)))
      else if ch = CHR ''r'' then
        (case add_recipe optarg (t_sim s) of (rc, sim) \<Rightarrow>
           if rc \<noteq> 0 then Some (Inl (Exit 1 (tsim_usage h))) else Some (Inr (s\<lparr>t_sim := sim\<rparr>)))
      else if ch = CHR ''s'' then Some (Inr (s\<lparr>t_start_addr := word_of_int (strtol optarg)\<rparr>))
      else if ch = CHR ''v'' then Some (Inr (s\<lparr>t_verbose := t_verbose s + 1\<rparr>))
      else if ch = CHR ''V'' then Some (Inl (Exit 0 (tsim_version h @ newline)))
      else if ch = CHR ''h'' then Some (Inl (Exit 0 (tsim_usage h)))
      else Some (Inl (Exit 1 (tsim_usage h))))"

text \<open>
  The lines \<open>fgets\<close> delivers into a buffer of 1024 bytes, and the string in it without its newline.
  A line that begins with NUL makes the code look at the byte before the buffer.
\<close>

function fgets_all :: "string \<Rightarrow> string list" where
  "fgets_all s =
     (if s = [] then []
      else
        let pre = takeWhile (\<lambda>c. c \<noteq> CHR 0x0A) s;
            line = take 1023 (if length pre < length s then pre @ [CHR 0x0A] else pre)
        in line # fgets_all (drop (length line) s))"
  by pat_completeness auto
termination
proof (relation "measure length")
  fix s :: string and pre line :: string
  assume *: "s \<noteq> []" "pre = takeWhile (\<lambda>c. c \<noteq> CHR 0x0A) s"
    "line = take 1023 (if length pre < length s then pre @ [CHR 0x0A] else pre)"
  have "length pre \<le> length s" using *(2) by (simp add: length_takeWhile_le)
  then have "0 < length line" using *(1,3) by (cases "length pre < length s") auto
  then show "(drop (length line) s, s) \<in> measure length" using *(1) by simp
qed simp

declare fgets_all.simps [simp del]

definition trim_line :: "string \<Rightarrow> string res" where
  "trim_line buf =
     (let b = takeWhile (\<lambda>c. c \<noteq> CHR 0x00) buf in
      if b = [] then Inl (Undefined ''read before the buffer'')
      else Inr (if last b = CHR 0x0A then butlast b else b))"

definition open_opts_file :: "host \<Rightarrow> string \<Rightarrow> string res" where
  "open_opts_file h filename =
     (case files h filename of
        Some bs \<Rightarrow> Inr (chars bs)
      | None \<Rightarrow> bindE (build_path (self_path h) (''../share/tenyr/'' @ filename)) (\<lambda>b.
          case files h b of Some bs \<Rightarrow> Inr (chars bs) | None \<Rightarrow> Inl (Fatal ''Options file not found'')))"

lemma foldO_mono [partial_function_mono]:
  assumes "\<And>x s. mono_option (\<lambda>f. C f x s)"
  shows "mono_option (\<lambda>f. foldO (C f) xs s)"
proof (induction xs arbitrary: s)
  case (Cons x xs)
  show ?case using bindO_mono [OF assms Cons] by simp
qed (simp add: option.const_mono)

text \<open>
  \<open>parse_args\<close> with \<open>parse_opts_file\<close>: each line of an options file is one argument.  A file may name
  itself, and the parse then never ends.
\<close>

partial_function (option) parse_args :: "host \<Rightarrow> (char \<times> string) list \<Rightarrow> tsim_conf \<Rightarrow> tsim_conf res option" where
  "parse_args h opts s =
     foldO (\<lambda>o1 s.
       if fst o1 = CHR ''@'' then
         bindO (Some (open_opts_file h (snd o1))) (\<lambda>text.
           foldO (\<lambda>line s. bindO (Some (trim_line line)) (\<lambda>b. parse_args h (getopt h [b]) s)) (fgets_all text) s)
       else parse_arg h (fst o1) (snd o1) s) opts s"

section \<open>tsim: main\<close>

text \<open>
  From the load to the end; \<open>run\<close> is what \<open>run_sim\<close> points to, \<open>interp_run_sim\<close> or a function of the
  JIT's library.
\<close>

definition load_then ::
  "(u32, cookie device option) searcher \<Rightarrow> (cookie bus machine \<Rightarrow> (int \<times> cookie bus machine) res option) \<Rightarrow>
     'u in_fun \<Rightarrow> 'u \<Rightarrow> element \<Rightarrow> tsim_conf \<Rightarrow> cookie bus \<Rightarrow> (int \<times> cookie bus machine) res option" where
  "load_then bs run f_in ud i s b =
     bindO (load_sim (dispatch_op bs) f_in (t_load_addr s) ud i b) (\<lambda>(rc, b).
       if rc \<noteq> 0 then Some (Inl (Fatal ''Error while loading state into simulation''))
       else bindO (run (start_machine (t_start_addr s) b)) (\<lambda>(rc, m).
         Some (bindE (devices_teardown (world m)) (\<lambda>(_, b). Inr (0, m\<lparr>world := b\<rparr>)))))"

lemma load_then_interp:
  "load_then bs (interp_run_sim (dispatch_op bs) junk (tsim_ops devices_dispatch_cycle)) f_in ud i s b =
     load_and_run bs junk f_in ud i (t_load_addr s) (t_start_addr s) b"
  by (auto simp: load_then_def load_and_run_def bindO_def split: option.split sum.split)

definition run_format ::
  "(u32, cookie device option) searcher \<Rightarrow> (cookie bus machine \<Rightarrow> (int \<times> cookie bus machine) res option) \<Rightarrow>
     bool \<Rightarrow> u32 \<Rightarrow> element \<Rightarrow> u8 list \<Rightarrow> tsim_conf \<Rightarrow> cookie bus \<Rightarrow> (int \<times> cookie bus machine) res option" where
  "run_format bs run little junk i bytes s b =
     (if t_fmt s = 0 then
        bindO (Some (obj_init little (Some (Some 0)) \<lparr>pos = 0, rest = bytes, seekable = True\<rparr>)) (\<lambda>(rc, ud, f).
          if rc \<noteq> 0 then Some (Inl (Fatal ''Error during initialisation for format''))
          else load_then bs run obj_in ud i s b)
      else if t_fmt s = 1 then load_then bs run (raw_in little junk) (gen_init bytes) i s b
      else if t_fmt s = 2 then load_then bs run text_in (text_init (chars bytes)) i s b
      else load_then bs run memh_in (memh_init (t_params s) (chars bytes)) i s b)"

text \<open>
  \<open>main\<close> to \<open>devices_teardown\<close>.  The parameter \<open>assembling\<close> that it sets to 0 is what \<open>obj_init\<close>
  finds.
\<close>

definition tsim_main ::
  "host \<Rightarrow> outside \<Rightarrow> cookie device option sorter \<Rightarrow> (u32, cookie device option) searcher \<Rightarrow>
     (cookie bus machine \<Rightarrow> (int \<times> cookie bus machine) res option) \<Rightarrow> bool \<Rightarrow> u32 \<Rightarrow> element \<Rightarrow>
     (char \<times> string) list \<Rightarrow> string list \<Rightarrow> (int \<times> cookie bus machine) res option" where
  "tsim_main h out qs bs jit little junk i opts names =
     bindO (Some (build_path (self_path h) ''../share/tenyr'')) (\<lambda>share.
       case param_set param_init ''paths.share'' share False of
         None \<Rightarrow> None
       | Some (rc, p) \<Rightarrow>
         bindO (parse_args h opts (tsim_conf_default\<lparr>t_params := p\<rparr>)) (\<lambda>s.
           case names of
             [] \<Rightarrow> Some (Inl (Fatal ''No input files specified on the command line''))
           | name # others \<Rightarrow>
             if others \<noteq> [] then Some (Inl (Fatal ''More than one input file specified on the command line''))
             else bindO (Some (open_input h name)) (\<lambda>bytes.
               bindO (boot qs out (t_sim s)) (\<lambda>sim.
                 run_format bs
                   (if jit_selected sim then jit
                    else interp_run_sim (dispatch_op bs) junk (tsim_ops devices_dispatch_cycle))
                   little junk i bytes s (sim_bus sim)))))"

lemma parse_args_fold:
  "parse_args h opts = foldO (\<lambda>o1 s.
       if fst o1 = CHR ''@'' then
         bindO (Some (open_opts_file h (snd o1))) (\<lambda>text.
           foldO (\<lambda>line s. bindO (Some (trim_line line)) (\<lambda>b. parse_args h (getopt h [b]) s)) (fgets_all text) s)
       else parse_arg h (fst o1) (snd o1) s) opts"
  by (rule ext) (rule parse_args.simps)

lemma parse_args_Nil [simp]: "parse_args h [] s = Some (Inr s)"
  by (subst parse_args.simps) simp

lemma parse_args_plain:
  "ch \<noteq> CHR ''@'' \<Longrightarrow> parse_args h ((ch, arg) # opts) s = bindO (parse_arg h ch arg s) (parse_args h opts)"
proof -
  assume *: "ch \<noteq> CHR ''@''"
  show ?thesis
    unfolding parse_args_fold [of h "(ch, arg) # opts"] parse_args_fold [of h opts] using * by simp
qed

section \<open>tas\<close>

definition tas_version :: "host \<Rightarrow> string" where "tas_version h = ''tas version '' @ build_name h"

definition tas_usage :: "host \<Rightarrow> string" where
  "tas_usage h =
     ''Usage: '' @ argv0 h @ '' [ OPTIONS ] file [ file ... ] '' @ newline @
     ''Options:'' @ newline @
     ''  -d, --disassemble     disassemble (default is to assemble)'' @ newline @
     ''  -f, --format=F        select output format ('' @
       snd (make_format_list None format_names 256 '', '' 0 []) @ '')'' @ newline @
     ''  -o, --output=X        write output to filename X'' @ newline @
     ''  -q, --quiet           disable disassembly output comments'' @ newline @
     ''  -v, --verbose         disable simplified disassembly output'' @ newline @
     ''  -h, --help            display this message'' @ newline @
     ''  -V, --version         print the string `'' @ tas_version h @ [CHR 0x27] @ newline"

text \<open>\<open>a_out\<close> is the name given with \<open>-o\<close>, None for the standard output.\<close>

record tas_conf =
  a_disassemble :: bool
  a_flags :: nat
  a_fmt :: nat
  a_out :: "string option"
  a_params :: "string param_state"

definition tas_arg :: "host \<Rightarrow> char \<Rightarrow> string \<Rightarrow> tas_conf \<Rightarrow> tas_conf res option" where
  "tas_arg h ch optarg s =
     (if ch = CHR ''d'' then Some (Inr (s\<lparr>a_disassemble := True\<rparr>))
      else if ch = CHR ''f'' then
        (case find_format optarg of
           (False, Some k) \<Rightarrow> Some (Inr (s\<lparr>a_fmt := k\<rparr>))
         | _ \<Rightarrow> Some (Inl (Exit 1 (tas_usage h))))
      else if ch = CHR ''o'' then Some (Inr (s\<lparr>a_out := Some optarg\<rparr>))
      else if ch = CHR ''p'' then
        (case param_add id (a_params s) optarg of
           Inl e \<Rightarrow> Some (Inl e)
         | Inr None \<Rightarrow> None
         | Inr (Some (rc, p)) \<Rightarrow> Some (Inr (s\<lparr>a_params := p\<rparr>)))
      else if ch = CHR ''q'' then Some (Inr (s\<lparr>a_flags := a_flags s OR ASM_QUIET\<rparr>))
      else if ch = CHR ''v'' then Some (Inr (s\<lparr>a_flags := a_flags s OR ASM_VERBOSE\<rparr>))
      else if ch = CHR ''V'' then Some (Inl (Exit 0 (tas_version h @ newline)))
      else Some (Inl (Exit 1 (tas_usage h))))"

definition bytes_of :: "string \<Rightarrow> u8 list" where
  "bytes_of = map of_char"

text \<open>One input file: what goes to the output, and the result code.\<close>

definition tas_disassemble :: "bool \<Rightarrow> u32 \<Rightarrow> element \<Rightarrow> tas_conf \<Rightarrow> u8 list \<Rightarrow> (int \<times> u8 list) res option" where
  "tas_disassemble little junk i s bytes =
     bindO (if a_fmt s = 0 then
         bindO (Some (obj_init little (Some (Some 0)) \<lparr>pos = 0, rest = bytes, seekable = True\<rparr>)) (\<lambda>(rc, ud, f).
           if rc \<noteq> 0 then Some (Inl (Fatal ''Error during initialisation for format''))
           else do_disassembly obj_in (Some obj_err) ud i (a_flags s) [])
       else if a_fmt s = 1 then do_disassembly (raw_in little junk) None (gen_init bytes) i (a_flags s) []
       else if a_fmt s = 2 then do_disassembly text_in None (text_init (chars bytes)) i (a_flags s) []
       else do_disassembly memh_in None (memh_init (a_params s) (chars bytes)) i (a_flags s) [])
     (\<lambda>(rc, text). Some (Inr (rc, bytes_of text)))"

definition obj_format :: "bool \<Rightarrow> (nat \<Rightarrow> u32) \<Rightarrow> u8 list \<Rightarrow> obj_fdata out_format" where
  "obj_format little heap after = \<lparr>f_out = obj_out little heap, f_sym = Some (obj_sym after), f_reloc = Some obj_reloc\<rparr>"

definition raw_format :: "bool \<Rightarrow> raw_state out_format" where
  "raw_format little = \<lparr>f_out = (\<lambda>e u. Some (Inr (raw_out little e u))), f_sym = None, f_reloc = None\<rparr>"

definition memh_format :: "memh_state out_format" where
  "memh_format = \<lparr>f_out = (\<lambda>e u. Some (Inr (memh_out e u))), f_sym = None, f_reloc = None\<rparr>"

definition tas_assemble ::
  "(u8 list \<Rightarrow> parse_data \<Rightarrow> (int \<times> parse_data) res option) \<Rightarrow> bool \<Rightarrow> u32 \<Rightarrow> (nat \<Rightarrow> u32) \<Rightarrow> u8 list \<Rightarrow>
     tas_conf \<Rightarrow> u8 list \<Rightarrow> (int \<times> u8 list) res option" where
  "tas_assemble parse little junk heap after s bytes =
     (if a_fmt s = 0 then
        bindO (Some (obj_init little (Some (Some 1)) \<lparr>pos = 0, rest = [], seekable = False\<rparr>)) (\<lambda>(rc, ud, f).
          bindO (do_assembly (parse bytes) junk after (Some (obj_format little heap after)) ud) (\<lambda>(bad, ud).
            if bad then Some (Inr (1, []))
            else bindO (Some (obj_emit little ud)) (\<lambda>(rc, out). Some (Inr (rc, out)))))
      else if a_fmt s = 1 then
        bindO (do_assembly (parse bytes) junk after (Some (raw_format little)) (gen_init [])) (\<lambda>(bad, ud).
          Some (Inr (if bad then 1 else 0, r_out ud)))
      else if a_fmt s = 2 then
        bindO (do_assembly (parse bytes) junk after (Some text_format) (text_init [])) (\<lambda>(bad, ud).
          Some (Inr (if bad then 1 else 0, bytes_of (t_out ud))))
      else
        bindO (do_assembly (parse bytes) junk after (Some memh_format) (memh_init (a_params s) [])) (\<lambda>(bad, ud).
          Some (Inr (if bad then 1 else 0, bytes_of (m_out ud)))))"

text \<open>
  The loop over the files.  \<open>rc\<close> is assigned anew for each; after a failure the output file is
  removed, by a name that was never set when there is none.
\<close>

record tas_result =
  o_rc :: int
  o_bytes :: "u8 list"
  o_removed :: bool

fun tas_files ::
  "host \<Rightarrow> (string \<Rightarrow> bool) \<Rightarrow> (u8 list \<Rightarrow> (int \<times> u8 list) res option) \<Rightarrow> tas_conf \<Rightarrow> string list \<Rightarrow>
     tas_result \<Rightarrow> tas_result res option" where
  "tas_files h writable step s [] r = Some (Inr r)"
| "tas_files h writable step s (name # names) r =
     (if (case a_out s of None \<Rightarrow> False | Some f \<Rightarrow> \<not> writable f)
      then Some (Inl (Fatal ''Failed to open output file''))
      else bindO (Some (open_input h name)) (\<lambda>bytes.
        bindO (step bytes) (\<lambda>(rc, out).
          if rc \<noteq> 0 \<and> a_out s = None then Some (Inl (Undefined ''name of the output file''))
          else tas_files h writable step s names
            \<lparr>o_rc = rc, o_bytes = o_bytes r @ out, o_removed = (o_removed r \<or> rc \<noteq> 0)\<rparr>)))"

definition tas_main ::
  "host \<Rightarrow> (string \<Rightarrow> bool) \<Rightarrow> (u8 list \<Rightarrow> parse_data \<Rightarrow> (int \<times> parse_data) res option) \<Rightarrow> bool \<Rightarrow> u32 \<Rightarrow>
     (nat \<Rightarrow> u32) \<Rightarrow> u8 list \<Rightarrow> element \<Rightarrow> (char \<times> string) list \<Rightarrow> string list \<Rightarrow> tas_result res option" where
  "tas_main h writable parse little junk heap after i opts names =
     bindO (foldO (\<lambda>(ch, arg). tas_arg h ch arg) opts
         \<lparr>a_disassemble = False, a_flags = 0, a_fmt = 0, a_out = None, a_params = param_init\<rparr>) (\<lambda>s.
       if names = [] then Some (Inl (Fatal ''No input files specified on the command line''))
       else tas_files h writable
         (if a_disassemble s then tas_disassemble little junk i s
          else tas_assemble parse little junk heap after s) s names
         \<lparr>o_rc = 0, o_bytes = [], o_removed = False\<rparr>)"

section \<open>tld\<close>

definition tld_version :: "host \<Rightarrow> string" where "tld_version h = ''tld version '' @ build_name h"

definition tld_usage :: "host \<Rightarrow> string" where
  "tld_usage h =
     ''Usage: '' @ argv0 h @ '' [ OPTIONS ] image-file [ image-file ... ] '' @ newline @
     ''Options:'' @ newline @
     ''  -o, --output=X        write output to filename X'' @ newline @
     ''  -h, --help            display this message'' @ newline @
     ''  -V, --version         print the string `'' @ tld_version h @ [CHR 0x27] @ newline"

definition tld_arg :: "host \<Rightarrow> char \<Rightarrow> string \<Rightarrow> string option \<Rightarrow> string option res" where
  "tld_arg h ch optarg out =
     (if ch = CHR ''o'' then Inr (Some optarg)
      else if ch = CHR ''V'' then Inl (Exit 0 (tld_version h @ newline))
      else Inl (Exit 1 (tld_usage h)))"

text \<open>A file that cannot be opened ends the load after the ones before it.\<close>

fun tld_inputs :: "host \<Rightarrow> string list \<Rightarrow> instream list \<times> fault option" where
  "tld_inputs h [] = ([], None)"
| "tld_inputs h (name # names) =
     (case open_input h name of
        Inl e \<Rightarrow> ([], Some e)
      | Inr bytes \<Rightarrow> (case tld_inputs h names of (ss, e) \<Rightarrow> (\<lparr>pos = 0, rest = bytes, seekable = True\<rparr> # ss, e)))"

definition tld_main ::
  "host \<Rightarrow> (string \<Rightarrow> bool) \<Rightarrow> bool \<Rightarrow> (char \<times> string) list \<Rightarrow> string list \<Rightarrow> u8 list res" where
  "tld_main h writable little opts names =
     bindE (foldE (\<lambda>(ch, arg). tld_arg h ch arg) opts None) (\<lambda>out.
       if names = [] then Inl (Fatal ''No input files specified on the command line'')
       else if (case out of None \<Rightarrow> False | Some f \<Rightarrow> \<not> writable f) then Inl (Fatal ''Failed to open output file'')
       else case tld_inputs h names of
           (ss, None) \<Rightarrow> tld little ss
         | (ss, Some e) \<Rightarrow> bindE (do_load_all little ss) (\<lambda>_. Inl e))"

section \<open>Facts\<close>

text \<open>The files of a project, linked from the command line.\<close>

lemma tld_inputs_found:
  "list_all2 (\<lambda>name bytes. name \<noteq> ''-'' \<and> files h name = Some bytes) names bss \<Longrightarrow>
     tld_inputs h names = (map (\<lambda>bytes. \<lparr>pos = 0, rest = bytes, seekable = True\<rparr>) bss, None)"
  by (induction rule: list_all2_induct) (simp_all add: open_input_def)

lemma tld_main_found:
  assumes "list_all2 (\<lambda>name bytes. name \<noteq> ''-'' \<and> files h name = Some bytes) names bss" and "names \<noteq> []"
  shows "tld_main h writable little [] names = tld little (map (\<lambda>bytes. \<lparr>pos = 0, rest = bytes, seekable = True\<rparr>) bss)"
  using assms tld_inputs_found [OF assms(1)] by (simp add: tld_main_def)

text \<open>The exit code of \<open>tas\<close> is that of the last file.\<close>

lemma tas_files_last:
  assumes "a_out s \<noteq> None \<Longrightarrow> writable (the (a_out s))" and "a_out s \<noteq> None"
    and "\<forall>n\<in>set names. \<exists>b. open_input h n = Inr b \<and> step b = Some (Inr (rcs n, outs n))"
  shows "\<exists>r'. tas_files h writable step s names r = Some (Inr r') \<and>
    o_rc r' = (if names = [] then o_rc r else rcs (last names)) \<and>
    o_removed r' = (o_removed r \<or> (\<exists>n\<in>set names. rcs n \<noteq> 0))"
  using assms(3)
proof (induction names arbitrary: r)
  case (Cons n names)
  then obtain b where b: "open_input h n = Inr b" "step b = Some (Inr (rcs n, outs n))" by auto
  let ?r = "\<lparr>o_rc = rcs n, o_bytes = o_bytes r @ outs n, o_removed = (o_removed r \<or> rcs n \<noteq> 0)\<rparr>"
  obtain r' where "tas_files h writable step s names ?r = Some (Inr r')"
    "o_rc r' = (if names = [] then o_rc ?r else rcs (last names))"
    "o_removed r' = (o_removed ?r \<or> (\<exists>n\<in>set names. rcs n \<noteq> 0))"
    using Cons.IH [of ?r] Cons.prems by auto
  then show ?case using b assms(1,2) by (auto split: option.split)
qed simp

text \<open>An options file is read line by line.\<close>

lemma fgets_all_lines:
  "\<forall>l\<in>set ls. CHR 0x0A \<notin> set l \<and> length l < 1023 \<Longrightarrow>
     fgets_all (concat (map (\<lambda>l. l @ [CHR 0x0A]) ls)) = map (\<lambda>l. l @ [CHR 0x0A]) ls"
proof (induction ls)
  case Nil
  then show ?case by (simp add: fgets_all.simps)
next
  case (Cons l ls)
  let ?more = "concat (map (\<lambda>l. l @ [CHR 0x0A]) ls)"
  have "takeWhile (\<lambda>c. c \<noteq> CHR 0x0A) (l @ CHR 0x0A # ?more) = l"
    using Cons.prems by (subst takeWhile_append2) auto
  moreover have "length l < 1023" using Cons.prems by simp
  then have "Suc 0 \<le> 1023 - length l" by linarith
  ultimately show ?case using Cons by (subst fgets_all.simps) (simp add: Let_def)
qed

lemma trim_line_newline:
  "CHR 0x00 \<notin> set l \<Longrightarrow> trim_line (l @ [CHR 0x0A]) = Inr l"
proof -
  assume "CHR 0x00 \<notin> set l"
  then have "takeWhile (\<lambda>c. c \<noteq> CHR 0x00) (l @ [CHR 0x0A]) = l @ [CHR 0x0A]"
    by (simp add: takeWhile_eq_all_conv) auto
  then show ?thesis by (simp add: trim_line_def)
qed

text \<open>\<open>tsim\<close> on an object file, without options: the whole way from the bytes to the machine.\<close>

lemma tsim_main_plain:
  assumes "CHR ''/'' \<notin> set (self_path h)" and "name \<noteq> ''-''" and "files h name = Some bytes"
    and "boot qs out default_state = Some (Inr sim)" and "\<not> jit_selected sim"
    and "obj_init little (Some (Some 0)) \<lparr>pos = 0, rest = bytes, seekable = True\<rparr> = Inr (0, ud, f)"
  shows "tsim_main h out qs bs jit little junk i [] [name] =
    load_and_run bs junk obj_in ud i RAM_BASE RAM_BASE (sim_bus sim)"
proof -
  obtain p where p: "param_set (param_init :: string param_state) ''paths.share'' ''../share/tenyr'' False = Some (0, p)"
    using param_set_map [OF param_init_wf, of "''paths.share''" "''../share/tenyr''" False] by blast
  have "t_sim tsim_conf_default = default_state"
    by (simp add: tsim_conf_default_def default_state_def boot_def devices_setup_def)
  then have b: "boot qs out (t_sim (tsim_conf_default\<lparr>t_params := p\<rparr>)) = Some (Inr sim)"
    using assms(4) by simp
  show ?thesis
    using assms(2,3,5,6) p b build_path_plain [OF assms(1)]
    by (simp add: tsim_main_def open_input_def run_format_def load_then_interp)
      (simp add: tsim_conf_default_def)
qed

end
