(* ===== verification/Grammar.thy ===== *)
theory Grammar
  imports Assemble Insn
begin

unbundle bit_operations_syntax

text \<open>
  The actions of \<^verbatim>\<open>src/parser.y\<close>.  What the grammar derives is a datatype with a constructor for each
  alternative, and the actions run over it in the order in which a bottom-up parser reduces.  The
  tables that bison generates are not modelled: a source is given by its derivation.
\<close>

section \<open>What the grammar derives\<close>

type_synonym regname = "4 word"

datatype atom =
    A_ref "u8 list"                    \<comment> \<open>\<open>'@' SYMBOL\<close>\<close>
  | A_paren expr
  | A_un char atom
  | A_int u32
  | A_bits u32
  | A_chr u8
  | A_dot
  | A_local "u8 list"
and expr =
    E_atom atom
  | E_bin ce_op expr expr

text \<open>An operator of an instruction; \<open>>\<close> and \<open><=\<close> stand for the operator of the opposite order, negated.\<close>

datatype binop = Native opcode | Swapped opcode

datatype rhs_plain =
    R_reg_reg_imm regname binop regname bool atom   \<comment> \<open>whether \<open>reloc_op\<close> is \<open>-\<close>\<close>
  | R_reg_reg regname binop regname
  | R_reg regname
  | R_reg_imm_reg regname binop atom regname
  | R_reg_imm regname binop atom
  | R_imm_reg_reg atom binop regname regname
  | R_imm_reg atom binop regname
  | R_imm atom
  | R_un_imm opcode regname bool atom
  | R_un_reg opcode regname regname
  | R_un opcode regname

datatype side = Plain rhs_plain | Deref rhs_plain
datatype dest = Reg regname | Mem regname
datatype arrow = To_left | To_right

datatype source_element =
    Illegal
  | Instr dest arrow side
  | Words "expr list"
  | Zeros expr
  | Utf32 "u8 list"
  | Label "u8 list" source_element

datatype directive = Global "u8 list" | Set_symbol "u8 list" expr | Option

datatype line = Element source_element | Directive directive

section \<open>Expressions\<close>

text \<open>\<open>tenyr_error\<close>: the error is counted, and the parse goes on.\<close>

definition tenyr_error :: "parse_data \<Rightarrow> parse_data" where
  "tenyr_error pd = pd\<lparr>pd_errored := pd_errored pd + 1\<rparr>"

definition fresh_head :: "u32 \<Rightarrow> ce_head" where
  "fresh_head flags = \<lparr>ce_i = 0, ce_flags = flags, ce_insn = None, ce_deferred = None\<rparr>"

definition make_expr ::
  "parse_data \<Rightarrow> (ce_head \<Rightarrow> const_expr) \<Rightarrow> const_expr option \<Rightarrow> const_expr option \<Rightarrow> u32 \<Rightarrow> parse_data \<times> const_expr" where
  "make_expr pd node left right flags =
     (let flags_of = (\<lambda>c. case c of Some c \<Rightarrow> ce_flags (head c) | None \<Rightarrow> 0) in
      (if left \<noteq> None \<and> flagged (flags_of left) IS_EXTERNAL \<and> flagged flags FORBID_LHS then tenyr_error pd else pd,
       node (fresh_head (flags_of left OR flags_of right OR flags))))"

text \<open>
  \<open>make_ref\<close> makes a \<open>CE_EXT\<close> whatever the type asked for.  The scanner's buffer has at least 128
  bytes, zeroed.
\<close>

definition make_ref :: "parse_data \<Rightarrow> ref_type \<Rightarrow> u8 list \<Rightarrow> (parse_data \<times> const_expr) res" where
  "make_ref pd type name =
     (let flags = IMM_IS_BITS OR IS_DEFERRED OR (if type = CE_EXT then IS_EXTERNAL else 0) in
      case symbol_find (pd_symbols pd) name of
        Some s \<Rightarrow> Inr (make_expr pd (\<lambda>h. CE_REF h CE_EXT (Some s) (replicate SYMBOL_LEN 0)) None None flags)
      | None \<Rightarrow> bindE (strcopy (name @ replicate (128 - length name) 0) SYMBOL_LEN) (\<lambda>buf.
          Inr (make_expr pd (\<lambda>h. CE_REF h CE_EXT None buf) None None flags)))"

text \<open>\<open>ce_eval_const(pd, ce, &ce->i)\<close>: the cell for the result is the expression's own.\<close>

definition eval_in_place ::
  "u32 \<Rightarrow> u8 list \<Rightarrow> parse_data \<times> const_expr \<Rightarrow> (parse_data \<times> const_expr) res option" where
  "eval_in_place junk after = (\<lambda>(pd, ce).
     bindO (ce_eval_const junk after pd ce (ce_i (head ce))) (\<lambda>(rc, v, ce, pd).
       Some (Inr (pd, set_head (\<lambda>h. h\<lparr>ce_i := v\<rparr>) ce))))"

definition bin_flags :: "ce_op \<Rightarrow> u32" where
  "bin_flags f =
     (if f = Op CHR ''+'' then 0
      else if f = Op CHR ''-'' then RHS_NEGATE
      else if f = Op CHR ''&'' \<or> f = RSHA then SPECIAL_LHS
      else FORBID_LHS)"

fun atom_ce :: "u32 \<Rightarrow> u8 list \<Rightarrow> parse_data \<Rightarrow> atom \<Rightarrow> (parse_data \<times> const_expr) res option"
and expr_ce :: "u32 \<Rightarrow> u8 list \<Rightarrow> parse_data \<Rightarrow> expr \<Rightarrow> (parse_data \<times> const_expr) res option" where
  "atom_ce junk after pd (A_ref name) = Some (make_ref pd CE_EXT name)"
| "atom_ce junk after pd (A_paren e) = expr_ce junk after pd e"
| "atom_ce junk after pd (A_un f a) =
     bindO (atom_ce junk after pd a) (\<lambda>(pd, c).
       eval_in_place junk after (make_expr pd (\<lambda>h. CE_OP1 h (Op f) c) (Some c) None 0))"
| "atom_ce junk after pd (A_int i) =
     Some (Inr (map_prod id (set_head (\<lambda>h. h\<lparr>ce_i := i\<rparr>)) (make_expr pd CE_IMM None None 0)))"
| "atom_ce junk after pd (A_bits i) =
     Some (Inr (map_prod id (set_head (\<lambda>h. h\<lparr>ce_i := i\<rparr>)) (make_expr pd CE_IMM None None IMM_IS_BITS)))"
| "atom_ce junk after pd (A_chr c) =
     Some (Inr (map_prod id (set_head (\<lambda>h. h\<lparr>ce_i := scast c\<rparr>)) (make_expr pd CE_IMM None None IMM_IS_BITS)))"
| "atom_ce junk after pd A_dot = Some (Inr (make_expr pd CE_ICI None None (IMM_IS_BITS OR IS_DEFERRED)))"
| "atom_ce junk after pd (A_local name) = Some (make_ref pd CE_SYM name)"
| "expr_ce junk after pd (E_atom a) = bindO (atom_ce junk after pd a) (eval_in_place junk after)"
| "expr_ce junk after pd (E_bin f l r) =
     bindO (expr_ce junk after pd l) (\<lambda>(pd, cl). bindO (expr_ce junk after pd r) (\<lambda>(pd, cr).
       eval_in_place junk after (make_expr pd (\<lambda>h. CE_OP2 h f cl cr) (Some cl) (Some cr) (bin_flags f))))"

text \<open>
  \<open>validate_expr\<close>.  It returns 0 for the missing operands of a leaf, and so for every expression:
  the exception for shifts by 12 and masks of 0xfff is never met.
\<close>

fun validate_expr :: "const_expr \<Rightarrow> nat \<Rightarrow> parse_data \<Rightarrow> bool \<times> parse_data" where
  "validate_expr (CE_OP1 h f l) level pd =
     (case validate_expr l (level + 1) pd of (ok, pd) \<Rightarrow> (False, pd))"
| "validate_expr (CE_OP2 h f l r) level pd =
     (let (ok1, pd) = validate_expr l (level + 1) pd;
          (ok2, pd) = validate_expr r (level + 1) pd;
          ext = (\<lambda>c. flagged (ce_flags (head c)) IS_EXTERNAL);
          (ok, pd) = (if ext l \<and> ext r then (False, tenyr_error pd) else (ok1 \<and> ok2, pd))
      in if ext l \<and> flagged (ce_flags h) SPECIAL_LHS then
           (let ok = (ok \<and> level = 0 \<and> (f = RSHA \<and> ce_i (head r) = 12 \<or> f = Op CHR ''&'' \<and> ce_i (head r) = 0xfff))
            in (ok, if ok then pd else tenyr_error pd))
         else (ok, pd))"
| "validate_expr (CE_REF h t s buf) level pd = (False, pd)"
| "validate_expr (CE_IMM h) level pd = (False, pd)"
| "validate_expr (CE_ICI h) level pd = (False, pd)"
| "validate_expr (CE_BAD h) level pd = (False, pd)"

definition vatom :: "u32 \<Rightarrow> u8 list \<Rightarrow> parse_data \<Rightarrow> atom \<Rightarrow> (parse_data \<times> const_expr) res option" where
  "vatom junk after pd a = bindO (atom_ce junk after pd a) (\<lambda>(pd, c).
     Some (Inr (snd (validate_expr c 0 pd), c)))"

definition vexpr :: "u32 \<Rightarrow> u8 list \<Rightarrow> parse_data \<Rightarrow> expr \<Rightarrow> (parse_data \<times> const_expr) res option" where
  "vexpr junk after pd e = bindO (expr_ce junk after pd e) (\<lambda>(pd, c).
     Some (Inr (snd (validate_expr c 0 pd), c)))"

section \<open>Instructions\<close>

text \<open>\<open>struct expr\<close>, of either side of an arrow.\<close>

record side_expr =
  x_type :: nat
  x_x :: regname
  x_op :: "4 word"
  x_y :: regname
  x_i :: u32
  x_mult :: u32
  x_ce :: "const_expr option"

definition op_word :: "opcode \<Rightarrow> 4 word" where "op_word f = of_nat (op_code f)"

definition make_rhs :: "nat \<Rightarrow> regname \<Rightarrow> binop \<Rightarrow> regname \<Rightarrow> u32 \<Rightarrow> const_expr option \<Rightarrow> side_expr" where
  "make_rhs type x f y mult defexpr =
     (let (f, type, x, y) =
            (case f of Native f \<Rightarrow> (f, type, x, y)
             | Swapped f \<Rightarrow>
                 if type = 0 then (f, 0, y, x) else if type = 1 then (f, 2, x, y) else (f, 1, x, y))
      in \<lparr>x_type = type, x_x = x, x_op = op_word f, x_y = y,
          x_i = (if defexpr = None then 0 else 0xfffffbad), x_mult = mult,
          x_ce = map_option (\<lambda>c. if f = OP_PACK then set_head (\<lambda>h. h\<lparr>ce_flags := ce_flags h OR IGNORE_WIDTH\<rparr>) c else c)
            defexpr\<rparr>)"

definition make_unary :: "opcode \<Rightarrow> regname \<Rightarrow> regname \<Rightarrow> u32 \<Rightarrow> const_expr option \<Rightarrow> side_expr" where
  "make_unary f x y mult defexpr =
     (if defexpr = None then make_rhs 2 x (Native f) y mult defexpr
      else make_rhs 0 0 (Native f) x mult defexpr)"

definition is_type3 :: "const_expr \<Rightarrow> bool" where
  "is_type3 ce \<longleftrightarrow> flagged (ce_flags (head ce)) IMM_IS_BITS \<or> flagged (ce_flags (head ce)) IS_DEFERRED \<or>
     ce_i (head ce) \<noteq> SEXTEND32 12 (ce_i (head ce))"

text \<open>\<open>$binop == OP_ADD\<close> and the like: a swapped operator is negative, and equal to none.\<close>

fun rhs_action :: "u32 \<Rightarrow> u8 list \<Rightarrow> parse_data \<Rightarrow> rhs_plain \<Rightarrow> (parse_data \<times> side_expr) res option" where
  "rhs_action junk after pd (R_reg_reg_imm x f y neg a) = bindO (vatom junk after pd a) (\<lambda>(pd, c).
     Some (Inr (pd, make_rhs 0 x f y (if neg then -1 else 1) (Some c))))"
| "rhs_action junk after pd (R_reg_reg x f y) = Some (Inr (pd, make_rhs 0 x f y 0 None))"
| "rhs_action junk after pd (R_reg x) = Some (Inr (pd, make_rhs 0 x (Native OP_BITWISE_OR) 0 0 None))"
| "rhs_action junk after pd (R_reg_imm_reg x f a y) = bindO (vatom junk after pd a) (\<lambda>(pd, c).
     Some (Inr (pd, make_rhs 1 x f y 1 (Some c))))"
| "rhs_action junk after pd (R_reg_imm x f a) = bindO (vatom junk after pd a) (\<lambda>(pd, c).
     let t3op = (f = Native OP_ADD \<or> f = Native OP_SUBTRACT);
         neg = (f = Native OP_SUBTRACT)
     in Some (Inr (pd, make_rhs (if t3op \<and> is_type3 c then 3 else 1) x (if neg then Native OP_ADD else f) 0
          (if neg then -1 else 1) (Some c))))"
| "rhs_action junk after pd (R_imm_reg_reg a f x y) = bindO (vatom junk after pd a) (\<lambda>(pd, c).
     Some (Inr (pd, make_rhs 2 x f y 1 (Some c))))"
| "rhs_action junk after pd (R_imm_reg a f x) = bindO (vatom junk after pd a) (\<lambda>(pd, c).
     Some (Inr (pd, make_rhs 2 x f 0 1 (Some c))))"
| "rhs_action junk after pd (R_imm a) = bindO (vatom junk after pd a) (\<lambda>(pd, c).
     Some (Inr (pd, make_rhs (if is_type3 c then 3 else 0) 0 (Native OP_BITWISE_OR) 0 1 (Some c))))"
| "rhs_action junk after pd (R_un_imm f x neg a) = bindO (vatom junk after pd a) (\<lambda>(pd, c).
     Some (Inr (pd, make_unary f x 0 (if neg then -1 else 1) (Some c))))"
| "rhs_action junk after pd (R_un_reg f x y) = Some (Inr (pd, make_unary f x y 0 None))"
| "rhs_action junk after pd (R_un f x) = Some (Inr (pd, make_unary f x 0 0 None))"

text \<open>
  \<open>add_deferred_expr\<close>, with \<open>ce->insn = elem\<close>: \<open>k\<close> is the place the element will have in the list.
\<close>

definition add_deferred_expr :: "parse_data \<Rightarrow> const_expr \<Rightarrow> u32 \<Rightarrow> nat \<Rightarrow> nat \<Rightarrow> parse_data" where
  "add_deferred_expr pd ce mult k width =
     pd\<lparr>pd_defexprs := \<lparr>d_ce = set_head (\<lambda>h. h\<lparr>ce_insn := Some k\<rparr>) ce, d_dest = k, d_width = width, d_mult = mult\<rparr>
       # pd_defexprs pd\<rparr>"

definition plain_element :: "u32 \<Rightarrow> asm_element" where
  "plain_element w = \<lparr>e_word = w, e_reladdr = 0, e_size = 1, el_symbol = []\<rparr>"

definition make_insn_general ::
  "parse_data \<Rightarrow> bool \<Rightarrow> regname \<Rightarrow> arrow \<Rightarrow> bool \<Rightarrow> side_expr \<Rightarrow> parse_data \<times> asm_element" where
  "make_insn_general pd lderef z arr rderef e =
     (let dd = (if lderef \<or> arr = To_left \<and> rderef then 2 else 0) + (if rderef then 1 else 0);
          w = (if x_type e = 3 then pack3 3 dd z (x_x e) (ucast (x_i e))
               else pack012 (of_nat (x_type e)) dd z (x_x e) (x_y e) (x_op e) (ucast (x_i e)))
      in (case x_ce e of None \<Rightarrow> pd
          | Some c \<Rightarrow> add_deferred_expr pd c (x_mult e) (length (pd_top pd)) (if x_type e = 3 then 20 else 12),
          plain_element w))"

section \<open>Elements, directives, programs\<close>

definition make_data :: "parse_data \<Rightarrow> const_expr list \<Rightarrow> parse_data \<times> asm_element list" where
  "make_data pd cs =
     (fold (\<lambda>(k, c) pd. add_deferred_expr pd c 1 k 32) (zip [length (pd_top pd)..<length (pd_top pd) + length cs] cs) pd,
      map (\<lambda>c. plain_element 0) cs)"

text \<open>The characters are signed, and their values sign-extended.\<close>

definition make_utf32 :: "u8 list \<Rightarrow> asm_element list" where
  "make_utf32 cs = map (\<lambda>c. plain_element (scast c)) cs"

definition make_zeros :: "u32 \<Rightarrow> u8 list \<Rightarrow> parse_data \<Rightarrow> const_expr \<Rightarrow> (parse_data \<times> asm_element list) res option" where
  "make_zeros junk after pd sz =
     (let pd = (if flagged (ce_flags (head sz)) IS_DEFERRED then tenyr_error pd else pd) in
      bindO (ce_eval_const junk after pd sz 0) (\<lambda>(rc, v, ce, pd).
        Some (Inr (pd, [(plain_element 0)\<lparr>e_size := v\<rparr>]))))"

text \<open>A label is put on the first of the elements; an empty string has none.\<close>

definition add_symbol :: "parse_data \<Rightarrow> symbol \<Rightarrow> parse_data" where
  "add_symbol pd n = pd\<lparr>pd_symbols := pd_symbols pd @ [n]\<rparr>"

fun add_symbol_to_insn :: "parse_data \<Rightarrow> asm_element list \<Rightarrow> u8 list \<Rightarrow> (parse_data \<times> asm_element list) res" where
  "add_symbol_to_insn pd [] name = Inl (Undefined ''null pointer'')"
| "add_symbol_to_insn pd (e # es) name =
     Inr (add_symbol pd \<lparr>y_name = name, y_reladdr = 0, y_resolved = False, y_global = False, y_unique = True,
            y_ce = None, y_next = el_symbol e\<rparr>,
          e\<lparr>el_symbol := length (pd_symbols pd) # el_symbol e\<rparr> # es)"

fun element_action ::
  "u32 \<Rightarrow> u8 list \<Rightarrow> parse_data \<Rightarrow> source_element \<Rightarrow> (parse_data \<times> asm_element list) res option" where
  "element_action junk after pd Illegal = Some (Inr (pd, [plain_element 0xffffffff]))"
| "element_action junk after pd (Instr d arr s) =
     (let (lderef, z) = (case d of Reg z \<Rightarrow> (False, z) | Mem z \<Rightarrow> (True, z));
          (rderef, r) = (case s of Plain r \<Rightarrow> (False, r) | Deref r \<Rightarrow> (True, r))
      in bindO (rhs_action junk after pd r) (\<lambda>(pd, e).
        let pd = (if lderef \<and> rderef then tenyr_error pd else pd);
            pd = (if arr = To_right \<and> \<not> rderef then tenyr_error pd else pd);
            (pd, el) = make_insn_general pd lderef z arr rderef e
        in Some (Inr (pd, [el]))))"
| "element_action junk after pd (Words es) =
     bindO (foldO (\<lambda>e (pd, cs). bindO (vexpr junk after pd e) (\<lambda>(pd, c). Some (Inr (pd, cs @ [c])))) es (pd, []))
       (\<lambda>(pd, cs). Some (Inr (make_data pd cs)))"
| "element_action junk after pd (Zeros e) =
     bindO (expr_ce junk after pd e) (\<lambda>(pd, c). make_zeros junk after pd c)"
| "element_action junk after pd (Utf32 cs) = Some (Inr (pd, make_utf32 cs))"
| "element_action junk after pd (Label name e) =
     bindO (element_action junk after pd e) (\<lambda>(pd, es). Some (add_symbol_to_insn pd es name))"

text \<open>
  \<open>.global\<close> copies as many bytes as the name has into the \<open>SYMBOL_LEN\<close> bytes of a \<open>global_list\<close>;
  \<open>.set\<close> remembers the place of the next element; \<open>.option\<close> does nothing.
\<close>

fun directive_action :: "u32 \<Rightarrow> u8 list \<Rightarrow> parse_data \<Rightarrow> directive \<Rightarrow> parse_data res option" where
  "directive_action junk after pd (Global name) =
     bindO (Some (if length name + 1 > SYMBOL_LEN then Inl (Undefined ''name past its buffer'')
         else strcopy (name @ replicate (128 - length name) 0) (length name + 1))) (\<lambda>g.
       Some (Inr (pd\<lparr>pd_globals := cstr g # pd_globals pd\<rparr>)))"
| "directive_action junk after pd (Set_symbol name e) =
     bindO (vexpr junk after pd e) (\<lambda>(pd, c). Some (Inr (add_symbol pd
       \<lparr>y_name = name, y_reladdr = 0, y_resolved = False, y_global = False, y_unique = False,
        y_ce = Some (set_head (\<lambda>h. h\<lparr>ce_deferred := Some (length (pd_top pd))\<rparr>) c), y_next = []\<rparr>)))"
| "directive_action junk after pd Option = Some (Inr pd)"

fun line_action :: "u32 \<Rightarrow> u8 list \<Rightarrow> line \<Rightarrow> parse_data \<Rightarrow> parse_data res option" where
  "line_action junk after (Element e) pd =
     bindO (element_action junk after pd e) (\<lambda>(pd, es). Some (Inr (pd\<lparr>pd_top := pd_top pd @ map Some es\<rparr>)))"
| "line_action junk after (Directive d) pd = directive_action junk after pd d"

text \<open>The phantom entry is allocated when there is a program.\<close>

definition parse_lines :: "u32 \<Rightarrow> u8 list \<Rightarrow> line list \<Rightarrow> parse_data \<Rightarrow> (int \<times> parse_data) res option" where
  "parse_lines junk after ls pd =
     bindO (foldO (line_action junk after) ls pd) (\<lambda>pd.
       Some (Inr (0, if ls = [] then pd else pd\<lparr>pd_top := pd_top pd @ [None]\<rparr>)))"

end
