(* ===== verification/Cpu.thy ===== *)
theory Cpu
  imports Run Isa
begin

unbundle bit_operations_syntax

text \<open>
  Reasoning about machine code.  A program is a list of decoded instructions at an address, and a run
  of it is a chain of steps on registers and memory; \<open>interp_run_sim\<close> follows each such chain.
\<close>

section \<open>Instructions, decoded\<close>

text \<open>How the result is made, and where it goes: \<open>Z <- v\<close>, \<open>Z -> [v]\<close>, \<open>[Z] <- v\<close>, \<open>Z <- [v]\<close>.\<close>

datatype rhs =
    T0 opcode "4 word" "4 word" u32
  | T1 opcode "4 word" u32 "4 word"
  | T2 opcode u32 "4 word" "4 word"
  | T3 "4 word" u32

datatype instr = Set "4 word" rhs | Put "4 word" rhs | Store "4 word" rhs | Load "4 word" rhs

definition decode_rhs :: "u32 \<Rightarrow> rhs" where
  "decode_rhs w =
     (if insn_p w = 0 then T0 (isa_op w) (insn_x w) (insn_y w) (scast (insn_imm12 w))
      else if insn_p w = 1 then T1 (isa_op w) (insn_x w) (scast (insn_imm12 w)) (insn_y w)
      else if insn_p w = 2 then T2 (isa_op w) (scast (insn_imm12 w)) (insn_x w) (insn_y w)
      else T3 (insn_x w) (scast (insn_imm20 w)))"

definition decode :: "u32 \<Rightarrow> instr" where
  "decode w =
     (if insn_dd w = 0 then Set (insn_z w) (decode_rhs w)
      else if insn_dd w = 1 then Put (insn_z w) (decode_rhs w)
      else if insn_dd w = 2 then Store (insn_z w) (decode_rhs w)
      else Load (insn_z w) (decode_rhs w))"

text \<open>The sixteen operations on words; a shift or bit test by 32 or more is left out.\<close>

fun op_val :: "opcode \<Rightarrow> u32 \<Rightarrow> u32 \<Rightarrow> u32 option" where
  "op_val OP_ADD a b = Some (a + b)"
| "op_val OP_SUBTRACT a b = Some (a - b)"
| "op_val OP_MULTIPLY a b = Some (a * b)"
| "op_val OP_SHIFT_LEFT a b = (if b < 32 then Some (push_bit (unat b) a) else None)"
| "op_val OP_SHIFT_RIGHT_ARITH a b = (if b < 32 then Some (signed_drop_bit (unat b) a) else None)"
| "op_val OP_SHIFT_RIGHT_LOGIC a b = (if b < 32 then Some (drop_bit (unat b) a) else None)"
| "op_val OP_COMPARE_LT a b = Some (neg_bool (a <s b))"
| "op_val OP_COMPARE_EQ a b = Some (neg_bool (a = b))"
| "op_val OP_COMPARE_GE a b = Some (neg_bool (b \<le>s a))"
| "op_val OP_BITWISE_AND a b = Some (a AND b)"
| "op_val OP_BITWISE_ANDN a b = Some (a AND NOT b)"
| "op_val OP_BITWISE_OR a b = Some (a OR b)"
| "op_val OP_BITWISE_ORN a b = Some (a OR NOT b)"
| "op_val OP_BITWISE_XOR a b = Some (a XOR b)"
| "op_val OP_PACK a b = Some (push_bit 12 a OR (b AND mask 12))"
| "op_val OP_TEST_BIT a b = (if b < 32 then Some (neg_bool (bit a (unat b))) else None)"

fun rhs_val :: "(4 word \<Rightarrow> u32) \<Rightarrow> rhs \<Rightarrow> u32 option" where
  "rhs_val r (T0 f x y i) = map_option (\<lambda>v. v + i) (op_val f (r x) (r y))"
| "rhs_val r (T1 f x i y) = map_option (\<lambda>v. v + r y) (op_val f (r x) i)"
| "rhs_val r (T2 f i x y) = map_option (\<lambda>v. v + r y) (op_val f i (r x))"
| "rhs_val r (T3 x i) = Some (r x + i)"

text \<open>The arithmetic unit computes these values.\<close>

lemma op_val_alu:
  assumes "op_val f a b = Some v"
  shows "(shift_like f \<longrightarrow> b < 32) \<and> v + c = word_of_int (alu f (sint a) (sint b) + sint c)"
proof -
  have s: "shift_like f \<Longrightarrow> b < 32" using assms by (cases f) (auto simp: shift_like_def split: if_splits)
  then have u: "shift_like f \<Longrightarrow> unat b < 32" by (simp add: word_less_nat_alt)
  have t: "bit (sint a) (nat (sint b)) = bit a (unat b)" if "unat b < 32"
    using that by (simp add: sint_small bit_sint32)
  show ?thesis
    using s u assms t
    by (cases f)
      (simp_all add: shift_like_def neg_bool_def word_sless_alt word_sle_eq signed_word_eqI_iff
         word_of_int_sint_bits word_of_int_sint_pack [simplified] word_of_int_sint_shifts(1-3)
         word_of_int_sint_shifts(1) [simplified] split: if_splits)
qed

lemma rhs_val_isa:
  assumes "rhs_val r (decode_rhs w) = Some v"
  shows "isa_defined r w \<and> isa_rhs r w = v"
proof (cases "insn_p w" rule: word2_cases)
  case 4
  then show ?thesis
    using assms
    by (simp add: decode_rhs_def isa_defined_def isa_rhs_def isa_args_def isa_op_def shift_like_def Let_def)
next
qed (use assms op_val_alu in \<open>auto simp: decode_rhs_def isa_defined_def isa_rhs_def isa_args_def Let_def\<close>)

section \<open>Steps\<close>

type_synonym cpu = "(4 word \<Rightarrow> u32) \<times> (u32 \<Rightarrow> u32)"

definition set_r :: "4 word \<Rightarrow> u32 \<Rightarrow> (4 word \<Rightarrow> u32) \<Rightarrow> 4 word \<Rightarrow> u32" where
  "set_r z v r = (if z = 0 then r else r(z := v))"

text \<open>One instruction, whose data are at the addresses \<open>dt\<close>.\<close>

fun exec :: "u32 set \<Rightarrow> instr \<Rightarrow> cpu \<Rightarrow> cpu option" where
  "exec dt (Set z e) (r, m) = map_option (\<lambda>v. (set_r z v r, m)) (rhs_val r e)"
| "exec dt (Put z e) (r, m) =
     Option.bind (rhs_val r e) (\<lambda>a. if a \<in> dt then Some (r, m(a := r z)) else None)"
| "exec dt (Store z e) (r, m) =
     (if r z \<in> dt then map_option (\<lambda>v. (r, m(r z := v))) (rhs_val r e) else None)"
| "exec dt (Load z e) (r, m) =
     Option.bind (rhs_val r e) (\<lambda>a. if a \<in> dt then Some (set_r z (m a) r, m) else None)"

text \<open>The program: the instruction at an address.\<close>

type_synonym code = "u32 \<Rightarrow> instr option"

definition step :: "code \<Rightarrow> u32 set \<Rightarrow> cpu \<Rightarrow> cpu option" where
  "step code dt c =
     (case c of (r, m) \<Rightarrow>
        Option.bind (code (r 15)) (\<lambda>i. exec dt i (r(15 := r 15 + 1), m)))"

inductive runs :: "code \<Rightarrow> u32 set \<Rightarrow> cpu \<Rightarrow> cpu \<Rightarrow> bool" for code dt where
  runs_refl: "runs code dt c c"
| runs_step: "step code dt c = Some c' \<Longrightarrow> runs code dt c' c'' \<Longrightarrow> runs code dt c c''"

declare runs_refl [simp, intro]

lemma runs_trans: "runs code dt c c' \<Longrightarrow> runs code dt c' c'' \<Longrightarrow> runs code dt c c''"
  by (induction rule: runs.induct) (auto intro: runs_step)

text \<open>A number of steps, as a function.\<close>

fun steps :: "nat \<Rightarrow> code \<Rightarrow> u32 set \<Rightarrow> cpu \<Rightarrow> cpu option" where
  "steps 0 code dt c = Some c"
| "steps (Suc n) code dt c = Option.bind (step code dt c) (steps n code dt)"

lemma steps_numeral:
  "steps (numeral n) code dt c = Option.bind (step code dt c) (steps (pred_numeral n) code dt)"
  by (simp add: numeral_eq_Suc)

lemma steps_runs: "steps n code dt c = Some c' \<Longrightarrow> runs code dt c c'"
  by (induction n arbitrary: c) (auto simp: bind_eq_Some_conv intro: runs_step)

lemma steps_trans: "steps n code dt c = Some c' \<Longrightarrow> runs code dt c' c'' \<Longrightarrow> runs code dt c c''"
  by (blast intro: steps_runs runs_trans)

text \<open>More code, and more room, do no harm.\<close>

lemma exec_mono: "dt \<subseteq> dt' \<Longrightarrow> exec dt i c = Some c' \<Longrightarrow> exec dt' i c = Some c'"
  by (cases c; cases i) (auto simp: bind_eq_Some_conv split: if_splits)

lemma runs_mono:
  assumes "code \<subseteq>\<^sub>m code'" and "dt \<subseteq> dt'"
  shows "runs code dt c c' \<Longrightarrow> runs code' dt' c c'"
proof (induction rule: runs.induct)
  case (runs_step c c1 c2)
  obtain r m where c: "c = (r, m)" by fastforce
  obtain i where "code (r 15) = Some i" "exec dt i (r(15 := r 15 + 1), m) = Some c1"
    using runs_step.hyps(1) by (auto simp: c step_def bind_eq_Some_conv)
  moreover from this(1) have "code' (r 15) = Some i" using assms(1) by (force simp: map_le_def dom_def)
  ultimately have "step code' dt' c = Some c1"
    using exec_mono [OF assms(2)] by (simp add: c step_def)
  then show ?case using runs_step.IH by (rule runs.runs_step)
qed auto

text \<open>A list of instructions from an address on.\<close>

definition carries :: "code \<Rightarrow> u32 \<Rightarrow> instr list \<Rightarrow> bool" where
  "carries code b is \<longleftrightarrow> (\<forall>k<length is. code (b + of_nat k) = Some (is ! k))"

definition code_at :: "u32 \<Rightarrow> instr list \<Rightarrow> code" where
  "code_at b is a = (if unat (a - b) < length is then Some (is ! unat (a - b)) else None)"

lemma carries_code_at: "length is \<le> 2 ^ 32 \<Longrightarrow> carries (code_at b is) b is"
  by (simp add: carries_def code_at_def unat_of_nat)

lemma carries_simps:
  "carries code b [] \<longleftrightarrow> True"
  "carries code b (i # is) \<longleftrightarrow> code b = Some i \<and> carries code (b + 1) is"
  by (auto simp: carries_def All_less_Suc2 algebra_simps)

text \<open>Program counters are the base plus a number.\<close>



lemma pc_plus [simp]:
  fixes b :: u32
  shows "b + 1 + 1 = b + 2" "b + numeral m + 1 = b + (numeral m + 1)"
    "b + numeral m + numeral n = b + (numeral m + numeral n)"
    "b + numeral m + - numeral n = b + (numeral m - numeral n)"
    "numeral n + (b + numeral m) = b + (numeral n + numeral m)"
    "- numeral n + (b + numeral m) = b + (numeral m - numeral n)"
    "numeral n + (b + 1) = b + (numeral n + 1)"
  by simp_all

lemma neg_bool_simps [simp]:
  "neg_bool True = -1" "neg_bool False = 0" "NOT (neg_bool c) = neg_bool (\<not> c)"
  by (simp_all add: neg_bool_def)

text \<open>Register files that agree off a set.\<close>

definition same_off :: "4 word set \<Rightarrow> (4 word \<Rightarrow> u32) \<Rightarrow> (4 word \<Rightarrow> u32) \<Rightarrow> bool" where
  "same_off zs r r' \<longleftrightarrow> (\<forall>z. z \<notin> zs \<longrightarrow> r' z = r z)"

lemma same_off_refl [simp]: "same_off zs r r"
  by (simp add: same_off_def)

lemma same_offD: "same_off zs r r' \<Longrightarrow> z \<notin> zs \<Longrightarrow> r' z = r z"
  by (simp add: same_off_def)

lemma same_off_trans: "same_off zs r r' \<Longrightarrow> same_off zs' r' r'' \<Longrightarrow> zs \<subseteq> us \<Longrightarrow> zs' \<subseteq> us \<Longrightarrow> same_off us r r''"
  unfolding same_off_def by (metis subsetD)

lemma same_off_upd [simp]: "z \<in> zs \<Longrightarrow> same_off zs r (r'(z := v)) = same_off zs r r'"
  by (auto simp: same_off_def)

lemmas run_simps = steps_numeral step_def set_r_def

section \<open>Signed words\<close>

lemma sint_small_nat: "unat (a :: u32) < 2 ^ 31 \<Longrightarrow> sint a = uint a"
proof -
  assume "unat a < 2 ^ 31"
  then have "int (unat a) < int (2 ^ 31)" by (simp only: of_nat_less_iff)
  then have "uint a < 2 ^ 31" by simp
  moreover have "- (2 ^ 31) \<le> uint a" by (rule order_trans [OF _ uint_ge_0]) simp
  ultimately show ?thesis unfolding sint_uint by (intro signed_take_bit_int_eq_self) simp_all
qed

lemma nonneg_iff: "0 \<le>s (a :: u32) \<longleftrightarrow> unat a < 2 ^ 31"
proof
  assume *: "0 \<le>s a"
  have l: "sint a < 2 ^ 31" using sint_less [of a] by simp
  have "take_bit 32 (sint a) = sint a"
    using * l by (intro take_bit_int_eq_self) (simp_all add: word_sle_eq)
  then have "uint a = sint a" using uint_sint [of a] by simp
  with l have "int (unat a) < int (2 ^ 31)" by simp
  then show "unat a < 2 ^ 31" by (simp only: of_nat_less_iff)
qed (simp add: word_sle_eq sint_small_nat)

lemma sint_nonneg: "0 \<le>s (a :: u32) \<Longrightarrow> sint a = uint a"
  by (simp add: nonneg_iff sint_small_nat)

lemma less_nonneg: "0 \<le>s (a :: u32) \<Longrightarrow> 0 \<le>s b \<Longrightarrow> a <s b \<longleftrightarrow> unat a < unat b"
  by (simp add: word_sless_alt sint_nonneg word_less_def [symmetric] word_less_nat_alt)

lemma unat_minus: "unat (b :: u32) \<le> unat a \<Longrightarrow> unat (a - b) = unat a - unat b"
  by (simp add: unat_sub word_le_nat_alt)

lemma unat_pos: "(a :: u32) \<noteq> 0 \<longleftrightarrow> 0 < unat a"
  by (metis neq0_conv unat_0 unat_eq_zero)

section \<open>The interpreter follows\<close>

text \<open>The code is in memory, inside the window and apart from the data.\<close>

definition placed :: "u32 set \<Rightarrow> code \<Rightarrow> u32 set \<Rightarrow> (u32 \<Rightarrow> u32) \<Rightarrow> bool" where
  "placed w code dt m \<longleftrightarrow> dt \<subseteq> w \<and>
     (\<forall>a i. code a = Some i \<longrightarrow> a \<in> w \<and> a \<noteq> 0xffffffff \<and> a \<notin> dt \<and> decode (m a) = i)"

lemma placed_exec:
  "placed w code dt m \<Longrightarrow> exec dt i (r, m) = Some (r', m') \<Longrightarrow> placed w code dt m'"
  by (cases i) (auto simp: placed_def bind_eq_Some_conv split: if_splits)

lemma exec_isa:
  assumes "exec dt (decode w) (r, m) = Some (r', m')"
  shows "isa_defined r w \<and> (case isa_effect r w of
      Set_reg z v \<Rightarrow> r' = set_r z v r \<and> m' = m
    | effect.Store a v \<Rightarrow> a \<in> dt \<and> r' = r \<and> m' = m(a := v)
    | Load_reg z a \<Rightarrow> a \<in> dt \<and> r' = set_r z (m a) r \<and> m' = m)"
proof -
  obtain v where v: "rhs_val r (decode_rhs w) = Some v"
    using assms by (auto simp: decode_def bind_eq_Some_conv split: if_splits)
  show ?thesis
    using rhs_val_isa [OF v] assms v
    by (cases "insn_dd w" rule: word2_cases)
      (auto simp: decode_def isa_effect_def Let_def split: if_splits)
qed

context clocked_store
begin

definition agrees :: "'w machine \<Rightarrow> cpu \<Rightarrow> bool" where
  "agrees s c \<longleftrightarrow> ok (world s) \<and> regs s = fst c \<and> (\<forall>a\<in>window. peek (world s) a = snd c a)"

lemma step_interp:
  assumes p: "placed window code dt m" and st: "step code dt (r, m) = Some (r', m')" and ag: "agrees s (r, m)"
  shows "\<exists>t. insn_step D junk (tsim_ops cyc) s = Inr (None, t) \<and> agrees t (r', m') \<and>
    insns_executed t = insns_executed s + 1"
proof -
  have s: "ok (world s)" "regs s = r" "\<And>a. a \<in> window \<Longrightarrow> peek (world s) a = m a"
    using ag by (simp_all add: agrees_def)
  obtain i where i: "code (r 15) = Some i" "exec dt i (r(15 := r 15 + 1), m) = Some (r', m')"
    using st by (auto simp: step_def bind_eq_Some_conv)
  have a: "r 15 \<in> window" "r 15 \<noteq> 0xffffffff" "decode (m (r 15)) = i" and dt: "dt \<subseteq> window"
    using p i(1) by (auto simp: placed_def)
  have p15: "regs s 15 = r 15" by (simp add: s(2))
  let ?w = "m (r 15)" and ?r = "r(15 := r 15 + 1)"
  obtain wd where wd: "ok wd" "\<forall>b\<in>window. peek wd b = peek (world s) b"
    and step: "insn_step D junk (tsim_ops cyc) s =
      bindE (run_instruction D junk \<lparr>e_word = ?w, e_reladdr = r 15, e_size = 0\<rparr> (s\<lparr>world := wd\<rparr>))
        (\<lambda>(rc, s).
          if rc \<noteq> 0 then Inr (Some 1, s)
          else bindE (cyc (world s)) (\<lambda>(rc, wd).
            Inr (if rc \<noteq> 0 then Some 0 else None,
                 s\<lparr>insns_executed := insns_executed s + 1, world := wd\<rparr>)))"
    by (rule insn_step_window [where junk = junk, OF s(1) p15 a(1,2) s(3) [OF a(1)]])
  let ?s = "s\<lparr>world := wd\<rparr>"
  have n: "regs (next_ip ?s) = ?r" "world (next_ip ?s) = wd" "insns_executed (next_ip ?s) = insns_executed s"
    by (simp_all add: next_ip_def s(2))
  note e = exec_isa [of dt ?w ?r m r' m', unfolded a(3), OF i(2)]
  have pk: "\<forall>b\<in>window. peek wd b = m b" using wd(2) s(3) by simp
  have "\<exists>t. run_instruction D junk \<lparr>e_word = ?w, e_reladdr = r 15, e_size = 0\<rparr> ?s = Inr (0, t) \<and> agrees t (r', m') \<and>
      insns_executed t = insns_executed s"
  proof (cases "isa_effect ?r ?w")
    case (Set_reg z v)
    then show ?thesis
      using e wd(1) pk n by (subst run_instruction_isa) (auto simp: apply_effect_def set_reg_def set_r_def agrees_def)
  next
    case (Store x v)
    then have x: "x \<in> window" using e dt by auto
    then obtain w' where "D OP_WRITE x v wd = Inr (0, v, w')" "ok w'"
      "\<forall>b\<in>window. peek w' b = (if b = x then v else peek wd b)"
      using store [OF wd(1)] by metis
    then show ?thesis
      using Store e pk n by (subst run_instruction_isa) (auto simp: apply_effect_def agrees_def)
  next
    case (Load_reg z x)
    then have x: "x \<in> window" using e dt by auto
    then obtain w' where "D OP_DATA_READ x junk wd = Inr (0, peek wd x, w')" "ok w'"
      "\<forall>b\<in>window. peek w' b = peek wd b"
      using read [OF wd(1), of x OP_DATA_READ] by blast
    then show ?thesis
      using Load_reg e pk n x
      by (subst run_instruction_isa) (auto simp: apply_effect_def set_reg_def set_r_def agrees_def)
  qed
  then obtain t where t: "run_instruction D junk \<lparr>e_word = ?w, e_reladdr = r 15, e_size = 0\<rparr> ?s = Inr (0, t)"
    "agrees t (r', m')" "insns_executed t = insns_executed s"
    by blast
  obtain wd2 where "cyc (world t) = Inr (0, wd2)" "ok wd2" "\<forall>b\<in>window. peek wd2 b = peek (world t) b"
    using cycle t(2) unfolding agrees_def by blast
  then show ?thesis using t by (auto simp: step agrees_def)
qed

lemma runs_interp:
  "runs code dt c c' \<Longrightarrow> placed window code dt (snd c) \<Longrightarrow> agrees s c \<Longrightarrow>
     \<exists>t. sim_reaches D junk (tsim_ops cyc) s t \<and> agrees t c' \<and> placed window code dt (snd c')"
proof (induction arbitrary: s rule: runs.induct)
  case (runs_refl c)
  then show ?case using sim_start by blast
next
  case (runs_step c c1 c2)
  obtain r m r1 m1 where c: "c = (r, m)" "c1 = (r1, m1)" by (cases c; cases c1)
  obtain t1 where t1: "insn_step D junk (tsim_ops cyc) s = Inr (None, t1)" "agrees t1 c1"
    using step_interp runs_step.hyps(1) runs_step.prems unfolding c by fastforce
  have "placed window code dt (snd c1)"
    using runs_step.hyps(1) runs_step.prems(1) placed_exec by (fastforce simp: c step_def bind_eq_Some_conv)
  then obtain t where t: "sim_reaches D junk (tsim_ops cyc) t1 t" "agrees t c2" "placed window code dt (snd c2)"
    using runs_step.IH [OF _ t1(2)] by blast
  have "sim_reaches D junk (tsim_ops cyc) s t"
    using t(1)
  proof (induction rule: sim_reaches.induct)
    case sim_start
    then show ?case using t1(1) sim_reaches.sim_start sim_reaches.sim_step by metis
  qed (auto intro: sim_reaches.sim_step)
  then show ?case using t by blast
qed

end

end
