(* ===== verification/Source.thy ===== *)
theory Source
  imports Grammar Build Cpu
begin

unbundle bit_operations_syntax

text \<open>
  What the assembler makes of a source of single words: labels stand for the numbers of their
  elements, and each instruction becomes the word that decodes to it.
\<close>

section \<open>Expressions\<close>

text \<open>Values, given those of the names and the place of the element.\<close>

fun atom_val :: "(u8 list \<Rightarrow> u32) \<Rightarrow> u32 \<Rightarrow> atom \<Rightarrow> u32"
and expr_val :: "(u8 list \<Rightarrow> u32) \<Rightarrow> u32 \<Rightarrow> expr \<Rightarrow> u32" where
  "atom_val rho dot (A_ref n) = rho n"
| "atom_val rho dot (A_local n) = rho n"
| "atom_val rho dot (A_paren e) = expr_val rho dot e"
| "atom_val rho dot (A_un f a) = (if f = CHR ''-'' then - atom_val rho dot a else NOT (atom_val rho dot a))"
| "atom_val rho dot (A_int i) = i"
| "atom_val rho dot (A_bits i) = i"
| "atom_val rho dot (A_chr c) = scast c"
| "atom_val rho dot A_dot = dot"
| "expr_val rho dot (E_atom a) = atom_val rho dot a"
| "expr_val rho dot (E_bin f l r) =
     (case apply2 f (expr_val rho dot l) (expr_val rho dot r) of Inr v \<Rightarrow> v | Inl e \<Rightarrow> 0)"

text \<open>
  What the flags of an expression say: that it refers to a symbol, that its value is not known while
  parsing, that it was written as a bit pattern, that it has a shift or mask.
\<close>

fun atom_ext and expr_ext where
  "atom_ext (A_ref n) = True"
| "atom_ext (A_paren e) = expr_ext e"
| "atom_ext (A_un f a) = atom_ext a"
| "atom_ext a = False"
| "expr_ext (E_atom a) = atom_ext a"
| "expr_ext (E_bin f l r) = (expr_ext l \<or> expr_ext r)"

fun atom_late and expr_late where
  "atom_late (A_ref n) = True"
| "atom_late (A_local n) = True"
| "atom_late A_dot = True"
| "atom_late (A_paren e) = expr_late e"
| "atom_late (A_un f a) = atom_late a"
| "atom_late a = False"
| "expr_late (E_atom a) = atom_late a"
| "expr_late (E_bin f l r) = (expr_late l \<or> expr_late r)"

fun atom_bits and expr_bits where
  "atom_bits (A_int i) = False"
| "atom_bits (A_paren e) = expr_bits e"
| "atom_bits (A_un f a) = atom_bits a"
| "atom_bits a = True"
| "expr_bits (E_atom a) = atom_bits a"
| "expr_bits (E_bin f l r) = (expr_bits l \<or> expr_bits r)"

fun atom_special and expr_special where
  "atom_special (A_paren e) = expr_special e"
| "atom_special (A_un f a) = atom_special a"
| "atom_special a = False"
| "expr_special (E_atom a) = atom_special a"
| "expr_special (E_bin f l r) = (f = Op CHR ''&'' \<or> f = RSHA \<or> expr_special l \<or> expr_special r)"

definition good_name :: "u8 list \<Rightarrow> bool" where
  "good_name n \<longleftrightarrow> length n \<le> 31 \<and> 0 \<notin> set n"

text \<open>
  Expressions that are accepted: sums and differences of symbols and constants, with at most one
  symbol on each path, and constants over all operators.
\<close>

fun atom_ok and expr_ok where
  "atom_ok (A_ref n) = good_name n"
| "atom_ok (A_local n) = good_name n"
| "atom_ok (A_paren e) = expr_ok e"
| "atom_ok (A_un f a) = ((f = CHR ''-'' \<or> f = CHR ''~'') \<and> atom_ok a)"
| "atom_ok a = True"
| "expr_ok (E_atom a) = atom_ok a"
| "expr_ok (E_bin f l r) =
     (expr_ok l \<and> expr_ok r \<and> \<not> (expr_ext l \<and> expr_ext r) \<and>
      (if expr_late l \<or> expr_late r then f = Op CHR ''+'' \<or> f = Op CHR ''-''
       else \<exists>v. apply2 f (expr_val (\<lambda>n. 0) 0 l) (expr_val (\<lambda>n. 0) 0 r) = Inr v) \<and>
      \<not> (expr_ext l \<and> (expr_special l \<or> expr_special r)))"

lemma apply2_total [simp]: "apply2 (Op CHR ''+'') a b = Inr (a + b)" "apply2 (Op CHR ''-'') a b = Inr (a - b)"
  by (simp_all add: apply2_def)

lemma early_val:
  "\<not> atom_late a \<Longrightarrow> atom_val rho dot a = atom_val rho' dot' a"
  "\<not> expr_late e \<Longrightarrow> expr_val rho dot e = expr_val rho' dot' e"
  by (induction a and e rule: atom_ok_expr_ok.induct) auto

lemma ext_late: "atom_ext a \<Longrightarrow> atom_late a" "expr_ext e \<Longrightarrow> expr_late e"
  by (induction a and e rule: atom_ok_expr_ok.induct) auto

section \<open>What the actions build\<close>

text \<open>The tree \<open>c\<close> stands for an expression with the given attributes.\<close>

record attributes =
  at_val :: "(u8 list \<Rightarrow> u32) \<Rightarrow> u32 \<Rightarrow> u32"
  at_ext :: bool
  at_late :: bool
  at_bits :: bool
  at_special :: bool

definition atom_attributes :: "atom \<Rightarrow> attributes" where
  "atom_attributes a = \<lparr>at_val = (\<lambda>rho dot. atom_val rho dot a), at_ext = atom_ext a, at_late = atom_late a,
     at_bits = atom_bits a, at_special = atom_special a\<rparr>"

definition expr_attributes :: "expr \<Rightarrow> attributes" where
  "expr_attributes a = \<lparr>at_val = (\<lambda>rho dot. expr_val rho dot a), at_ext = expr_ext a, at_late = expr_late a,
     at_bits = expr_bits a, at_special = expr_special a\<rparr>"

definition plain_symbols :: "parse_data \<Rightarrow> bool" where
  "plain_symbols pd \<longleftrightarrow> (\<forall>y\<in>set (pd_symbols pd). y_ce y = None \<and> good_name (y_name y))"

definition stands :: "u32 \<Rightarrow> u8 list \<Rightarrow> parse_data \<Rightarrow> attributes \<Rightarrow> const_expr \<Rightarrow> bool" where
  "stands junk after pd a c \<longleftrightarrow>
     refers (length (pd_symbols pd)) c \<and>
     (\<forall>rho dot. value_of (\<lambda>s buf. rho (ref_name pd s buf)) dot c = Inr (at_val a rho dot)) \<and>
     bit (ce_flags (head c)) 0 = at_bits a \<and> \<not> bit (ce_flags (head c)) 1 \<and>
     bit (ce_flags (head c)) 2 = at_late a \<and> bit (ce_flags (head c)) 3 = at_ext a \<and>
     bit (ce_flags (head c)) 8 = at_special a \<and>
     (\<forall>level pd. \<exists>ok. validate_expr c level pd = (ok, pd)) \<and>
     (\<forall>fl old. \<not> bit fl 6 \<and> \<not> bit fl 9 \<longrightarrow>
        (\<exists>rc v. ce_eval junk after pd None c fl 0 old = Some (Inr (rc, v, pd)) \<and>
          (\<not> at_late a \<longrightarrow> rc = 1 \<and> v = at_val a (\<lambda>n. 0) 0)))"

definition known :: "attributes \<Rightarrow> const_expr \<Rightarrow> bool" where
  "known a c \<longleftrightarrow> (\<not> at_late a \<longrightarrow> ce_i (head c) = at_val a (\<lambda>n. 0) 0)"

lemma standsD:
  assumes "stands junk after pd a c"
  shows "refers (length (pd_symbols pd)) c"
    and "value_of (\<lambda>s buf. rho (ref_name pd s buf)) dot c = Inr (at_val a rho dot)"
    and "bit (ce_flags (head c)) 0 = at_bits a" and "\<not> bit (ce_flags (head c)) 1"
    and "bit (ce_flags (head c)) 2 = at_late a" and "bit (ce_flags (head c)) 3 = at_ext a"
    and "bit (ce_flags (head c)) 8 = at_special a"
    and "\<exists>ok. validate_expr c level pd' = (ok, pd')"
    and "\<not> bit fl 6 \<Longrightarrow> \<not> bit fl 9 \<Longrightarrow>
      \<exists>rc v. ce_eval junk after pd None c fl 0 old = Some (Inr (rc, v, pd)) \<and>
        (\<not> at_late a \<longrightarrow> rc = 1 \<and> v = at_val a (\<lambda>n. 0) 0)"
  using assms unfolding stands_def by blast+

text \<open>Changing the head of a tree, but for the flags that matter and a constant's value.\<close>

lemma head_set_head [simp]: "head (set_head u c) = u (head c)"
  by (cases c) (simp_all add: set_head_def)

lemma refers_set_head [simp]: "refers n (set_head u c) = refers n c"
  by (cases c) (simp_all add: set_head_def)

lemma set_head_comp: "set_head u (set_head u' c) = set_head (\<lambda>h. u (u' h)) c"
  by (cases c) (simp_all add: set_head_def)

lemma ce_eval_set_head:
  assumes "\<And>h. c = CE_IMM h \<Longrightarrow> ce_i (u h) = ce_i h" and "\<not> bit fl 6" "\<not> bit fl 9"
  shows "ce_eval junk after pd ctx (set_head u c) fl w old = ce_eval junk after pd ctx c fl w old"
proof (cases c)
  case (CE_REF h t s buf)
  show ?thesis unfolding CE_REF set_head_def
    by (simp, subst (1 2) ce_eval.simps) (simp add: assms(2,3) Let_def cong: option.case_cong if_cong)
next
  case (CE_OP2 h f l r)
  show ?thesis unfolding CE_OP2 set_head_def by (simp, subst (1 2) ce_eval.simps) (simp add: assms(2,3) Let_def)
next
  case (CE_OP1 h f l)
  show ?thesis unfolding CE_OP1 set_head_def by (simp, subst (1 2) ce_eval.simps) (simp add: assms(2,3) Let_def)
next
  case (CE_IMM h)
  show ?thesis using assms(1) [OF CE_IMM] unfolding CE_IMM set_head_def by (simp, subst (1 2) ce_eval.simps) (simp add: assms(2,3))
next
  case (CE_ICI h)
  show ?thesis unfolding CE_ICI set_head_def by (simp, subst (1 2) ce_eval.simps) (simp add: assms(2,3) Let_def)
next
  case (CE_BAD h)
  show ?thesis unfolding CE_BAD set_head_def by (simp, subst (1 2) ce_eval.simps) (simp add: assms(2,3))
qed

lemma stands_set_head:
  assumes "stands junk after pd a c"
    and "\<And>h n. n \<in> {0, 1, 2, 3, 8} \<Longrightarrow> bit (ce_flags (u h)) n = bit (ce_flags h) n"
    and i: "\<And>h. c = CE_IMM h \<Longrightarrow> ce_i (u h) = ce_i h"
  shows "stands junk after pd a (set_head u c)"
proof -
  have "value_of rho dot (set_head u c) = value_of rho dot c" for rho dot
    using i by (cases c) (simp_all add: set_head_def)
  moreover have "validate_expr (set_head u c) level pd' = validate_expr c level pd'" for level pd'
    using assms(2) [of 8] by (cases c) (simp_all add: set_head_def Let_def split: prod.split)
  moreover have "bit (ce_flags (u (head c))) n = bit (ce_flags (head c)) n" if "n \<in> {0, 1, 2, 3, 8}" for n
    using assms(2) [OF that] .
  ultimately show ?thesis
    using assms(1) ce_eval_set_head [OF i] by (simp add: stands_def)
qed

lemma eval_in_place_stands:
  assumes st: "stands junk after pd a c"
  shows "\<exists>c'. eval_in_place junk after (pd, c) = Some (Inr (pd, c')) \<and> stands junk after pd a c' \<and> known a c'"
proof -
  obtain rc v where ev: "ce_eval junk after pd None c 0 0 (ce_i (head c)) = Some (Inr (rc, v, pd))"
    and v: "\<not> at_late a \<Longrightarrow> rc = 1 \<and> v = at_val a (\<lambda>n. 0) 0"
    using standsD(9) [OF st, where fl = 0 and old = "ce_i (head c)"] by auto
  have i: "v = ce_i h" if "c = CE_IMM h" for h
    using ev unfolding that by (subst (asm) ce_eval.simps) simp
  let ?u = "\<lambda>h. h\<lparr>ce_i := v\<rparr>" and ?d = "\<lambda>h. h\<lparr>ce_i := v, ce_flags := ce_flags h OR DONE_EVAL\<rparr>"
  have b: "\<not> bit DONE_EVAL n" if "n \<in> {0, 1, 2, 3, 8}" for n
    using that by (auto simp: DONE_EVAL_def bit_push_bit_iff bit_1_iff)
  have "stands junk after pd a (set_head (\<lambda>h. ?u (?d h)) c)"
    using b i by (intro stands_set_head [OF st]) (auto simp: bit_or_iff)
  then have "stands junk after pd a (set_head ?u (set_head ?d c))" by (simp only: set_head_comp)
  moreover have "stands junk after pd a (set_head ?u c)"
    using i by (intro stands_set_head [OF st]) auto
  ultimately show ?thesis
    using v by (auto simp: eval_in_place_def ce_eval_const_def ev known_def)
qed

text \<open>The nodes.\<close>

lemma flag_bits [simp]:
  "bit IMM_IS_BITS n \<longleftrightarrow> n = 0" "bit IS_DEFERRED n \<longleftrightarrow> n = 2" "bit IS_EXTERNAL n \<longleftrightarrow> n = 3"
  "bit RHS_NEGATE n \<longleftrightarrow> n = 4" "bit FORBID_LHS n \<longleftrightarrow> n = 7" "bit SPECIAL_LHS n \<longleftrightarrow> n = 8"
  by (auto simp: IMM_IS_BITS_def IS_DEFERRED_def IS_EXTERNAL_def RHS_NEGATE_def FORBID_LHS_def SPECIAL_LHS_def
      bit_push_bit_iff bit_1_iff simp del: push_bit_of_1)

lemma stands_imm:
  "stands junk after pd \<lparr>at_val = (\<lambda>rho dot. i), at_ext = False, at_late = False, at_bits = b, at_special = False\<rparr>
     (CE_IMM ((fresh_head (if b then IMM_IS_BITS else 0))\<lparr>ce_i := i\<rparr>))"
  by (auto simp: stands_def fresh_head_def ce_eval.simps)

lemma stands_dot:
  "stands junk after pd \<lparr>at_val = (\<lambda>rho dot. dot), at_ext = False, at_late = True, at_bits = True, at_special = False\<rparr>
     (CE_ICI (fresh_head (IMM_IS_BITS OR IS_DEFERRED)))"
  by (auto simp: stands_def fresh_head_def ce_eval.simps bit_or_iff)

lemma padded_name:
  assumes "good_name n"
  shows "strcopy (n @ replicate (128 - length n) 0) SYMBOL_LEN = Inr (n @ replicate (32 - length n) 0)"
    and "cstr (n @ replicate (32 - length n) 0) = n"
proof -
  have l: "length n \<le> 31" "0 \<notin> set n" using assms by (simp_all add: good_name_def)
  have "take 32 (n @ replicate (128 - length n) 0) = n @ replicate (32 - length n) (0 :: u8)"
    using l(1) by (simp add: min_def)
  moreover have "(n @ replicate (32 - length n) (0 :: u8))[31 := 0] = n @ replicate (32 - length n) 0"
    using l(1) by (intro list_update_same_conv [THEN iffD2]) (auto simp: nth_append)
  ultimately show "strcopy (n @ replicate (128 - length n) 0) SYMBOL_LEN = Inr (n @ replicate (32 - length n) 0)"
    using l(1) by (simp add: strcopy_def SYMBOL_LEN_def)
  show "cstr (n @ replicate (32 - length n) 0) = n"
    unfolding cstr_def using l(2) by (subst takeWhile_append2) (auto simp: takeWhile_replicate)
qed

lemma found_name:
  assumes "plain_symbols pd" and "good_name n" and "symbol_find (pd_symbols pd) n = Some s"
  shows "y_name (pd_symbols pd ! s) = n"
proof -
  have s: "s < length (pd_symbols pd)" by (rule symbol_find_less [OF assms(3)])
  have "strneq SYMBOL_LEN (y_name (pd_symbols pd ! s)) n"
    using find_index assms(3) unfolding symbol_find_def by fastforce
  moreover have "good_name (y_name (pd_symbols pd ! s))" using assms(1) s by (simp add: plain_symbols_def)
  ultimately show ?thesis using assms(2) by (simp add: strneq_def SYMBOL_LEN_def good_name_def)
qed

lemma stands_ref:
  assumes pl: "plain_symbols pd" and n: "good_name n"
  shows "\<exists>c. make_ref pd t n = Inr (pd, c) \<and> stands junk after pd
    \<lparr>at_val = (\<lambda>rho dot. rho n), at_ext = (t = CE_EXT), at_late = True, at_bits = True, at_special = False\<rparr> c"
proof -
  have v: "sym_ce pd None = None" "\<And>k. k < length (pd_symbols pd) \<Longrightarrow> y_ce (pd_symbols pd ! k) = None"
    using pl by (simp_all add: plain_symbols_def sym_ce_def)
  have ev: "\<exists>rc v. ce_eval junk after pd None (CE_REF h u s buf) fl 0 old = Some (Inr (rc, v, pd))"
    if "sym_ce pd s = None" "\<not> bit fl 6" "\<not> bit fl 9" for h u s buf fl old
    using that v(2) symbol_find_less
    by (subst ce_eval.simps) (auto simp: symbol_lookup_def Let_def split: option.split)
  show ?thesis
  proof (cases "symbol_find (pd_symbols pd) n")
    case None
    then show ?thesis
      using padded_name [OF n] n v(1) ev
      by (auto simp: make_ref_def make_expr_def stands_def fresh_head_def bit_or_iff ref_name_def SYMBOL_LEN_def good_name_def Let_def)
  next
    case (Some s)
    then have "s < length (pd_symbols pd)" "y_name (pd_symbols pd ! s) = n"
      using symbol_find_less found_name [OF pl n] by auto
    moreover from this have "sym_ce pd (Some s) = None" using v(2) by (simp add: sym_ce_def)
    ultimately show ?thesis
      using Some ev
      by (auto simp: make_ref_def make_expr_def stands_def fresh_head_def bit_or_iff ref_name_def Let_def)
  qed
qed

lemma stands_op1:
  assumes st: "stands junk after pd a c" and f: "f = CHR ''-'' \<or> f = CHR ''~''"
  shows "stands junk after pd (a\<lparr>at_val := (\<lambda>rho dot. if f = CHR ''-'' then - at_val a rho dot else NOT (at_val a rho dot))\<rparr>)
    (CE_OP1 (fresh_head (ce_flags (head c))) (Op f) c)"
proof -
  have "\<exists>rc v. ce_eval junk after pd None (CE_OP1 h (Op f) c) fl 0 old = Some (Inr (rc, v, pd)) \<and>
      (\<not> at_late a \<longrightarrow> rc = 1 \<and> v = (if f = CHR ''-'' then - at_val a (\<lambda>n. 0) 0 else NOT (at_val a (\<lambda>n. 0) 0)))"
    if fl: "\<not> bit fl 6" "\<not> bit fl 9" for h fl old
  proof -
    obtain rc v where "ce_eval junk after pd None c fl 0 old = Some (Inr (rc, v, pd))"
      "\<not> at_late a \<Longrightarrow> rc = 1 \<and> v = at_val a (\<lambda>n. 0) 0"
      using standsD(9) [OF st fl, of old] by blast
    then show ?thesis
      using f fl by (subst ce_eval.simps) (cases "rc = 0"; auto simp: apply1_def)
  qed
  moreover have "\<exists>ok. validate_expr (CE_OP1 h (Op f) c) level pd' = (ok, pd')" for h level pd'
    using standsD(8) [OF st, of "level + 1" pd'] by auto
  ultimately show ?thesis
    using standsD(1-7) [OF st] f unfolding stands_def by (auto simp: fresh_head_def apply1_def)
qed

lemma bit_bin_flags:
  "bit (bin_flags f) 8 \<longleftrightarrow> f = Op CHR ''&'' \<or> f = RSHA"
  "\<not> bit (bin_flags f) 0" "\<not> bit (bin_flags f) 1" "\<not> bit (bin_flags f) 2" "\<not> bit (bin_flags f) 3"
proof -
  show "bit (bin_flags f) 8 \<longleftrightarrow> f = Op CHR ''&'' \<or> f = RSHA" by (auto simp add: bin_flags_def)
  show "\<not> bit (bin_flags f) 0" by (simp add: bin_flags_def)
  show "\<not> bit (bin_flags f) 1" by (simp add: bin_flags_def)
  show "\<not> bit (bin_flags f) 2" by (simp add: bin_flags_def)
  show "\<not> bit (bin_flags f) 3" by (simp add: bin_flags_def)
qed

lemma stands_op2:
  assumes l: "stands junk after pd a cl" "known a cl" and r: "stands junk after pd b cr"
    and one: "\<not> (at_ext a \<and> at_ext b)" and sp: "\<not> (at_ext a \<and> (f = Op CHR ''&'' \<or> f = RSHA \<or> at_special a \<or> at_special b))"
    and op: "if at_late a \<or> at_late b then f = Op CHR ''+'' \<or> f = Op CHR ''-''
      else \<exists>v. apply2 f (at_val a (\<lambda>n. 0) 0) (at_val b (\<lambda>n. 0) 0) = Inr v"
    and early: "\<And>rho dot. \<not> at_late a \<Longrightarrow> at_val a rho dot = at_val a (\<lambda>n. 0) 0"
      "\<And>rho dot. \<not> at_late b \<Longrightarrow> at_val b rho dot = at_val b (\<lambda>n. 0) 0"
  shows "stands junk after pd
    \<lparr>at_val = (\<lambda>rho dot. case apply2 f (at_val a rho dot) (at_val b rho dot) of Inr v \<Rightarrow> v | Inl e \<Rightarrow> 0),
     at_ext = (at_ext a \<or> at_ext b), at_late = (at_late a \<or> at_late b), at_bits = (at_bits a \<or> at_bits b),
     at_special = (f = Op CHR ''&'' \<or> f = RSHA \<or> at_special a \<or> at_special b)\<rparr>
    (CE_OP2 (fresh_head (ce_flags (head cl) OR ce_flags (head cr) OR bin_flags f)) f cl cr)"
proof -
  have tot: "\<exists>v. apply2 f (at_val a rho dot) (at_val b rho dot) = Inr v" for rho dot
    using op early(1) [of rho dot] early(2) [of rho dot] by (cases "at_late a \<or> at_late b") auto
  note bf = bit_bin_flags [of f]
  have "\<exists>rc v. ce_eval junk after pd None (CE_OP2 h f cl cr) fl 0 old = Some (Inr (rc, v, pd)) \<and>
      (\<not> (at_late a \<or> at_late b) \<longrightarrow> rc = 1 \<and>
         v = (case apply2 f (at_val a (\<lambda>n. 0) 0) (at_val b (\<lambda>n. 0) 0) of Inr v \<Rightarrow> v | Inl e \<Rightarrow> 0))"
    if fl: "\<not> bit fl 6" "\<not> bit fl 9" for h fl old
  proof -
    let ?fl = "if f = Op CHR ''-'' then fl XOR RHS_NEGATE else fl"
    have "\<not> bit ?fl 6" "\<not> bit ?fl 9" using fl by (auto simp: bit_xor_iff)
    from standsD(9) [OF r this, of junk] obtain rc2 v2 where
      e2: "ce_eval junk after pd None cr ?fl 0 junk = Some (Inr (rc2, v2, pd))"
        "\<not> at_late b \<Longrightarrow> rc2 = 1 \<and> v2 = at_val b (\<lambda>n. 0) 0" by blast
    from standsD(9) [OF l(1) fl, of junk] obtain rc1 v1 where
      e1: "ce_eval junk after pd None cl fl 0 junk = Some (Inr (rc1, v1, pd))"
        "\<not> at_late a \<Longrightarrow> rc1 = 1 \<and> v1 = at_val a (\<lambda>n. 0) 0" by blast
    have "\<exists>v. apply2 f v1 v2 = Inr v"
      using op e1(2) e2(2) by (cases "at_late a \<or> at_late b") auto
    then obtain v where v: "apply2 f v1 v2 = Inr v" by blast
    have "ce_eval junk after pd None (CE_OP2 h f cl cr) fl 0 old =
        (if rc1 = 0 \<or> rc2 = 0 then Some (Inr (0, old, pd)) else Some (Inr (1, v, pd)))"
      using fl by (subst ce_eval.simps) (simp add: Let_def e1(1) e2(1) v)
    then show ?thesis using e1(2) e2(2) v by (cases "at_late a"; cases "at_late b") auto
  qed
  moreover have "\<exists>ok. validate_expr (CE_OP2 (fresh_head (ce_flags (head cl) OR ce_flags (head cr) OR bin_flags f)) f cl cr) level pd' = (ok, pd')" for level pd'
  proof -
    obtain ok1 ok2 where "validate_expr cl (level + 1) pd' = (ok1, pd')" "validate_expr cr (level + 1) pd' = (ok2, pd')"
      using standsD(8) l(1) r by blast
    then show ?thesis
      using one sp standsD(6,7) [OF l(1)] standsD(6,7) [OF r] bf(1)
      by (auto simp: fresh_head_def bit_or_iff Let_def)
  qed
  moreover have "value_of (\<lambda>s buf. rho (ref_name pd s buf)) dot (CE_OP2 h f cl cr) =
      Inr (case apply2 f (at_val a rho dot) (at_val b rho dot) of Inr v \<Rightarrow> v | Inl e \<Rightarrow> 0)" for rho dot h
    using standsD(2) [OF l(1), of rho dot] standsD(2) [OF r, of rho dot] tot [of rho dot] by auto
  ultimately show ?thesis
    using standsD(1,3-7) [OF l(1)] standsD(1,3-7) [OF r] bf unfolding stands_def
    by (simp add: fresh_head_def bit_or_iff) blast
qed

lemma attributes_early:
  "\<not> at_late (expr_attributes e) \<Longrightarrow>
     at_val (expr_attributes e) rho dot = at_val (expr_attributes e) (\<lambda>n. 0) 0"
  by (simp add: expr_attributes_def early_val(2) [of e rho dot "\<lambda>n. 0" 0])

text \<open>The actions accept such an expression, and build a tree that stands for it.\<close>

lemma actions_stand:
  assumes pl: "plain_symbols pd"
  shows "atom_ok a \<Longrightarrow> \<exists>c. atom_ce junk after pd a = Some (Inr (pd, c)) \<and>
      stands junk after pd (atom_attributes a) c \<and> known (atom_attributes a) c"
    and "expr_ok e \<Longrightarrow> \<exists>c. expr_ce junk after pd e = Some (Inr (pd, c)) \<and>
      stands junk after pd (expr_attributes e) c \<and> known (expr_attributes e) c"
proof (induction a and e)
  case (A_ref n)
  then show ?case
    using stands_ref [OF pl, where n = n and t = CE_EXT and junk = junk and after = after] by (auto simp: atom_attributes_def known_def)
next
  case (A_local n)
  then show ?case
    using stands_ref [OF pl, where n = n and t = CE_SYM and junk = junk and after = after] by (auto simp: atom_attributes_def known_def)
next
  case (A_paren e)
  then show ?case by (simp add: atom_attributes_def expr_attributes_def)
next
  case (A_un f a)
  then obtain c where c: "atom_ce junk after pd a = Some (Inr (pd, c))" "stands junk after pd (atom_attributes a) c"
    and f: "f = CHR ''-'' \<or> f = CHR ''~''"
    by auto
  have "(atom_attributes a)\<lparr>at_val := (\<lambda>rho dot. if f = CHR ''-'' then - at_val (atom_attributes a) rho dot
      else NOT (at_val (atom_attributes a) rho dot))\<rparr> = atom_attributes (A_un f a)"
    by (simp add: atom_attributes_def cong: if_cong)
  then have "stands junk after pd (atom_attributes (A_un f a)) (CE_OP1 (fresh_head (ce_flags (head c))) (Op f) c)"
    using stands_op1 [OF c(2) f] by simp
  from eval_in_place_stands [OF this] show ?case by (simp add: c(1) make_expr_def Let_def)
next
  case (A_int i)
  show ?case using stands_imm [of junk after pd i False]
    by (auto simp: atom_attributes_def known_def make_expr_def set_head_def Let_def)
next
  case (A_bits i)
  show ?case using stands_imm [of junk after pd i True]
    by (auto simp: atom_attributes_def known_def make_expr_def set_head_def Let_def)
next
  case (A_chr i)
  show ?case using stands_imm [of junk after pd "scast i" True]
    by (auto simp: atom_attributes_def known_def make_expr_def set_head_def Let_def)
next
  case A_dot
  show ?case using stands_dot
    by (auto simp: atom_attributes_def known_def make_expr_def Let_def)
next
  case (E_atom a)
  then obtain c where c: "atom_ce junk after pd a = Some (Inr (pd, c))" "stands junk after pd (atom_attributes a) c"
    by auto
  have "atom_attributes a = expr_attributes (E_atom a)" by (simp add: atom_attributes_def expr_attributes_def)
  then show ?case using eval_in_place_stands [OF c(2)] by (simp add: c(1))
next
  case (E_bin f l r)
  then obtain cl cr where l: "expr_ce junk after pd l = Some (Inr (pd, cl))" "stands junk after pd (expr_attributes l) cl"
      "known (expr_attributes l) cl"
    and r: "expr_ce junk after pd r = Some (Inr (pd, cr))" "stands junk after pd (expr_attributes r) cr"
    by auto
  let ?c = "CE_OP2 (fresh_head (ce_flags (head cl) OR ce_flags (head cr) OR bin_flags f)) f cl cr"
  let ?a = "expr_attributes l" and ?b = "expr_attributes r"
  have e: "expr_attributes (E_bin f l r) =
      \<lparr>at_val = (\<lambda>rho dot. case apply2 f (at_val ?a rho dot) (at_val ?b rho dot) of Inr v \<Rightarrow> v | Inl e \<Rightarrow> 0),
       at_ext = (at_ext ?a \<or> at_ext ?b), at_late = (at_late ?a \<or> at_late ?b), at_bits = (at_bits ?a \<or> at_bits ?b),
       at_special = (f = Op CHR ''&'' \<or> f = RSHA \<or> at_special ?a \<or> at_special ?b)\<rparr>"
    by (simp add: expr_attributes_def)
  have "stands junk after pd (expr_attributes (E_bin f l r)) ?c"
    unfolding e
  proof (rule stands_op2 [OF l(2,3) r(2)])
    show "\<not> (at_ext ?a \<and> at_ext ?b)" using E_bin.prems by (simp add: expr_attributes_def)
    show "\<not> (at_ext ?a \<and> (f = Op CHR ''&'' \<or> f = RSHA \<or> at_special ?a \<or> at_special ?b))"
      using E_bin.prems by (auto simp: expr_attributes_def dest: ext_late split: if_splits)
    show "if at_late ?a \<or> at_late ?b then f = Op CHR ''+'' \<or> f = Op CHR ''-''
        else \<exists>v. apply2 f (at_val ?a (\<lambda>n. 0) 0) (at_val ?b (\<lambda>n. 0) 0) = Inr v"
      using E_bin.prems by (simp add: expr_attributes_def)
  qed (rule attributes_early, assumption)+
  moreover have "\<not> (flagged (ce_flags (head cl)) IS_EXTERNAL \<and> flagged (bin_flags f) FORBID_LHS)"
    using E_bin.prems standsD(6) [OF l(2)] by (auto simp: expr_attributes_def bin_flags_def dest: ext_late)
  moreover obtain c' where "eval_in_place junk after (pd, ?c) = Some (Inr (pd, c'))"
    "stands junk after pd (expr_attributes (E_bin f l r)) c'" "known (expr_attributes (E_bin f l r)) c'"
    using eval_in_place_stands [OF calculation(1)] by blast
  ultimately show ?case by (auto simp: l(1) r(1) make_expr_def Let_def)
qed

section \<open>Instructions\<close>

fun opcode_of :: "binop \<Rightarrow> opcode" where
  "opcode_of (Native f) = f" | "opcode_of (Swapped f) = f"

definition wide :: "atom \<Rightarrow> bool" where
  "wide a \<longleftrightarrow> atom_bits a \<or> atom_late a \<or> atom_val (\<lambda>n. 0) 0 a \<noteq> SEXTEND32 12 (atom_val (\<lambda>n. 0) 0 a)"

text \<open>The right-hand side an instruction will have.\<close>

fun rhs_of :: "(u8 list \<Rightarrow> u32) \<Rightarrow> u32 \<Rightarrow> rhs_plain \<Rightarrow> rhs" where
  "rhs_of rho dot (R_reg_reg_imm x f y neg a) =
     (let v = (if neg then - atom_val rho dot a else atom_val rho dot a) in
      case f of Native f \<Rightarrow> T0 f x y v | Swapped f \<Rightarrow> T0 f y x v)"
| "rhs_of rho dot (R_reg_reg x f y) = (case f of Native f \<Rightarrow> T0 f x y 0 | Swapped f \<Rightarrow> T0 f y x 0)"
| "rhs_of rho dot (R_reg x) = T0 OP_BITWISE_OR x 0 0"
| "rhs_of rho dot (R_reg_imm_reg x f a y) =
     (case f of Native f \<Rightarrow> T1 f x (atom_val rho dot a) y | Swapped f \<Rightarrow> T2 f (atom_val rho dot a) x y)"
| "rhs_of rho dot (R_reg_imm x f a) =
     (let v = atom_val rho dot a in
      case f of
        Native OP_ADD \<Rightarrow> if wide a then T3 x v else T1 OP_ADD x v 0
      | Native OP_SUBTRACT \<Rightarrow> if wide a then T3 x (- v) else T1 OP_ADD x (- v) 0
      | Native f \<Rightarrow> T1 f x v 0
      | Swapped f \<Rightarrow> T2 f v x 0)"
| "rhs_of rho dot (R_imm_reg_reg a f x y) =
     (case f of Native f \<Rightarrow> T2 f (atom_val rho dot a) x y | Swapped f \<Rightarrow> T1 f x (atom_val rho dot a) y)"
| "rhs_of rho dot (R_imm_reg a f x) =
     (case f of Native f \<Rightarrow> T2 f (atom_val rho dot a) x 0 | Swapped f \<Rightarrow> T1 f x (atom_val rho dot a) 0)"
| "rhs_of rho dot (R_imm a) =
     (if wide a then T3 0 (atom_val rho dot a) else T0 OP_BITWISE_OR 0 0 (atom_val rho dot a))"
| "rhs_of rho dot (R_un_imm f x neg a) = T0 f 0 x (if neg then - atom_val rho dot a else atom_val rho dot a)"
| "rhs_of rho dot (R_un_reg f x y) = T2 f 0 x y"
| "rhs_of rho dot (R_un f x) = T2 f 0 x 0"

fun rhs_ok :: "rhs_plain \<Rightarrow> bool" where
  "rhs_ok (R_reg_reg_imm x f y neg a) \<longleftrightarrow> opcode_of f \<noteq> OP_PACK \<and> atom_ok a"
| "rhs_ok (R_reg_reg x f y) \<longleftrightarrow> True"
| "rhs_ok (R_reg x) \<longleftrightarrow> True"
| "rhs_ok (R_reg_imm_reg x f a y) \<longleftrightarrow> opcode_of f \<noteq> OP_PACK \<and> atom_ok a"
| "rhs_ok (R_reg_imm x f a) \<longleftrightarrow> opcode_of f \<noteq> OP_PACK \<and> atom_ok a"
| "rhs_ok (R_imm_reg_reg a f x y) \<longleftrightarrow> opcode_of f \<noteq> OP_PACK \<and> atom_ok a"
| "rhs_ok (R_imm_reg a f x) \<longleftrightarrow> opcode_of f \<noteq> OP_PACK \<and> atom_ok a"
| "rhs_ok (R_imm a) \<longleftrightarrow> atom_ok a"
| "rhs_ok (R_un_imm f x neg a) \<longleftrightarrow> f \<noteq> OP_PACK \<and> atom_ok a"
| "rhs_ok (R_un_reg f x y) \<longleftrightarrow> True"
| "rhs_ok (R_un f x) \<longleftrightarrow> True"

text \<open>A side expression with the value \<open>i\<close> in its field.\<close>

definition with_imm :: "side_expr \<Rightarrow> u32 \<Rightarrow> rhs" where
  "with_imm e i =
     (let f = all_ops ! unat (x_op e) in
      if x_type e = 0 then T0 f (x_x e) (x_y e) i
      else if x_type e = 1 then T1 f (x_x e) i (x_y e)
      else if x_type e = 2 then T2 f i (x_x e) (x_y e)
      else T3 (x_x e) i)"

text \<open>What later parsing does not change about a tree.\<close>

definition denotes :: "parse_data \<Rightarrow> ((u8 list \<Rightarrow> u32) \<Rightarrow> u32 \<Rightarrow> u32) \<Rightarrow> const_expr \<Rightarrow> bool" where
  "denotes pd g c \<longleftrightarrow> refers (length (pd_symbols pd)) c \<and> \<not> bit (ce_flags (head c)) 1 \<and>
     (\<forall>rho dot. value_of (\<lambda>s buf. rho (ref_name pd s buf)) dot c = Inr (g rho dot))"

text \<open>The field is empty, or will get the value of the tree.\<close>

definition side_denotes :: "parse_data \<Rightarrow> ((u8 list \<Rightarrow> u32) \<Rightarrow> u32 \<Rightarrow> rhs) \<Rightarrow> side_expr \<Rightarrow> bool" where
  "side_denotes pd h e \<longleftrightarrow> x_type e < 4 \<and>
     (case x_ce e of
        None \<Rightarrow> x_i e = 0 \<and> (\<forall>rho dot. h rho dot = with_imm e 0)
      | Some c \<Rightarrow> \<exists>g. denotes pd g c \<and> (\<forall>rho dot. h rho dot = with_imm e (g rho dot * x_mult e)))"

lemma op_word_code [simp]: "all_ops ! unat (op_word f) = f"
  by (cases f) (simp_all add: op_word_def all_ops_def)

lemma vatom_stands:
  assumes "plain_symbols pd" and "atom_ok a"
  shows "\<exists>c. vatom junk after pd a = Some (Inr (pd, c)) \<and> denotes pd (\<lambda>rho dot. atom_val rho dot a) c \<and>
    is_type3 c = wide a"
proof -
  obtain c where c: "atom_ce junk after pd a = Some (Inr (pd, c))" "stands junk after pd (atom_attributes a) c"
      "known (atom_attributes a) c"
    using actions_stand(1) [OF assms] by blast
  obtain ok where "validate_expr c 0 pd = (ok, pd)" using standsD(8) [OF c(2)] by blast
  moreover have "is_type3 c = wide a"
    using c(3) standsD(3,5) [OF c(2)] by (auto simp: is_type3_def wide_def known_def atom_attributes_def)
  ultimately show ?thesis
    using c(1) standsD(1,2,4) [OF c(2)] by (auto simp: vatom_def denotes_def atom_attributes_def)
qed

lemma rhs_action_denotes:
  assumes pl: "plain_symbols pd" and ok: "rhs_ok r"
  shows "\<exists>e. rhs_action junk after pd r = Some (Inr (pd, e)) \<and> side_denotes pd (\<lambda>rho dot. rhs_of rho dot r) e"
proof -
  have v: "\<exists>c. vatom junk after pd a = Some (Inr (pd, c)) \<and> denotes pd (\<lambda>rho dot. atom_val rho dot a) c \<and>
      is_type3 c = wide a" if "atom_ok a" for a
    by (rule vatom_stands [OF pl that])
  show ?thesis
  proof (cases r)
    case (R_reg_reg_imm x f y neg a)
    then obtain c where "vatom junk after pd a = Some (Inr (pd, c))" "denotes pd (\<lambda>rho dot. atom_val rho dot a) c"
      using v ok by auto
    then show ?thesis
      using ok R_reg_reg_imm
      by (cases f) (auto intro!: exI [of _ "\<lambda>rho dot. atom_val rho dot a"] simp: side_denotes_def make_rhs_def with_imm_def Let_def)
  next
    case (R_reg_imm x f a)
    then obtain c where c: "vatom junk after pd a = Some (Inr (pd, c))" "denotes pd (\<lambda>rho dot. atom_val rho dot a) c"
        "is_type3 c = wide a"
      using v ok by auto
    show ?thesis
    proof (cases f)
      case (Native g)
      then show ?thesis
        using ok R_reg_imm c
        by (cases "g = OP_ADD \<or> g = OP_SUBTRACT")
          (auto intro!: exI [of _ "\<lambda>rho dot. atom_val rho dot a"] simp: side_denotes_def make_rhs_def with_imm_def Let_def split: opcode.split)
    next
      case (Swapped g)
      then show ?thesis
        using ok R_reg_imm c by (auto intro!: exI [of _ "\<lambda>rho dot. atom_val rho dot a"] simp: side_denotes_def make_rhs_def with_imm_def Let_def)
    qed
  next
    case (R_reg_imm_reg x f a y)
    then obtain c where "vatom junk after pd a = Some (Inr (pd, c))" "denotes pd (\<lambda>rho dot. atom_val rho dot a) c"
      using v ok by auto
    then show ?thesis
      using ok R_reg_imm_reg
      by (cases f) (auto intro!: exI [of _ "\<lambda>rho dot. atom_val rho dot a"] simp: side_denotes_def make_rhs_def with_imm_def Let_def)
  next
    case (R_imm_reg_reg a f x y)
    then obtain c where "vatom junk after pd a = Some (Inr (pd, c))" "denotes pd (\<lambda>rho dot. atom_val rho dot a) c"
      using v ok by auto
    then show ?thesis
      using ok R_imm_reg_reg
      by (cases f) (auto intro!: exI [of _ "\<lambda>rho dot. atom_val rho dot a"] simp: side_denotes_def make_rhs_def with_imm_def Let_def)
  next
    case (R_imm_reg a f x)
    then obtain c where "vatom junk after pd a = Some (Inr (pd, c))" "denotes pd (\<lambda>rho dot. atom_val rho dot a) c"
      using v ok by auto
    then show ?thesis
      using ok R_imm_reg
      by (cases f) (auto intro!: exI [of _ "\<lambda>rho dot. atom_val rho dot a"] simp: side_denotes_def make_rhs_def with_imm_def Let_def)
  next
    case (R_imm a)
    then obtain c where "vatom junk after pd a = Some (Inr (pd, c))" "denotes pd (\<lambda>rho dot. atom_val rho dot a) c"
        "is_type3 c = wide a"
      using v ok by auto
    then show ?thesis
      using ok R_imm by (auto intro!: exI [of _ "\<lambda>rho dot. atom_val rho dot a"] simp: side_denotes_def make_rhs_def with_imm_def Let_def)
  next
    case (R_un_imm f x neg a)
    then obtain c where "vatom junk after pd a = Some (Inr (pd, c))" "denotes pd (\<lambda>rho dot. atom_val rho dot a) c"
      using v ok by auto
    then show ?thesis
      using ok R_un_imm
      by (auto intro!: exI [of _ "\<lambda>rho dot. atom_val rho dot a"] simp: side_denotes_def make_unary_def make_rhs_def with_imm_def Let_def)
  next
    case (R_reg_reg x f y)
    then show ?thesis by (cases f) (auto simp: side_denotes_def make_rhs_def with_imm_def Let_def)
  qed (auto simp: side_denotes_def make_unary_def make_rhs_def with_imm_def Let_def)
qed

section \<open>Words\<close>

definition side_word :: "2 word \<Rightarrow> regname \<Rightarrow> side_expr \<Rightarrow> u32 \<Rightarrow> u32" where
  "side_word dd z e i =
     (if x_type e = 3 then pack3 3 dd z (x_x e) (ucast i)
      else pack012 (of_nat (x_type e)) dd z (x_x e) (x_y e) (x_op e) (ucast i))"

definition side_width :: "side_expr \<Rightarrow> nat" where
  "side_width e = (if x_type e = 3 then 20 else 12)"

definition moved :: "2 word \<Rightarrow> regname \<Rightarrow> rhs \<Rightarrow> instr" where
  "moved dd z r = (if dd = 0 then Set z r else if dd = 1 then Put z r else if dd = 2 then Store z r else Load z r)"

lemma signed_field:
  "scast (ucast (i :: u32) :: 12 word) = SEXTEND32 12 i" "scast (ucast (i :: u32) :: 20 word) = SEXTEND32 20 i"
  by (simp_all add: SEXTEND32_signed_take_bit, (rule bit_word_eqI, simp add: bit_simps min_def)+)

lemma less4: "n < 4 \<Longrightarrow> n = 0 \<or> n = 1 \<or> n = 2 \<or> n = (3 :: nat)"
  by arith

lemma decode_side_word:
  assumes "x_type e < 4" and "i = SEXTEND32 (side_width e) i"
  shows "decode (side_word dd z e i) = moved dd z (with_imm e i)"
proof -
  have "(2 :: 2 word) \<noteq> 3" "(1 :: 2 word) \<noteq> 3" "(0 :: 2 word) \<noteq> 3" by simp_all
  then show ?thesis
    using less4 [OF assms(1)] assms(2)
    by (elim disjE; cases dd rule: word2_cases)
      (simp_all add: decode_def moved_def side_word_def side_width_def decode_rhs_def with_imm_def isa_op_def signed_field)
qed

lemma bit_put_field: "bit (put_field k v w) n \<longleftrightarrow> n < 32 \<and> (if n < k then bit v n else bit w n)"
  by (auto simp: put_field_def Let_def bit_simps dest: bit_imp_le_length)

lemma put_field_pack:
  "put_field 12 i (pack012 p dd z x y f j) = pack012 p dd z x y f (ucast i)"
  "put_field 20 i (pack3 p dd z x k) = pack3 p dd z x (ucast i)"
  unfolding pack012_def pack3_def
  by (rule bit_word_eqI, auto simp: bit_put_field bit_or_iff bit_push_bit_iff bit_ucast_iff dest: bit_imp_le_length)+

lemma put_field_side_word: "put_field (side_width e) i (side_word dd z e j) = side_word dd z e i"
  by (simp add: side_width_def side_word_def put_field_pack)

section \<open>What has been collected\<close>

fun labels_of :: "source_element \<Rightarrow> u8 list list" where
  "labels_of (Label n e) = labels_of e @ [n]"
| "labels_of e = []"

fun core :: "source_element \<Rightarrow> source_element" where
  "core (Label n e) = core e"
| "core e = e"

text \<open>The labels of the elements, in the order of their definition, each with its element.\<close>

definition places :: "source_element list \<Rightarrow> (u8 list \<times> nat) list" where
  "places es = concat (map (\<lambda>k. map (\<lambda>n. (n, k)) (labels_of (es ! k))) [0..<length es])"

fun accepted :: "source_element \<Rightarrow> bool" where
  "accepted (Label n e) \<longleftrightarrow> good_name n \<and> accepted e"
| "accepted Illegal \<longleftrightarrow> True"
| "accepted (Words [e]) \<longleftrightarrow> expr_ok e"
| "accepted (Instr d arr s) \<longleftrightarrow> (case s of
     Plain r \<Rightarrow> rhs_ok r \<and> arr = To_left | Deref r \<Rightarrow> rhs_ok r \<and> (\<exists>z. d = Reg z))"
| "accepted _ \<longleftrightarrow> False"

fun side_rhs :: "side \<Rightarrow> rhs_plain" where
  "side_rhs (Plain r) = r" | "side_rhs (Deref r) = r"

fun dest_reg :: "dest \<Rightarrow> regname" where
  "dest_reg (Reg z) = z" | "dest_reg (Mem z) = z"

definition dd_of :: "dest \<Rightarrow> arrow \<Rightarrow> side \<Rightarrow> 2 word" where
  "dd_of d arr s = (case s of Deref r \<Rightarrow> if arr = To_left then 3 else 1
     | Plain r \<Rightarrow> (case d of Mem z \<Rightarrow> 2 | Reg z \<Rightarrow> 0))"

text \<open>The word an element starts with, and the deferred expression of its field, if any.\<close>

definition field_of :: "nat \<Rightarrow> const_expr \<Rightarrow> nat \<Rightarrow> u32 \<Rightarrow> deferred_expr" where
  "field_of k c w m = \<lparr>d_ce = set_head (\<lambda>h. h\<lparr>ce_insn := Some k\<rparr>) c, d_dest = k, d_width = w, d_mult = m\<rparr>"

definition built :: "parse_data \<Rightarrow> nat \<Rightarrow> source_element \<Rightarrow> u32 \<Rightarrow> deferred_expr option \<Rightarrow> bool" where
  "built pd k e w r \<longleftrightarrow> (case core e of
     Illegal \<Rightarrow> w = 0xffffffff \<and> r = None
   | Words es \<Rightarrow> w = 0 \<and> (\<exists>x c. es = [x] \<and> r = Some (field_of k c 32 1) \<and>
       denotes pd (\<lambda>rho dot. expr_val rho dot x) c)
   | Instr d arr s \<Rightarrow> (\<exists>x. side_denotes pd (\<lambda>rho dot. rhs_of rho dot (side_rhs s)) x \<and>
       w = side_word (dd_of d arr s) (dest_reg d) x (x_i x) \<and>
       r = map_option (\<lambda>c. field_of k c (side_width x) (x_mult x)) (x_ce x))
   | _ \<Rightarrow> False)"

definition collected :: "source_element list \<Rightarrow> parse_data \<Rightarrow> bool" where
  "collected es pd \<longleftrightarrow> pd_errored pd = 0 \<and> length (pd_top pd) = length es \<and>
     length (pd_symbols pd) = length (places es) \<and>
     (\<forall>l<length (places es). let y = pd_symbols pd ! l in
        y_name y = fst (places es ! l) \<and> good_name (y_name y) \<and> y_ce y = None \<and> \<not> y_resolved y \<and> y_unique y \<and>
        (\<forall>j\<in>set (y_next y). j < length (places es))) \<and>
     (\<exists>rs. pd_defexprs pd = List.map_filter rs (rev [0..<length es]) \<and>
        (\<forall>k<length es. \<exists>w ls. pd_top pd ! k = Some \<lparr>e_word = w, e_reladdr = 0, e_size = 1, el_symbol = ls\<rparr> \<and>
           (\<forall>l. l \<in> set ls \<longleftrightarrow> l < length (places es) \<and> snd (places es ! l) = k) \<and>
           built pd k (es ! k) w (rs k)))"

lemma collected_empty: "collected [] empty_parse_data"
  by (simp add: collected_def empty_parse_data_def places_def List.map_filter_simps)

lemma places_snoc: "places (es @ [e]) = places es @ map (\<lambda>n. (n, length es)) (labels_of e)"
proof -
  have "map (\<lambda>k. map (\<lambda>n. (n, k)) (labels_of ((es @ [e]) ! k))) [0..<length es] =
      map (\<lambda>k. map (\<lambda>n. (n, k)) (labels_of (es ! k))) [0..<length es]"
    by (rule map_cong) (auto simp: nth_append)
  then have "concat (map (\<lambda>k. map (\<lambda>n. (n, k)) (labels_of ((es @ [e]) ! k))) [0..<length es]) = places es"
    unfolding places_def by (rule arg_cong)
  then show ?thesis unfolding places_def by (simp del: map_eq_conv)
qed

lemma places_bound: "(n, k) \<in> set (places es) \<Longrightarrow> k < length es"
  by (auto simp: places_def)

lemma denotes_mono:
  assumes "denotes pd g c" and "pd_symbols pd' = pd_symbols pd @ ys"
  shows "denotes pd' g c"
proof -
  have r: "refers (length (pd_symbols pd)) c" using assms(1) by (simp add: denotes_def)
  have "refers n c \<Longrightarrow> n \<le> m \<Longrightarrow> refers m c" for n m by (induction c) (auto split: option.splits)
  then have "refers (length (pd_symbols pd')) c" using r assms(2) by simp
  moreover have "value_of (\<lambda>s buf. rho (ref_name pd' s buf)) dot c = value_of (\<lambda>s buf. rho (ref_name pd s buf)) dot c" for rho dot
    using assms(2) by (intro value_of_cong [OF _ r]) (auto simp: ref_name_def nth_append split: option.split)
  ultimately show ?thesis using assms(1) by (simp add: denotes_def)
qed

lemma side_denotes_mono:
  assumes "side_denotes pd h x" and "pd_symbols pd' = pd_symbols pd @ ys"
  shows "side_denotes pd' h x"
  using assms(1) denotes_mono [OF _ assms(2)] unfolding side_denotes_def by (fastforce split: option.splits)

lemma built_mono:
  assumes "built pd k e w r" and "pd_symbols pd' = pd_symbols pd @ ys"
  shows "built pd' k e w r"
proof (cases "core e")
  case (Instr d arr s)
  then obtain x where "side_denotes pd (\<lambda>rho dot. rhs_of rho dot (side_rhs s)) x"
    "w = side_word (dd_of d arr s) (dest_reg d) x (x_i x)"
    "r = map_option (\<lambda>c. field_of k c (side_width x) (x_mult x)) (x_ce x)"
    using assms(1) unfolding built_def by auto
  then show ?thesis using Instr side_denotes_mono [OF _ assms(2)] unfolding built_def by auto
qed (use assms(1) denotes_mono [OF _ assms(2)] in \<open>auto simp: built_def\<close>)

lemma plain_symbols_collected:
  assumes "collected es pd"
  shows "plain_symbols pd"
  using assms unfolding plain_symbols_def collected_def by (auto simp: in_set_conv_nth Let_def)

lemma built_core [simp]: "built pd k (Label n e) w r = built pd k e w r"
  by (simp add: built_def)

text \<open>An element adds its labels, its word and its field.\<close>

definition label_symbols :: "nat \<Rightarrow> u8 list list \<Rightarrow> symbol list" where
  "label_symbols b ns = map (\<lambda>i. \<lparr>y_name = ns ! i, y_reladdr = 0, y_resolved = False, y_global = False,
     y_unique = True, y_ce = None, y_next = rev [b..<b + i]\<rparr>) [0..<length ns]"

lemma length_label_symbols [simp]: "length (label_symbols b ns) = length ns"
  by (simp add: label_symbols_def)

lemma label_symbols_Nil [simp]: "label_symbols b [] = []"
  by (simp add: label_symbols_def)

lemma label_symbols_snoc:
  "label_symbols b (ns @ [n]) = label_symbols b ns @
     [\<lparr>y_name = n, y_reladdr = 0, y_resolved = False, y_global = False, y_unique = True, y_ce = None,
       y_next = rev [b..<b + length ns]\<rparr>]"
proof -
  have "label_symbols b (ns @ [n]) ! i = (label_symbols b ns @
     [\<lparr>y_name = n, y_reladdr = 0, y_resolved = False, y_global = False, y_unique = True, y_ce = None,
       y_next = rev [b..<b + length ns]\<rparr>]) ! i" if "i < length ns + 1" for i
    using that unfolding label_symbols_def by (subst nth_map) (auto simp: nth_append)
  then show ?thesis by (intro nth_equalityI) auto
qed

text \<open>The deferred expressions, the latest first.\<close>

definition opt_cons :: "'a option \<Rightarrow> 'a list \<Rightarrow> 'a list" where
  "opt_cons r xs = (case r of None \<Rightarrow> xs | Some x \<Rightarrow> x # xs)"

lemma opt_cons_simps [simp]: "opt_cons None xs = xs" "opt_cons (Some x) xs = x # xs"
  by (simp_all add: opt_cons_def)

lemma side_dd:
  assumes "case s of Plain r \<Rightarrow> arr = To_left | Deref r \<Rightarrow> (\<exists>z. d = Reg z)"
  shows "(if (case d of Mem z \<Rightarrow> True | Reg z \<Rightarrow> False) \<or> arr = To_left \<and> (case s of Plain r \<Rightarrow> False | Deref r \<Rightarrow> True) then 2 else 0) +
     (if (case s of Plain r \<Rightarrow> False | Deref r \<Rightarrow> True) then 1 else 0) = dd_of d arr s"
  using assms by (cases s; cases d; cases arr) (auto simp: dd_of_def)

lemma core_action:
  assumes pl: "plain_symbols pd" and "accepted e" and "labels_of e = []"
  shows "\<exists>w r. element_action junk after pd e = Some (Inr (pd\<lparr>pd_defexprs := opt_cons r (pd_defexprs pd)\<rparr>, [plain_element w]))
    \<and> built pd (length (pd_top pd)) e w r"
proof (cases e)
  case (Instr d arr s)
  have ok: "rhs_ok (side_rhs s)" "case s of Plain r \<Rightarrow> arr = To_left | Deref r \<Rightarrow> (\<exists>z. d = Reg z)"
    using assms(2) Instr by (auto split: side.splits)
  obtain x where x: "rhs_action junk after pd (side_rhs s) = Some (Inr (pd, x))"
    "side_denotes pd (\<lambda>rho dot. rhs_of rho dot (side_rhs s)) x"
    using rhs_action_denotes [OF pl ok(1)] by blast
  let ?r = "map_option (\<lambda>c. field_of (length (pd_top pd)) c (side_width x) (x_mult x)) (x_ce x)"
  have "element_action junk after pd e = Some (Inr (pd\<lparr>pd_defexprs := opt_cons ?r (pd_defexprs pd)\<rparr>,
      [plain_element (side_word (dd_of d arr s) (dest_reg d) x (x_i x))]))"
    using x ok side_dd [OF ok(2)] unfolding Instr
    by (cases s; cases d; cases "x_ce x"; cases arr)
      (auto simp: make_insn_general_def add_deferred_expr_def field_of_def side_width_def side_word_def Let_def dd_of_def)
  then show ?thesis using x(2) Instr by (auto simp: built_def)
next
  case (Words es)
  then obtain x where es: "es = [x]" "expr_ok x" using assms(2) by (cases "Words es" rule: accepted.cases) auto
  obtain c ok where c: "expr_ce junk after pd x = Some (Inr (pd, c))" "stands junk after pd (expr_attributes x) c"
      "validate_expr c 0 pd = (ok, pd)"
    using actions_stand(2) [OF pl es(2)] standsD(8) by blast
  have "element_action junk after pd e =
      Some (Inr (pd\<lparr>pd_defexprs := opt_cons (Some (field_of (length (pd_top pd)) c 32 1)) (pd_defexprs pd)\<rparr>, [plain_element 0]))"
    using c(1,3) by (simp add: Words es vexpr_def make_data_def add_deferred_expr_def field_of_def)
  moreover have "denotes pd (\<lambda>rho dot. expr_val rho dot x) c"
    using standsD(1,2,4) [OF c(2)] by (simp add: denotes_def expr_attributes_def)
  ultimately show ?thesis using Words es
    by (intro exI [of _ 0] exI [of _ "Some (field_of (length (pd_top pd)) c 32 1)"] conjI) (auto simp: built_def simp del: element_action.simps)
qed (use assms in \<open>auto simp: built_def intro: exI [of _ None]\<close>)

lemma element_step_core:
  assumes "plain_symbols pd" and "accepted e" and "labels_of e = []"
  shows "\<exists>w r. element_action junk after pd e = Some (Inr (pd\<lparr>pd_defexprs := opt_cons r (pd_defexprs pd),
          pd_symbols := pd_symbols pd @ label_symbols (length (pd_symbols pd)) (labels_of e)\<rparr>,
        [(plain_element w)\<lparr>el_symbol := rev [length (pd_symbols pd)..<length (pd_symbols pd) + length (labels_of e)]\<rparr>])) \<and>
      built pd (length (pd_top pd)) e w r"
proof -
  obtain w r where "element_action junk after pd e = Some (Inr (pd\<lparr>pd_defexprs := opt_cons r (pd_defexprs pd)\<rparr>, [plain_element w]))"
    "built pd (length (pd_top pd)) e w r"
    using core_action [OF assms] by blast
  then show ?thesis
    by (intro exI [of _ w] exI [of _ r]) (simp add: assms(3) plain_element_def del: element_action.simps)
qed

lemma element_step:
  assumes pl: "plain_symbols pd" and "accepted e"
  shows "\<exists>w r. element_action junk after pd e = Some (Inr (pd\<lparr>pd_defexprs := opt_cons r (pd_defexprs pd),
          pd_symbols := pd_symbols pd @ label_symbols (length (pd_symbols pd)) (labels_of e)\<rparr>,
        [(plain_element w)\<lparr>el_symbol := rev [length (pd_symbols pd)..<length (pd_symbols pd) + length (labels_of e)]\<rparr>])) \<and>
      built pd (length (pd_top pd)) e w r"
  using assms(2)
proof (induction e)
  case (Label n e)
  then obtain w r where "element_action junk after pd e = Some (Inr (pd\<lparr>pd_defexprs := opt_cons r (pd_defexprs pd),
          pd_symbols := pd_symbols pd @ label_symbols (length (pd_symbols pd)) (labels_of e)\<rparr>,
        [(plain_element w)\<lparr>el_symbol := rev [length (pd_symbols pd)..<length (pd_symbols pd) + length (labels_of e)]\<rparr>]))"
    "built pd (length (pd_top pd)) e w r"
    by auto
  then show ?case
    by (intro exI [of _ w] exI [of _ r]) (simp add: add_symbol_def label_symbols_snoc)
qed (rule element_step_core [OF pl]; simp)+

end
