(* ===== verification/Assembled.thy ===== *)
theory Assembled
  imports Source
begin

text \<open>
  The collected program: each line keeps the description of what has been collected, the second pass
  puts the values in place, and the words end up in memory.
\<close>

section \<open>Collecting\<close>

lemma collectedD:
  assumes "collected es pd"
  shows "pd_errored pd = 0" and "length (pd_top pd) = length es" and "length (pd_symbols pd) = length (places es)"
    and "l < length (places es) \<Longrightarrow> y_name (pd_symbols pd ! l) = fst (places es ! l)"
    and "l < length (places es) \<Longrightarrow> good_name (y_name (pd_symbols pd ! l))"
    and "l < length (places es) \<Longrightarrow> y_ce (pd_symbols pd ! l) = None"
    and "l < length (places es) \<Longrightarrow> \<not> y_resolved (pd_symbols pd ! l)"
    and "l < length (places es) \<Longrightarrow> y_unique (pd_symbols pd ! l)"
    and "l < length (places es) \<Longrightarrow> j \<in> set (y_next (pd_symbols pd ! l)) \<Longrightarrow> j < length (places es)"
  using assms unfolding collected_def Let_def by blast+

lemma accepted_labels: "accepted e \<Longrightarrow> n \<in> set (labels_of e) \<Longrightarrow> good_name n"
  by (induction e) auto

lemma map_filter_cong: "(\<And>x. x \<in> set xs \<Longrightarrow> f x = g x) \<Longrightarrow> List.map_filter f xs = List.map_filter g xs"
  by (induction xs) (auto simp: List.map_filter_simps split: option.split)

lemma collected_element:
  assumes c: "collected es pd" and "accepted e"
  shows "\<exists>pd'. line_action junk after (Element e) pd = Some (Inr pd') \<and> collected (es @ [e]) pd'"
proof -
  let ?b = "length (places es)" and ?ns = "labels_of e"
  obtain w r where st: "element_action junk after pd e = Some (Inr (pd\<lparr>pd_defexprs := opt_cons r (pd_defexprs pd),
          pd_symbols := pd_symbols pd @ label_symbols (length (pd_symbols pd)) ?ns\<rparr>,
        [(plain_element w)\<lparr>el_symbol := rev [length (pd_symbols pd)..<length (pd_symbols pd) + length ?ns]\<rparr>]))"
    and bt: "built pd (length (pd_top pd)) e w r"
    using element_step [OF plain_symbols_collected [OF c] assms(2)] by blast
  note l = collectedD(2,3) [OF c]
  let ?el = "(plain_element w)\<lparr>el_symbol := rev [?b..<?b + length ?ns]\<rparr>"
  let ?pd = "pd\<lparr>pd_top := pd_top pd @ [Some ?el], pd_defexprs := opt_cons r (pd_defexprs pd),
    pd_symbols := pd_symbols pd @ label_symbols ?b ?ns\<rparr>"
  obtain rs where rs: "pd_defexprs pd = List.map_filter rs (rev [0..<length es])"
    "\<And>k. k < length es \<Longrightarrow> \<exists>w ls. pd_top pd ! k = Some \<lparr>e_word = w, e_reladdr = 0, e_size = 1, el_symbol = ls\<rparr> \<and>
           (\<forall>l. l \<in> set ls \<longleftrightarrow> l < length (places es) \<and> snd (places es ! l) = k) \<and> built pd k (es ! k) w (rs k)"
    using c unfolding collected_def by blast
  have sn: "snd (places es ! l) < length es" if "l < ?b" for l
    using places_bound [of "fst (places es ! l)" "snd (places es ! l)" es] that by simp
  have sym: "y_name y = fst (places (es @ [e]) ! l) \<and> good_name (y_name y) \<and> y_ce y = None \<and> \<not> y_resolved y \<and>
      y_unique y \<and> (\<forall>j\<in>set (y_next y). j < length (places (es @ [e])))"
    if k: "l < length (places (es @ [e]))" and y: "y = pd_symbols ?pd ! l" for l y
  proof (cases "l < ?b")
    case True
    then have "y = pd_symbols pd ! l" using l(2) y by (simp add: nth_append)
    then show ?thesis using collectedD(4-9) [OF c True] True by (auto simp: places_snoc nth_append intro: trans_less_add1)
  next
    case False
    then have "l = ?b + (l - ?b)" "l - ?b < length ?ns" using k by (auto simp: places_snoc)
    then obtain i where i: "l = ?b + i" "i < length ?ns" by blast
    then have "y = label_symbols ?b ?ns ! i" using l(2) y by (simp add: nth_append)
    then show ?thesis
      using i accepted_labels [OF assms(2)] by (auto simp: label_symbols_def places_snoc nth_append)
  qed
  have el: "\<exists>w ls. pd_top ?pd ! k = Some \<lparr>e_word = w, e_reladdr = 0, e_size = 1, el_symbol = ls\<rparr> \<and>
      (\<forall>l. l \<in> set ls \<longleftrightarrow> l < length (places (es @ [e])) \<and> snd (places (es @ [e]) ! l) = k) \<and>
      built ?pd k ((es @ [e]) ! k) w ((rs(length es := r)) k)" if k: "k < length (es @ [e])" for k
  proof (cases "k < length es")
    case True
    obtain w ls where w: "pd_top pd ! k = Some \<lparr>e_word = w, e_reladdr = 0, e_size = 1, el_symbol = ls\<rparr>"
      "\<And>l. l \<in> set ls \<longleftrightarrow> l < length (places es) \<and> snd (places es ! l) = k" "built pd k (es ! k) w (rs k)"
      using rs(2) [OF True] by blast
    have "l \<in> set ls \<longleftrightarrow> l < length (places (es @ [e])) \<and> snd (places (es @ [e]) ! l) = k" for l
      using True by (auto simp: w(2) places_snoc nth_append)
    then show ?thesis using w True l(1) built_mono [OF w(3), of ?pd] by (auto simp: nth_append)
  next
    case False
    then have "k = length es" using k by simp
    moreover have "l \<in> set (rev [?b..<?b + length ?ns]) \<longleftrightarrow>
        l < length (places (es @ [e])) \<and> snd (places (es @ [e]) ! l) = length es" for l
      using less_imp_neq [OF sn] by (auto simp: places_snoc nth_append)
    ultimately show ?thesis
      using l(1) built_mono [OF bt, of ?pd] by (auto simp: nth_append plain_element_def)
  qed
  have "pd_defexprs ?pd = List.map_filter (rs(length es := r)) (rev [0..<length (es @ [e])])"
  proof -
    have "List.map_filter (rs(length es := r)) (rev [0..<length es]) = List.map_filter rs (rev [0..<length es])"
      by (intro map_filter_cong) auto
    then show ?thesis by (cases r) (simp_all add: rs(1) List.map_filter_simps)
  qed
  moreover have "\<forall>l<length (places (es @ [e])). let y = pd_symbols ?pd ! l in
      y_name y = fst (places (es @ [e]) ! l) \<and> good_name (y_name y) \<and> y_ce y = None \<and> \<not> y_resolved y \<and>
      y_unique y \<and> (\<forall>j\<in>set (y_next y). j < length (places (es @ [e])))"
    using sym by (simp only: Let_def) blast
  moreover have "pd_errored ?pd = 0" "length (pd_top ?pd) = length (es @ [e])"
    "length (pd_symbols ?pd) = length (places (es @ [e]))"
    using collectedD(1) [OF c] l by (simp_all add: places_snoc)
  ultimately have "collected (es @ [e]) ?pd"
    using el unfolding collected_def by blast
  moreover have "line_action junk after (Element e) pd = Some (Inr ?pd)"
    by (simp add: st l)
  ultimately show ?thesis by blast
qed

fun elements_of :: "line list \<Rightarrow> source_element list" where
  "elements_of [] = []"
| "elements_of (Element e # ls) = e # elements_of ls"
| "elements_of (Directive d # ls) = elements_of ls"

fun accepted_line :: "line \<Rightarrow> bool" where
  "accepted_line (Element e) = accepted e"
| "accepted_line (Directive (Global n)) = good_name n"
| "accepted_line (Directive d) = False"

lemma collected_line:
  assumes c: "collected es pd" and "accepted_line l"
  shows "\<exists>pd'. line_action junk after l pd = Some (Inr pd') \<and> collected (es @ elements_of [l]) pd'"
  using assms(2)
proof (cases l rule: accepted_line.cases)
  case (2 n)
  have g: "length n \<le> 31" using assms(2) 2 by (simp add: good_name_def)
  then have "\<exists>s. strcopy (n @ replicate (128 - length n) 0) (length n + 1) = Inr s"
    by (simp add: strcopy_def)
  then obtain s where s: "strcopy (n @ replicate (128 - length n) 0) (length n + 1) = Inr s" by blast
  have "ref_name (pd\<lparr>pd_globals := g\<rparr>) = ref_name pd" for g
    by (auto simp: fun_eq_iff ref_name_def split: option.split)
  then have d: "denotes (pd\<lparr>pd_globals := g\<rparr>) = denotes pd" for g
    by (intro ext) (simp add: denotes_def)
  then have sd: "side_denotes (pd\<lparr>pd_globals := g\<rparr>) = side_denotes pd" for g
    by (intro ext) (simp only: side_denotes_def)
  have "built (pd\<lparr>pd_globals := g\<rparr>) = built pd" for g
    by (intro ext) (simp only: built_def d sd)
  then have "collected es (pd\<lparr>pd_globals := g\<rparr>)" for g
    using c by (simp add: collected_def)
  then show ?thesis using s 2 g by (simp add: SYMBOL_LEN_def)
qed (use collected_element [OF c] in auto)

lemma collected_lines:
  "collected es pd \<Longrightarrow> list_all accepted_line ls \<Longrightarrow>
     \<exists>pd'. foldO (line_action junk after) ls pd = Some (Inr pd') \<and> collected (es @ elements_of ls) pd'"
proof (induction ls arbitrary: es pd)
  case (Cons l ls)
  obtain pd1 where p: "line_action junk after l pd = Some (Inr pd1)" "collected (es @ elements_of [l]) pd1"
    using collected_line [OF Cons.prems(1)] Cons.prems(2) by fastforce
  moreover have "elements_of (l # ls) = elements_of [l] @ elements_of ls" by (cases l) simp_all
  ultimately show ?case using Cons.IH [OF p(2)] Cons.prems(2) by simp
qed simp

section \<open>Values\<close>

text \<open>A name stands for the number of its element, or zero.\<close>

definition label_env :: "source_element list \<Rightarrow> u8 list \<Rightarrow> u32" where
  "label_env es n = (case map_of (places es) n of Some k \<Rightarrow> of_nat k | None \<Rightarrow> 0)"

fun imm_fits :: "rhs \<Rightarrow> bool" where
  "imm_fits (T0 f x y i) \<longleftrightarrow> i = SEXTEND32 12 i"
| "imm_fits (T1 f x i y) \<longleftrightarrow> i = SEXTEND32 12 i"
| "imm_fits (T2 f i x y) \<longleftrightarrow> i = SEXTEND32 12 i"
| "imm_fits (T3 x i) \<longleftrightarrow> i = SEXTEND32 20 i"

definition element_fits :: "(u8 list \<Rightarrow> u32) \<Rightarrow> u32 \<Rightarrow> source_element \<Rightarrow> bool" where
  "element_fits rho dot e \<longleftrightarrow> (case core e of Instr d arr s \<Rightarrow> imm_fits (rhs_of rho dot (side_rhs s)) | _ \<Rightarrow> True)"

text \<open>What the word of an element has to be.\<close>

definition element_word :: "(u8 list \<Rightarrow> u32) \<Rightarrow> u32 \<Rightarrow> source_element \<Rightarrow> u32 \<Rightarrow> bool" where
  "element_word rho dot e w \<longleftrightarrow> (case core e of
     Instr d arr s \<Rightarrow> decode w = moved (dd_of d arr s) (dest_reg d) (rhs_of rho dot (side_rhs s))
   | Words [x] \<Rightarrow> w = expr_val rho dot x
   | Illegal \<Rightarrow> w = 0xffffffff
   | _ \<Rightarrow> True)"

lemma fits_with_imm: "x_type x < 4 \<Longrightarrow> imm_fits (with_imm x i) \<longleftrightarrow> i = SEXTEND32 (side_width x) i"
  using less4 [of "x_type x"] by (auto simp: with_imm_def side_width_def Let_def)

lemma sextend_wide: "SEXTEND32 32 v = v"
proof -
  have "signed_take_bit 31 v = v"
  proof (rule bit_word_eqI)
    fix n assume "n < LENGTH(32)"
    then show "bit (signed_take_bit 31 v) n = bit v n" by (cases "n = 31") (auto simp: bit_signed_take_bit_iff min_def)
  qed
  then show ?thesis by (simp add: SEXTEND32_signed_take_bit)
qed

lemma put_field_all: "put_field 32 v w = v"
  by (rule bit_word_eqI) (simp add: bit_put_field)

text \<open>An element with its field filled in.\<close>

lemma denotes_insn:
  assumes "denotes pd g c"
  shows "denotes pd g (d_ce (field_of k c b m))" and "fits v (field_of k c b m) \<longleftrightarrow> v (field_of k c b m) * m = SEXTEND32 b (v (field_of k c b m) * m)"
proof -
  have "value_of rho dot (set_head (\<lambda>h. h\<lparr>ce_insn := Some k\<rparr>) c) = value_of rho dot c" for rho dot
    by (cases c) (simp_all add: set_head_def)
  then show "denotes pd g (d_ce (field_of k c b m))" using assms by (simp add: denotes_def field_of_def)
  show "fits v (field_of k c b m) \<longleftrightarrow> v (field_of k c b m) * m = SEXTEND32 b (v (field_of k c b m) * m)"
    using assms by (simp add: fits_def field_value_def field_of_def denotes_def)
qed

lemma built_fixed:
  assumes bt: "built pd k e w r" and fit: "element_fits rho dot e"
    and v: "\<And>d g. r = Some d \<Longrightarrow> denotes pd g (d_ce d) \<Longrightarrow> v d = g rho dot"
  shows "(\<forall>d. r = Some d \<longrightarrow> fits v d) \<and>
    element_word rho dot e (case r of None \<Rightarrow> w | Some d \<Rightarrow> put_field (d_width d) (field_value v d) w)"
proof (cases "core e")
  case (Instr d arr s)
  let ?h = "\<lambda>rho dot. rhs_of rho dot (side_rhs s)"
  obtain x where x: "side_denotes pd ?h x" "w = side_word (dd_of d arr s) (dest_reg d) x (x_i x)"
    and r: "r = map_option (\<lambda>c. field_of k c (side_width x) (x_mult x)) (x_ce x)"
    using bt Instr unfolding built_def by auto
  have ty: "x_type x < 4" using x(1) by (simp add: side_denotes_def)
  have fit: "imm_fits (?h rho dot)" using fit Instr by (simp add: element_fits_def)
  show ?thesis
  proof (cases "x_ce x")
    case None
    then have h: "?h rho dot = with_imm x 0" "x_i x = 0" using x(1) by (simp_all add: side_denotes_def)
    then have "0 = SEXTEND32 (side_width x) 0" using fit fits_with_imm [OF ty] by simp
    then show ?thesis
      using None r x(2) h decode_side_word [OF ty] by (simp add: element_word_def Instr)
  next
    case (Some c)
    then obtain g where g: "denotes pd g c" "?h rho dot = with_imm x (g rho dot * x_mult x)"
      using x(1) by (auto simp: side_denotes_def)
    let ?d = "field_of k c (side_width x) (x_mult x)"
    have v': "v ?d = g rho dot" using v [OF _ denotes_insn(1) [OF g(1)]] r Some by simp
    have i: "g rho dot * x_mult x = SEXTEND32 (side_width x) (g rho dot * x_mult x)"
      using fit g(2) fits_with_imm [OF ty] by simp
    then have "fits v ?d" using denotes_insn(2) [OF g(1)] v' by simp
    moreover have "put_field (d_width ?d) (field_value v ?d) w = side_word (dd_of d arr s) (dest_reg d) x (g rho dot * x_mult x)"
      using x(2) v' by (simp add: field_value_def put_field_side_word) (simp add: field_of_def put_field_side_word)
    ultimately show ?thesis
      using Some r g(2) decode_side_word [OF ty i] by (simp add: element_word_def Instr)
  qed
next
  case (Words es)
  then obtain x c where x: "es = [x]" "r = Some (field_of k c 32 1)" "denotes pd (\<lambda>rho dot. expr_val rho dot x) c"
    using bt unfolding built_def by auto
  have "v (field_of k c 32 1) = expr_val rho dot x" using v [OF x(2) denotes_insn(1) [OF x(3)]] .
  then show ?thesis
    using Words x denotes_insn(2) [OF x(3), of v]
    by (simp add: element_word_def sextend_wide) (simp add: field_value_def field_of_def put_field_all)
qed (use bt in \<open>auto simp: built_def element_word_def\<close>)

section \<open>The second pass\<close>

lemma map_of_distinct:
  assumes "distinct (map fst ps)"
  shows "map_of ps n = Some k \<longleftrightarrow> (\<exists>l<length ps. ps ! l = (n, k))"
  using assms by (simp add: in_set_conv_nth [symmetric] conj_commute)

lemma label_found:
  assumes c: "collected es pd" and d: "distinct (map fst (places es))"
  shows "(case symbol_find (pd_symbols pd) n of Some l \<Rightarrow> f (snd (places es ! l)) | None \<Rightarrow> z) =
    (case map_of (places es) n of Some k \<Rightarrow> f k | None \<Rightarrow> z)"
proof (cases "symbol_find (pd_symbols pd) n")
  case (Some l)
  have l: "l < length (places es)" using symbol_find_less [OF Some] collectedD(3) [OF c] by simp
  have "strneq SYMBOL_LEN (y_name (pd_symbols pd ! l)) n"
    using find_index Some unfolding symbol_find_def by fastforce
  then have "y_name (pd_symbols pd ! l) = n"
    using collectedD(5) [OF c l] by (auto simp: strneq_def SYMBOL_LEN_def good_name_def take_all_iff min_def dest!: arg_cong [where f = length] split: if_splits)
  then have "places es ! l = (n, snd (places es ! l))" using collectedD(4) [OF c l] by (metis prod.collapse)
  then have "map_of (places es) n = Some (snd (places es ! l))" using l map_of_distinct [OF d] by blast
  then show ?thesis using Some by simp
next
  case None
  have "map_of (places es) n = None"
  proof (rule ccontr)
    assume "map_of (places es) n \<noteq> None"
    then obtain l k where l: "l < length (places es)" "places es ! l = (n, k)" using map_of_distinct [OF d] by blast
    then have "y_name (pd_symbols pd ! l) = n" using collectedD(4) [OF c] by simp
    then show False using symbol_find_self [of l "pd_symbols pd"] l(1) collectedD(3) [OF c] None by simp
  qed
  then show ?thesis using None by simp
qed

lemma fixed_word_field:
  assumes "distinct ks" and "\<And>j d. j \<in> set ks \<Longrightarrow> rs j = Some d \<Longrightarrow> d_dest d = j"
  shows "fixed_word v (List.map_filter rs ks) k w =
    (case if k \<in> set ks then rs k else None of None \<Rightarrow> w | Some d \<Rightarrow> put_field (d_width d) (field_value v d) w)"
  using assms
proof (induction ks arbitrary: w)
  case (Cons j ks)
  show ?case
  proof (cases "rs j")
    case None
    then show ?thesis using Cons by (auto simp: List.map_filter_simps)
  next
    case (Some d)
    then show ?thesis using Cons.IH [of w] Cons by (auto simp: List.map_filter_simps split: option.split)
  qed
qed (simp add: List.map_filter_simps)

lemma built_dest:
  assumes "built pd k e w (Some d)"
  shows "d_dest d = k \<and> ce_insn (head (d_ce d)) = Some k \<and> (\<exists>g. denotes pd g (d_ce d))"
proof (cases "core e")
  case (Instr a b s)
  then obtain x c where x: "side_denotes pd (\<lambda>rho dot. rhs_of rho dot (side_rhs s)) x" "x_ce x = Some c"
      "d = field_of k c (side_width x) (x_mult x)"
    using assms unfolding built_def by (auto simp: eq_commute [of "Some d"])
  then obtain g where "denotes pd g c" by (auto simp: side_denotes_def)
  note gs = denotes_insn(1) [OF this, of k "side_width x" "x_mult x"]
  then show ?thesis using x(3) by (intro conjI exI [of _ g]) (simp_all add: field_of_def)
next
  case (Words es)
  then obtain g c where "denotes pd g c" "d = field_of k c 32 1" using assms unfolding built_def by auto
  then show ?thesis using denotes_insn(1) [of pd g c k 32 1] by (intro conjI exI [of _ g]) (simp_all add: field_of_def)
qed (use assms in \<open>auto simp: built_def\<close>)

text \<open>What has been collected is a program, whose words are those of the elements.\<close>

definition ended :: "line list \<Rightarrow> parse_data \<Rightarrow> parse_data" where
  "ended ls pd = (if ls = [] then pd else pd\<lparr>pd_top := pd_top pd @ [None]\<rparr>)"

lemma ended_simps [simp]:
  "pd_symbols (ended ls pd) = pd_symbols pd" "pd_defexprs (ended ls pd) = pd_defexprs pd"
  "pd_errored (ended ls pd) = pd_errored pd"
  "k < length (pd_top pd) \<Longrightarrow> pd_top (ended ls pd) ! k = pd_top pd ! k"
  by (auto simp: ended_def nth_append)

lemma ref_name_ended [simp]: "ref_name (ended ls pd) = ref_name pd"
  by (auto simp: fun_eq_iff ref_name_def split: option.split)

lemma ended_top: "\<exists>x. set x \<subseteq> {None} \<and> pd_top (ended ls pd) = pd_top pd @ x"
  by (auto simp: ended_def)

definition element_homes :: "source_element list \<Rightarrow> nat \<Rightarrow> nat" where
  "element_homes es l = snd (places es ! l)"

definition source_result :: "source_element list \<Rightarrow> parse_data \<Rightarrow> deferred_expr \<Rightarrow> u32" where
  "source_result es pd r = (case source_value (element_homes es) pd r of Inr x \<Rightarrow> x | Inl e \<Rightarrow> 0)"

lemma collected_top:
  assumes "collected es pd" and "k < length es"
  shows "\<exists>w ls. pd_top (ended lns pd) ! k = Some \<lparr>e_word = w, e_reladdr = 0, e_size = 1, el_symbol = ls\<rparr>"
  using assms collectedD(2) [OF assms(1)] unfolding collected_def by fastforce

lemma collected_addr:
  assumes "collected es pd" and "k \<le> length es"
  shows "addr_of (ended lns pd) k = of_nat k"
  using assms(2)
proof (induction k)
  case (Suc k)
  have "k < length (pd_top (ended lns pd))"
    using Suc.prems collectedD(2) [OF assms(1)] by (simp add: ended_def)
  then show ?case
    using Suc collected_top [OF assms(1), of k lns] by (auto simp: addr_of_Suc size_of_def)
qed (simp add: addr_of_def)

lemma collected_value:
  assumes c: "collected es pd" and d: "distinct (map fst (places es))"
    and r: "built pd k e w (Some r)" "k < length es" and g: "denotes pd g (d_ce r)"
  shows "source_value (element_homes es) (ended lns pd) r = Inr (g (label_env es) (of_nat k))"
proof -
  have "label_addr (element_homes es) (ended lns pd) s buf = label_env es (ref_name pd s buf)" for s buf
  proof -
    have "(case symbol_find (pd_symbols pd) n of Some l \<Rightarrow> addr_of (ended lns pd) (element_homes es l) | None \<Rightarrow> 0) =
        (case symbol_find (pd_symbols pd) n of Some l \<Rightarrow> of_nat (snd (places es ! l)) | None \<Rightarrow> 0)" for n
    proof (cases "symbol_find (pd_symbols pd) n")
      case (Some l)
      then have "l < length (places es)" using symbol_find_less [OF Some] collectedD(3) [OF c] by simp
      then have "snd (places es ! l) < length es"
        using places_bound [of "fst (places es ! l)" "snd (places es ! l)" es] by simp
      then show ?thesis using Some collected_addr [OF c] by (simp add: element_homes_def)
    qed simp
    then show ?thesis
      using label_found [OF c d, where f = of_nat and z = 0]
      by (simp add: label_addr_def label_env_def)
  qed
  then have "value_of (label_addr (element_homes es) (ended lns pd)) dot (d_ce r) = Inr (g (label_env es) dot)" for dot
    using g unfolding denotes_def by (metis (no_types, lifting) ext)
  then show ?thesis
    using built_dest [OF r(1)] collected_addr [OF c] r(2) by (simp add: source_value_def)
qed

lemma collected_entry:
  assumes "collected es pd"
  obtains rs where "pd_defexprs pd = List.map_filter rs (rev [0..<length es])"
    and "\<And>k. k < length es \<Longrightarrow> \<exists>w ls. pd_top pd ! k = Some \<lparr>e_word = w, e_reladdr = 0, e_size = 1, el_symbol = ls\<rparr> \<and>
           (\<forall>l. l \<in> set ls \<longleftrightarrow> l < length (places es) \<and> snd (places es ! l) = k) \<and> built pd k (es ! k) w (rs k)"
  using assms unfolding collected_def by blast

lemma in_map_filter: "x \<in> set (List.map_filter f xs) \<longleftrightarrow> (\<exists>y\<in>set xs. f y = Some x)"
  by (induction xs) (auto simp: List.map_filter_simps split: option.splits)

lemma collected_labelled:
  assumes c: "collected es pd"
  shows "labelled (element_homes es) (ended lns pd)"
proof -
  obtain rs where "pd_defexprs pd = List.map_filter rs (rev [0..<length es])"
    and rs: "\<And>k. k < length es \<Longrightarrow> \<exists>w ls. pd_top pd ! k = Some \<lparr>e_word = w, e_reladdr = 0, e_size = 1, el_symbol = ls\<rparr> \<and>
           (\<forall>l. l \<in> set ls \<longleftrightarrow> l < length (places es) \<and> snd (places es ! l) = k) \<and> built pd k (es ! k) w (rs k)"
    by (rule collected_entry [OF c]) blast
  note l = collectedD(2,3) [OF c]
  have 1: "element_homes es j < length es" if "j < length (places es)" for j
    using places_bound [of "fst (places es ! j)" "snd (places es ! j)" es] that by (simp add: element_homes_def)
  have 2: "\<exists>e. pd_top (ended lns pd) ! element_homes es j = Some e \<and> j \<in> set (el_symbol e)" if j: "j < length (places es)" for j
  proof -
    obtain w ls where w: "pd_top pd ! element_homes es j = Some \<lparr>e_word = w, e_reladdr = 0, e_size = 1, el_symbol = ls\<rparr>"
      "\<And>l. l \<in> set ls \<longleftrightarrow> l < length (places es) \<and> snd (places es ! l) = element_homes es j"
      using rs [OF 1 [OF j]] by blast
    then have "j \<in> set ls" using j by (simp add: element_homes_def)
    then show ?thesis using w(1) 1 [OF j] l by simp
  qed
  have 3: "j < length (places es) \<and> element_homes es j = k"
    if k: "k < length (pd_top (ended lns pd))" "pd_top (ended lns pd) ! k = Some e" "j \<in> set (el_symbol e)" for k e j
  proof -
    have ke: "k < length es" using k(1,2) l by (auto simp: ended_def nth_append less_Suc_eq split: if_splits)
    then obtain w ls where w: "pd_top pd ! k = Some \<lparr>e_word = w, e_reladdr = 0, e_size = 1, el_symbol = ls\<rparr>"
      "\<And>l. l \<in> set ls \<longleftrightarrow> l < length (places es) \<and> snd (places es ! l) = k"
      using rs [of k] by blast
    have "e = \<lparr>e_word = w, e_reladdr = 0, e_size = 1, el_symbol = ls\<rparr>"
      using k(2) ke l(1) w(1) by simp
    then have "j \<in> set ls" using k(3) by simp
    then show ?thesis using w(2) by (simp add: element_homes_def)
  qed
  have "length (pd_top (ended lns pd)) \<ge> length es" using l by (simp add: ended_def)
  then show ?thesis
    using 1 2 3 collectedD(6,7,9) [OF c] l unfolding labelled_def by (simp, blast intro: less_le_trans)
qed

lemma collected_program:
  assumes c: "collected es pd" and d: "distinct (map fst (places es))"
    and fit: "\<And>k. k < length es \<Longrightarrow> element_fits (label_env es) (of_nat k) (es ! k)"
  shows "program (element_homes es) (source_result es (ended lns pd)) (ended lns pd)"
    and "k < length es \<Longrightarrow> \<exists>e. pd_top (ended lns pd) ! k = Some e \<and> e_size e = 1 \<and>
      element_word (label_env es) (of_nat k) (es ! k)
        (fixed_word (source_result es (ended lns pd)) (pd_defexprs (ended lns pd)) k (e_word e))"
proof -
  let ?pd = "ended lns pd" let ?v = "source_result es ?pd"
  obtain rs where rs: "pd_defexprs pd = List.map_filter rs (rev [0..<length es])"
    "\<And>k. k < length es \<Longrightarrow> \<exists>w ls. pd_top pd ! k = Some \<lparr>e_word = w, e_reladdr = 0, e_size = 1, el_symbol = ls\<rparr> \<and>
           (\<forall>l. l \<in> set ls \<longleftrightarrow> l < length (places es) \<and> snd (places es ! l) = k) \<and> built pd k (es ! k) w (rs k)"
    by (rule collected_entry [OF c]) blast
  note l = collectedD(2,3) [OF c]
  have v: "?v r = g (label_env es) (of_nat k)"
    if "built pd k e w (Some r)" "k < length es" "denotes pd g (d_ce r)" for k e w r g
    using collected_value [OF c d that] by (simp add: source_result_def)
  have fx: "(\<forall>d. rs k = Some d \<longrightarrow> fits ?v d) \<and> element_word (label_env es) (of_nat k) (es ! k)
      (case rs k of None \<Rightarrow> w | Some d \<Rightarrow> put_field (d_width d) (field_value ?v d) w)"
    if k: "k < length es" and b: "built pd k (es ! k) w (rs k)" for k w
    by (rule built_fixed [OF b fit [OF k]]) (use b v k in auto)
  have dd: "d_dest d = k" if "k < length es" "rs k = Some d" for k d
    using rs(2) [OF that(1)] that(2) built_dest by force
  have len: "length es \<le> length (pd_top ?pd)" using l by (simp add: ended_def)
  show "program (element_homes es) ?v ?pd"
  proof -
    have "map y_name (filter y_unique (pd_symbols pd)) = map fst (places es)"
    proof -
      have "filter y_unique (pd_symbols pd) = pd_symbols pd"
        using collectedD(8) [OF c] l(2) by (intro filter_True) (auto simp: in_set_conv_nth)
      moreover have "map y_name (pd_symbols pd) = map fst (places es)"
        using collectedD(4) [OF c] l(2) by (intro nth_equalityI) simp_all
      ultimately show ?thesis by simp
    qed
    moreover have "refers (length (pd_symbols ?pd)) (d_ce r) \<and> source_value (element_homes es) ?pd r = Inr (?v r) \<and>
        fits ?v r \<and> d_dest r < length (pd_top ?pd) \<and>
        (\<forall>k. ce_insn (head (d_ce r)) = Some k \<longrightarrow> k < length (pd_top ?pd) \<and> pd_top ?pd ! k \<noteq> None)"
      if r: "r \<in> set (pd_defexprs ?pd)" for r
    proof -
      obtain k where k: "k < length es" "rs k = Some r" using r by (auto simp: rs(1) in_map_filter)
      obtain w where b: "built pd k (es ! k) w (Some r)" using rs(2) [OF k(1)] k(2) by auto
      obtain g where g: "denotes pd g (d_ce r)" and i: "ce_insn (head (d_ce r)) = Some k" "d_dest r = k"
        using built_dest [OF b] by blast
      show ?thesis
        using collected_value [OF c d b k(1) g] fx [OF k(1), of w] b k(2) g i k(1) len collected_top [OF c k(1), of lns]
        by (auto simp: source_result_def denotes_def)
    qed
    ultimately show ?thesis using collected_labelled [OF c] d unfolding program_def by simp
  qed
  show "\<exists>e. pd_top ?pd ! k = Some e \<and> e_size e = 1 \<and>
      element_word (label_env es) (of_nat k) (es ! k) (fixed_word ?v (pd_defexprs ?pd) k (e_word e))"
    if k: "k < length es" for k
  proof -
    obtain w ls where w: "pd_top pd ! k = Some \<lparr>e_word = w, e_reladdr = 0, e_size = 1, el_symbol = ls\<rparr>"
      "built pd k (es ! k) w (rs k)"
      using rs(2) [OF k] by blast
    have "fixed_word ?v (pd_defexprs ?pd) k w =
        (case rs k of None \<Rightarrow> w | Some d \<Rightarrow> put_field (d_width d) (field_value ?v d) w)"
      unfolding ended_simps rs(1) by (subst fixed_word_field) (use dd k in auto)
    then show ?thesis using w fx [OF k w(2)] k l by simp
  qed
qed

section \<open>Into memory\<close>

lemma collected_sized:
  assumes c: "collected es pd"
  shows "sized (ended lns pd)" and "length (concat (map words_of (program_elements home v (ended lns pd)))) \<le> length es"
proof -
  note l = collectedD(2) [OF c]
  have el: "e_size e = 1" if "k < length (pd_top (ended lns pd))" "pd_top (ended lns pd) ! k = Some e" for k e
  proof -
    have "k < length es" using that l by (auto simp: ended_def nth_append less_Suc_eq split: if_splits)
    then show ?thesis using collected_top [OF c, of k lns] that(2) by auto
  qed
  then show "sized (ended lns pd)" by (auto simp: sized_def in_set_conv_nth word_sle_eq)
  let ?T = "pd_top (fixed home v (ended lns pd))"
  have len: "length ?T = length (pd_top (ended lns pd))" by (simp add: fixed_def)
  have one: "length (words_at (?T ! k)) \<le> (if k < length es then 1 else 0)" if k: "k < length ?T" for k
  proof (cases "?T ! k")
    case (Some f)
    then obtain e where e: "pd_top (ended lns pd) ! k = Some e" "e_size f = e_size e"
      using k len by (auto simp: fixed_def)
    then have "k < length es" using k len l by (auto simp: ended_def nth_append less_Suc_eq split: if_splits)
    then show ?thesis using Some e el [of k e] k len by (simp add: words_at_def words_of_def element.truncate_def)
  qed (simp add: words_at_def)
  have "length (concat (map words_at ?T)) = (\<Sum>k<length ?T. length (words_at (?T ! k)))"
    by (simp add: length_concat sum_list_sum_nth atLeast0LessThan comp_def)
  also have "\<dots> \<le> (\<Sum>k<length ?T. if k < length es then 1 else 0)" using one by (intro sum_mono) simp
  also have "\<dots> \<le> length es" by (simp add: sum.If_cases) (metis card_lessThan card_mono finite_lessThan inf.cobounded2 lessThan_def)
  finally show "length (concat (map words_of (program_elements home v (ended lns pd)))) \<le> length es"
    unfolding program_elements_def words_of_program .
qed

text \<open>A source is in order when its lines are accepted, its labels are unique, and its values fit.\<close>

definition in_order :: "line list \<Rightarrow> bool" where
  "in_order ls \<longleftrightarrow> (let es = elements_of ls in list_all accepted_line ls \<and> distinct (map fst (places es)) \<and>
     list_all (\<lambda>k. element_fits (label_env es) (of_nat k) (es ! k)) [0..<length es] \<and> length es \<le> 0x3000)"

context tsim_bus
begin

lemma text_load_ok:
  assumes n: "length (concat (map words_of es)) \<le> 0x3000"
    and l: "load_sim (dispatch_op bs) text_in RAM_BASE (text_init (t_out (text_out_all es (text_init []))))
      i (default_bus out) = Some (Inr (0, b))"
  shows "bus_ok (on_sparse (fresh out)) sparse_ok ram_window b"
proof -
  let ?ws = "concat (map words_of es)"
  have "t_out (text_out_all es (text_init [])) = concat (map text_line ?ws)"
    by (simp add: text_out_all_lines text_init_def)
  then have "feeds text_in (text_init (t_out (text_out_all es (text_init [])))) i (numbered i 0 ?ws)"
    using feeds_text by (simp add: text_init_def)
  moreover have "RAM_BASE + of_nat k \<in> ram_window" if "k < length ?ws" for k
    using that n by (simp add: ram_window_def ram_consts word_le_nat_alt unat_word_ariths unat_of_nat)
  then have "\<forall>e\<in>set (numbered i 0 ?ws). RAM_BASE + e_reladdr e \<in> ram_window"
    using numbered_addresses [of _ i 0 ?ws] by force
  ultimately show ?thesis using default_load [where out = out] l by fastforce
qed

lemma lines_load:
  assumes "in_order ls"
  defines "es \<equiv> elements_of ls"
  shows "\<exists>pd u b. parse_lines junk after ls empty_parse_data = Some (Inr (0, pd)) \<and> pd_errored pd = 0 \<and>
    assembly_inner junk after text_format pd (text_init []) = Some (Inr (0, u)) \<and>
    load_sim (dispatch_op bs) text_in RAM_BASE (text_init (t_out u)) i (default_bus out) = Some (Inr (0, b)) \<and>
    bus_ok (on_sparse (fresh out)) sparse_ok ram_window b \<and>
    (\<forall>k<length es. element_word (label_env es) (of_nat k) (es ! k) (bus_peek bs sparse_look b (RAM_BASE + of_nat k)))"
proof -
  have ok: "list_all accepted_line ls" "distinct (map fst (places es))"
    "\<And>k. k < length es \<Longrightarrow> element_fits (label_env es) (of_nat k) (es ! k)" "length es \<le> 0x3000"
    using assms unfolding in_order_def Let_def es_def by (auto simp: list_all_iff)
  obtain pd where f: "foldO (line_action junk after) ls empty_parse_data = Some (Inr pd)" and c: "collected es pd"
    using collected_lines [OF collected_empty ok(1)] unfolding es_def by auto
  have p: "parse_lines junk after ls empty_parse_data = Some (Inr (0, ended ls pd))"
    by (simp add: parse_lines_def f ended_def)
  let ?pd = "ended ls pd" let ?v = "source_result es ?pd"
  let ?es = "program_elements (element_homes es) ?v ?pd"
  have len: "length (concat (map words_of ?es)) \<le> 0x3000"
    using collected_sized(2) [OF c] ok(4) by (rule order_trans)
  then obtain u b where ub: "assembly_inner junk after text_format ?pd (text_init []) = Some (Inr (0, u))"
    "load_sim (dispatch_op bs) text_in RAM_BASE (text_init (t_out u)) i (default_bus out) = Some (Inr (0, b))"
    "\<And>k e. k < length (pd_top ?pd) \<Longrightarrow> pd_top ?pd ! k = Some e \<Longrightarrow> 0 <s e_size e \<Longrightarrow>
       bus_peek bs sparse_look b (RAM_BASE + addr_of ?pd k) = fixed_word ?v (pd_defexprs ?pd) k (e_word e)"
    using source_load [OF collected_program(1) [OF c ok(2,3)] collected_sized(1) [OF c]] by blast
  have "element_word (label_env es) (of_nat k) (es ! k) (bus_peek bs sparse_look b (RAM_BASE + of_nat k))" if k: "k < length es" for k
  proof -
    obtain e where e: "pd_top ?pd ! k = Some e" "e_size e = 1"
      "element_word (label_env es) (of_nat k) (es ! k) (fixed_word ?v (pd_defexprs ?pd) k (e_word e))"
      using collected_program(2) [OF c ok(2,3) k] by blast
    have "k < length (pd_top ?pd)" using collectedD(2) [OF c] k by (simp add: ended_def)
    then show ?thesis using ub(3) [OF _ e(1)] e collected_addr [OF c, of k] k by (simp add: word_sless_alt)
  qed
  moreover have "u = text_out_all ?es (text_init [])"
    using ub(1) assemble_text [OF collected_program(1) [OF c ok(2,3)]] by simp
  then have "bus_ok (on_sparse (fresh out)) sparse_ok ram_window b"
    using text_load_ok [OF len] ub(2) by simp
  ultimately show ?thesis using p ub(1,2) collectedD(1) [OF c] by auto
qed

end

end
