(* ===== verification/Asmlib.thy ===== *)
theory Asmlib
  imports Assembled
begin

unbundle bit_operations_syntax

text \<open>
  The macros of \<^verbatim>\<open>src/lib/common.th\<close> and \<^verbatim>\<open>src/lib/push.th\<close>, as the lines they expand to, and a check
  that a source assembles.
\<close>


section \<open>Writing a source down\<close>

abbreviation (input) "rA \<equiv> 0 :: 4 word"
abbreviation (input) "rB \<equiv> 1 :: 4 word"
abbreviation (input) "rC \<equiv> 2 :: 4 word"
abbreviation (input) "rD \<equiv> 3 :: 4 word"
abbreviation (input) "rE \<equiv> 4 :: 4 word"
abbreviation (input) "rF \<equiv> 5 :: 4 word"
abbreviation (input) "rG \<equiv> 6 :: 4 word"
abbreviation (input) "rH \<equiv> 7 :: 4 word"
abbreviation (input) "rI \<equiv> 8 :: 4 word"
abbreviation (input) "rJ \<equiv> 9 :: 4 word"
abbreviation (input) "rK \<equiv> 10 :: 4 word"
abbreviation (input) "rN \<equiv> 13 :: 4 word"
abbreviation (input) "rO \<equiv> 14 :: 4 word"
abbreviation (input) "rP \<equiv> 15 :: 4 word"

definition ident :: "string \<Rightarrow> u8 list" where
  "ident = map of_char"

definition to :: "regname \<Rightarrow> rhs_plain \<Rightarrow> line" where
  "to z r = Element (Instr (Reg z) To_left (Plain r))"

definition load :: "regname \<Rightarrow> rhs_plain \<Rightarrow> line" where
  "load z r = Element (Instr (Reg z) To_left (Deref r))"

definition store_to :: "regname \<Rightarrow> rhs_plain \<Rightarrow> line" where
  "store_to z r = Element (Instr (Mem z) To_left (Plain r))"

definition store_at :: "regname \<Rightarrow> rhs_plain \<Rightarrow> line" where
  "store_at z r = Element (Instr (Reg z) To_right (Deref r))"

text \<open>A label before a group of lines.\<close>

fun at :: "string \<Rightarrow> line list \<Rightarrow> line list" where
  "at name (Element e # ls) = Element (Label (ident name) e) # ls"
| "at name ls = ls"

definition "dot_plus_1 = E_bin (Op CHR ''+'') (E_atom A_dot) (E_atom (A_int 1))"

definition reloff :: "string \<Rightarrow> atom \<Rightarrow> atom" where
  "reloff label off = A_paren (E_bin (Op CHR ''-'') (E_atom (A_ref (ident label)))
     (E_atom (A_paren (E_bin (Op CHR ''-'') dot_plus_1 (E_atom (A_paren (E_atom off)))))))"

definition rel :: "string \<Rightarrow> rhs_plain" where
  "rel label = R_imm_reg (reloff label (A_int 0)) (Native OP_ADD) 15"

definition from_next :: "string \<Rightarrow> atom" where
  "from_next label = A_paren (E_bin (Op CHR ''-'') (E_atom (A_ref (ident label)))
     (E_atom (A_paren dot_plus_1)))"

definition goto :: "string \<Rightarrow> line list" where "goto label = [to 15 (rel label)]"

definition jnzrel :: "4 word \<Rightarrow> string \<Rightarrow> line list" where
  "jnzrel cond label = [to 15 (R_imm_reg_reg (from_next label) (Native OP_BITWISE_AND) cond 15)]"

definition jzrel :: "4 word \<Rightarrow> string \<Rightarrow> line list" where
  "jzrel cond label = [to 15 (R_imm_reg_reg (from_next label) (Native OP_BITWISE_ANDN) cond 15)]"

definition push :: "rhs_plain \<Rightarrow> line list" where
  "push e = [store_to 14 e, to 14 (R_reg_imm 14 (Native OP_SUBTRACT) (A_int 1))]"

definition pop :: "4 word \<Rightarrow> line list" where
  "pop z = [to 14 (R_reg_imm 14 (Native OP_ADD) (A_int 1)), load z (R_reg 14)]"

definition ret :: "line list" where "ret = pop 15"

text \<open>\<open>writeall_\<close> and \<open>loadall_\<close> write the last register first, each at an offset written out.\<close>

fun writes :: "expr \<Rightarrow> regname list \<Rightarrow> line list" where
  "writes off [] = []"
| "writes off (r # rs) =
     writes (E_bin (Op CHR ''-'') (E_atom (A_paren off)) (E_atom (A_int 1))) rs @
     [store_at r (R_reg_imm 14 (Native OP_ADD) (A_paren off))]"

fun loads :: "expr \<Rightarrow> regname list \<Rightarrow> line list" where
  "loads off [] = []"
| "loads off (r # rs) =
     loads (E_bin (Op CHR ''+'') (E_atom (A_paren off)) (E_atom (A_int 1))) rs @
     [load r (R_reg_imm 14 (Native OP_ADD) (A_un CHR ''-'' (A_paren off)))]"

definition pushall :: "regname list \<Rightarrow> line list" where
  "pushall rs =
     to 14 (R_reg_imm 14 (Native OP_SUBTRACT) (A_paren (E_atom (A_int (of_nat (length rs)))))) #
     writes (E_atom (A_int (of_nat (length rs)))) rs"

definition popall :: "regname list \<Rightarrow> line list" where
  "popall rs =
     to 14 (R_reg_imm 14 (Native OP_ADD) (A_paren (E_atom (A_int (of_nat (length rs)))))) #
     loads (E_atom (A_int 0)) rs"

definition popall_ret :: "regname list \<Rightarrow> line list" where "popall_ret rs = popall (15 # rs)"

definition set_reg_to :: "regname \<Rightarrow> atom \<Rightarrow> line" where "set_reg_to z a = to z (R_imm a)"

definition global :: "string \<Rightarrow> line" where "global name = Directive (Global (ident name))"

section \<open>The routines\<close>

definition gcd_source :: "line list" where
  "gcd_source = global ''gcd'' #
     at ''gcd'' (push (R_reg rK)) @
     [to rB (R_reg rD), to rK (R_reg_imm rC (Native OP_COMPARE_EQ) (A_int 0))] @ jnzrel rK ''done'' @
     [to rB (R_reg rC)] @
     at ''loop'' [to rK (R_reg_imm rD (Native OP_COMPARE_EQ) (A_int 0))] @ jnzrel rK ''done'' @
     [to rK (R_reg_reg rD (Native OP_COMPARE_LT) rB)] @ jnzrel rK ''else'' @
     [to rD (R_reg_reg rD (Native OP_SUBTRACT) rB)] @ goto ''loop'' @
     at ''else'' [to rB (R_reg_reg rB (Native OP_SUBTRACT) rD)] @ goto ''loop'' @
     at ''done'' (pop rK) @ ret"

text \<open>Without \<^verbatim>\<open>IMUL_EARLY_EXITS\<close>.\<close>

definition imul_source :: "line list" where
  "imul_source = global ''imul'' #
     at ''imul'' (pushall [rH, rI, rJ]) @
     [to rB (R_imm (A_int 0)), to rH (R_imm (A_int 1)),
      to rJ (R_reg_imm rD (Native OP_SHIFT_RIGHT_ARITH) (A_int 31)),
      to rD (R_reg_reg rD (Native OP_BITWISE_XOR) rJ), to rD (R_reg_reg rD (Native OP_SUBTRACT) rJ)] @
     at ''L_top'' [to rI (R_reg_reg_imm rD (Native OP_BITWISE_AND) rH True (A_int 1)),
      to rI (R_reg_reg rC (Native OP_BITWISE_ANDN) rI), to rB (R_reg_reg rB (Native OP_ADD) rI),
      to rC (R_reg_imm rC (Native OP_SHIFT_LEFT) (A_int 1)),
      to rD (R_reg_imm rD (Native OP_SHIFT_RIGHT_ARITH) (A_int 1)),
      to rI (R_reg_imm rD (Native OP_COMPARE_EQ) (A_int 0))] @ jzrel rI ''L_top'' @
     [to rB (R_reg_reg rB (Native OP_BITWISE_XOR) rJ), to rB (R_reg_reg rB (Native OP_SUBTRACT) rJ)] @
     popall [rH, rI, rJ] @ at ''L_done'' ret"

definition ipow_source :: "line list" where
  "ipow_source = global ''ipow'' #
     at ''ipow'' (push (R_reg rK)) @ [to rB (R_imm (A_int 1))] @
     at ''mult_loop'' [to rK (R_reg_imm rD (Native OP_COMPARE_EQ) (A_int 0))] @ jnzrel rK ''done'' @
     [to rK (R_reg_imm rD (Native OP_BITWISE_AND) (A_int 1)),
      to rK (R_reg_imm rK (Native OP_SUBTRACT) (A_int 1))] @ jnzrel rK ''even'' @
     at ''odd'' [to rB (R_reg_reg rB (Native OP_MULTIPLY) rC),
      to rD (R_reg_imm rD (Native OP_SUBTRACT) (A_int 1))] @ goto ''mult_loop'' @
     at ''even'' [to rC (R_reg_reg rC (Native OP_MULTIPLY) rC),
      to rD (R_reg_imm rD (Native OP_SHIFT_RIGHT_ARITH) (A_int 1))] @ goto ''mult_loop'' @
     at ''done'' (pop rK) @ ret"

definition udiv_source :: "line list" where
  "udiv_source = global ''udiv'' #
     at ''udiv'' (pushall [rD, rG, rJ, rK]) @ [to rB (R_imm (A_int 0)),
      to rK (R_reg_imm rD (Native OP_COMPARE_EQ) (A_int 0))] @ jnzrel rK ''done'' @
     [to rK (R_reg_reg rC (Native OP_COMPARE_LT) rD)] @ jnzrel rK ''done'' @
     [to rG (R_reg rD)] @
     at ''build_subtrahend'' [to rK (R_reg_reg rC (Native OP_COMPARE_LT) rG)] @ jnzrel rK ''compute_quotient'' @
     [to rG (R_reg_imm rG (Native OP_SHIFT_LEFT) (A_int 1))] @ goto ''build_subtrahend'' @
     at ''compute_quotient'' [to rJ (R_reg_reg rG (Native OP_COMPARE_LT) rD),
      to rK (R_reg_reg rG (Native OP_COMPARE_EQ) rD), to rK (R_reg_reg rJ (Native OP_BITWISE_OR) rK)] @
     jnzrel rK ''done'' @
     [to rG (R_reg_imm rG (Native OP_SHIFT_RIGHT_ARITH) (A_int 1)),
      to rK (R_reg_reg rC (Native OP_COMPARE_LT) rG)] @ jnzrel rK ''shift_quotient'' @
     [to rC (R_reg_reg rC (Native OP_SUBTRACT) rG), to rB (R_reg_imm rB (Native OP_BITWISE_OR) (A_int 1))] @
     at ''shift_quotient'' [to rB (R_reg_imm rB (Native OP_SHIFT_LEFT) (A_int 1))] @ goto ''compute_quotient'' @
     at ''done'' [to rB (R_reg_imm rB (Native OP_SHIFT_RIGHT_ARITH) (A_int 1))] @
     popall [rD, rG, rJ, rK] @ ret"

definition isqrt_source :: "line list" where
  "isqrt_source = global ''isqrt'' #
     at ''isqrt'' (pushall [rE, rG, rJ, rK]) @
     [to rB (R_imm (A_int 0)), to rG (R_imm (A_int 1)), to rG (R_reg_imm rG (Native OP_SHIFT_LEFT) (A_int 30))] @
     at ''compute_4'' [to rJ (R_reg_reg rG (Native OP_COMPARE_LT) rC), to rK (R_reg_reg rG (Native OP_COMPARE_EQ) rC),
      to rK (R_reg_reg rJ (Native OP_BITWISE_OR) rK)] @ jnzrel rK ''do_magic'' @
     [to rG (R_reg_imm rG (Native OP_SHIFT_RIGHT_ARITH) (A_int 2))] @ goto ''compute_4'' @
     at ''do_magic'' [to rK (R_reg_imm rG (Native OP_COMPARE_EQ) (A_int 0))] @ jnzrel rK ''done'' @
     [to rE (R_reg_reg rB (Native OP_ADD) rG), to rK (R_reg_reg rC (Native OP_COMPARE_LT) rE)] @ jnzrel rK ''shift'' @
     [to rC (R_reg_reg rC (Native OP_SUBTRACT) rE), to rB (R_reg_imm_reg rG (Native OP_MULTIPLY) (A_int 2) rB)] @
     at ''shift'' [to rB (R_reg_imm rB (Native OP_SHIFT_RIGHT_ARITH) (A_int 1)),
      to rG (R_reg_imm rG (Native OP_SHIFT_RIGHT_ARITH) (A_int 2))] @ goto ''do_magic'' @
     at ''done'' (popall [rE, rG, rJ, rK]) @ ret"

definition memcpy_source :: "line list" where
  "memcpy_source = global ''memcpy'' #
     at ''memcpy'' (pushall [rF, rG]) @ [to rB (R_reg rC), to rF (R_imm (A_int 0))] @
     at ''L_memcpy_loop'' [to rG (R_reg_reg rE (Native OP_COMPARE_EQ) rF)] @ jnzrel rG ''L_memcpy_done'' @
     [load rG (R_reg_reg rD (Native OP_ADD) rF), store_at rG (R_reg_reg rC (Native OP_ADD) rF),
      to rF (R_reg_imm rF (Native OP_ADD) (A_int 1))] @ goto ''L_memcpy_loop'' @
     at ''L_memcpy_done'' (popall [rF, rG]) @ ret"

definition memset_source :: "line list" where
  "memset_source = global ''memset'' #
     at ''memset'' (pushall [rF, rG]) @ [to rB (R_reg rC), to rF (R_imm (A_int 0))] @
     at ''L_memset_loop'' [to rG (R_reg_reg rE (Native OP_COMPARE_EQ) rF)] @ jnzrel rG ''L_memset_done'' @
     [store_at rD (R_reg_reg rC (Native OP_ADD) rF), to rF (R_reg_imm rF (Native OP_ADD) (A_int 1))] @
     goto ''L_memset_loop'' @
     at ''L_memset_done'' (popall [rF, rG]) @ ret"

definition strcmp_source :: "line list" where
  "strcmp_source = global ''strcmp'' #
     at ''strcmp'' (pushall [rE, rG, rH, rI, rJ]) @ [to rB (R_imm (A_int 0))] @
     at ''strcmp_loop'' [load rJ (R_reg rC), load rG (R_reg rD), to rH (R_reg_reg rJ (Native OP_COMPARE_EQ) rA),
      to rI (R_reg_reg rG (Native OP_COMPARE_EQ) rA)] @ jnzrel rH ''strcmp_done'' @ jnzrel rI ''strcmp_done'' @
     [to rC (R_reg_imm rC (Native OP_ADD) (A_int 1)), to rD (R_reg_imm rD (Native OP_ADD) (A_int 1)),
      to rE (R_reg_reg rJ (Native OP_COMPARE_EQ) rG), to rB (R_reg_reg rB (Native OP_BITWISE_ORN) rE)] @
     goto ''strcmp_loop'' @
     at ''strcmp_done'' [to rE (R_reg_reg rJ (Native OP_COMPARE_EQ) rG), to rB (R_reg_reg rB (Native OP_BITWISE_ORN) rE),
      to rE (R_reg_reg rH (Native OP_COMPARE_EQ) rI), to rB (R_reg_reg rB (Native OP_BITWISE_ORN) rE)] @
     popall [rE, rG, rH, rI, rJ] @ ret"

definition trailz_source :: "line list" where
  "trailz_source = global ''trailz'' #
     at ''trailz'' (pushall [rD, rE, rF]) @
     [to rB (R_reg_imm rC (Native OP_SUBTRACT) (A_int 1)), to rB (R_reg_reg rC (Native OP_BITWISE_XOR) rB),
      to rC (R_reg_reg rC (Native OP_BITWISE_AND) rB),
      to rD (R_reg_imm rC (Native OP_COMPARE_EQ) (A_int 0)), to rB (R_reg_imm rD (Native OP_BITWISE_AND) (A_int 32))] @
     jnzrel rD ''done'' @
     [to rE (R_imm (A_bits 0xffff)),
      to rB (R_reg_reg rC (Native OP_BITWISE_ANDN) rE), to rD (R_reg_reg_imm rB (Native OP_COMPARE_EQ) rA False (A_int 1)),
      to rF (R_reg_imm rE (Native OP_SHIFT_LEFT) (A_int 8)), to rF (R_reg_reg rE (Native OP_BITWISE_XOR) rF),
      to rB (R_reg_reg rC (Native OP_BITWISE_ANDN) rF), to rB (R_reg_reg_imm rB (Native OP_COMPARE_EQ) rA False (A_int 1)),
      to rD (R_reg_imm_reg rD (Native OP_SHIFT_LEFT) (A_int 1) rB),
      to rE (R_reg_imm rF (Native OP_SHIFT_LEFT) (A_int 4)), to rE (R_reg_reg rF (Native OP_BITWISE_XOR) rE),
      to rB (R_reg_reg rC (Native OP_BITWISE_ANDN) rE), to rB (R_reg_reg_imm rB (Native OP_COMPARE_EQ) rA False (A_int 1)),
      to rB (R_reg_imm_reg rD (Native OP_SHIFT_LEFT) (A_int 1) rB),
      to rF (R_reg_imm rE (Native OP_SHIFT_LEFT) (A_int 2)), to rF (R_reg_reg rE (Native OP_BITWISE_XOR) rF),
      to rD (R_reg_reg rC (Native OP_BITWISE_ANDN) rF), to rD (R_reg_reg_imm rD (Native OP_COMPARE_EQ) rA False (A_int 1)),
      to rD (R_reg_imm_reg rB (Native OP_SHIFT_LEFT) (A_int 1) rD),
      to rE (R_reg_imm rF (Native OP_SHIFT_LEFT) (A_int 1)), to rE (R_reg_reg rF (Native OP_BITWISE_XOR) rE),
      to rB (R_reg_reg rC (Native OP_BITWISE_ANDN) rE), to rB (R_reg_reg_imm rB (Native OP_COMPARE_EQ) rA False (A_int 1)),
      to rB (R_reg_imm_reg rD (Native OP_SHIFT_LEFT) (A_int 1) rB)] @
     at ''done'' (popall_ret [rD, rE, rF])"

section \<open>Sources as code\<close>

lemma of_nat_of_char: "of_nat (of_char c) = (of_char c :: u8)"
  by (cases c) (simp add: horner_sum_simps)

lemma inj_of_char: "inj (of_char :: char \<Rightarrow> u8)"
proof (rule injI)
  fix c d :: char assume "(of_char c :: u8) = of_char d"
  then have "(of_nat (of_char c) :: u8) = of_nat (of_char d)" by (simp add: of_nat_of_char)
  then have "unat (of_nat (of_char c) :: u8) = unat (of_nat (of_char d) :: u8)" by simp
  then show "c = d" using nat_of_char_less_256 [of c] nat_of_char_less_256 [of d] by (simp add: unat_of_nat)
qed

lemma ident_eq [simp]: "ident a = ident b \<longleftrightarrow> a = b"
  by (simp add: ident_def inj_map_eq_map [OF inj_of_char])

lemma good_ident: "good_name (ident s) \<longleftrightarrow> length s \<le> 31 \<and> list_all (\<lambda>c. c \<noteq> CHR 0x00) s"
  using inj_image_mem_iff [OF inj_of_char, of "CHR 0x00" "set s"]
  by (auto simp: good_name_def ident_def list_all_iff)

lemma signed_take_bit_shift:
  fixes i :: u32
  shows "signed_take_bit n i = take_bit (Suc n) (i + 2 ^ n) - 2 ^ n"
proof -
  have "signed_take_bit n i = word_of_int (signed_take_bit n (uint i))"
    by (metis of_int_signed_take_bit word_of_int_uint)
  also have "\<dots> = word_of_int (take_bit (Suc n) (uint i + 2 ^ n)) - 2 ^ n"
    by (simp add: signed_take_bit_eq_take_bit_shift)
  also have "word_of_int (take_bit (Suc n) (uint i + 2 ^ n)) = (take_bit (Suc n) (word_of_int (uint i + 2 ^ n)) :: u32)"
    by (simp only: take_bit_of_int)
  finally show ?thesis by simp
qed

lemma sextend_fits:
  "i = SEXTEND32 12 i \<longleftrightarrow> i + 0x800 < 0x1000" "i = SEXTEND32 20 i \<longleftrightarrow> i + 0x80000 < 0x100000"
proof -
  have a: "(x :: u32) = y - z \<longleftrightarrow> x + z = y" for x y z by auto
  have m: "x = x mod b \<longleftrightarrow> x < b" if "0 < b" for x b :: u32
    using that mod_word_less [of x b] word_mod_less_divisor [of b x] by auto
  show "i = SEXTEND32 12 i \<longleftrightarrow> i + 0x800 < 0x1000"
    using m [of "2 ^ 12" "i + 0x800"]
    by (auto simp: SEXTEND32_signed_take_bit signed_take_bit_shift a take_bit_eq_mod)
  show "i = SEXTEND32 20 i \<longleftrightarrow> i + 0x80000 < 0x100000"
    using m [of "2 ^ 20" "i + 0x80000"]
    by (auto simp: SEXTEND32_signed_take_bit signed_take_bit_shift a take_bit_eq_mod)
qed
text \<open>The table of the labels, by one pass over the elements, and the instructions, by another.\<close>

fun table :: "u32 \<Rightarrow> source_element list \<Rightarrow> (u8 list \<times> u32) list" where
  "table d [] = []"
| "table d (e # es) = map (\<lambda>n. (n, d)) (labels_of e) @ table (d + 1) es"

definition place_of :: "(u8 list \<times> u32) list \<Rightarrow> u8 list \<Rightarrow> u32" where
  "place_of t n = (case map_of t n of Some d \<Rightarrow> d | None \<Rightarrow> 0)"

definition instr_of :: "(u8 list \<Rightarrow> u32) \<Rightarrow> u32 \<Rightarrow> source_element \<Rightarrow> instr option" where
  "instr_of rho dot e = (case core e of
     Instr d arr s \<Rightarrow> Some (moved (dd_of d arr s) (dest_reg d) (rhs_of rho dot (side_rhs s))) | _ \<Rightarrow> None)"

fun instrs :: "(u8 list \<Rightarrow> u32) \<Rightarrow> u32 \<Rightarrow> source_element list \<Rightarrow> instr list option" where
  "instrs rho d [] = Some []"
| "instrs rho d (e # es) =
     (if element_fits rho d e then Option.bind (instr_of rho d e) (\<lambda>i. map_option (Cons i) (instrs rho (d + 1) es)) else None)"

definition compiles :: "line list \<Rightarrow> instr list \<Rightarrow> bool" where
  "compiles ls is \<longleftrightarrow> (let es = elements_of ls; t = table 0 es in
     list_all accepted_line ls \<and> distinct (map fst t) \<and> length es \<le> 0x3000 \<and> instrs (place_of t) 0 es = Some is)"

lemma compilesI:
  assumes "elements_of ls = es" and "table 0 es = t" and "list_all accepted_line ls" and "distinct (map fst t)"
    and "length es \<le> 0x3000" and "instrs (place_of t) 0 es = Some is"
  shows "compiles ls is"
  using assms by (simp add: compiles_def)

lemmas macro_defs = to_def load_def store_to_def store_at_def dot_plus_1_def reloff_def rel_def from_next_def goto_def
  jnzrel_def jzrel_def push_def pop_def ret_def pushall_def popall_def popall_ret_def global_def

lemmas instr_simps = element_fits_def instr_of_def place_of_def moved_def dd_of_def sextend_fits wide_def

lemma places_Cons: "places (e # es) = map (\<lambda>n. (n, 0)) (labels_of e) @ map (apsnd Suc) (places es)"
proof -
  have "[0..<length (e # es)] = 0 # map Suc [0..<length es]"
    by (simp add: map_Suc_upt upt_conv_Cons del: upt_Suc)
  then show ?thesis by (simp add: places_def map_concat comp_def)
qed

lemma table_places: "table (of_nat j) es = map (apsnd (\<lambda>k. of_nat (j + k))) (places es)"
proof (induction es arbitrary: j)
  case (Cons e es)
  have "table (of_nat j + 1) es = map (apsnd (\<lambda>k. of_nat (Suc j + k))) (places es)"
    using Cons [of "Suc j"] by (simp add: add.commute)
  then show ?case by (simp add: places_Cons apsnd_def map_prod_def comp_def split_beta)
qed (simp add: places_def)

lemma place_of_table: "place_of (table 0 es) = label_env es"
proof -
  have "map_of (map (apsnd (of_nat :: nat \<Rightarrow> u32)) ps) n = map_option of_nat (map_of ps n)" for ps and n :: "u8 list"
    by (induction ps) auto
  then show ?thesis
    using table_places [of 0 es] by (auto simp: fun_eq_iff place_of_def label_env_def split: option.split)
qed

lemma instrs_nth:
  "instrs rho d es = Some is \<Longrightarrow> length is = length es \<and>
     (\<forall>k<length es. element_fits rho (d + of_nat k) (es ! k) \<and> instr_of rho (d + of_nat k) (es ! k) = Some (is ! k))"
proof (induction es arbitrary: d "is")
  case (Cons e es)
  then obtain i js where i: "is = i # js" "element_fits rho d e" "instr_of rho d e = Some i" "instrs rho (d + 1) es = Some js"
    by (auto simp: bind_eq_Some_conv split: if_splits)
  then show ?case using Cons.IH [OF i(4)] by (auto simp: nth_Cons algebra_simps split: nat.split)
qed simp

lemma compilesD:
  assumes "compiles ls is"
  shows "in_order ls" and "length is = length (elements_of ls)"
    and "k < length is \<Longrightarrow> instr_of (label_env (elements_of ls)) (of_nat k) (elements_of ls ! k) = Some (is ! k)"
proof -
  let ?es = "elements_of ls"
  have c: "list_all accepted_line ls" "distinct (map fst (table 0 ?es))" "length ?es \<le> 0x3000"
    "instrs (label_env ?es) 0 ?es = Some is"
    using assms by (simp_all add: compiles_def Let_def place_of_table)
  note n = instrs_nth [OF c(4)]
  have "map fst (table 0 ?es) = map fst (places ?es)" using table_places [of 0 ?es] by simp
  then show "in_order ls" using c n by (simp add: in_order_def list_all_iff)
  show "length is = length ?es" using n by simp
  show "k < length is \<Longrightarrow> instr_of (label_env ?es) (of_nat k) (?es ! k) = Some (is ! k)" using n by simp
qed

end
