(* ===== verification/Calls.thy ===== *)
theory Calls
  imports Asmlib
begin

unbundle bit_operations_syntax

text \<open>
  What it is to call a routine: it is entered with the stack pointer in \<open>O\<close> and the return address
  above it, and comes back to that address with the stack and the other registers as they were.
\<close>

section \<open>Words\<close>

lemma even_bit_0: "even (unat (x :: u32)) \<longleftrightarrow> \<not> bit x 0"
proof -
  have "bit (unat x) 0 = bit x 0" by (simp add: bit_unsigned_iff del: bit_0)
  then show ?thesis by (simp add: bit_0)
qed

lemma and_1: "odd (unat (x :: u32)) \<Longrightarrow> x AND 1 = 1" "even (unat (x :: u32)) \<Longrightarrow> x AND 1 = 0"
  by (rule bit_word_eqI; auto simp: even_bit_0 bit_and_iff bit_1_iff intro!: gr0I)+

lemma halves: "(x :: u32) = 2 * drop_bit (Suc 0) x + (if odd (unat x) then 1 else 0)"
proof -
  have "take_bit 1 x = (if odd (unat x) then 1 else 0)"
    by (rule bit_word_eqI) (auto simp: bit_take_bit_iff even_bit_0 bit_1_iff bit_0 intro!: gr0I)
  moreover have "2 * drop_bit (Suc 0) x + take_bit 1 x = x"
    using bits_ident [of 1 x] by (simp add: push_bit_eq_mult mult.commute)
  ultimately show ?thesis by (simp only:)
qed

lemma minus_nonneg: "(x :: u32) \<noteq> 0x80000000 \<Longrightarrow> \<not> 0 \<le>s x \<Longrightarrow> 0 \<le>s - x"
proof -
  assume x: "x \<noteq> 0x80000000" "\<not> 0 \<le>s x"
  have u: "unat x < 2 ^ 32" using unsigned_less [of x] by simp
  moreover have "(of_nat (2 ^ 32 - unat x) :: u32) = of_nat (2 ^ 32) - of_nat (unat x)"
    using u by (intro of_nat_diff) simp
  moreover have "(of_nat (2 ^ 32) :: u32) = 0" by simp
  ultimately have "unat (- x) = unat (of_nat (2 ^ 32 - unat x) :: u32)" by (simp only: diff_0 of_nat_unat ucast_id)
  moreover have "unat x \<noteq> 2 ^ 31"
  proof
    assume "unat x = 2 ^ 31"
    then have "(of_nat (unat x) :: u32) = of_nat (2 ^ 31)" by (rule arg_cong)
    then show False using x(1) by simp
  qed
  ultimately show ?thesis using x(2) u by (simp add: nonneg_iff unat_of_nat del: of_nat_diff)
qed
lemma unat_half: "unat (drop_bit (Suc 0) (x :: u32)) = unat x div 2"
  by (simp add: unat_div drop_bit_Suc)

lemma nonneg_bit: "0 \<le>s (x :: u32) \<longleftrightarrow> \<not> bit x 31"
proof -
  have "bit x 31 = bit (unat x) 31" by (simp add: bit_unsigned_iff)
  also have "\<dots> \<longleftrightarrow> \<not> unat x < 2 ^ 31"
  proof
    assume "bit (unat x) 31"
    then have "odd (unat x div 2 ^ 31)" by (simp add: bit_iff_odd)
    then show "\<not> unat x < 2 ^ 31" by (metis div_less even_zero)
  next
    assume "\<not> unat x < 2 ^ 31"
    moreover have "unat x < 2 * 2 ^ 31" using unsigned_less [of x] by simp
    ultimately have "unat x div 2 ^ 31 = 1" by (simp add: div_nat_eqI)
    then show "bit (unat x) 31" by (simp add: bit_iff_odd)
  qed
  finally show ?thesis by (simp add: nonneg_iff)
qed

lemma signed_drop: "0 \<le>s (x :: u32) \<Longrightarrow> signed_drop_bit k x = drop_bit k x"
  by (intro bit_word_eqI) (auto simp: nonneg_bit bit_signed_drop_bit_iff bit_drop_bit_eq not_less dest: bit_imp_le_length)

lemma sign_word: "signed_drop_bit 31 (x :: u32) = (if 0 \<le>s x then 0 else -1)"
  by (intro bit_word_eqI) (auto simp: nonneg_bit bit_signed_drop_bit_iff not_less_eq_eq)

lemma signed_drop_negative: "\<not> 0 \<le>s (x :: u32) \<Longrightarrow> \<not> 0 \<le>s signed_drop_bit (Suc 0) x"
  by (simp add: nonneg_bit bit_signed_drop_bit_iff)

lemma unat_Suc: "unat (k :: u32) < unat (n :: u32) \<Longrightarrow> unat (k + 1) = Suc (unat k)"
proof -
  assume "unat k < unat n"
  moreover have "unat n < 2 ^ 32" using unsigned_less [of n] by simp
  ultimately show ?thesis by (simp add: unat_word_ariths)
qed

lemma neg_bool_or: "neg_bool p OR neg_bool q = neg_bool (p \<or> q)"
  by (cases p; cases q) simp_all

lemma neg_bool_eq: "neg_bool p = neg_bool q \<longleftrightarrow> p = q"
  by (cases p; cases q) simp_all

section \<open>Stack frames\<close>

text \<open>The \<open>n\<close> words from the stack pointer down.\<close>

fun frame :: "nat \<Rightarrow> u32 \<Rightarrow> u32 set" where
  "frame 0 sp = {}"
| "frame (Suc n) sp = insert sp (frame n (sp - 1))"

lemma frame_numeral [simp]:
  "frame (numeral n) sp = insert sp (frame (pred_numeral n) (sp - 1))" "frame 1 sp = {sp}"
  by (simp_all add: numeral_eq_Suc)

lemma offsets:
  fixes s a b :: u32
  shows "s - a = s - b \<longleftrightarrow> a = b" "s - a = s + b \<longleftrightarrow> a + b = 0" "s + b = s - a \<longleftrightarrow> a + b = 0"
    "s - a - b = s - (a + b)" "s - a + b = s + (b - a)" "s + a - b = s + (a - b)"
  by (auto simp: algebra_simps eq_neg_iff_add_eq_0)

lemmas offset_simps [simp] = offsets(1-3)
  offsets(4) [of s "numeral m" "numeral n" for s m n] offsets(4) [of s "numeral m" 1 for s m]
  offsets(4) [of s 1 "numeral n" for s n] offsets(4) [of s 1 1 for s]
  offsets(5) [of s "numeral m" "numeral n" for s m n] offsets(5) [of s "numeral m" 1 for s m]
  offsets(5) [of s 1 "numeral n" for s n]
  offsets(6) [of s "numeral m" "numeral n" for s m n] offsets(6) [of s "numeral m" 1 for s m]

text \<open>
  The routine has returned: only the registers \<open>zs\<close>, the program counter and the stack pointer have
  changed, and only the cells of its frame and those of \<open>ws\<close>.
\<close>

definition returned :: "4 word set \<Rightarrow> u32 set \<Rightarrow> nat \<Rightarrow> cpu \<Rightarrow> cpu \<Rightarrow> bool" where
  "returned zs ws n c c' \<longleftrightarrow>
     (case (c, c') of ((r, m), (r', m')) \<Rightarrow>
        r' 15 = m (r 14 + 1) \<and> r' 14 = r 14 + 1 \<and> same_off (insert 14 (insert 15 zs)) r r' \<and>
        (\<forall>a. a \<notin> frame n (r 14) \<union> ws \<longrightarrow> m' a = m a))"

text \<open>Entry: register A is zero, and the frame and the return address are data.\<close>

definition entered :: "u32 set \<Rightarrow> nat \<Rightarrow> u32 \<Rightarrow> (4 word \<Rightarrow> u32) \<Rightarrow> bool" where
  "entered dt n a r \<longleftrightarrow> r 15 = a \<and> r 0 = 0 \<and> insert (r 14 + 1) (frame n (r 14)) \<subseteq> dt"

text \<open>The \<open>n\<close> cells from \<open>a\<close> on.\<close>

definition block :: "u32 \<Rightarrow> nat \<Rightarrow> u32 set" where
  "block a n = {x. unat (x - a) < n}"

lemma in_block: "a + k \<in> block a n \<longleftrightarrow> unat k < n"
  by (simp add: block_def)

section \<open>Loops\<close>

text \<open>A loop whose measure goes down reaches what ends it.\<close>

lemma runs_loop:
  assumes body: "\<And>r m. iv r m \<Longrightarrow> \<exists>r' m'. runs code dt (r, m) (r', m') \<and>
      (post r' m' \<or> iv r' m' \<and> mu r' m' < (mu r m :: nat))"
  shows "iv r m \<Longrightarrow> \<exists>r' m'. runs code dt (r, m) (r', m') \<and> post r' m'"
proof (induction "mu r m" arbitrary: r m rule: less_induct)
  case less
  obtain r1 m1 where r1: "runs code dt (r, m) (r1, m1)" "post r1 m1 \<or> iv r1 m1 \<and> mu r1 m1 < mu r m"
    using body [OF less.prems] by blast
  then show ?case using less.hyps [of r1 m1] runs_trans by blast
qed

text \<open>A part of a run by executing instructions.\<close>

lemma by_steps:
  "\<exists>r' m'. steps n code dt c = Some (r', m') \<and> Q r' m' \<Longrightarrow> \<exists>r' m'. runs code dt c (r', m') \<and> Q r' m'"
  using steps_runs by blast

text \<open>Registers put back.\<close>

lemma same_off_put [simp]:
  "z \<notin> zs \<Longrightarrow> same_off zs r (s(z := v)) \<longleftrightarrow> v = r z \<and> same_off (insert z zs) r s"
  by (auto simp: same_off_def)

lemma runs_thru:
  assumes "\<exists>s m1. runs code dt c (s, m1) \<and> Q s m1"
    and "\<And>s m1. Q s m1 \<Longrightarrow> \<exists>r' m'. runs code dt (s, m1) (r', m') \<and> R r' m'"
  shows "\<exists>r' m'. runs code dt c (r', m') \<and> R r' m'"
proof -
  obtain s m1 where s: "runs code dt c (s, m1)" "Q s m1" using assms(1) by blast
  obtain r' m' where "runs code dt (s, m1) (r', m')" "R r' m'" using assms(2) [OF s(2)] by blast
  then show ?thesis using runs_trans [OF s(1)] by blast
qed

section \<open>Contracts\<close>

text \<open>
  A routine: its source becomes its code, and a call that meets its precondition returns, changing no
  more than the registers \<open>clobbered\<close>, its frame of \<open>depth\<close> words and the cells \<open>written\<close>, with the
  postcondition.
\<close>

locale routine =
  fixes source_lines :: "line list" and insns :: "instr list"
    and clobbered :: "4 word set" and written :: "(4 word \<Rightarrow> u32) \<Rightarrow> u32 set" and depth :: nat
    and pre :: "u32 set \<Rightarrow> cpu \<Rightarrow> bool" and post :: "cpu \<Rightarrow> cpu \<Rightarrow> bool"
  assumes compiled: "compiles source_lines insns"
    and returns: "carries code b insns \<Longrightarrow> entered dt depth b r \<Longrightarrow> pre dt (r, m) \<Longrightarrow>
      \<exists>r' m'. runs code dt (r, m) (r', m') \<and> returned clobbered (written r) depth (r, m) (r', m') \<and>
        post (r, m) (r', m')"

end
