(* ===== verification/Running.thy ===== *)
theory Running
  imports Calls
begin

text \<open>
  From a source to its run: what is assembled and loaded is the code, and the interpreter follows its
  steps on the machine that \<open>tsim\<close> sets up.
\<close>

section \<open>Building\<close>

text \<open>The source is parsed, assembled to the text format and loaded at the start of the RAM, giving the bus \<open>b\<close>.\<close>

definition builds where
  "builds bs out junk after i ls b \<longleftrightarrow> (\<exists>pd u.
     parse_lines junk after ls empty_parse_data = Some (Inr (0, pd)) \<and> pd_errored pd = 0 \<and>
     assembly_inner junk after text_format pd (text_init []) = Some (Inr (0, u)) \<and>
     load_sim (dispatch_op bs) text_in RAM_BASE (text_init (t_out u)) i (default_bus out) = Some (Inr (0, b)))"

text \<open>The first \<open>n\<close> words of the RAM are those of \<open>b\<close>.\<close>

definition has_program where
  "has_program bs out n b s \<longleftrightarrow> bus_ok (on_sparse (fresh out)) sparse_ok ram_window (world s) \<and>
     (\<forall>a\<in>block RAM_BASE n. bus_peek bs sparse_look (world s) a = bus_peek bs sparse_look b a)"

text \<open>What is left of the RAM.\<close>

definition room :: "nat \<Rightarrow> u32 set" where
  "room n = ram_window - block RAM_BASE n"

text \<open>A call has come back.\<close>

definition came_back where
  "came_back bs zs ws n s t \<longleftrightarrow>
     regs t 15 = bus_peek bs sparse_look (world s) (regs s 14 + 1) \<and> regs t 14 = regs s 14 + 1 \<and>
     (\<forall>z. z \<notin> insert 14 (insert 15 zs) \<longrightarrow> regs t z = regs s z) \<and>
     (\<forall>a\<in>ram_window. a \<notin> frame n (regs s 14) \<union> ws \<longrightarrow>
        bus_peek bs sparse_look (world t) a = bus_peek bs sparse_look (world s) a)"

lemma block_in_window:
  assumes "n \<le> 0x3000" and "a \<in> block RAM_BASE n"
  shows "a \<in> ram_window"
proof -
  have "RAM_BASE + d \<in> ram_window" if "unat d < 0x3000" for d
    using that by (simp add: ram_window_def ram_consts word_le_nat_alt unat_word_ariths)
  from this [of "a - RAM_BASE"] show ?thesis using assms by (simp add: block_def)
qed

context tsim_bus
begin

lemma builds_words:
  assumes "compiles ls is" and "builds bs out junk after i ls b"
  shows "\<forall>k<length is. decode (bus_peek bs sparse_look b (RAM_BASE + of_nat k)) = is ! k"
proof (intro allI impI)
  fix k assume k: "k < length is"
  note c = compilesD [OF assms(1)]
  let ?es = "elements_of ls"
  have "element_word (label_env ?es) (of_nat k) (?es ! k) (bus_peek bs sparse_look b (RAM_BASE + of_nat k))"
    using lines_load [OF c(1), of junk after i out] assms(2) k c(2) unfolding builds_def by fastforce
  then show "decode (bus_peek bs sparse_look b (RAM_BASE + of_nat k)) = is ! k"
    using c(3) [OF k] by (auto simp: element_word_def instr_of_def split: source_element.splits)
qed

lemma program_placed:
  assumes "compiles ls is" and "builds bs out junk after i ls b" and "has_program bs out (length is) b s"
  shows "placed ram_window (code_at RAM_BASE is) (room (length is)) (bus_peek bs sparse_look (world s))"
proof -
  have n: "length is \<le> 0x3000"
    using compilesD(1,2) [OF assms(1)] by (simp add: in_order_def Let_def)
  have code: "decode (bus_peek bs sparse_look (world s) a) = i" "a \<in> ram_window" "a \<in> block RAM_BASE (length is)"
    if a: "code_at RAM_BASE is a = Some i" for a i
  proof -
    let ?k = "unat (a - RAM_BASE)"
    have k: "?k < length is" "is ! ?k = i" using a by (auto simp: code_at_def split: if_splits)
    have "RAM_BASE + of_nat ?k = a" by simp
    then have "decode (bus_peek bs sparse_look b a) = i"
      using builds_words [OF assms(1,2)] k by metis
    moreover show c: "a \<in> block RAM_BASE (length is)" using k(1) by (simp add: block_def)
    ultimately show "decode (bus_peek bs sparse_look (world s) a) = i"
      using assms(3) by (simp add: has_program_def)
    show "a \<in> ram_window" by (rule block_in_window [OF n c])
  qed
  have "(0xffffffff :: u32) \<notin> ram_window" by (simp add: ram_window_def ram_consts)
  then show ?thesis using code unfolding placed_def room_def by blast
qed

lemma program_runs:
  assumes "compiles ls is" and "builds bs out junk after i ls b" and "has_program bs out (length is) b s"
    and "runs (code_at RAM_BASE is) (room (length is)) (regs s, bus_peek bs sparse_look (world s)) (r', m')"
  shows "\<exists>t. sim_reaches (dispatch_op bs) junk' (tsim_ops devices_dispatch_cycle) s t \<and>
    bus_ok (on_sparse (fresh out)) sparse_ok ram_window (world t) \<and> regs t = r' \<and>
    (\<forall>a\<in>ram_window. bus_peek bs sparse_look (world t) a = m' a)"
proof -
  have "sparse.bus.agrees (fresh out) s (regs s, bus_peek bs sparse_look (world s))"
    using assms(3) by (simp add: sparse.bus.agrees_def has_program_def)
  from sparse.bus.runs_interp [OF assms(4) _ this, where junk = junk'] program_placed [OF assms(1-3)]
  show ?thesis by (auto simp: sparse.bus.agrees_def)
qed

lemma source_builds:
  assumes "in_order ls"
  shows "\<exists>b. builds bs out junk after i ls b \<and> bus_ok (on_sparse (fresh out)) sparse_ok ram_window b \<and> (\<forall>k<length (elements_of ls). element_word (label_env (elements_of ls))
    (of_nat k) (elements_of ls ! k) (bus_peek bs sparse_look b (RAM_BASE + of_nat k)))"
  using lines_load [OF assms, of junk after i out] unfolding builds_def by blast

text \<open>Data written beside the program.\<close>

lemma program_store:
  assumes "has_program bs out n b s" and "a \<in> room n" and "n \<le> 0x3000"
  shows "\<exists>w. has_program bs out n b (s\<lparr>world := w\<rparr>) \<and> bus_peek bs sparse_look w a = v"
proof -
  have a: "a \<in> ram_window" "a \<notin> block RAM_BASE n" using assms(2) by (simp_all add: room_def)
  obtain w where w: "bus_ok (on_sparse (fresh out)) sparse_ok ram_window w"
    "\<forall>x\<in>ram_window. bus_peek bs sparse_look w x = (if x = a then v else bus_peek bs sparse_look (world s) x)"
    using sparse.bus.store [of "fresh out" "world s" a v] a(1) assms(1) unfolding has_program_def by blast
  have "has_program bs out n b (s\<lparr>world := w\<rparr>)"
    using w a(2) assms(1) block_in_window [OF assms(3)] by (auto simp: has_program_def)
  then show ?thesis using w(2) a(1) by (intro exI [of _ w]) simp
qed

text \<open>A routine that returns comes back on the machine.\<close>

lemma call_comes_back:
  assumes "compiles ls is" and "builds bs out junk after i ls b" and "has_program bs out (length is) b s"
    and "\<And>code. carries code RAM_BASE is \<Longrightarrow> \<exists>r' m'. runs code (room (length is)) (regs s, bus_peek bs sparse_look (world s)) (r', m') \<and>
      returned zs ws n (regs s, bus_peek bs sparse_look (world s)) (r', m') \<and> Q r' m'"
  shows "\<exists>t. sim_reaches (dispatch_op bs) junk' (tsim_ops devices_dispatch_cycle) s t \<and>
    bus_ok (on_sparse (fresh out)) sparse_ok ram_window (world t) \<and> came_back bs zs ws n s t \<and>
    (\<exists>m'. (\<forall>a\<in>ram_window. bus_peek bs sparse_look (world t) a = m' a) \<and> Q (regs t) m')"
proof -
  have "length is \<le> 2 ^ 32" using compilesD(1,2) [OF assms(1)] by (simp add: in_order_def Let_def)
  from assms(4) [OF carries_code_at [OF this]]
  obtain r' m' where r: "runs (code_at RAM_BASE is) (room (length is)) (regs s, bus_peek bs sparse_look (world s)) (r', m')"
    "returned zs ws n (regs s, bus_peek bs sparse_look (world s)) (r', m')" "Q r' m'"
    by blast
  obtain t where t: "sim_reaches (dispatch_op bs) junk' (tsim_ops devices_dispatch_cycle) s t"
    "bus_ok (on_sparse (fresh out)) sparse_ok ram_window (world t)" "regs t = r'"
    "\<forall>a\<in>ram_window. bus_peek bs sparse_look (world t) a = m' a"
    using program_runs [OF assms(1-3) r(1), of junk'] by blast
  have "came_back bs zs ws n s t"
    using r(2) t(3,4) by (simp add: came_back_def returned_def same_off_def)
  then show ?thesis using t r(3) by blast
qed

text \<open>A loop that the code never leaves.\<close>

lemma runs_forever:
  assumes "compiles ls is" and "builds bs out junk after i ls b" and "has_program bs out (length is) b s"
    and step: "\<And>c. iv c \<Longrightarrow> \<exists>c'. step (code_at RAM_BASE is) (room (length is)) c = Some c' \<and> iv c'"
    and start: "runs (code_at RAM_BASE is) (room (length is)) (regs s, bus_peek bs sparse_look (world s)) c1" "iv c1"
  shows "interp_run_sim (dispatch_op bs) junk' (tsim_ops devices_dispatch_cycle) s = None"
proof -
  let ?code = "code_at RAM_BASE is" and ?dt = "room (length is)"
  define going where "going t \<longleftrightarrow> (\<exists>c c1. sparse.bus.agrees (fresh out) t c \<and> placed ram_window ?code ?dt (snd c) \<and>
    runs ?code ?dt c c1 \<and> iv c1)" for t
  have "\<exists>t'. insn_step (dispatch_op bs) junk' (tsim_ops devices_dispatch_cycle) t = Inr (None, t') \<and> going t'"
    if g: "going t" for t
  proof -
    obtain c c1 where c: "sparse.bus.agrees (fresh out) t c" "placed ram_window ?code ?dt (snd c)"
      "runs ?code ?dt c c1" "iv c1"
      using g unfolding going_def by blast
    have "\<exists>c' c2. step ?code ?dt c = Some c' \<and> runs ?code ?dt c' c2 \<and> iv c2"
      using c(3)
    proof cases
      case runs_refl
      then show ?thesis using step [OF c(4)] by blast
    next
      case (runs_step c')
      then show ?thesis using c(4) by blast
    qed
    then obtain c' c2 where c': "step ?code ?dt c = Some c'" "runs ?code ?dt c' c2" "iv c2" by blast
    obtain r m r' m' where rm: "c = (r, m)" "c' = (r', m')" by (cases c; cases c')
    obtain t' where t': "insn_step (dispatch_op bs) junk' (tsim_ops devices_dispatch_cycle) t = Inr (None, t')"
      "sparse.bus.agrees (fresh out) t' c'"
      using sparse.bus.step_interp [of ?code ?dt m r r' m' "fresh out" t junk'] c c'(1) unfolding rm by auto
    have "placed ram_window ?code ?dt (snd c')"
      using c'(1) c(2) placed_exec unfolding rm by (fastforce simp: step_def bind_eq_Some_conv)
    then show ?thesis using t' c'(2,3) unfolding going_def by blast
  qed
  moreover have "going s"
    unfolding going_def
    by (rule exI [of _ "(regs s, bus_peek bs sparse_look (world s))"], rule exI [of _ c1])
      (use program_placed [OF assms(1-3)] assms(3) start in \<open>simp add: sparse.bus.agrees_def has_program_def\<close>)
  ultimately show ?thesis
    by (intro interp_run_sim_diverges [where P = going]) auto
qed

end

text \<open>A routine that keeps its contract keeps it on the machine.\<close>

context routine
begin

lemma on_tsim:
  assumes bus: "tsim_bus qs bs" and b: "builds bs out junk after i source_lines b"
    and p: "has_program bs out (length insns) b s" and e: "entered (room (length insns)) depth RAM_BASE (regs s)"
    and pre: "pre (room (length insns)) (regs s, bus_peek bs sparse_look (world s))"
  shows "\<exists>t. sim_reaches (dispatch_op bs) junk' (tsim_ops devices_dispatch_cycle) s t \<and>
    bus_ok (on_sparse (fresh out)) sparse_ok ram_window (world t) \<and>
    came_back bs clobbered (written (regs s)) depth s t \<and>
    (\<exists>m'. (\<forall>a\<in>ram_window. bus_peek bs sparse_look (world t) a = m' a) \<and>
       post (regs s, bus_peek bs sparse_look (world s)) (regs t, m'))"
  by (rule tsim_bus.call_comes_back [OF bus compiled b p returns [OF _ e pre]])

end

end
