(* ===== verification/Cells.thy ===== *)
theory Cells
  imports Running
begin

unbundle bit_operations_syntax

text \<open>
  \<^verbatim>\<open>memcpy.tas.cpp\<close>, \<^verbatim>\<open>memset.tas.cpp\<close> and \<^verbatim>\<open>strcmp.tas.cpp\<close> of \<^verbatim>\<open>src/lib\<close>: words copied from
  cell to cell, cells filled with a word, and strings compared.
\<close>

section \<open>memcpy\<close>

definition memcpy_code :: "instr list" where
  "memcpy_code =
    [Set 14 (T1 OP_ADD 14 (- 2) 0), Put 6 (T1 OP_ADD 14 1 0), Put 5 (T1 OP_ADD 14 2 0), Set 1 (T0
     OP_BITWISE_OR 2 0 0), Set 5 (T0 OP_BITWISE_OR 0 0 0), Set 6 (T0 OP_COMPARE_EQ 4 5 0), Set 15
     (T2 OP_BITWISE_AND 4 6 15), Load 6 (T0 OP_ADD 3 5 0), Put 6 (T0 OP_ADD 2 5 0), Set 5 (T1 OP_ADD
     5 1 0), Set 15 (T2 OP_ADD (- 6) 15 0), Set 14 (T1 OP_ADD 14 2 0), Load 6 (T1 OP_ADD 14 (- 1)
     0), Load 5 (T1 OP_ADD 14 0 0), Set 14 (T1 OP_ADD 14 1 0), Load 15 (T0 OP_BITWISE_OR 14 0 0)]"

lemma memcpy_compiles: "compiles memcpy_source memcpy_code"
  by (rule compilesI)
    (simp add: memcpy_source_def macro_defs, simp, simp add: memcpy_source_def macro_defs good_ident, simp, simp,
     simp add: memcpy_code_def instr_simps)

definition copied :: "u32 \<Rightarrow> u32 \<Rightarrow> nat \<Rightarrow> (u32 \<Rightarrow> u32) \<Rightarrow> u32 \<Rightarrow> u32" where
  "copied d s n m a = (if a \<in> block d n then m (s + (a - d)) else m a)"

lemma copied_0 [simp]: "copied d s 0 m = m"
  by (simp add: fun_eq_iff copied_def block_def)

lemma block_step: "unat (k :: u32) < unat (n :: u32) \<Longrightarrow> x \<in> block a (unat (k + 1)) \<longleftrightarrow> x = a + k \<or> x \<in> block a (unat k)"
proof -
  assume k: "unat k < unat n"
  have "unat (x - a) = unat k \<longleftrightarrow> x = a + k" by (auto simp: word_unat_eq_iff [symmetric])
  then show ?thesis using k by (auto simp: block_def unat_Suc less_Suc_eq)
qed

lemma memcpy_returns:
  assumes h: "carries code b memcpy_code" and e: "entered dt 2 b r"
    and room: "block (r 2) (unat (r 4)) \<union> block (r 3) (unat (r 4)) \<subseteq> dt"
    and apart: "block (r 2) (unat (r 4)) \<inter> (block (r 3) (unat (r 4)) \<union> insert (r 14 + 1) (frame 2 (r 14))) = {}"
      "block (r 3) (unat (r 4)) \<inter> frame 2 (r 14) = {}"
  shows "\<exists>r' m'. runs code dt (r, m) (r', m') \<and> returned {1} (block (r 2) (unat (r 4))) 2 (r, m) (r', m') \<and>
    r' 1 = r 2 \<and> (\<forall>a\<in>block (r 2) (unat (r 4)). m' a = m (r 3 + (a - r 2)))"
proof -
  note f = h [unfolded memcpy_code_def carries_simps, simplified]
  let ?sp = "r 14" and ?n = "unat (r 4)"
  define m0 where "m0 = m(r 14 - 1 := r 6, r 14 := r 5)"
  have e': "r 15 = b" "r 0 = 0" "?sp \<in> dt" "?sp + 1 \<in> dt" "?sp - 1 \<in> dt"
    using e by (simp_all add: entered_def)
  define same where "same s \<longleftrightarrow> same_off {1, 5, 6, 14, 15} r s \<and> s 0 = 0 \<and> s 1 = r 2 \<and> s 2 = r 2 \<and> s 3 = r 3 \<and> s 4 = r 4 \<and> s 14 = ?sp - 2" for s
  let ?fin = "\<lambda>s m'. m' = copied (r 2) (r 3) ?n m0 \<and> same s \<and> s 15 = b + 11"
  let ?iv = "\<lambda>s m'. m' = copied (r 2) (r 3) (unat (s 5)) m0 \<and> same s \<and> s 15 = b + 5 \<and> unat (s 5) \<le> ?n"
  have loop: "\<exists>r' m'. runs code dt (s, m1) (r', m') \<and> ?fin r' m'" if "?iv s m1" for s m1
  proof (rule runs_loop [where iv = ?iv and mu = "\<lambda>s m. ?n - unat (s 5)", OF _ that])
    fix s m1 assume iv: "?iv s m1"
    show "\<exists>r' m'. runs code dt (s, m1) (r', m') \<and> (?fin r' m' \<or> ?iv r' m' \<and> ?n - unat (r' 5) < ?n - unat (s 5))"
    proof (cases "s 5 = r 4")
      case True
      then show ?thesis using iv by ((elim conjE)?, intro by_steps [where n = 2], simp add: run_simps f same_def)
    next
      case False
      then have k: "unat (s 5) < ?n" using iv by (metis le_neq_implies_less word_unat_eq_iff)
      have c: "r 3 + s 5 \<in> block (r 3) ?n" "r 2 + s 5 \<in> block (r 2) ?n" using k by (simp_all add: in_block)
      moreover have "block (r 2) (unat (s 5)) \<subseteq> block (r 2) ?n" using k by (auto simp: block_def)
      ultimately have src: "r 3 + s 5 \<in> dt" "r 2 + s 5 \<in> dt" "r 3 + s 5 \<notin> block (r 2) (unat (s 5))"
        using room apart(1) by blast+
      have "copied (r 2) (r 3) (unat (s 5)) m0 (r 3 + s 5) = m0 (r 3 + s 5)" using src(3) by (simp add: copied_def)
      moreover have "(copied (r 2) (r 3) (unat (s 5)) m0)(r 2 + s 5 := m0 (r 3 + s 5)) = copied (r 2) (r 3) (Suc (unat (s 5))) m0"
        using block_step [OF k] k by (auto simp: fun_eq_iff copied_def unat_Suc)
      ultimately show ?thesis using False False [symmetric] iv k src(1,2)
        by ((elim conjE)?, intro by_steps [where n = 6], simp add: run_simps f same_def unat_Suc [OF k])
    qed
  qed
  have out: "copied (r 2) (r 3) ?n m0 (r 14 + 1) = m (r 14 + 1)" "copied (r 2) (r 3) ?n m0 (r 14) = r 5"
    "copied (r 2) (r 3) ?n m0 (r 14 - 1) = r 6"
    "\<forall>a. a \<noteq> r 14 \<and> a \<noteq> r 14 - 1 \<and> a \<notin> block (r 2) ?n \<longrightarrow> copied (r 2) (r 3) ?n m0 a = m a"
    using apart(1) by (simp_all add: copied_def m0_def)
  have ins: "copied (r 2) (r 3) ?n m0 a = m (r 3 + (a - r 2))" if "a \<in> block (r 2) ?n" for a
  proof -
    have "r 3 + (a - r 2) \<in> block (r 3) ?n" using that by (simp add: block_def)
    then have "r 3 + (a - r 2) \<noteq> r 14" "r 3 + (a - r 2) \<noteq> r 14 - 1" using apart(2) by auto
    then show ?thesis using that by (simp add: copied_def m0_def)
  qed
  have last: "\<exists>r' m'. runs code dt (s, m1) (r', m') \<and> returned {1} (block (r 2) (unat (r 4))) 2 (r, m) (r', m') \<and>
    r' 1 = r 2 \<and> (\<forall>a\<in>block (r 2) (unat (r 4)). m' a = m (r 3 + (a - r 2)))"
    if "?fin s m1" for s m1
    using that e' out ins by ((elim conjE)?, intro by_steps [where n = 5], simp add: run_simps f same_def returned_def insert_commute not_eq_complement)
  have "\<exists>s m1. runs code dt (r, m) (s, m1) \<and> ?iv s m1"
    using e' by ((elim conjE)?, intro by_steps [where n = 5], simp add: run_simps f same_def m0_def)
  then show ?thesis by (rule runs_thru [OF runs_thru [OF _ loop] last])
qed

interpretation memcpy_call: routine memcpy_source memcpy_code "{1}" "\<lambda>r. block (r 2) (unat (r 4))" 2
  "\<lambda>dt (r, m). block (r 2) (unat (r 4)) \<union> block (r 3) (unat (r 4)) \<subseteq> dt \<and>
     block (r 2) (unat (r 4)) \<inter> (block (r 3) (unat (r 4)) \<union> insert (r 14 + 1) (frame 2 (r 14))) = {} \<and>
     block (r 3) (unat (r 4)) \<inter> frame 2 (r 14) = {}"
  "\<lambda>(r, m) (r', m'). r' 1 = r 2 \<and> (\<forall>a\<in>block (r 2) (unat (r 4)). m' a = m (r 3 + (a - r 2)))"
  by unfold_locales (rule memcpy_compiles, use memcpy_returns in simp)

section \<open>memset\<close>

definition memset_code :: "instr list" where
  "memset_code =
    [Set 14 (T1 OP_ADD 14 (- 2) 0), Put 6 (T1 OP_ADD 14 1 0), Put 5 (T1 OP_ADD 14 2 0), Set 1 (T0
     OP_BITWISE_OR 2 0 0), Set 5 (T0 OP_BITWISE_OR 0 0 0), Set 6 (T0 OP_COMPARE_EQ 4 5 0), Set 15
     (T2 OP_BITWISE_AND 3 6 15), Put 3 (T0 OP_ADD 2 5 0), Set 5 (T1 OP_ADD 5 1 0), Set 15 (T2 OP_ADD
     (- 5) 15 0), Set 14 (T1 OP_ADD 14 2 0), Load 6 (T1 OP_ADD 14 (- 1) 0), Load 5 (T1 OP_ADD 14 0
     0), Set 14 (T1 OP_ADD 14 1 0), Load 15 (T0 OP_BITWISE_OR 14 0 0)]"

lemma memset_compiles: "compiles memset_source memset_code"
  by (rule compilesI)
    (simp add: memset_source_def macro_defs, simp, simp add: memset_source_def macro_defs good_ident, simp, simp,
     simp add: memset_code_def instr_simps)

definition filled :: "u32 \<Rightarrow> u32 \<Rightarrow> nat \<Rightarrow> (u32 \<Rightarrow> u32) \<Rightarrow> u32 \<Rightarrow> u32" where
  "filled d v n m a = (if a \<in> block d n then v else m a)"

lemma filled_0 [simp]: "filled d v 0 m = m"
  by (simp add: fun_eq_iff filled_def block_def)

lemma memset_returns:
  assumes h: "carries code b memset_code" and e: "entered dt 2 b r"
    and room: "block (r 2) (unat (r 4)) \<subseteq> dt"
    and apart: "block (r 2) (unat (r 4)) \<inter> insert (r 14 + 1) (frame 2 (r 14)) = {}"
  shows "\<exists>r' m'. runs code dt (r, m) (r', m') \<and> returned {1} (block (r 2) (unat (r 4))) 2 (r, m) (r', m') \<and>
    r' 1 = r 2 \<and> (\<forall>a\<in>block (r 2) (unat (r 4)). m' a = r 3)"
proof -
  note f = h [unfolded memset_code_def carries_simps, simplified]
  let ?sp = "r 14" and ?n = "unat (r 4)"
  define m0 where "m0 = m(r 14 - 1 := r 6, r 14 := r 5)"
  have e': "r 15 = b" "r 0 = 0" "?sp \<in> dt" "?sp + 1 \<in> dt" "?sp - 1 \<in> dt"
    using e by (simp_all add: entered_def)
  define same where "same s \<longleftrightarrow> same_off {1, 5, 6, 14, 15} r s \<and> s 0 = 0 \<and> s 1 = r 2 \<and> s 2 = r 2 \<and> s 3 = r 3 \<and> s 4 = r 4 \<and> s 14 = ?sp - 2" for s
  let ?fin = "\<lambda>s m'. m' = filled (r 2) (r 3) ?n m0 \<and> same s \<and> s 15 = b + 10"
  let ?iv = "\<lambda>s m'. m' = filled (r 2) (r 3) (unat (s 5)) m0 \<and> same s \<and> s 15 = b + 5 \<and> unat (s 5) \<le> ?n"
  have loop: "\<exists>r' m'. runs code dt (s, m1) (r', m') \<and> ?fin r' m'" if "?iv s m1" for s m1
  proof (rule runs_loop [where iv = ?iv and mu = "\<lambda>s m. ?n - unat (s 5)", OF _ that])
    fix s m1 assume iv: "?iv s m1"
    show "\<exists>r' m'. runs code dt (s, m1) (r', m') \<and> (?fin r' m' \<or> ?iv r' m' \<and> ?n - unat (r' 5) < ?n - unat (s 5))"
    proof (cases "s 5 = r 4")
      case True
      then show ?thesis using iv by ((elim conjE)?, intro by_steps [where n = 2], simp add: run_simps f same_def)
    next
      case False
      then have k: "unat (s 5) < ?n" using iv by (metis le_neq_implies_less word_unat_eq_iff)
      then have "r 2 + s 5 \<in> dt" using room in_block [of "r 2" "s 5"] by blast
      moreover have "(filled (r 2) (r 3) (unat (s 5)) m0)(r 2 + s 5 := r 3) = filled (r 2) (r 3) (Suc (unat (s 5))) m0"
        using block_step [OF k] k by (auto simp: fun_eq_iff filled_def unat_Suc)
      ultimately show ?thesis using False False [symmetric] iv k
        by ((elim conjE)?, intro by_steps [where n = 5], simp add: run_simps f same_def unat_Suc [OF k])
    qed
  qed
  have out: "filled (r 2) (r 3) ?n m0 (r 14 + 1) = m (r 14 + 1)" "filled (r 2) (r 3) ?n m0 (r 14) = r 5"
    "filled (r 2) (r 3) ?n m0 (r 14 - 1) = r 6" "\<forall>a\<in>block (r 2) ?n. filled (r 2) (r 3) ?n m0 a = r 3"
    "\<forall>a. a \<noteq> r 14 \<and> a \<noteq> r 14 - 1 \<and> a \<notin> block (r 2) ?n \<longrightarrow> filled (r 2) (r 3) ?n m0 a = m a"
    using apart by (simp_all add: filled_def m0_def)
  have last: "\<exists>r' m'. runs code dt (s, m1) (r', m') \<and> returned {1} (block (r 2) (unat (r 4))) 2 (r, m) (r', m') \<and>
    r' 1 = r 2 \<and> (\<forall>a\<in>block (r 2) (unat (r 4)). m' a = r 3)"
    if "?fin s m1" for s m1
    using that e' out by ((elim conjE)?, intro by_steps [where n = 5], simp add: run_simps f same_def returned_def insert_commute not_eq_complement)
  have "\<exists>s m1. runs code dt (r, m) (s, m1) \<and> ?iv s m1"
    using e' by ((elim conjE)?, intro by_steps [where n = 5], simp add: run_simps f same_def m0_def)
  then show ?thesis by (rule runs_thru [OF runs_thru [OF _ loop] last])
qed

interpretation memset_call: routine memset_source memset_code "{1}" "\<lambda>r. block (r 2) (unat (r 4))" 2
  "\<lambda>dt (r, m). block (r 2) (unat (r 4)) \<subseteq> dt \<and>
     block (r 2) (unat (r 4)) \<inter> insert (r 14 + 1) (frame 2 (r 14)) = {}"
  "\<lambda>(r, m) (r', m'). r' 1 = r 2 \<and> (\<forall>a\<in>block (r 2) (unat (r 4)). m' a = r 3)"
  by unfold_locales (rule memset_compiles, use memset_returns in simp)

section \<open>strcmp\<close>

definition strcmp_code :: "instr list" where
  "strcmp_code =
    [Set 14 (T1 OP_ADD 14 (- 5) 0), Put 9 (T1 OP_ADD 14 1 0), Put 8 (T1 OP_ADD 14 2 0), Put 7 (T1
     OP_ADD 14 3 0), Put 6 (T1 OP_ADD 14 4 0), Put 4 (T1 OP_ADD 14 5 0), Set 1 (T0 OP_BITWISE_OR 0 0
     0), Load 9 (T0 OP_BITWISE_OR 2 0 0), Load 6 (T0 OP_BITWISE_OR 3 0 0), Set 7 (T0 OP_COMPARE_EQ 9
     0 0), Set 8 (T0 OP_COMPARE_EQ 6 0 0), Set 15 (T2 OP_BITWISE_AND 6 7 15), Set 15 (T2
     OP_BITWISE_AND 5 8 15), Set 2 (T1 OP_ADD 2 1 0), Set 3 (T1 OP_ADD 3 1 0), Set 4 (T0
     OP_COMPARE_EQ 9 6 0), Set 1 (T0 OP_BITWISE_ORN 1 4 0), Set 15 (T2 OP_ADD (- 11) 15 0), Set 4
     (T0 OP_COMPARE_EQ 9 6 0), Set 1 (T0 OP_BITWISE_ORN 1 4 0), Set 4 (T0 OP_COMPARE_EQ 7 8 0), Set
     1 (T0 OP_BITWISE_ORN 1 4 0), Set 14 (T1 OP_ADD 14 5 0), Load 9 (T1 OP_ADD 14 (- 4) 0), Load 8
     (T1 OP_ADD 14 (- 3) 0), Load 7 (T1 OP_ADD 14 (- 2) 0), Load 6 (T1 OP_ADD 14 (- 1) 0), Load 4
     (T1 OP_ADD 14 0 0), Set 14 (T1 OP_ADD 14 1 0), Load 15 (T0 OP_BITWISE_OR 14 0 0)]"

lemma strcmp_compiles: "compiles strcmp_source strcmp_code"
  by (rule compilesI)
    (simp add: strcmp_source_def macro_defs, simp, simp add: strcmp_source_def macro_defs good_ident, simp, simp,
     simp add: strcmp_code_def instr_simps)

text \<open>A string in memory: its characters, none of them zero, and a zero.\<close>

definition string_at :: "(u32 \<Rightarrow> u32) \<Rightarrow> u32 \<Rightarrow> u32 list \<Rightarrow> bool" where
  "string_at m a s \<longleftrightarrow> 0 \<notin> set s \<and> length s < 2 ^ 32 \<and> (\<forall>i\<le>length s. m (a + of_nat i) = (s @ [0]) ! i)"

lemma strings_equal:
  fixes s t :: "u32 list"
  assumes "0 \<notin> set s" "0 \<notin> set t"
  shows "s = t \<longleftrightarrow> (\<forall>i\<le>min (length s) (length t). (s @ [0]) ! i = (t @ [0]) ! i)"
  using assms
proof (induction s arbitrary: t)
  case Nil
  show ?case by (cases t) (use Nil in auto)
next
  case (Cons x s)
  show ?case
  proof (cases t)
    case (Cons y t')
    then show ?thesis
      using Cons.IH [of t'] Cons.prems by (simp add: less_Suc_eq_le [symmetric] All_less_Suc2)
  qed (use Cons.prems in auto)
qed

lemma strcmp_returns:
  assumes h: "carries code b strcmp_code" and e: "entered dt 5 b r"
    and s: "string_at m (r 2) s" and t: "string_at m (r 3) t"
    and room: "block (r 2) (Suc (length s)) \<union> block (r 3) (Suc (length t)) \<subseteq> dt - frame 5 (r 14)"
  shows "\<exists>r' m'. runs code dt (r, m) (r', m') \<and> returned {1, 2, 3} {} 5 (r, m) (r', m') \<and>
    r' 1 = (if s = t then 0 else -1)"
proof -
  note f = h [unfolded strcmp_code_def carries_simps, simplified]
  let ?sp = "r 14"
  define n where "n = min (length s) (length t)"
  define X where "X i = (s @ [0]) ! i" for i
  define Y where "Y i = (t @ [0]) ! i" for i
  define df where "df i = neg_bool (\<exists>j<i. X j \<noteq> Y j)" for i
  define m0 where "m0 = m(r 14 - 4 := r 9, r 14 - 3 := r 8, r 14 - 2 := r 7, r 14 - 1 := r 6, r 14 := r 4)"
  have e': "r 15 = b" "r 0 = 0" "?sp \<in> dt" "?sp + 1 \<in> dt" "?sp - 1 \<in> dt" "?sp - 2 \<in> dt" "?sp - 3 \<in> dt" "?sp - 4 \<in> dt"
    using e by (simp_all add: entered_def)
  have n: "n \<le> length s" "n \<le> length t" "n < 2 ^ 32" using s t by (auto simp: n_def string_at_def)
  have rd: "r 2 + of_nat i \<in> dt" "r 3 + of_nat i \<in> dt" "m0 (r 2 + of_nat i) = X i" "m0 (r 3 + of_nat i) = Y i"
    if i: "i \<le> n" for i
  proof -
    have "unat (of_nat i :: u32) = i" using i n(3) by (simp add: unat_of_nat)
    then have "r 2 + of_nat i \<in> block (r 2) (Suc (length s))" "r 3 + of_nat i \<in> block (r 3) (Suc (length t))"
      using i n by (simp_all add: in_block)
    then have dt: "r 2 + of_nat i \<in> dt" "r 3 + of_nat i \<in> dt" and nf: "r 2 + of_nat i \<notin> frame 5 (r 14)" "r 3 + of_nat i \<notin> frame 5 (r 14)"
      using room by blast+
    show "r 2 + of_nat i \<in> dt" "r 3 + of_nat i \<in> dt" by (fact dt)+
    have "m0 x = m x" if "x \<notin> frame 5 (r 14)" for x using that by (simp add: m0_def)
    then show "m0 (r 2 + of_nat i) = X i" "m0 (r 3 + of_nat i) = Y i"
      using nf s t i n by (simp_all add: X_def Y_def string_at_def)
  qed
  define same where "same u \<longleftrightarrow> same_off {1, 2, 3, 4, 6, 7, 8, 9, 14, 15} r u \<and> u 0 = 0 \<and> u 14 = ?sp - 5" for u
  let ?fin = "\<lambda>u m'. m' = m0 \<and> same u \<and> u 15 = b + 18 \<and> u 1 = df n \<and> u 9 = X n \<and> u 6 = Y n \<and>
    u 7 = neg_bool (X n = 0) \<and> u 8 = neg_bool (Y n = 0)"
  let ?iv = "\<lambda>u m'. m' = m0 \<and> same u \<and> u 15 = b + 7 \<and> (\<exists>i\<le>n. u 2 = r 2 + of_nat i \<and> u 3 = r 3 + of_nat i \<and>
    u 1 = df i)"
  have loop: "\<exists>r' m'. runs code dt (u, m1) (r', m') \<and> ?fin r' m'" if "?iv u m1" for u m1
  proof (rule runs_loop [where iv = ?iv and mu = "\<lambda>u m. n - unat (u 2 - r 2)", OF _ that])
    fix u m1 assume iv: "?iv u m1"
    then obtain i where i: "i \<le> n" "u 2 = r 2 + of_nat i" "u 3 = r 3 + of_nat i" "u 1 = df i"
      and u: "m1 = m0" "same u" "u 15 = b + 7" by blast
    note ri = rd [OF i(1)]
    have ui: "unat (of_nat i :: u32) = i" using i(1) n(3) by (simp add: unat_of_nat)
    show "\<exists>r' m'. runs code dt (u, m1) (r', m') \<and> (?fin r' m' \<or> ?iv r' m' \<and> n - unat (r' 2 - r 2) < n - unat (u 2 - r 2))"
    proof (cases "i = n")
      case True
      then have z: "X i = 0 \<or> Y i = 0" by (auto simp: X_def Y_def n_def nth_append min_def split: if_splits)
      show ?thesis
      proof (cases "X i = 0")
        case x: True
        show ?thesis using True x i(2-4) u ri
          by (intro by_steps [where n = 5], simp add: run_simps f same_def)
      next
        case x: False
        show ?thesis using True x z i(2-4) u ri
          by (intro by_steps [where n = 6], simp add: run_simps f same_def)
      qed
    next
      case False
      then have l: "Suc i \<le> n" "i < length s" "i < length t" using i(1) n by auto
      moreover have "X i \<noteq> 0" "Y i \<noteq> 0" using l(2,3) s t by (auto simp: X_def Y_def string_at_def nth_append in_set_conv_nth)
      ultimately have l: "Suc i \<le> n" "X i \<noteq> 0" "Y i \<noteq> 0" by blast+
      have "df (Suc i) = df i OR neg_bool (X i \<noteq> Y i)"
        unfolding df_def neg_bool_or by (rule arg_cong [where f = neg_bool]) (auto simp: less_Suc_eq)
      then have nx: "\<exists>j\<le>n. r 2 + of_nat i + 1 = r 2 + of_nat j \<and> r 3 + of_nat i + 1 = r 3 + of_nat j \<and> df i OR neg_bool (X i \<noteq> Y i) = df j"
        using l(1) by (intro exI [of _ "Suc i"]) simp
      have us: "unat (of_nat i + 1 :: u32) = Suc i" using l(1) n(3) by (simp add: unat_word_ariths unat_of_nat)
      show ?thesis using l i(2-4) u ri nx ui us
          by (intro by_steps [where n = 11], simp add: run_simps f same_def)
    qed
  qed
  have res: "(df n OR neg_bool (X n \<noteq> Y n)) OR neg_bool ((X n = 0) = (Y n \<noteq> 0)) = (if s = t then 0 else -1)"
  proof -
    have "s = t \<longleftrightarrow> (\<forall>i\<le>n. X i = Y i)"
      unfolding n_def X_def Y_def using s t by (intro strings_equal) (simp_all add: string_at_def)
    then have "s = t \<longleftrightarrow> \<not> ((\<exists>j<n. X j \<noteq> Y j) \<or> X n \<noteq> Y n \<or> (X n = 0) \<noteq> (Y n = 0))"
      by (auto simp: order_le_less)
    then show ?thesis unfolding df_def neg_bool_or by (auto simp: neg_bool_def)
  qed
  have last: "\<exists>r' m'. runs code dt (u, m1) (r', m') \<and> returned {1, 2, 3} {} 5 (r, m) (r', m') \<and> r' 1 = (if s = t then 0 else -1)"
    if "?fin u m1" for u m1
    using that e' res by ((elim conjE)?, intro by_steps [where n = 12], simp add: run_simps f same_def returned_def insert_commute m0_def neg_bool_eq)
  have "df 0 = 0" by (simp add: df_def)
  then have "\<exists>u m1. runs code dt (r, m) (u, m1) \<and> ?iv u m1"
    using e' by ((elim conjE)?, intro by_steps [where n = 7], simp add: run_simps f same_def m0_def exI [of _ 0])
  then show ?thesis by (rule runs_thru [OF runs_thru [OF _ loop] last])
qed

lemma string_at_unique:
  assumes "string_at m a s" and "string_at m a t"
  shows "s = t"
proof -
  have z: "length u = length v" if u: "string_at m a u" and v: "string_at m a v" and "length u \<le> length v" for u v
  proof (rule ccontr)
    assume "length u \<noteq> length v"
    then have l: "length u < length v" using that(3) by simp
    then have "m (a + of_nat (length u)) = v ! length u" using v by (simp add: string_at_def nth_append)
    moreover have "m (a + of_nat (length u)) = 0" using u by (simp add: string_at_def)
    ultimately have "0 \<in> set v" using l by (metis nth_mem)
    then show False using v by (simp add: string_at_def)
  qed
  have l: "length s = length t" using z assms by (metis linear)
  show ?thesis
  proof (rule nth_equalityI [OF l])
    fix k assume "k < length s"
    then show "s ! k = t ! k" using assms l by (simp add: string_at_def nth_append) (metis less_imp_le nth_append)
  qed
qed

lemma strcmp_call_returns:
  assumes "carries code b strcmp_code" and "entered dt 5 b r"
    and s: "string_at m (r 2) s" and t: "string_at m (r 3) t"
    and "block (r 2) (Suc (length s)) \<union> block (r 3) (Suc (length t)) \<subseteq> dt - frame 5 (r 14)"
  shows "\<exists>r' m'. runs code dt (r, m) (r', m') \<and> returned {1, 2, 3} {} 5 (r, m) (r', m') \<and>
    (\<forall>s t. string_at m (r 2) s \<longrightarrow> string_at m (r 3) t \<longrightarrow> r' 1 = (if s = t then 0 else -1))"
  using strcmp_returns [OF assms] string_at_unique [OF s] string_at_unique [OF t] by metis

interpretation strcmp_call: routine strcmp_source strcmp_code "{1, 2, 3}" "\<lambda>r. {}" 5
  "\<lambda>dt (r, m). \<exists>s t. string_at m (r 2) s \<and> string_at m (r 3) t \<and>
     block (r 2) (Suc (length s)) \<union> block (r 3) (Suc (length t)) \<subseteq> dt - frame 5 (r 14)"
  "\<lambda>(r, m) (r', m'). \<forall>s t. string_at m (r 2) s \<longrightarrow> string_at m (r 3) t \<longrightarrow> r' 1 = (if s = t then 0 else -1)"
  by unfold_locales (rule strcmp_compiles, simp only: prod.case, elim exE conjE, rule strcmp_call_returns, assumption+)

end
