(* ===== verification/Trailz.thy ===== *)
theory Trailz
  imports Running
begin

unbundle bit_operations_syntax

text \<open>
  \<^verbatim>\<open>trailz.tas.cpp\<close> of \<^verbatim>\<open>src/lib\<close>: the number of the lowest bit that is set, from five masks.
\<close>

section \<open>trailz\<close>

definition trailz_code :: "instr list" where
  "trailz_code =
    [Set 14 (T1 OP_ADD 14 (- 3) 0), Put 5 (T1 OP_ADD 14 1 0), Put 4 (T1 OP_ADD 14 2 0), Put 3 (T1
     OP_ADD 14 3 0), Set 1 (T1 OP_ADD 2 (- 1) 0), Set 1 (T0 OP_BITWISE_XOR 2 1 0), Set 2 (T0
     OP_BITWISE_AND 2 1 0), Set 3 (T1 OP_COMPARE_EQ 2 0 0), Set 1 (T1 OP_BITWISE_AND 3 32 0), Set 15
     (T2 OP_BITWISE_AND 23 3 15), Set 4 (T3 0 65535), Set 1 (T0 OP_BITWISE_ANDN 2 4 0), Set 3 (T0
     OP_COMPARE_EQ 1 0 1), Set 5 (T1 OP_SHIFT_LEFT 4 8 0), Set 5 (T0 OP_BITWISE_XOR 4 5 0), Set 1
     (T0 OP_BITWISE_ANDN 2 5 0), Set 1 (T0 OP_COMPARE_EQ 1 0 1), Set 3 (T1 OP_SHIFT_LEFT 3 1 1), Set
     4 (T1 OP_SHIFT_LEFT 5 4 0), Set 4 (T0 OP_BITWISE_XOR 5 4 0), Set 1 (T0 OP_BITWISE_ANDN 2 4 0),
     Set 1 (T0 OP_COMPARE_EQ 1 0 1), Set 1 (T1 OP_SHIFT_LEFT 3 1 1), Set 5 (T1 OP_SHIFT_LEFT 4 2 0),
     Set 5 (T0 OP_BITWISE_XOR 4 5 0), Set 3 (T0 OP_BITWISE_ANDN 2 5 0), Set 3 (T0 OP_COMPARE_EQ 3 0
     1), Set 3 (T1 OP_SHIFT_LEFT 1 1 3), Set 4 (T1 OP_SHIFT_LEFT 5 1 0), Set 4 (T0 OP_BITWISE_XOR 5
     4 0), Set 1 (T0 OP_BITWISE_ANDN 2 4 0), Set 1 (T0 OP_COMPARE_EQ 1 0 1), Set 1 (T1 OP_SHIFT_LEFT
     3 1 1), Set 14 (T1 OP_ADD 14 4 0), Load 5 (T1 OP_ADD 14 (- 3) 0), Load 4 (T1 OP_ADD 14 (- 2)
     0), Load 3 (T1 OP_ADD 14 (- 1) 0), Load 15 (T1 OP_ADD 14 0 0)]"

lemma trailz_compiles: "compiles trailz_source trailz_code"
  by (rule compilesI)
    (simp add: trailz_source_def macro_defs, simp, simp add: trailz_source_def macro_defs good_ident, simp, simp,
     simp add: trailz_code_def instr_simps)

text \<open>The lowest bit that is set.\<close>

lemma lowest_bit:
  fixes c :: u32
  assumes "bit c n" and "\<And>i. i < n \<Longrightarrow> \<not> bit c i"
  shows "c AND (c XOR (c - 1)) = push_bit n 1"
proof -
  have n: "n < 32" using assms(1) bit_imp_le_length by fastforce
  let ?p = "push_bit (Suc n) (drop_bit (Suc n) c)"
  have "c = ?p OR push_bit n 1"
    using assms by (intro bit_word_eqI) (auto simp: bit_or_iff bit_push_bit_iff bit_drop_bit_eq bit_1_iff not_less_eq_eq le_Suc_eq not_less simp del: push_bit_of_1 push_bit_Suc dest: less_antisym)
  also have "\<dots> = ?p + push_bit n 1"
    by (rule disjunctive_add [symmetric]) (auto simp: bit_push_bit_iff bit_1_iff simp del: push_bit_of_1 push_bit_Suc)
  finally have "c - 1 = ?p + mask n" by (simp add: mask_eq_exp_minus_1 del: push_bit_Suc)
  also have "\<dots> = ?p OR mask n"
    by (rule disjunctive_add) (auto simp: bit_push_bit_iff bit_mask_iff simp del: push_bit_Suc)
  finally have m: "bit (c - 1) i \<longleftrightarrow> i < 32 \<and> (i < n \<or> n < i \<and> bit c i)" for i
    by (auto simp: bit_or_iff bit_push_bit_iff bit_mask_iff bit_drop_bit_eq simp del: push_bit_Suc dest: bit_imp_le_length)
  show ?thesis
    using assms n by (intro bit_word_eqI) (auto simp: bit_and_iff bit_xor_iff m bit_push_bit_iff bit_1_iff not_less_iff_gr_or_eq simp del: push_bit_of_1)
qed

lemma bit_number:
  assumes "n < 32"
  shows "16 * of_bool (\<not> bit (0xffff :: u32) n) + 8 * of_bool (\<not> bit (0x00ff00ff :: u32) n) +
     4 * of_bool (\<not> bit (0x0f0f0f0f :: u32) n) + 2 * of_bool (\<not> bit (0x33333333 :: u32) n) +
     of_bool (\<not> bit (0x55555555 :: u32) n) = (of_nat n :: u32)"
proof -
  have "list_all (\<lambda>n. 16 * of_bool (\<not> bit (0xffff :: u32) n) + 8 * of_bool (\<not> bit (0x00ff00ff :: u32) n) +
     4 * of_bool (\<not> bit (0x0f0f0f0f :: u32) n) + 2 * of_bool (\<not> bit (0x33333333 :: u32) n) +
     of_bool (\<not> bit (0x55555555 :: u32) n) = (of_nat n :: u32)) [0..<32]"
    by code_simp
  note all = this [unfolded list_all_iff, THEN bspec, of n]
  show ?thesis by (rule all) (simp add: assms)
qed

lemma test_mask:
  assumes "n < 32"
  shows "neg_bool (push_bit n 1 AND NOT m = 0) = of_bool (\<not> bit (m :: u32) n) - 1"
proof -
  have "push_bit n 1 AND NOT m = 0 \<longleftrightarrow> bit m n"
  proof
    assume z: "push_bit n 1 AND NOT m = 0"
    have "\<not> bit (push_bit n 1 AND NOT m) n" unfolding z by simp
    then show "bit m n" using assms by (simp add: bit_and_iff bit_not_iff bit_push_bit_iff del: push_bit_of_1)
  next
    assume "bit m n"
    then show "push_bit n 1 AND NOT m = 0"
      by (intro bit_word_eqI) (auto simp: bit_and_iff bit_not_iff bit_push_bit_iff bit_1_iff le_antisym simp del: push_bit_of_1)
  qed
  then show ?thesis by (simp add: neg_bool_def)
qed

lemma trailz_returns:
  assumes h: "carries code b trailz_code" and e: "entered dt 3 b r"
  shows "\<exists>r' m'. runs code dt (r, m) (r', m') \<and> returned {1, 2} {} 3 (r, m) (r', m') \<and>
    (if r 2 = 0 then r' 1 = 32 else \<exists>n. r' 1 = of_nat n \<and> bit (r 2) n \<and> (\<forall>i<n. \<not> bit (r 2) i))"
proof -
  note f = h [unfolded trailz_code_def carries_simps, simplified]
  let ?sp = "r 14" and ?m = "m(r 14 - 2 := r 5, r 14 - 1 := r 4, r 14 := r 3)"
  have e': "r 15 = b" "r 0 = 0" "?sp \<in> dt" "?sp + 1 \<in> dt" "?sp - 1 \<in> dt" "?sp - 2 \<in> dt"
    using e by (simp_all add: entered_def)
  define same where "same s \<longleftrightarrow> same_off {1, 2, 3, 4, 5, 14, 15} r s \<and> s 0 = 0 \<and> s 14 = ?sp - 3" for s
  let ?ok = "\<lambda>v. if r 2 = 0 then v = 32 else \<exists>n. v = of_nat n \<and> bit (r 2) n \<and> (\<forall>i<n. \<not> bit (r 2) i)"
  let ?fin = "\<lambda>(s :: 4 word \<Rightarrow> u32) m'. m' = ?m \<and> same s \<and> s 15 = b + 33 \<and> ?ok (s 1)"
  have last: "\<exists>r' m'. runs code dt (s, m1) (r', m') \<and> returned {1, 2} {} 3 (r, m) (r', m') \<and> ?ok (r' 1)"
    if "?fin s m1" for s m1
    using that e' by ((elim conjE)?, intro by_steps [where n = 5], simp add: run_simps f same_def returned_def insert_commute)
  show ?thesis
  proof (cases "r 2 = 0")
    case True
    then have "\<exists>s m1. runs code dt (r, m) (s, m1) \<and> ?fin s m1"
      using e' by ((elim conjE)?, intro by_steps [where n = 10], simp add: run_simps f same_def)
    then show ?thesis by (rule runs_thru [OF _ last])
  next
    case False
    then have "\<exists>n. bit (r 2) n" by (metis bit_eqI bit_0_eq bot_apply bot_bool_def)
    define n where "n = (LEAST n. bit (r 2) n)"
    have n: "bit (r 2) n" "\<forall>i<n. \<not> bit (r 2) i"
      using LeastI_ex [OF \<open>\<exists>n. bit (r 2) n\<close>] not_less_Least unfolding n_def by blast+
    then have n32: "n < 32" using bit_imp_le_length by fastforce
    have L: "r 2 AND (r 2 XOR (r 2 - 1)) = push_bit n 1" using n by (intro lowest_bit) blast+
    have nz: "push_bit n 1 \<noteq> (0 :: u32)" using n32 by simp
    define L where "L = (push_bit n 1 :: u32)"
    note t = test_mask [OF n32, folded L_def]
    have S: "31 + (16 * neg_bool (L AND - 65536 = 0) + (8 * neg_bool (L AND - 16711936 = 0) +
        (4 * neg_bool (L AND - 252645136 = 0) + (neg_bool (L AND - 858993460 = 0) * 2 + neg_bool (L AND - 1431655766 = 0))))) = of_nat n"
    proof -
      have a: "31 + (16 * (v - 1) + (8 * (w - 1) + (4 * (x - 1) + ((y - 1) * 2 + (z - 1))))) = 16 * v + 8 * w + 4 * x + 2 * y + z"
        for v w x y z :: u32 by (simp add: algebra_simps)
      have c: "(- 65536 :: u32) = NOT 0xffff" "(- 16711936 :: u32) = NOT 0x00ff00ff" "(- 252645136 :: u32) = NOT 0x0f0f0f0f"
        "(- 858993460 :: u32) = NOT 0x33333333" "(- 1431655766 :: u32) = NOT 0x55555555" by simp_all
      show ?thesis unfolding c t a by (rule bit_number [OF n32])
    qed
    have "\<exists>s m1. runs code dt (r, m) (s, m1) \<and> m1 = ?m \<and> same s \<and> s 15 = b + 10 \<and> s 2 = L"
      using e' L nz by ((elim conjE)?, intro by_steps [where n = 10], simp add: run_simps f same_def L_def)
    moreover have "\<exists>r' m'. runs code dt (s, m1) (r', m') \<and> ?fin r' m'" if "m1 = ?m \<and> same s \<and> s 15 = b + 10 \<and> s 2 = L" for s m1
      using that e' S n False
      by ((elim conjE)?, intro by_steps [where n = 23], simp add: run_simps f same_def) (blast intro: exI [of _ n])
    ultimately show ?thesis by (rule runs_thru [OF runs_thru last])
  qed
qed

interpretation trailz_call: routine trailz_source trailz_code "{1, 2}" "\<lambda>r. {}" 3
  "\<lambda>dt (r, m). True"
  "\<lambda>(r, m) (r', m'). if r 2 = 0 then r' 1 = 32 else \<exists>n. r' 1 = of_nat n \<and> bit (r 2) n \<and> (\<forall>i<n. \<not> bit (r 2) i)"
  by unfold_locales (rule trailz_compiles, use trailz_returns in simp)

end
