(* ===== verification/Arithmetic.thy ===== *)
theory Arithmetic
  imports Running
begin

unbundle bit_operations_syntax

text \<open>
  \<^verbatim>\<open>gcd.tas.cpp\<close>, \<^verbatim>\<open>ipow.tas.cpp\<close> and \<^verbatim>\<open>imul.tas.cpp\<close> of \<^verbatim>\<open>src/lib\<close>: the
  instructions that the sources become, and what a call does.
\<close>

section \<open>gcd\<close>

definition gcd_code :: "instr list" where
  "gcd_code =
    [Store 14 (T0 OP_BITWISE_OR 10 0 0), Set 14 (T1 OP_ADD 14 (- 1) 0), Set 1 (T0 OP_BITWISE_OR 3 0
     0), Set 10 (T1 OP_COMPARE_EQ 2 0 0), Set 15 (T2 OP_BITWISE_AND 9 10 15), Set 1 (T0
     OP_BITWISE_OR 2 0 0), Set 10 (T1 OP_COMPARE_EQ 3 0 0), Set 15 (T2 OP_BITWISE_AND 6 10 15), Set
     10 (T0 OP_COMPARE_LT 3 1 0), Set 15 (T2 OP_BITWISE_AND 2 10 15), Set 3 (T0 OP_SUBTRACT 3 1 0),
     Set 15 (T2 OP_ADD (- 6) 15 0), Set 1 (T0 OP_SUBTRACT 1 3 0), Set 15 (T2 OP_ADD (- 8) 15 0), Set
     14 (T1 OP_ADD 14 1 0), Load 10 (T0 OP_BITWISE_OR 14 0 0), Set 14 (T1 OP_ADD 14 1 0), Load 15
     (T0 OP_BITWISE_OR 14 0 0)]"

lemma gcd_compiles: "compiles gcd_source gcd_code"
  by (rule compilesI)
    (simp add: gcd_source_def macro_defs, simp, simp add: gcd_source_def macro_defs good_ident, simp, simp,
     simp add: gcd_code_def instr_simps)

lemma gcd_returns:
  assumes h: "carries code b gcd_code" and e: "entered dt 1 b r" and n: "0 \<le>s r 2" "0 \<le>s r 3"
  shows "\<exists>r' m'. runs code dt (r, m) (r', m') \<and> returned {1, 3} {} 1 (r, m) (r', m') \<and>
    r' 1 = of_nat (gcd (unat (r 2)) (unat (r 3)))"
proof -
  note f = h [unfolded gcd_code_def carries_simps, simplified]
  let ?sp = "r 14" and ?G = "gcd (unat (r 2)) (unat (r 3))" and ?m = "m(r 14 := r 10)"
  have e': "r 15 = b" "r 0 = 0" "?sp \<in> dt" "?sp + 1 \<in> dt" using e by (simp_all add: entered_def)
  define same where "same s \<longleftrightarrow> same_off {1, 3, 10, 14, 15} r s \<and> s 0 = 0 \<and> s 14 = ?sp - 1" for s
  let ?fin = "\<lambda>s m'. m' = ?m \<and> same s \<and> s 15 = b + 14 \<and> s 1 = of_nat ?G"
  let ?iv = "\<lambda>s m'. m' = ?m \<and> same s \<and> s 15 = b + 6 \<and> s 1 \<noteq> 0 \<and> 0 \<le>s s 1 \<and> 0 \<le>s s 3 \<and> gcd (unat (s 1)) (unat (s 3)) = ?G"
  have loop: "\<exists>r' m'. runs code dt (s, m1) (r', m') \<and> ?fin r' m'" if "?iv s m1" for s m1
  proof (rule runs_loop [where iv = ?iv and mu = "\<lambda>s m. unat (s 1) + unat (s 3)", OF _ that])
    fix s m1 assume iv: "?iv s m1"
    have le: "s 3 <s s 1 \<longleftrightarrow> unat (s 3) < unat (s 1)" using iv by (simp add: less_nonneg)
    have pos: "0 < unat (s 1)" using iv by (simp add: unat_pos)
    consider "s 3 = 0" | "s 3 \<noteq> 0" "unat (s 3) < unat (s 1)" | "s 3 \<noteq> 0" "unat (s 1) \<le> unat (s 3)" by linarith
    then show "\<exists>r' m'. runs code dt (s, m1) (r', m') \<and>
      (?fin r' m' \<or> ?iv r' m' \<and> unat (r' 1) + unat (r' 3) < unat (s 1) + unat (s 3))"
    proof cases
      case 1
      then have "?G = unat (s 1)" using iv by simp
      then have "of_nat ?G = s 1" by simp
      then show ?thesis using 1 iv by ((elim conjE)?, intro by_steps [where n = 2], simp add: run_simps f same_def)
    next
      case 2
      then have "gcd (unat (s 1) - unat (s 3)) (unat (s 3)) = ?G" "0 < unat (s 3)" "s 1 \<noteq> s 3"
        using iv by (auto simp: gcd_diff1_nat unat_pos)
      then show ?thesis using 2 iv
        by ((elim conjE)?, intro by_steps [where n = 6], simp add: run_simps f same_def le nonneg_iff unat_minus less_imp_diff_less)
    next
      case 3
      then have "gcd (unat (s 1)) (unat (s 3) - unat (s 1)) = ?G"
        using iv by (metis gcd.commute gcd_diff1_nat)
      then show ?thesis using 3 iv pos
        by ((elim conjE)?, intro by_steps [where n = 6], simp add: run_simps f same_def le nonneg_iff unat_minus less_imp_diff_less)
    qed
  qed
  let ?post = "\<lambda>r' m'. returned {1, 3} {} 1 (r, m) (r', m') \<and> r' 1 = of_nat ?G"
  have last: "\<exists>r' m'. runs code dt (s, m1) (r', m') \<and> ?post r' m'" if "?fin s m1" for s m1
    using that e' by ((elim conjE)?, intro by_steps [where n = 4], simp add: run_simps f same_def returned_def insert_commute)
  show ?thesis
  proof (cases "r 2 = 0")
    case True
    have "\<exists>s m1. runs code dt (r, m) (s, m1) \<and> ?fin s m1"
      using True e' by ((elim conjE)?, intro by_steps [where n = 5], simp add: run_simps f same_def)
    then show ?thesis by (rule runs_thru [OF _ last])
  next
    case False
    have "\<exists>s m1. runs code dt (r, m) (s, m1) \<and> ?iv s m1"
      using False n e' by ((elim conjE)?, intro by_steps [where n = 6], simp add: run_simps f same_def)
    then show ?thesis by (rule runs_thru [OF runs_thru [OF _ loop] last])
  qed
qed

interpretation gcd_call: routine gcd_source gcd_code "{1, 3}" "\<lambda>r. {}" 1
  "\<lambda>dt (r, m). 0 \<le>s r 2 \<and> 0 \<le>s r 3"
  "\<lambda>(r, m) (r', m'). r' 1 = of_nat (gcd (unat (r 2)) (unat (r 3)))"
  by unfold_locales (rule gcd_compiles, use gcd_returns in simp)

section \<open>ipow\<close>

definition ipow_code :: "instr list" where
  "ipow_code =
    [Store 14 (T0 OP_BITWISE_OR 10 0 0), Set 14 (T1 OP_ADD 14 (- 1) 0), Set 1 (T0 OP_BITWISE_OR 0 0
     1), Set 10 (T1 OP_COMPARE_EQ 3 0 0), Set 15 (T2 OP_BITWISE_AND 9 10 15), Set 10 (T1
     OP_BITWISE_AND 3 1 0), Set 10 (T1 OP_ADD 10 (- 1) 0), Set 15 (T2 OP_BITWISE_AND 3 10 15), Set 1
     (T0 OP_MULTIPLY 1 2 0), Set 3 (T1 OP_ADD 3 (- 1) 0), Set 15 (T2 OP_ADD (- 8) 15 0), Set 2 (T0
     OP_MULTIPLY 2 2 0), Set 3 (T1 OP_SHIFT_RIGHT_ARITH 3 1 0), Set 15 (T2 OP_ADD (- 11) 15 0), Set
     14 (T1 OP_ADD 14 1 0), Load 10 (T0 OP_BITWISE_OR 14 0 0), Set 14 (T1 OP_ADD 14 1 0), Load 15
     (T0 OP_BITWISE_OR 14 0 0)]"

lemma ipow_compiles: "compiles ipow_source ipow_code"
  by (rule compilesI)
    (simp add: ipow_source_def macro_defs, simp, simp add: ipow_source_def macro_defs good_ident, simp, simp,
     simp add: ipow_code_def instr_simps)

lemma ipow_returns:
  assumes h: "carries code b ipow_code" and e: "entered dt 1 b r" and n: "0 \<le>s r 3"
  shows "\<exists>r' m'. runs code dt (r, m) (r', m') \<and> returned {1, 2, 3} {} 1 (r, m) (r', m') \<and>
    r' 1 = r 2 ^ unat (r 3)"
proof -
  note f = h [unfolded ipow_code_def carries_simps, simplified]
  let ?sp = "r 14" and ?R = "r 2 ^ unat (r 3)" and ?m = "m(r 14 := r 10)"
  have e': "r 15 = b" "r 0 = 0" "?sp \<in> dt" "?sp + 1 \<in> dt" using e by (simp_all add: entered_def)
  define same where "same s \<longleftrightarrow> same_off {1, 2, 3, 10, 14, 15} r s \<and> s 0 = 0 \<and> s 14 = ?sp - 1" for s
  let ?fin = "\<lambda>s m'. m' = ?m \<and> same s \<and> s 15 = b + 14 \<and> s 1 = ?R"
  let ?iv = "\<lambda>s m'. m' = ?m \<and> same s \<and> s 15 = b + 3 \<and> 0 \<le>s s 3 \<and> s 1 * s 2 ^ unat (s 3) = ?R"
  have loop: "\<exists>r' m'. runs code dt (s, m1) (r', m') \<and> ?fin r' m'" if "?iv s m1" for s m1
  proof (rule runs_loop [where iv = ?iv and mu = "\<lambda>s m. unat (s 3)", OF _ that])
    fix s m1 assume iv: "?iv s m1"
    consider "s 3 = 0" | "s 3 \<noteq> 0" "odd (unat (s 3))" | "s 3 \<noteq> 0" "even (unat (s 3))" by blast
    then show "\<exists>r' m'. runs code dt (s, m1) (r', m') \<and> (?fin r' m' \<or> ?iv r' m' \<and> unat (r' 3) < unat (s 3))"
    proof cases
      case 1
      then show ?thesis using iv by ((elim conjE)?, intro by_steps [where n = 2], simp add: run_simps f same_def)
    next
      case 2
      have u: "unat (s 3 - 1) = unat (s 3) - 1" "0 < unat (s 3)" using 2 by (simp_all add: unat_minus unat_pos)
      have "s 1 * s 2 * s 2 ^ (unat (s 3) - 1) = ?R"
        using iv u(2) by (simp add: mult.assoc power_eq_if)
      then show ?thesis using 2 iv u
        by ((elim conjE)?, intro by_steps [where n = 8], simp add: run_simps f same_def and_1 nonneg_iff)
    next
      case 3
      have u: "unat (drop_bit (Suc 0) (s 3)) = unat (s 3) div 2" "0 < unat (s 3)"
        using 3 by (simp_all add: unat_div drop_bit_Suc unat_pos)
      have "s 1 * (s 2 * s 2) ^ (unat (s 3) div 2) = ?R"
        using iv 3 by (simp add: power2_eq_square [symmetric] power_mult [symmetric])
      then show ?thesis using 3 iv u
        by ((elim conjE)?, intro by_steps [where n = 8], simp add: run_simps f same_def and_1 signed_drop nonneg_iff)
    qed
  qed
  have last: "\<exists>r' m'. runs code dt (s, m1) (r', m') \<and> returned {1, 2, 3} {} 1 (r, m) (r', m') \<and> r' 1 = ?R"
    if "?fin s m1" for s m1
    using that e' by ((elim conjE)?, intro by_steps [where n = 4], simp add: run_simps f same_def returned_def insert_commute)
  have "\<exists>s m1. runs code dt (r, m) (s, m1) \<and> ?iv s m1"
    using n e' by ((elim conjE)?, intro by_steps [where n = 3], simp add: run_simps f same_def)
  then show ?thesis by (rule runs_thru [OF runs_thru [OF _ loop] last])
qed

interpretation ipow_call: routine ipow_source ipow_code "{1, 2, 3}" "\<lambda>r. {}" 1
  "\<lambda>dt (r, m). 0 \<le>s r 3"
  "\<lambda>(r, m) (r', m'). r' 1 = r 2 ^ unat (r 3)"
  by unfold_locales (rule ipow_compiles, use ipow_returns in simp)

section \<open>imul\<close>

definition imul_code :: "instr list" where
  "imul_code =
    [Set 14 (T1 OP_ADD 14 (- 3) 0), Put 9 (T1 OP_ADD 14 1 0), Put 8 (T1 OP_ADD 14 2 0), Put 7 (T1
     OP_ADD 14 3 0), Set 1 (T0 OP_BITWISE_OR 0 0 0), Set 7 (T0 OP_BITWISE_OR 0 0 1), Set 9 (T1
     OP_SHIFT_RIGHT_ARITH 3 31 0), Set 3 (T0 OP_BITWISE_XOR 3 9 0), Set 3 (T0 OP_SUBTRACT 3 9 0),
     Set 8 (T0 OP_BITWISE_AND 3 7 (- 1)), Set 8 (T0 OP_BITWISE_ANDN 2 8 0), Set 1 (T0 OP_ADD 1 8 0),
     Set 2 (T1 OP_SHIFT_LEFT 2 1 0), Set 3 (T1 OP_SHIFT_RIGHT_ARITH 3 1 0), Set 8 (T1 OP_COMPARE_EQ
     3 0 0), Set 15 (T2 OP_BITWISE_ANDN (- 7) 8 15), Set 1 (T0 OP_BITWISE_XOR 1 9 0), Set 1 (T0
     OP_SUBTRACT 1 9 0), Set 14 (T1 OP_ADD 14 3 0), Load 9 (T1 OP_ADD 14 (- 2) 0), Load 8 (T1 OP_ADD
     14 (- 1) 0), Load 7 (T1 OP_ADD 14 0 0), Set 14 (T1 OP_ADD 14 1 0), Load 15 (T0 OP_BITWISE_OR 14
     0 0)]"

lemma imul_compiles: "compiles imul_source imul_code"
  by (rule compilesI)
    (simp add: imul_source_def macro_defs, simp, simp add: imul_source_def macro_defs good_ident, simp, simp,
     simp add: imul_code_def instr_simps)

lemma imul_returns:
  assumes h: "carries code b imul_code" and e: "entered dt 3 b r" and d: "r 3 \<noteq> 0x80000000"
  shows "\<exists>r' m'. runs code dt (r, m) (r', m') \<and> returned {1, 2, 3} {} 3 (r, m) (r', m') \<and> r' 1 = r 2 * r 3"
proof -
  note f = h [unfolded imul_code_def carries_simps, simplified]
  let ?sp = "r 14" and ?m = "m(r 14 - 2 := r 9, r 14 - 1 := r 8, r 14 := r 7)"
  let ?j = "if 0 \<le>s r 3 then 0 else - 1 :: u32" and ?d = "if 0 \<le>s r 3 then r 3 else - r 3"
  have e': "r 15 = b" "r 0 = 0" "?sp \<in> dt" "?sp + 1 \<in> dt" "?sp - 1 \<in> dt" "?sp - 2 \<in> dt"
    using e by (simp_all add: entered_def)
  have pos: "0 \<le>s ?d" using minus_nonneg [OF d] by simp
  define same where "same s \<longleftrightarrow> same_off {1, 2, 3, 7, 8, 9, 14, 15} r s \<and> s 0 = 0 \<and> s 14 = ?sp - 3 \<and> s 9 = ?j" for s
  let ?fin = "\<lambda>s m'. m' = ?m \<and> same s \<and> s 15 = b + 16 \<and> s 1 = r 2 * ?d"
  let ?iv = "\<lambda>s m'. m' = ?m \<and> same s \<and> s 15 = b + 9 \<and> s 7 = 1 \<and> 0 \<le>s s 3 \<and> s 1 + s 2 * s 3 = r 2 * ?d"
  have loop: "\<exists>r' m'. runs code dt (s, m1) (r', m') \<and> ?fin r' m'" if "?iv s m1" for s m1
  proof (rule runs_loop [where iv = ?iv and mu = "\<lambda>s m. unat (s 3)", OF _ that])
    fix s m1 assume iv: "?iv s m1"
    let ?a = "if odd (unat (s 3)) then s 2 else 0" and ?h = "drop_bit (Suc 0) (s 3)"
    have a: "s 2 AND NOT ((s 3 AND 1) - 1) = ?a" by (cases "odd (unat (s 3))") (simp_all add: and_1)
    have u: "unat ?h = unat (s 3) div 2" by (simp add: unat_div drop_bit_Suc)
    have "s 2 * s 3 = s 2 * (2 * ?h + (if odd (unat (s 3)) then 1 else 0))" using halves by (rule arg_cong)
    then have "s 1 + ?a + s 2 * 2 * ?h = s 1 + s 2 * s 3" by (simp add: algebra_simps)
    then have t: "s 1 + ?a + s 2 * 2 * ?h = r 2 * ?d" using iv by simp
    show "\<exists>r' m'. runs code dt (s, m1) (r', m') \<and> (?fin r' m' \<or> ?iv r' m' \<and> unat (r' 3) < unat (s 3))"
    proof (cases "?h = 0")
      case True
      then show ?thesis using iv t
        by ((elim conjE)?, intro by_steps [where n = 7], simp add: run_simps f same_def a signed_drop)
    next
      case False
      then have "0 < unat (s 3)" "0 \<le>s ?h" using iv u by (auto simp: unat_pos [symmetric] nonneg_iff)
      then show ?thesis using False iv t u
        by ((elim conjE)?, intro by_steps [where n = 7], simp add: run_simps f same_def a signed_drop)
    qed
  qed
  have last: "\<exists>r' m'. runs code dt (s, m1) (r', m') \<and> returned {1, 2, 3} {} 3 (r, m) (r', m') \<and> r' 1 = r 2 * r 3"
    if "?fin s m1" for s m1
    using that e' by ((elim conjE)?, intro by_steps [where n = 8], simp add: run_simps f same_def returned_def insert_commute not_eq_complement)
  have "\<exists>s m1. runs code dt (r, m) (s, m1) \<and> ?iv s m1"
    using pos minus_nonneg [OF d] e' by ((elim conjE)?, intro by_steps [where n = 9], simp add: run_simps f same_def sign_word not_eq_complement)
  then show ?thesis by (rule runs_thru [OF runs_thru [OF _ loop] last])
qed

interpretation imul_call: routine imul_source imul_code "{1, 2, 3}" "\<lambda>r. {}" 3
  "\<lambda>dt (r, m). r 3 \<noteq> 0x80000000"
  "\<lambda>(r, m) (r', m'). r' 1 = r 2 * r 3"
  by unfold_locales (rule imul_compiles, use imul_returns in simp)

end
