(* ===== verification/Division.thy ===== *)
theory Division
  imports Running
begin

unbundle bit_operations_syntax

text \<open>
  \<^verbatim>\<open>udiv.tas.cpp\<close> and \<^verbatim>\<open>isqrt.tas.cpp\<close> of \<^verbatim>\<open>src/lib\<close>: the quotient and the root, a digit at a
  time.
\<close>

section \<open>udiv\<close>

definition udiv_code :: "instr list" where
  "udiv_code =
    [Set 14 (T1 OP_ADD 14 (- 4) 0), Put 10 (T1 OP_ADD 14 1 0), Put 9 (T1 OP_ADD 14 2 0), Put 6 (T1
     OP_ADD 14 3 0), Put 3 (T1 OP_ADD 14 4 0), Set 1 (T0 OP_BITWISE_OR 0 0 0), Set 10 (T1
     OP_COMPARE_EQ 3 0 0), Set 15 (T2 OP_BITWISE_AND 18 10 15), Set 10 (T0 OP_COMPARE_LT 2 3 0), Set
     15 (T2 OP_BITWISE_AND 16 10 15), Set 6 (T0 OP_BITWISE_OR 3 0 0), Set 10 (T0 OP_COMPARE_LT 2 6
     0), Set 15 (T2 OP_BITWISE_AND 2 10 15), Set 6 (T1 OP_SHIFT_LEFT 6 1 0), Set 15 (T2 OP_ADD (- 4)
     15 0), Set 9 (T0 OP_COMPARE_LT 6 3 0), Set 10 (T0 OP_COMPARE_EQ 6 3 0), Set 10 (T0
     OP_BITWISE_OR 9 10 0), Set 15 (T2 OP_BITWISE_AND 7 10 15), Set 6 (T1 OP_SHIFT_RIGHT_ARITH 6 1
     0), Set 10 (T0 OP_COMPARE_LT 2 6 0), Set 15 (T2 OP_BITWISE_AND 2 10 15), Set 2 (T0 OP_SUBTRACT
     2 6 0), Set 1 (T1 OP_BITWISE_OR 1 1 0), Set 1 (T1 OP_SHIFT_LEFT 1 1 0), Set 15 (T2 OP_ADD (-
     11) 15 0), Set 1 (T1 OP_SHIFT_RIGHT_ARITH 1 1 0), Set 14 (T1 OP_ADD 14 4 0), Load 10 (T1 OP_ADD
     14 (- 3) 0), Load 9 (T1 OP_ADD 14 (- 2) 0), Load 6 (T1 OP_ADD 14 (- 1) 0), Load 3 (T1 OP_ADD 14
     0 0), Set 14 (T1 OP_ADD 14 1 0), Load 15 (T0 OP_BITWISE_OR 14 0 0)]"

lemma udiv_compiles: "compiles udiv_source udiv_code"
  by (rule compilesI)
    (simp add: udiv_source_def macro_defs, simp, simp add: udiv_source_def macro_defs good_ident, simp, simp,
     simp add: udiv_code_def instr_simps)

text \<open>
  The quotient so far, doubled, in \<open>q\<close>, what is left of the dividend in \<open>x\<close>, and the divisor times a
  power of two in \<open>g\<close>.
\<close>

definition dividing :: "nat \<Rightarrow> nat \<Rightarrow> u32 \<Rightarrow> u32 \<Rightarrow> u32 \<Rightarrow> bool" where
  "dividing c d q x g \<longleftrightarrow> (\<exists>k. unat g = d * 2 ^ k) \<and> even (unat q) \<and> c = unat q div 2 * unat g + unat x \<and>
     unat x < unat g \<and> unat g < 2 ^ 31"

lemma dividing_step:
  assumes "dividing c d q x g" and "unat g \<noteq> d" and "0 < d" and "c < 2 ^ 30"
  defines "h \<equiv> drop_bit (Suc 0) g"
  shows "d < unat g" and "unat h < unat g" and "unat x < unat h \<Longrightarrow> dividing c d (q * 2) x h"
    and "unat h \<le> unat x \<Longrightarrow> dividing c d (q * 2 OR 2) (x - h) h" and "0 \<le>s h" and "0 \<le>s x"
proof -
  obtain k where k: "unat g = d * 2 ^ k" and q: "even (unat q)" "c = unat q div 2 * unat g + unat x"
    and x: "unat x < unat g" "unat g < 2 ^ 31"
    using assms(1) unfolding dividing_def by blast
  have "k \<noteq> 0" using k assms(2) by (intro notI) simp
  then obtain j where j: "k = Suc j" by (cases k) auto
  have h: "unat h = d * 2 ^ j" unfolding h_def by (simp add: unat_div drop_bit_Suc k j)
  then have g: "unat g = 2 * unat h" by (simp add: k j)
  have "(1 :: nat) \<le> 2 ^ j" by simp
  then have "(1 :: nat) < 2 * 2 ^ j" by linarith
  then show "d < unat g" using assms(3) k j by simp
  show "unat h < unat g" using g assms(3) h by simp
  show "0 \<le>s h" "0 \<le>s x" using g x by (simp_all add: nonneg_iff)
  have hp: "0 < unat h" using h assms(3) by simp
  obtain p where p: "unat q = 2 * p" using q(1) by blast
  have c: "c = p * (2 * unat h) + unat x" using q(2) p g by simp
  have "p * (2 * unat h) \<le> c" using c by simp
  moreover have "p * 2 \<le> p * (2 * unat h)" using hp by simp
  ultimately have "2 * p < 2 ^ 30" using assms(4) by linarith
  then have b1: "unat (q * 2) = 4 * p" using p by (simp add: unat_word_ariths)
  have "\<not> bit (q * 2) n \<or> \<not> bit (2 :: u32) n" for n
    using q(1) by (auto simp: even_bit_0 bit_0 bit_double_iff mult.commute [of q] bit_2_iff)
  then have "q * 2 OR 2 = q * 2 + 2" by (simp add: disjunctive_add)
  then have "unat (q * 2 OR 2) = 4 * p + 2" using b1 \<open>2 * p < 2 ^ 30\<close> by (simp add: unat_word_ariths)
  note b = b1 this
  show "dividing c d (q * 2) x h" if "unat x < unat h"
    using that c h x g unfolding dividing_def b by (auto simp: algebra_simps)
  show "dividing c d (q * 2 OR 2) (x - h) h" if "unat h \<le> unat x"
    using that c h x g unfolding dividing_def b by (auto simp: algebra_simps unat_minus)
qed

lemma udiv_returns:
  assumes h: "carries code b udiv_code" and e: "entered dt 4 b r"
    and c: "unat (r 2) < 2 ^ 30" and d: "0 \<le>s r 3"
  shows "\<exists>r' m'. runs code dt (r, m) (r', m') \<and> returned {1, 2} {} 4 (r, m) (r', m') \<and> r' 1 = r 2 div r 3"
proof -
  note f = h [unfolded udiv_code_def carries_simps, simplified]
  let ?sp = "r 14" and ?c = "unat (r 2)" and ?d = "unat (r 3)"
  let ?m = "m(r 14 - 3 := r 10, r 14 - 2 := r 9, r 14 - 1 := r 6, r 14 := r 3)"
  have e': "r 15 = b" "r 0 = 0" "?sp \<in> dt" "?sp + 1 \<in> dt" "?sp - 1 \<in> dt" "?sp - 2 \<in> dt" "?sp - 3 \<in> dt"
    using e by (simp_all add: entered_def)
  have c': "0 \<le>s r 2" using c by (simp add: nonneg_iff)
  define same where "same s \<longleftrightarrow> same_off {1, 2, 3, 6, 9, 10, 14, 15} r s \<and> s 0 = 0 \<and> s 3 = r 3 \<and> s 14 = ?sp - 4" for s
  let ?fin = "\<lambda>s m'. m' = ?m \<and> same s \<and> s 15 = b + 26 \<and> signed_drop_bit 1 (s 1) = r 2 div r 3"
  let ?mid = "\<lambda>s m'. m' = ?m \<and> same s \<and> s 15 = b + 15 \<and> 0 < ?d \<and> dividing ?c ?d (s 1) (s 2) (s 6)"
  let ?top = "\<lambda>s m'. m' = ?m \<and> same s \<and> s 15 = b + 11 \<and> 0 < ?d \<and> s 1 = 0 \<and> s 2 = r 2 \<and> (\<exists>k. unat (s 6) = ?d * 2 ^ k) \<and>
    unat (s 6) < 2 ^ 31"
  have build: "\<exists>r' m'. runs code dt (s, m1) (r', m') \<and> ?mid r' m'" if "?top s m1" for s m1
  proof (rule runs_loop [where iv = ?top and mu = "\<lambda>s m. 2 ^ 32 - unat (s 6)", OF _ that])
    fix s m1 assume iv: "?top s m1"
    have less: "r 2 <s s 6 \<longleftrightarrow> ?c < unat (s 6)" using c iv by (intro less_nonneg) (simp_all add: nonneg_iff)
    show "\<exists>r' m'. runs code dt (s, m1) (r', m') \<and>
      (?mid r' m' \<or> ?top r' m' \<and> 2 ^ 32 - unat (r' 6) < 2 ^ 32 - unat (s 6))"
    proof (cases "?c < unat (s 6)")
      case True
      then have "dividing ?c ?d 0 (r 2) (s 6)" using iv by (simp add: dividing_def)
      then show ?thesis using True iv
        by ((elim conjE)?, intro by_steps [where n = 2], simp add: run_simps f same_def less)
    next
      case False
      have u: "unat (s 6 * 2) = 2 * unat (s 6)" using False c by (simp add: unat_word_ariths)
      obtain k where "unat (s 6) = ?d * 2 ^ k" using iv by blast
      then have k: "\<exists>k. 2 * unat (s 6) = ?d * 2 ^ k" by (intro exI [of _ "Suc k"]) simp
      have pos: "0 < unat (s 6)" using iv by auto
      show ?thesis using False iv u k pos c
        by ((elim conjE)?, intro by_steps [where n = 4], simp add: run_simps f same_def less)
    qed
  qed
  have divide: "\<exists>r' m'. runs code dt (s, m1) (r', m') \<and> ?fin r' m'" if "?mid s m1" for s m1
  proof (rule runs_loop [where iv = ?mid and mu = "\<lambda>s m. unat (s 6)", OF _ that])
    fix s m1 assume iv: "?mid s m1"
    show "\<exists>r' m'. runs code dt (s, m1) (r', m') \<and> (?fin r' m' \<or> ?mid r' m' \<and> unat (r' 6) < unat (s 6))"
    proof (cases "s 6 = r 3")
      case True
      have dv: "even (unat (s 1))" "?c = unat (s 1) div 2 * ?d + unat (s 2)" "unat (s 2) < ?d"
        using iv True by (simp_all add: dividing_def)
      then have "unat (s 1) div 2 = ?c div ?d" by (simp add: div_nat_eqI)
      moreover have "unat (s 1) < 2 ^ 31"
      proof -
        have "unat (s 1) div 2 \<le> ?c" using calculation by simp
        moreover have "unat (s 1) = 2 * (unat (s 1) div 2)" using dv(1) by simp
        ultimately have "unat (s 1) \<le> 2 * ?c" by linarith
        then show ?thesis using c by simp
      qed
      ultimately have q: "signed_drop_bit 1 (s 1) = r 2 div r 3"
        by (simp add: signed_drop nonneg_iff word_unat_eq_iff unat_div drop_bit_Suc)
      then show ?thesis using True iv
        by ((elim conjE)?, intro by_steps [where n = 4], simp add: run_simps f same_def)
    next
      case False
      then have ne: "unat (s 6) \<noteq> ?d" by (simp add: word_unat_eq_iff)
      have dv: "dividing ?c ?d (s 1) (s 2) (s 6)" "0 < ?d" using iv by simp_all
      note st = dividing_step [OF dv(1) ne dv(2) c]
      let ?h = "drop_bit (Suc 0) (s 6)"
      have g: "0 \<le>s s 6" using dv(1) by (simp add: dividing_def nonneg_iff)
      have j: "\<not> s 6 <s r 3" using st(1) g d by (simp add: less_nonneg)
      have l: "s 2 <s ?h \<longleftrightarrow> unat (s 2) < unat ?h" using st(5,6) by (simp add: less_nonneg)
      show ?thesis
      proof (cases "unat (s 2) < unat ?h")
        case True
        then show ?thesis using False iv g j st(2) st(3)
          by ((elim conjE)?, intro by_steps [where n = 9], simp add: run_simps f same_def l signed_drop)
      next
        case ge: False
        then show ?thesis using False iv g j st(2) st(4)
          by ((elim conjE)?, intro by_steps [where n = 11], simp add: run_simps f same_def l signed_drop)
      qed
    qed
  qed
  have last: "\<exists>r' m'. runs code dt (s, m1) (r', m') \<and> returned {1, 2} {} 4 (r, m) (r', m') \<and> r' 1 = r 2 div r 3"
    if "?fin s m1" for s m1
    using that e' by ((elim conjE)?, intro by_steps [where n = 8], simp add: run_simps f same_def returned_def insert_commute)
  have ld: "r 2 <s r 3 \<longleftrightarrow> ?c < ?d" using c' d by (rule less_nonneg)
  consider "r 3 = 0" | "r 3 \<noteq> 0" "?c < ?d" | "r 3 \<noteq> 0" "?d \<le> ?c" by linarith
  then show ?thesis
  proof cases
    case 1
    have "\<exists>s m1. runs code dt (r, m) (s, m1) \<and> ?fin s m1"
      using 1 e' by ((elim conjE)?, intro by_steps [where n = 8], simp add: run_simps f same_def)
    then show ?thesis by (rule runs_thru [OF _ last])
  next
    case 2
    have "\<exists>s m1. runs code dt (r, m) (s, m1) \<and> ?fin s m1"
      using 2 e' by ((elim conjE)?, intro by_steps [where n = 10], simp add: run_simps f same_def ld div_word_less word_less_nat_alt)
    then show ?thesis by (rule runs_thru [OF _ last])
  next
    case 3
    have "\<exists>k. ?d = ?d * 2 ^ k" by (intro exI [of _ 0]) simp
    moreover have "0 < ?d" "?d < 2 ^ 31" using 3(1) d by (simp_all add: unat_pos nonneg_iff)
    ultimately have "\<exists>s m1. runs code dt (r, m) (s, m1) \<and> ?top s m1"
      using 3 e' by ((elim conjE)?, intro by_steps [where n = 11], simp add: run_simps f same_def ld)
    then show ?thesis by (rule runs_thru [OF runs_thru [OF runs_thru [OF _ build] divide] last])
  qed
qed

interpretation udiv_call: routine udiv_source udiv_code "{1, 2}" "\<lambda>r. {}" 4
  "\<lambda>dt (r, m). unat (r 2) < 2 ^ 30 \<and> 0 \<le>s r 3"
  "\<lambda>(r, m) (r', m'). r' 1 = r 2 div r 3"
  by unfold_locales (rule udiv_compiles, use udiv_returns in simp)

section \<open>isqrt\<close>

definition isqrt_code :: "instr list" where
  "isqrt_code =
    [Set 14 (T1 OP_ADD 14 (- 4) 0), Put 10 (T1 OP_ADD 14 1 0), Put 9 (T1 OP_ADD 14 2 0), Put 6 (T1
     OP_ADD 14 3 0), Put 4 (T1 OP_ADD 14 4 0), Set 1 (T0 OP_BITWISE_OR 0 0 0), Set 6 (T0
     OP_BITWISE_OR 0 0 1), Set 6 (T1 OP_SHIFT_LEFT 6 30 0), Set 9 (T0 OP_COMPARE_LT 6 2 0), Set 10
     (T0 OP_COMPARE_EQ 6 2 0), Set 10 (T0 OP_BITWISE_OR 9 10 0), Set 15 (T2 OP_BITWISE_AND 2 10 15),
     Set 6 (T1 OP_SHIFT_RIGHT_ARITH 6 2 0), Set 15 (T2 OP_ADD (- 6) 15 0), Set 10 (T1 OP_COMPARE_EQ
     6 0 0), Set 15 (T2 OP_BITWISE_AND 8 10 15), Set 4 (T0 OP_ADD 1 6 0), Set 10 (T0 OP_COMPARE_LT 2
     4 0), Set 15 (T2 OP_BITWISE_AND 2 10 15), Set 2 (T0 OP_SUBTRACT 2 4 0), Set 1 (T1 OP_MULTIPLY 6
     2 1), Set 1 (T1 OP_SHIFT_RIGHT_ARITH 1 1 0), Set 6 (T1 OP_SHIFT_RIGHT_ARITH 6 2 0), Set 15 (T2
     OP_ADD (- 10) 15 0), Set 14 (T1 OP_ADD 14 4 0), Load 10 (T1 OP_ADD 14 (- 3) 0), Load 9 (T1
     OP_ADD 14 (- 2) 0), Load 6 (T1 OP_ADD 14 (- 1) 0), Load 4 (T1 OP_ADD 14 0 0), Set 14 (T1 OP_ADD
     14 1 0), Load 15 (T0 OP_BITWISE_OR 14 0 0)]"

lemma isqrt_compiles: "compiles isqrt_source isqrt_code"
  by (rule compilesI)
    (simp add: isqrt_source_def macro_defs, simp, simp add: isqrt_source_def macro_defs good_ident, simp, simp,
     simp add: isqrt_code_def instr_simps)

text \<open>
  The root found so far, shifted, in \<open>b\<close>, what is left of \<open>n\<close> in \<open>c\<close>, and the power of four of the next
  digit in \<open>g\<close>.
\<close>

definition rooting :: "nat \<Rightarrow> u32 \<Rightarrow> u32 \<Rightarrow> u32 \<Rightarrow> bool" where
  "rooting n b c g \<longleftrightarrow>
     (\<exists>k s. k \<le> 14 \<and> unat g = 4 ^ k \<and> unat b = 2 * 2 ^ k * s \<and> n = s * s + unat c \<and>
        n < (s + 2 * 2 ^ k) * (s + 2 * 2 ^ k)) \<or>
     g = 0 \<and> unat b * unat b \<le> n \<and> n < (unat b + 1) * (unat b + 1)"

lemma rooting_step:
  assumes "rooting n b c g" and "g \<noteq> 0" and "n < 2 ^ 30"
  defines "h \<equiv> drop_bit 2 g" and "e \<equiv> b + g"
  shows "unat h < unat g" and "0 \<le>s g" and "0 \<le>s e" and "0 \<le>s c" and "0 \<le>s b" and "0 \<le>s g * 2 + b"
    and "unat c < unat e \<Longrightarrow> rooting n (drop_bit (Suc 0) b) c h"
    and "unat e \<le> unat c \<Longrightarrow> rooting n (drop_bit (Suc 0) (g * 2 + b)) (c - e) h"
proof -
  obtain k s where k: "k \<le> 14" "unat g = 4 ^ k" and s: "unat b = 2 * 2 ^ k * s" "n = s * s + unat c"
    "n < (s + 2 * 2 ^ k) * (s + 2 * 2 ^ k)"
    using assms(1,2) unfolding rooting_def by blast
  have "s < 2 ^ 15"
  proof (rule ccontr)
    assume "\<not> s < 2 ^ 15"
    then have "(2 :: nat) ^ 15 * 2 ^ 15 \<le> s * s" by (intro mult_le_mono) simp_all
    then show False using s(2) assms(3) by simp
  qed
  moreover have pk: "(2 :: nat) ^ k \<le> 2 ^ 14" using k(1) by (rule power_increasing) simp
  ultimately have bs: "2 * 2 ^ k * s < 2 ^ 30"
    using mult_le_mono [of "2 * 2 ^ k" "2 ^ 15" s "2 ^ 15 - 1"] by simp
  have gk: "(4 :: nat) ^ k = 2 ^ k * 2 ^ k" by (simp add: power_mult_distrib [symmetric])
  have "(2 :: nat) ^ k * 2 ^ k \<le> 2 ^ 14 * 2 ^ 14" using pk by (intro mult_le_mono)
  then have g4: "unat g \<le> 2 ^ 28" using k(2) gk by simp
  define x where "x = 2 * 2 ^ k * s"
  have bx: "unat b = x" "x < 2 ^ 30" using s(1) bs by (simp_all only: x_def)
  have fit: "x + 4 ^ k < 2 ^ 31" "2 * 4 ^ k + x < 2 ^ 31" using bx(2) g4 unfolding k(2) by simp_all
  have ue: "unat e = 2 * 2 ^ k * s + 4 ^ k" unfolding e_def x_def [symmetric]
    using fit(1) bx(1) k(2) by (simp add: unat_word_ariths)
  have ub: "unat (g * 2 + b) = 2 * 4 ^ k + 2 * 2 ^ k * s" unfolding x_def [symmetric]
    using fit(2) bx(1) k(2) by (simp add: unat_word_ariths mod_add_left_eq)
  have uh: "unat h = 4 ^ k div 4" unfolding h_def by (simp add: unat_div drop_bit_eq_div k(2))
  show "unat h < unat g" using uh k(2) by simp
  show "0 \<le>s g" "0 \<le>s e" "0 \<le>s b" "0 \<le>s g * 2 + b" "0 \<le>s c"
    using g4 ue ub fit bx s(2) k(2) assms(3) by (simp_all add: nonneg_iff x_def [symmetric])
  have next1: "rooting n q c' h"
    if q: "unat q = 2 ^ k * s'" "n = s' * s' + unat c'" "n < (s' + 2 ^ k) * (s' + 2 ^ k)" for q c' s'
  proof (cases k)
    case 0
    then have "h = 0" using uh by (simp add: unat_eq_0)
    then show ?thesis using q 0 by (simp add: rooting_def)
  next
    case (Suc j)
    then have "unat h = 4 ^ j" "j \<le> 14" using uh k(1) by simp_all
    then show ?thesis using q Suc unfolding rooting_def by (intro disjI1 exI [of _ j] exI [of _ s']) simp
  qed
  show "rooting n (drop_bit (Suc 0) b) c h" if "unat c < unat e"
  proof (rule next1)
    show "unat (drop_bit (Suc 0) b) = 2 ^ k * s" by (simp add: unat_div drop_bit_Suc s(1))
    show "n = s * s + unat c" by (fact s(2))
    show "n < (s + 2 ^ k) * (s + 2 ^ k)" using that s(2) ue by (simp add: gk algebra_simps)
  qed
  show "rooting n (drop_bit (Suc 0) (g * 2 + b)) (c - e) h" if "unat e \<le> unat c"
  proof (rule next1)
    show "unat (drop_bit (Suc 0) (g * 2 + b)) = 2 ^ k * (s + 2 ^ k)"
    proof -
      have "unat (g * 2 + b) = 2 ^ k * (s + 2 ^ k) * 2" using ub by (simp add: gk algebra_simps)
      then show ?thesis by (simp only: unat_half nonzero_mult_div_cancel_right)
    qed
    show "n = (s + 2 ^ k) * (s + 2 ^ k) + unat (c - e)"
      using that s(2) ue by (simp add: unat_minus gk algebra_simps)
    show "n < (s + 2 ^ k + 2 ^ k) * (s + 2 ^ k + 2 ^ k)" using s(3) by (simp add: algebra_simps)
  qed
qed

lemma isqrt_returns:
  assumes h: "carries code b isqrt_code" and e: "entered dt 4 b r" and n: "unat (r 2) < 2 ^ 30"
  shows "\<exists>r' m'. runs code dt (r, m) (r', m') \<and> returned {1, 2} {} 4 (r, m) (r', m') \<and>
    unat (r' 1) * unat (r' 1) \<le> unat (r 2) \<and> unat (r 2) < (unat (r' 1) + 1) * (unat (r' 1) + 1)"
proof -
  note f = h [unfolded isqrt_code_def carries_simps, simplified]
  let ?sp = "r 14" and ?n = "unat (r 2)"
  let ?m = "m(r 14 - 3 := r 10, r 14 - 2 := r 9, r 14 - 1 := r 6, r 14 := r 4)"
  have e': "r 15 = b" "r 0 = 0" "?sp \<in> dt" "?sp + 1 \<in> dt" "?sp - 1 \<in> dt" "?sp - 2 \<in> dt" "?sp - 3 \<in> dt"
    using e by (simp_all add: entered_def)
  define same where "same s \<longleftrightarrow> same_off {1, 2, 4, 6, 9, 10, 14, 15} r s \<and> s 0 = 0 \<and> s 14 = ?sp - 4" for s
  let ?fin = "\<lambda>(s :: 4 word \<Rightarrow> u32) m'. m' = ?m \<and> same s \<and> s 15 = b + 24 \<and> unat (s 1) * unat (s 1) \<le> ?n \<and> ?n < (unat (s 1) + 1) * (unat (s 1) + 1)"
  let ?mid = "\<lambda>(s :: 4 word \<Rightarrow> u32) m'. m' = ?m \<and> same s \<and> s 15 = b + 14 \<and> rooting ?n (s 1) (s 2) (s 6)"
  let ?top = "\<lambda>(s :: 4 word \<Rightarrow> u32) m'. m' = ?m \<and> same s \<and> s 15 = b + 8 \<and> s 1 = 0 \<and> s 2 = r 2 \<and>
    ((\<exists>k\<le>15. unat (s 6) = 4 ^ k \<and> ?n < 4 * 4 ^ k) \<or> s 6 = 0 \<and> ?n = 0)"
  have scale: "\<exists>r' m'. runs code dt (s, m1) (r', m') \<and> ?mid r' m'" if "?top s m1" for s m1
  proof (rule runs_loop [where iv = ?top and mu = "\<lambda>s m. unat (s 6)", OF _ that])
    fix s m1 assume iv: "?top s m1"
    consider "s 6 = 0" "?n = 0" | k where "k \<le> 15" "unat (s 6) = 4 ^ k" "4 ^ k \<le> ?n" "?n < 4 * 4 ^ k"
      | k where "k \<le> 15" "unat (s 6) = 4 ^ k" "?n < 4 ^ k"
    proof -
      from iv have "(\<exists>k\<le>15. unat (s 6) = 4 ^ k \<and> ?n < 4 * 4 ^ k) \<or> s 6 = 0 \<and> ?n = 0" by simp
      then show thesis
      proof
        assume "\<exists>k\<le>15. unat (s 6) = 4 ^ k \<and> ?n < 4 * 4 ^ k"
        then obtain k where k: "k \<le> 15" "unat (s 6) = 4 ^ k" "?n < 4 * 4 ^ k" by blast
        show thesis by (cases "4 ^ k \<le> ?n") (use k that(2,3) in \<open>simp_all add: not_le\<close>)
      qed (use that(1) in simp)
    qed
    then show "\<exists>r' m'. runs code dt (s, m1) (r', m') \<and> (?mid r' m' \<or> ?top r' m' \<and> unat (r' 6) < unat (s 6))"
    proof cases
      case 1
      then have "rooting ?n 0 (r 2) 0" "r 2 = 0" by (simp_all add: rooting_def unat_eq_0)
      then show ?thesis using 1 iv
        by ((elim conjE)?, intro by_steps [where n = 4], simp add: run_simps f same_def)
    next
      case 2
      have "k \<noteq> 15" using 2(3) n by (intro notI) simp
      then have "k \<le> 14" using 2(1) by simp
      then have rt: "rooting ?n 0 (r 2) (s 6)"
        using 2 unfolding rooting_def by (intro disjI1 exI [of _ k] exI [of _ 0]) (simp add: power_mult_distrib [symmetric])
      have "s 6 <s r 2 \<or> s 6 = r 2"
        using 2 n by (auto simp: less_nonneg nonneg_iff word_unat_eq_iff)
      then show ?thesis using rt iv
        by ((elim conjE)?, intro by_steps [where n = 4], auto simp add: run_simps f same_def)
    next
      case 3
      have p: "(4 :: nat) ^ k \<le> 4 ^ 15" using 3(1) by (rule power_increasing) simp
      then have pos: "0 \<le>s s 6" "0 \<le>s r 2" using 3(2) n by (simp_all add: nonneg_iff)
      then have l: "\<not> s 6 <s r 2" "s 6 \<noteq> r 2" using 3 by (auto simp: less_nonneg)
      have u: "unat (drop_bit 2 (s 6)) = 4 ^ k div 4" by (simp add: unat_div drop_bit_eq_div 3(2))
      have nx: "(\<exists>k\<le>15. unat (drop_bit 2 (s 6)) = 4 ^ k \<and> ?n < 4 * 4 ^ k) \<or> drop_bit 2 (s 6) = 0 \<and> ?n = 0"
      proof (cases k)
        case 0
        then show ?thesis using u 3(3) by (simp add: unat_eq_0)
      next
        case (Suc j)
        then show ?thesis using u 3(1,3) by (intro disjI1 exI [of _ j]) simp
      qed
      have "unat (drop_bit 2 (s 6)) < unat (s 6)" using u 3(2) by simp
      then show ?thesis using l nx iv pos(1)
        by ((elim conjE)?, intro by_steps [where n = 6], simp add: run_simps f same_def signed_drop)
    qed
  qed
  have root: "\<exists>r' m'. runs code dt (s, m1) (r', m') \<and> ?fin r' m'" if "?mid s m1" for s m1
  proof (rule runs_loop [where iv = ?mid and mu = "\<lambda>s m. unat (s 6)", OF _ that])
    fix s m1 assume iv: "?mid s m1"
    show "\<exists>r' m'. runs code dt (s, m1) (r', m') \<and> (?fin r' m' \<or> ?mid r' m' \<and> unat (r' 6) < unat (s 6))"
    proof (cases "s 6 = 0")
      case True
      then have "unat (s 1) * unat (s 1) \<le> ?n" "?n < (unat (s 1) + 1) * (unat (s 1) + 1)" using iv by (auto simp: rooting_def)
      then show ?thesis using True iv
        by ((elim conjE)?, intro by_steps [where n = 2], simp add: run_simps f same_def)
    next
      case False
      have rt: "rooting ?n (s 1) (s 2) (s 6)" using iv by simp
      note st = rooting_step [OF rt False n]
      have l: "s 2 <s s 1 + s 6 \<longleftrightarrow> unat (s 2) < unat (s 1 + s 6)" using st(3,4) by (simp add: less_nonneg)
      show ?thesis
      proof (cases "unat (s 2) < unat (s 1 + s 6)")
        case True
        then show ?thesis using False iv st(1) st(2) st(5) st(7)
          by ((elim conjE)?, intro by_steps [where n = 8], simp add: run_simps f same_def l signed_drop)
      next
        case ge: False
        then show ?thesis using False iv st(1) st(2) st(6) st(8)
          by ((elim conjE)?, intro by_steps [where n = 10], simp add: run_simps f same_def l signed_drop)
      qed
    qed
  qed
  have last: "\<exists>r' m'. runs code dt (s, m1) (r', m') \<and> returned {1, 2} {} 4 (r, m) (r', m') \<and>
    unat (r' 1) * unat (r' 1) \<le> unat (r 2) \<and> unat (r 2) < (unat (r' 1) + 1) * (unat (r' 1) + 1)"
    if "?fin s m1" for s m1
    using that e' by ((elim conjE)?, intro by_steps [where n = 7], simp add: run_simps f same_def returned_def insert_commute)
  have "\<exists>k\<le>15. 1073741824 = (4 :: nat) ^ k \<and> ?n < 4 * 4 ^ k" using n by (intro exI [of _ 15]) simp
  then have "\<exists>s m1. runs code dt (r, m) (s, m1) \<and> ?top s m1"
    using e' by ((elim conjE)?, intro by_steps [where n = 8], simp add: run_simps f same_def)
  then show ?thesis by (rule runs_thru [OF runs_thru [OF runs_thru [OF _ scale] root] last])
qed

interpretation isqrt_call: routine isqrt_source isqrt_code "{1, 2}" "\<lambda>r. {}" 4
  "\<lambda>dt (r, m). unat (r 2) < 2 ^ 30"
  "\<lambda>(r, m) (r', m'). unat (r' 1) * unat (r' 1) \<le> unat (r 2) \<and> unat (r 2) < (unat (r' 1) + 1) * (unat (r' 1) + 1)"
  by unfold_locales (rule isqrt_compiles, use isqrt_returns in simp)

end
