(* ===== verification/Stuck.thy ===== *)
theory Stuck
  imports Arithmetic Division
begin

unbundle bit_operations_syntax

text \<open>
  Calls that do not return: \<open>imul\<close> by the least integer, and \<open>udiv\<close> of a large dividend.
\<close>

text \<open>\<open>imul\<close> by the least integer: it stays negative.\<close>

definition imul_stuck :: "u32 \<Rightarrow> cpu \<Rightarrow> bool" where
  "imul_stuck b c \<longleftrightarrow> (case c of (r, m) \<Rightarrow> r 0 = 0 \<and> \<not> 0 \<le>s r 3 \<and>
     (r 15 \<in> {b + 9, b + 10, b + 11, b + 12, b + 13, b + 14} \<or> r 15 = b + 15 \<and> r 8 = 0))"

lemma imul_stuck_step:
  assumes h: "carries code b imul_code" and "imul_stuck b c"
  shows "\<exists>c'. step code dt c = Some c' \<and> imul_stuck b c'"
proof -
  note f = h [unfolded imul_code_def carries_simps, simplified]
  obtain r m where c: "c = (r, m)" by (cases c)
  have "r 3 \<noteq> 0" if "\<not> 0 \<le>s r 3" using that by auto
  then show ?thesis
    using assms(2) by (auto simp: c imul_stuck_def step_def set_r_def f signed_drop_negative)
qed

text \<open>\<open>udiv\<close>, where the subtrahend passes the largest integer before it passes the dividend.\<close>

definition udiv_stuck :: "u32 \<Rightarrow> cpu \<Rightarrow> bool" where
  "udiv_stuck b c \<longleftrightarrow> (case c of (r, m) \<Rightarrow> r 0 = 0 \<and> 0 \<le>s r 2 \<and>
     (r 15 = b + 11 \<and> r 6 \<in> {0, 0x80000000} \<or> r 15 = b + 12 \<and> r 10 = 0 \<and> r 6 \<in> {0, 0x80000000} \<or>
      r 15 = b + 13 \<and> r 6 \<in> {0, 0x80000000} \<or> r 15 = b + 14 \<and> r 6 = 0))"

lemma udiv_stuck_step:
  assumes h: "carries code b udiv_code" and "udiv_stuck b c"
  shows "\<exists>c'. step code dt c = Some c' \<and> udiv_stuck b c'"
proof -
  note f = h [unfolded udiv_code_def carries_simps, simplified]
  obtain r m where c: "c = (r, m)" by (cases c)
  have "\<not> r 2 <s 0" "\<not> r 2 <s 0x80000000" if "0 \<le>s r 2" 
    using that by (simp_all add: word_sless_alt word_sle_eq)
  then show ?thesis
    using assms(2) by (auto simp: c udiv_stuck_def step_def set_r_def f)
qed

lemma imul_diverges:
  assumes h: "carries code b imul_code" and e: "entered dt 3 b r" and d: "r 3 = 0x80000000"
  shows "\<exists>r' m'. runs code dt (r, m) (r', m') \<and> imul_stuck b (r', m')"
proof -
  note f = h [unfolded imul_code_def carries_simps, simplified]
  have e': "r 15 = b" "r 0 = 0" "r 14 \<in> dt" "r 14 - 1 \<in> dt" "r 14 - 2 \<in> dt"
    using e by (simp_all add: entered_def)
  moreover have "\<not> 0 \<le>s (- 0x80000000 :: u32)" by (simp add: word_sle_eq)
  ultimately show ?thesis
    using d by (intro by_steps [where n = 9]) (simp add: run_simps f imul_stuck_def sign_word not_eq_complement)
qed

lemma udiv_diverges:
  assumes h: "carries code b udiv_code" and e: "entered dt 4 b r"
    and c: "0 \<le>s r 2" "2 ^ 30 \<le> unat (r 2)" and d: "unat (r 3) = 2 ^ j" "j \<le> 30"
  shows "\<exists>r' m'. runs code dt (r, m) (r', m') \<and> udiv_stuck b (r', m')"
proof -
  note f = h [unfolded udiv_code_def carries_simps, simplified]
  have e': "r 15 = b" "r 0 = 0" "r 14 \<in> dt" "r 14 - 1 \<in> dt" "r 14 - 2 \<in> dt" "r 14 - 3 \<in> dt"
    using e by (simp_all add: entered_def)
  let ?iv = "\<lambda>(s :: 4 word \<Rightarrow> u32) (m' :: u32 \<Rightarrow> u32). s 15 = b + 11 \<and> s 0 = 0 \<and> s 2 = r 2 \<and> (\<exists>i\<le>30. unat (s 6) = 2 ^ i)"
  have small: "2 ^ i \<le> unat (r 2)" if "i \<le> 30" for i :: nat
    using power_increasing [OF that, of "2 :: nat"] c(2) by simp
  have loop: "\<exists>r' m'. runs code dt (s, m1) (r', m') \<and> udiv_stuck b (r', m')" if "?iv s m1" for s m1
  proof (rule runs_loop [where iv = ?iv and mu = "\<lambda>s m. 2 ^ 32 - unat (s 6)", OF _ that])
    fix s m1 assume iv: "?iv s m1"
    then obtain i where i: "i \<le> 30" "unat (s 6) = 2 ^ i" by blast
    have n: "0 \<le>s s 6"
      using i power_increasing [of i 30 "2 :: nat"] by (simp add: nonneg_iff)
    have less: "\<not> r 2 <s s 6" using c(1) n small [OF i(1)] i(2) by (simp add: less_nonneg)
    have p: "(2 :: nat) ^ i \<le> 2 ^ 30" using i(1) by (rule power_increasing) simp
    then have u: "unat (s 6 * 2) = 2 ^ Suc i" by (simp add: unat_word_ariths i(2))
    show "\<exists>r' m'. runs code dt (s, m1) (r', m') \<and> (udiv_stuck b (r', m') \<or>
      ?iv r' m' \<and> 2 ^ 32 - unat (r' 6) < 2 ^ 32 - unat (s 6))"
    proof (cases "i = 30")
      case True
      then have "unat (s 6 * 2) = unat (0x80000000 :: u32)" using u by simp
      then have "s 6 * 2 = 0x80000000" by (simp only: word_unat_eq_iff)
      then show ?thesis using iv less c(1)
        by ((elim conjE)?, intro by_steps [where n = 4], simp add: run_simps f udiv_stuck_def)
    next
      case False
      then have "\<exists>k\<le>30. unat (s 6 * 2) = 2 ^ k" using u i(1) by (intro exI [of _ "Suc i"]) simp
      moreover have "4294967296 - 2 * 2 ^ i < 4294967296 - (2 :: nat) ^ i"
        using p by (intro diff_less_mono2) simp_all
      ultimately show ?thesis using iv less u i(2) p
        by ((elim conjE)?, intro by_steps [where n = 4], simp add: run_simps f udiv_stuck_def)
    qed
  qed
  have "\<not> unat (r 2) < unat (r 3)" "r 3 \<noteq> 0" using small [OF d(2)] d by (auto simp: unat_pos)
  moreover have "0 \<le>s r 3" using d power_increasing [of j 30 "2 :: nat"] by (simp add: nonneg_iff)
  ultimately have "\<not> r 2 <s r 3" "r 3 \<noteq> 0" using c(1) by (simp_all add: less_nonneg)
  then have "\<exists>s m1. runs code dt (r, m) (s, m1) \<and> ?iv s m1"
    using e' d by (intro by_steps [where n = 11]) (auto simp add: run_simps f)
  then show ?thesis by (rule runs_thru [OF _ loop])
qed

end
