(* ===== verification/Displays.thy ===== *)
theory Displays
  imports Run Plugins
begin

unbundle bit_operations_syntax

text \<open>
  The displays of \<^verbatim>\<open>src/devices/sdlled.c\<close> (four hexadecimal digits with dots) and
  \<^verbatim>\<open>src/devices/sdlvga.c\<close> (a screen of characters).  What they give SDL to draw is a list of copies in
  the order of the calls; a texture is identified with the file that it was made from.  The copies go
  to what is to be presented; the window keeps what was last presented.  The clock, the events of the
  window, and whether an image can be made a texture are those of the host.
\<close>

section \<open>The host\<close>

text \<open>One \<open>SDL_RenderCopy\<close>: the source and the destination have the same size.\<close>

record copy =
  texture :: string
  src_x :: nat
  dst_x :: nat
  dst_y :: nat
  extent :: "nat \<times> nat"

text \<open>
  The time in microseconds at each reading of the clock; for each poll the event found, if any, as
  whether it is \<open>SDL_QUIT\<close>; whether \<open>IMG_Load\<close> and \<open>SDL_CreateTextureFromSurface\<close> make a texture of a
  file; the copies made so far, and those that had been made when they were last presented.
\<close>

record host =
  host_clock :: "nat \<Rightarrow> int"
  readings :: nat
  events :: "bool option list"
  host_loads :: "string \<Rightarrow> bool"
  copies :: "copy list"
  front :: "copy list"

definition render_copy :: "copy \<Rightarrow> host \<Rightarrow> host" where
  "render_copy c h = h\<lparr>copies := copies h @ [c]\<rparr>"

definition gettimeofday :: "host \<Rightarrow> int \<times> host" where
  "gettimeofday h = (host_clock h (readings h), h\<lparr>readings := readings h + 1\<rparr>)"

definition poll_event :: "host \<Rightarrow> bool option \<times> host" where
  "poll_event h = (case events h of [] \<Rightarrow> (None, h) | e # es \<Rightarrow> (e, h\<lparr>events := es\<rparr>))"

text \<open>Whether the calls that set up SDL succeed, and the image loader that finds the font.\<close>

record sdl_setup =
  sdl_init_ok :: bool
  window_ok :: bool
  img_init_ok :: bool
  image_ok :: "string \<Rightarrow> bool"

datatype status = RUNNING | STOPPING | STOPPED

definition PUMP_CYCLES :: int where "PUMP_CYCLES = 2048"

text \<open>The same pump in both devices: \<open>exit(0)\<close> when the window is closed.\<close>

definition pump :: "status \<Rightarrow> u32 \<Rightarrow> host \<Rightarrow> host res" where
  "pump st cycles h =
     (if sint cycles mod PUMP_CYCLES = 0 \<and> st = RUNNING then
        (case poll_event h of (e, h) \<Rightarrow> if e = Some True then Inl (Exit 0 []) else Inr h)
      else Inr h)"

text \<open>Presenting at most once for each tick after the deadline.\<close>

definition present :: "int \<Rightarrow> int \<times> int \<Rightarrow> host \<Rightarrow> (int \<times> int) \<times> host" where
  "present tick tm h =
     (case tm of (last_update, deadline) \<Rightarrow>
       let (now, h) = gettimeofday h in
       if now > deadline then ((deadline, deadline + tick), h\<lparr>front := copies h\<rparr>) else (tm, h))"

lemma present_copies [simp]: "copies (snd (present tick tm h)) = copies h"
  by (simp add: present_def gettimeofday_def split: prod.split)

section \<open>The digits\<close>

definition SDLLED_BASE :: u32 where "SDLLED_BASE = 0x100"
definition DIGIT_WIDTH :: nat where "DIGIT_WIDTH = 38"
definition DOT_WIDTH :: nat where "DOT_WIDTH = 6"
definition DIGIT_HEIGHT :: nat where "DIGIT_HEIGHT = 64"

record sdlled_state =
  led_data :: "u32 list"
  led_status :: status
  led_digits :: "string option list"
  led_dots :: "string option list"
  led_times :: "int \<times> int"
  led_cycles :: u32
  led_host :: host

definition digit_file :: "nat \<Rightarrow> string" where
  "digit_file d = ''rsrc/64/'' @ [''0123456789ABCDEF'' ! d] @ ''.png''"

definition dot_file :: "nat \<Rightarrow> string" where
  "dot_file on = ''rsrc/64/dot_'' @ (if on \<noteq> 0 then ''on'' else ''off'') @ ''.png''"

text \<open>
  A texture is made at its first use and kept.  When the image cannot be loaded there is none: the
  place stays \<open>NULL\<close>, the next use tries again, and \<open>SDL_RenderCopy\<close> draws nothing.
\<close>

definition cached :: "(string \<Rightarrow> bool) \<Rightarrow> nat \<Rightarrow> string \<Rightarrow> string option list \<Rightarrow> string option \<times> string option list" where
  "cached loads k file ts =
     (case ts ! k of
        Some t \<Rightarrow> (Some t, ts)
      | None \<Rightarrow> let num = (if loads file then Some file else None) in (num, ts[k := num]))"

definition draw :: "string option \<Rightarrow> (string \<Rightarrow> copy) \<Rightarrow> host \<Rightarrow> host" where
  "draw t c h = (case t of None \<Rightarrow> h | Some t \<Rightarrow> render_copy (c t) h)"

definition put_digit :: "nat \<Rightarrow> nat \<Rightarrow> sdlled_state \<Rightarrow> int \<times> sdlled_state" where
  "put_digit index n s =
     (if n > 15 then (-1, s)
      else let (num, ts) = cached (host_loads (led_host s)) n (digit_file n) (led_digits s) in
        (0, s\<lparr>led_digits := ts, led_host := draw num (\<lambda>num. \<lparr>texture = num, src_x = 0,
             dst_x = index * (DIGIT_WIDTH + DOT_WIDTH), dst_y = 0, extent = (DIGIT_WIDTH, DIGIT_HEIGHT)\<rparr>) (led_host s)\<rparr>))"

definition put_dot :: "nat \<Rightarrow> nat \<Rightarrow> sdlled_state \<Rightarrow> int \<times> sdlled_state" where
  "put_dot index on s =
     (let (dot, ts) = cached (host_loads (led_host s)) on (dot_file on) (led_dots s) in
        (0, s\<lparr>led_dots := ts, led_host := draw dot (\<lambda>dot. \<lparr>texture = dot, src_x = 0,
             dst_x = (index + 1) * DIGIT_WIDTH + index * DOT_WIDTH, dst_y = 0, extent = (DOT_WIDTH, DIGIT_HEIGHT)\<rparr>)
             (led_host s)\<rparr>))"

definition decode_led :: "u32 \<Rightarrow> nat list" where
  "decode_led data = map (\<lambda>i. unat (drop_bit (i * 4) data AND 0xf)) [0..<4]"

definition decode_dots :: "u32 \<Rightarrow> nat list" where
  "decode_dots data = map (\<lambda>i. unat (drop_bit i data AND 1)) [0..<4]"

definition led_update :: "sdlled_state \<Rightarrow> sdlled_state" where
  "led_update s =
     (let digits = decode_led (led_data s ! 0);
          dots = decode_dots (led_data s ! 1);
          s = fold (\<lambda>i s. snd (put_dot i (dots ! (3 - i)) (snd (put_digit i (digits ! (3 - i)) s)))) [0..<4] s;
          (tm, h) = present (1000000 div 30) (led_times s) (led_host s)
      in s\<lparr>led_times := tm, led_host := h\<rparr>)"

definition sdlled_init :: "sdl_setup \<Rightarrow> sdlled_state \<Rightarrow> (int \<times> sdlled_state) res" where
  "sdlled_init ok s =
     (if \<not> sdl_init_ok ok then Inl (Fatal ''Unable to init SDL'')
      else if \<not> window_ok ok then Inl (Fatal ''Unable to set up LED surface'')
      else if \<not> img_init_ok ok then Inl (Fatal ''sdlled failed to initialise SDL_Image'')
      else let (now, h) = gettimeofday (led_host s) in
        Inr (0, led_update \<lparr>led_data = [0, 0], led_status = RUNNING, led_digits = replicate 16 None,
          led_dots = replicate 2 None, led_times = (now, now), led_cycles = 0, led_host = h\<rparr>))"

definition sdlled_op :: "sdlled_state dispatcher" where
  "sdlled_op op addr data s =
     (let off = addr - SDLLED_BASE in
      if op = OP_WRITE then
        (if unat off < length (led_data s) then Inr (0, data, led_update (s\<lparr>led_data := (led_data s)[unat off := data]\<rparr>))
         else Inl (Undefined ''write past the digits''))
      else if op = OP_INSN_READ \<or> op = OP_DATA_READ then
        (if off = 0 then Inr (0, led_data s ! 0 AND 0xffff, s)
         else if off = 1 then Inr (0, led_data s ! 1 AND 0xf, s)
         else Inr (1, data, s))
      else Inr (0, data, s))"

definition sdlled_pump :: "sdlled_state \<Rightarrow> (int \<times> sdlled_state) res" where
  "sdlled_pump s = bindE (pump (led_status s) (led_cycles s) (led_host s)) (\<lambda>h.
     Inr (0, s\<lparr>led_cycles := led_cycles s + 1, led_host := h\<rparr>))"

definition sdlled_device :: "sdl_setup \<Rightarrow> sdlled_state \<Rightarrow> sdlled_state device" where
  "sdlled_device ok s = \<lparr>bounds0 = SDLLED_BASE, bounds1 = SDLLED_BASE + 1, dev_init = sdlled_init ok,
     dev_op = sdlled_op, dev_cycle = Some sdlled_pump, dev_fini = \<lambda>s. Inr (0, s), cookie = s\<rparr>"

text \<open>What the display is to show: the hexadecimal digits of the lower half, the highest on the left.\<close>

definition shown :: "u32 \<Rightarrow> u32 \<Rightarrow> copy list" where
  "shown w dots = concat (map (\<lambda>i.
     [\<lparr>texture = digit_file (unat w div 16 ^ (3 - i) mod 16), src_x = 0, dst_x = i * 44, dst_y = 0, extent = (38, 64)\<rparr>,
      \<lparr>texture = dot_file (unat dots div 2 ^ (3 - i) mod 2), src_x = 0, dst_x = 38 + i * 44, dst_y = 0,
        extent = (6, 64)\<rparr>]) [0..<4])"

text \<open>Each texture that is kept is the right one.\<close>

definition led_wf :: "sdlled_state \<Rightarrow> bool" where
  "led_wf s \<longleftrightarrow> length (led_data s) = 2 \<and> length (led_digits s) = 16 \<and> length (led_dots s) = 2 \<and>
     (\<forall>d<16. led_digits s ! d \<in> {None, Some (digit_file d)}) \<and> (\<forall>d<2. led_dots s ! d \<in> {None, Some (dot_file d)})"

lemma cached_right:
  assumes "\<forall>d<n. ts ! d \<in> {None, Some (f d)}" and "length ts = n" and "k < n"
  shows "\<exists>t ts'. cached loads k (f k) ts = (t, ts') \<and> length ts' = n \<and> (\<forall>d<n. ts' ! d \<in> {None, Some (f d)}) \<and>
    t \<in> {None, Some (f k)} \<and> (loads (f k) \<longrightarrow> t = Some (f k))"
  using assms by (auto simp: cached_def nth_list_update Let_def split: option.split)

lemma draw_copies:
  "t \<in> {None, Some f} \<Longrightarrow> \<exists>cs. draw t c h = h\<lparr>copies := copies h @ cs\<rparr> \<and> (t = Some f \<longrightarrow> cs = [c f])"
  by (cases t) (auto simp: draw_def render_copy_def intro: exI [of _ "[]"])

text \<open>What drawing adds to the copies: all of \<open>want\<close> when the files load, and else some of them.\<close>

definition adds :: "bool \<Rightarrow> copy list \<Rightarrow> sdlled_state \<Rightarrow> sdlled_state \<Rightarrow> bool" where
  "adds ok want s t \<longleftrightarrow> led_wf t \<and> led_data t = led_data s \<and> led_times t = led_times s \<and>
     (\<exists>cs. led_host t = (led_host s)\<lparr>copies := copies (led_host s) @ cs\<rparr> \<and> (ok \<longrightarrow> cs = want))"

lemma adds_refl: "led_wf s \<Longrightarrow> adds ok [] s s"
  by (auto simp: adds_def intro!: exI [of _ "[]"])

lemma adds_trans: "adds ok a s t \<Longrightarrow> adds ok b t u \<Longrightarrow> adds ok (a @ b) s u"
  unfolding adds_def by (elim conjE exE, intro conjI, simp_all) (metis append_assoc)

lemma adds_loads: "adds ok a s t \<Longrightarrow> host_loads (led_host t) = host_loads (led_host s)"
  by (auto simp: adds_def)

lemma adds_weaken: "adds ok a s t \<Longrightarrow> (ok' \<Longrightarrow> ok) \<Longrightarrow> adds ok' a s t"
  by (auto simp: adds_def)

lemma put_digit_shows:
  assumes "led_wf s" and "d < 16"
  shows "\<exists>s'. put_digit i d s = (0, s') \<and> adds (host_loads (led_host s) (digit_file d))
      [\<lparr>texture = digit_file d, src_x = 0, dst_x = i * 44, dst_y = 0, extent = (38, 64)\<rparr>] s s'"
proof -
  obtain t ts where "cached (host_loads (led_host s)) d (digit_file d) (led_digits s) = (t, ts)" "length ts = 16"
    "\<forall>d<16. ts ! d \<in> {None, Some (digit_file d)}" "t \<in> {None, Some (digit_file d)}"
    "host_loads (led_host s) (digit_file d) \<longrightarrow> t = Some (digit_file d)"
    using cached_right [of 16 "led_digits s" digit_file d "host_loads (led_host s)"] assms by (auto simp: led_wf_def)
  moreover from this(4) obtain cs where "draw t (\<lambda>t. \<lparr>texture = t, src_x = 0, dst_x = i * 44, dst_y = 0, extent = (38, 64)\<rparr>)
      (led_host s) = (led_host s)\<lparr>copies := copies (led_host s) @ cs\<rparr>"
    "t = Some (digit_file d) \<longrightarrow> cs = [\<lparr>texture = digit_file d, src_x = 0, dst_x = i * 44, dst_y = 0, extent = (38, 64)\<rparr>]"
    by (elim exE conjE draw_copies [elim_format])
  ultimately show ?thesis using assms
    by (auto simp: put_digit_def led_wf_def adds_def DIGIT_WIDTH_def DOT_WIDTH_def DIGIT_HEIGHT_def)
qed

lemma put_dot_shows:
  assumes "led_wf s" and "d < 2"
  shows "\<exists>s'. put_dot i d s = (0, s') \<and> adds (host_loads (led_host s) (dot_file d))
      [\<lparr>texture = dot_file d, src_x = 0, dst_x = 38 + i * 44, dst_y = 0, extent = (6, 64)\<rparr>] s s'"
proof -
  obtain t ts where "cached (host_loads (led_host s)) d (dot_file d) (led_dots s) = (t, ts)" "length ts = 2"
    "\<forall>d<2. ts ! d \<in> {None, Some (dot_file d)}" "t \<in> {None, Some (dot_file d)}"
    "host_loads (led_host s) (dot_file d) \<longrightarrow> t = Some (dot_file d)"
    using cached_right [of 2 "led_dots s" dot_file d "host_loads (led_host s)"] assms by (auto simp: led_wf_def)
  moreover from this(4) obtain cs where "draw t (\<lambda>t. \<lparr>texture = t, src_x = 0, dst_x = 44 * i + 38, dst_y = 0, extent = (6, 64)\<rparr>)
      (led_host s) = (led_host s)\<lparr>copies := copies (led_host s) @ cs\<rparr>"
    "t = Some (dot_file d) \<longrightarrow> cs = [\<lparr>texture = dot_file d, src_x = 0, dst_x = 44 * i + 38, dst_y = 0, extent = (6, 64)\<rparr>]"
    by (elim exE conjE draw_copies [elim_format])
  ultimately show ?thesis using assms
    by (auto simp: put_dot_def led_wf_def adds_def DIGIT_WIDTH_def DOT_WIDTH_def DIGIT_HEIGHT_def)
qed

lemma unat_drop_bit: "unat (drop_bit n (w :: u32)) = unat w div 2 ^ n"
proof -
  have "unat (drop_bit n w) = drop_bit n (unat w)"
    by (rule bit_eqI) (simp add: bit_unsigned_iff bit_drop_bit_eq)
  then show ?thesis by (simp add: drop_bit_eq_div)
qed

lemma low_nibble: "unat (drop_bit n (w :: u32) AND 0xf) = unat w div 2 ^ n mod 16"
proof -
  have "(0xf :: u32) = mask 4" by (simp add: mask_eq_decr_exp)
  then have "drop_bit n w AND 0xf = take_bit 4 (drop_bit n w)" by (simp add: take_bit_eq_mask)
  then have "unat (drop_bit n w AND 0xf) = take_bit 4 (unat (drop_bit n w))"
    by (simp only: unsigned_take_bit_eq)
  then show ?thesis by (simp only: unat_drop_bit take_bit_eq_mod) simp
qed

lemma low_bit: "unat (drop_bit n (w :: u32) AND 1) = unat w div 2 ^ n mod 2"
proof -
  have "(1 :: u32) = mask 1" by simp
  then have "drop_bit n w AND 1 = take_bit 1 (drop_bit n w)" by (simp only: take_bit_eq_mask)
  then have "unat (drop_bit n w AND 1) = take_bit 1 (unat (drop_bit n w))"
    by (simp only: unsigned_take_bit_eq)
  then show ?thesis by (simp only: unat_drop_bit take_bit_eq_mod) simp
qed

text \<open>Whether the images of the display can be loaded.\<close>

definition fonts_load :: "host \<Rightarrow> bool" where
  "fonts_load h \<longleftrightarrow> (\<forall>d<16. host_loads h (digit_file d)) \<and> (\<forall>d<2. host_loads h (dot_file d))"

lemma put_both_shows:
  assumes "led_wf s" and "a < 16" and "b < 2"
  shows "adds (fonts_load (led_host s))
      [\<lparr>texture = digit_file a, src_x = 0, dst_x = i * 44, dst_y = 0, extent = (38, 64)\<rparr>,
       \<lparr>texture = dot_file b, src_x = 0, dst_x = 38 + i * 44, dst_y = 0, extent = (6, 64)\<rparr>]
    s (snd (put_dot i b (snd (put_digit i a s))))"
proof -
  obtain s1 where s1: "put_digit i a s = (0, s1)" "adds (host_loads (led_host s) (digit_file a))
      [\<lparr>texture = digit_file a, src_x = 0, dst_x = i * 44, dst_y = 0, extent = (38, 64)\<rparr>] s s1"
    using put_digit_shows [OF assms(1,2)] by blast
  then have "led_wf s1" by (simp add: adds_def)
  then obtain s2 where s2: "put_dot i b s1 = (0, s2)" "adds (host_loads (led_host s1) (dot_file b))
      [\<lparr>texture = dot_file b, src_x = 0, dst_x = 38 + i * 44, dst_y = 0, extent = (6, 64)\<rparr>] s1 s2"
    using put_dot_shows [OF _ assms(3)] by blast
  have "adds (fonts_load (led_host s)) ([\<lparr>texture = digit_file a, src_x = 0, dst_x = i * 44, dst_y = 0, extent = (38, 64)\<rparr>] @
       [\<lparr>texture = dot_file b, src_x = 0, dst_x = 38 + i * 44, dst_y = 0, extent = (6, 64)\<rparr>]) s s2"
    by (rule adds_trans [OF adds_weaken [OF s1(2)] adds_weaken [OF s2(2)]])
      (simp_all add: fonts_load_def assms adds_loads [OF s1(2)])
  then show ?thesis by (simp add: s1(1) s2(1))
qed

text \<open>The loop of \<open>handle_update\<close>, before it looks at the clock.\<close>

lemma led_loop_shows:
  assumes "led_wf s"
  defines "D \<equiv> decode_led (led_data s ! 0)" and "d \<equiv> decode_dots (led_data s ! 1)"
  shows "adds (fonts_load (led_host s)) (shown (led_data s ! 0) (led_data s ! 1)) s
    (fold (\<lambda>i s. snd (put_dot i (d ! (3 - i)) (snd (put_digit i (D ! (3 - i)) s)))) [0..<4] s)"
proof -
  have r: "D ! k < 16" "d ! k < 2" "D ! k = unat (led_data s ! 0) div 16 ^ k mod 16"
    "d ! k = unat (led_data s ! 1) div 2 ^ k mod 2" if "k < 4" for k
  proof -
    have "(2 :: nat) ^ (k * 4) = 16 ^ k" by (simp add: mult.commute [of k 4] power_mult)
    then show "D ! k < 16" "d ! k < 2" "D ! k = unat (led_data s ! 0) div 16 ^ k mod 16"
      "d ! k = unat (led_data s ! 1) div 2 ^ k mod 2"
      using that by (simp_all add: D_def d_def decode_led_def decode_dots_def low_nibble low_bit)
  qed
  have loop: "adds (fonts_load (led_host s)) (concat (map (\<lambda>i.
     [\<lparr>texture = digit_file (D ! (3 - i)), src_x = 0, dst_x = i * 44, dst_y = 0, extent = (38, 64)\<rparr>,
      \<lparr>texture = dot_file (d ! (3 - i)), src_x = 0, dst_x = 38 + i * 44, dst_y = 0, extent = (6, 64)\<rparr>]) is)) s
     (fold (\<lambda>i s. snd (put_dot i (d ! (3 - i)) (snd (put_digit i (D ! (3 - i)) s)))) is s)" for "is"
  proof (induction "is" rule: rev_induct)
    case Nil
    show ?case using assms(1) by (simp add: adds_refl)
  next
    case (snoc i "is")
    let ?u = "fold (\<lambda>i s. snd (put_dot i (d ! (3 - i)) (snd (put_digit i (D ! (3 - i)) s)))) is s"
    have k: "3 - i < 4" by simp
    have w: "led_wf ?u" "host_loads (led_host ?u) = host_loads (led_host s)"
      using snoc.IH adds_loads [OF snoc.IH] by (simp_all only: adds_def)
    have "fonts_load (led_host ?u) = fonts_load (led_host s)" by (simp only: fonts_load_def w(2))
    from adds_trans [OF snoc.IH put_both_shows [OF w(1) r(1) [OF k] r(2) [OF k], of i, unfolded this]]
    show ?case by (simp only: fold_append fold_simps comp_def map_append concat_append list.map concat.simps append_Nil2)
  qed
  have "shown (led_data s ! 0) (led_data s ! 1) = concat (map (\<lambda>i.
     [\<lparr>texture = digit_file (D ! (3 - i)), src_x = 0, dst_x = i * 44, dst_y = 0, extent = (38, 64)\<rparr>,
      \<lparr>texture = dot_file (d ! (3 - i)), src_x = 0, dst_x = 38 + i * 44, dst_y = 0, extent = (6, 64)\<rparr>]) [0..<4])"
    unfolding shown_def by (intro arg_cong [where f = concat] map_cong refl) (simp add: r [unfolded One_nat_def])
  then show ?thesis by (simp only: loop)
qed

lemma led_update_shows:
  assumes "led_wf s"
  defines "h \<equiv> led_host s"
  defines "t \<equiv> led_update s"
  shows "led_wf t" and "led_data t = led_data s" and "host_loads (led_host t) = host_loads h"
    and "fonts_load h \<Longrightarrow> copies (led_host t) = copies h @ shown (led_data s ! 0) (led_data s ! 1)"
    and "front (led_host t) =
      (if host_clock h (readings h) > snd (led_times s) then copies (led_host t) else front h)"
proof -
  have a: "adds (fonts_load (led_host s)) (shown (led_data s ! 0) (led_data s ! 1)) s
    (fold (\<lambda>i u. snd (put_dot i (decode_dots (led_data s ! 1) ! (3 - i))
      (snd (put_digit i (decode_led (led_data s ! 0) ! (3 - i)) u)))) [0..<4] s)" (is "adds _ _ _ ?u")
    by (rule led_loop_shows [OF assms(1)])
  obtain tm g where p: "present (1000000 div 30) (led_times ?u) (led_host ?u) = (tm, g)"
    by (cases "present (1000000 div 30) (led_times ?u) (led_host ?u)")
  then have t: "t = ?u\<lparr>led_times := tm, led_host := g\<rparr>"
    unfolding t_def by (simp only: led_update_def Let_def prod.case)
  have w: "led_wf ?u" "led_data ?u = led_data s" "led_times ?u = led_times s"
    using a by (simp_all only: adds_def)
  obtain cs where c: "led_host ?u = (led_host s)\<lparr>copies := copies (led_host s) @ cs\<rparr>"
    "fonts_load (led_host s) \<longrightarrow> cs = shown (led_data s ! 0) (led_data s ! 1)"
    using a unfolding adds_def by blast
  have g: "copies g = copies h @ cs" "host_loads g = host_loads h"
    "front g = (if host_clock h (readings h) > snd (led_times s) then copies h @ cs else front h)"
    using p unfolding c(1) w(3) h_def [symmetric]
    by (auto simp: present_def gettimeofday_def Let_def split: prod.splits if_splits)
  have "led_wf (v\<lparr>led_times := tm, led_host := g\<rparr>) = led_wf v"
    "led_data (v\<lparr>led_times := tm, led_host := g\<rparr>) = led_data v"
    "led_host (v\<lparr>led_times := tm, led_host := g\<rparr>) = g" for v
    by (simp_all add: led_wf_def)
  note e = this [of ?u, folded t]
  show "led_wf t" "led_data t = led_data s" "host_loads (led_host t) = host_loads h"
    by (simp_all only: e w g)
  show "fonts_load h \<Longrightarrow> copies (led_host t) = copies h @ shown (led_data s ! 0) (led_data s ! 1)"
    using c(2) by (simp only: e g h_def simp_thms)
  show "front (led_host t) = (if host_clock h (readings h) > snd (led_times s) then copies (led_host t) else front h)"
    by (simp only: e g)
qed

lemma sdlled_init_wf: "sdlled_init ok s = Inr (rc, t) \<Longrightarrow> rc = 0 \<and> led_wf t \<and> fonts_load (led_host t) = fonts_load (led_host s)"
proof -
  assume i: "sdlled_init ok s = Inr (rc, t)"
  obtain now h where g: "gettimeofday (led_host s) = (now, h)" by (cases "gettimeofday (led_host s)")
  define z where "z = \<lparr>led_data = [0, 0], led_status = RUNNING, led_digits = replicate 16 None,
      led_dots = replicate 2 None, led_times = (now, now), led_cycles = 0, led_host = h\<rparr>"
  have w: "led_wf z" by (simp add: z_def led_wf_def nth_replicate)
  have l: "host_loads (led_host z) = host_loads (led_host s)" using g by (auto simp: z_def gettimeofday_def)
  have "rc = 0 \<and> t = led_update z" using i by (auto simp: sdlled_init_def g z_def split: if_splits)
  then show ?thesis using led_update_shows(1,3) [OF w] l by (simp add: fonts_load_def)
qed

text \<open>
  A write is drawn at once, presented if the deadline is past, and read back without the bits that
  have no lamp.
\<close>

lemma sdlled_write_shows:
  assumes "led_wf s" and "k < 2" and "fonts_load (led_host s)"
  shows "\<exists>t. sdlled_op OP_WRITE (SDLLED_BASE + of_nat k) v s = Inr (0, v, t) \<and> led_wf t \<and> fonts_load (led_host t) \<and>
    led_data t = (led_data s)[k := v] \<and>
    copies (led_host t) = copies (led_host s) @ shown (led_data t ! 0) (led_data t ! 1) \<and>
    front (led_host t) = (if host_clock (led_host s) (readings (led_host s)) > snd (led_times s)
      then copies (led_host t) else front (led_host s)) \<and>
    sdlled_op OP_DATA_READ (SDLLED_BASE + of_nat k) junk t = Inr (0, v AND (if k = 0 then 0xffff else 0xf), t)"
proof -
  let ?s = "s\<lparr>led_data := (led_data s)[k := v]\<rparr>"
  have u: "unat (of_nat k :: u32) = k" using assms(2) by (simp add: unat_of_nat)
  have w: "led_wf ?s" using assms(1) by (simp add: led_wf_def)
  have l: "length (led_data s) = 2" using assms(1) by (simp add: led_wf_def)
  have k: "k = 0 \<or> k = 1" using assms(2) by auto
  note s = led_update_shows [OF w]
  have o: "sdlled_op OP_WRITE (SDLLED_BASE + of_nat k) v s = Inr (0, v, led_update ?s)"
    using u l assms(2) by (simp add: sdlled_op_def Let_def)
  have r: "sdlled_op OP_DATA_READ (SDLLED_BASE + of_nat k) junk (led_update ?s) =
      Inr (0, v AND (if k = 0 then 0xffff else 0xf), led_update ?s)"
    using k l by (auto simp: sdlled_op_def Let_def s(2))
  have f0: "fonts_load (led_host ?s)" using assms(3) by simp
  have f: "fonts_load (led_host (led_update ?s))" using assms(3) s(3) by (simp add: fonts_load_def)
  show ?thesis by (intro exI [of _ "led_update ?s"] conjI o r f) (simp_all add: s(1,2,5) s(4) [OF f0])
qed

section \<open>The screen\<close>

definition SDLVGA_BASE :: u32 where "SDLVGA_BASE = push_bit 16 1"
definition ROWS :: nat where "ROWS = 40"
definition COLS :: nat where "COLS = 80"
definition FONT_HEIGHT :: nat where "FONT_HEIGHT = 12"
definition FONT_WIDTH :: nat where "FONT_WIDTH = 8"

record sdlvga_state =
  vga_data :: "nat \<Rightarrow> nat \<Rightarrow> u32"
  vga_sprite :: string
  vga_status :: status
  vga_times :: "int \<times> int"
  vga_cycles :: u32
  vga_host :: host

definition put_character :: "nat \<Rightarrow> nat \<Rightarrow> u8 \<Rightarrow> sdlvga_state \<Rightarrow> sdlvga_state" where
  "put_character row col ch s = s\<lparr>vga_host := render_copy \<lparr>texture = vga_sprite s, src_x = unat ch * FONT_WIDTH,
     dst_x = col * FONT_WIDTH, dst_y = row * FONT_HEIGHT, extent = (FONT_WIDTH, FONT_HEIGHT)\<rparr> (vga_host s)\<rparr>"

text \<open>The display is a texture of its own, copied to the window at each tick.\<close>

definition vga_update :: "sdlvga_state \<Rightarrow> sdlvga_state" where
  "vga_update s =
     (let (tm, h) = present (1000000 div 60) (vga_times s) (vga_host s) in s\<lparr>vga_times := tm, vga_host := h\<rparr>)"

text \<open>\<open>share\<close> is the parameter \<open>paths.share\<close>, if it is set.\<close>

definition sdlvga_init :: "sdl_setup \<Rightarrow> string option \<Rightarrow> sdlvga_state \<Rightarrow> (int \<times> sdlvga_state) res" where
  "sdlvga_init ok share s =
     (if \<not> sdl_init_ok ok then Inl (Fatal ''Unable to init SDL'')
      else if \<not> window_ok ok then Inl (Fatal ''Unable to create sdlvga window'')
      else if \<not> img_init_ok ok then Inl (Fatal ''sdlvga failed to initialise SDL_Image'')
      else bindE (build_path (case share of Some p \<Rightarrow> p | None \<Rightarrow> ''.'') ''rsrc/font.png'') (\<lambda>file.
        if \<not> image_ok ok file then Inl (Fatal ''sdlvga failed to load font sprite'')
        else let h = (vga_host s)\<lparr>copies := [], front := []\<rparr>; (now, h) = gettimeofday h in
          Inr (0, \<lparr>vga_data = (\<lambda>row col. 0), vga_sprite = file, vga_status = RUNNING, vga_times = (now, now),
            vga_cycles = 0, vga_host = h\<rparr>)))"

definition sdlvga_op :: "sdlvga_state dispatcher" where
  "sdlvga_op op addr data s =
     (let offset = sint (addr - SDLVGA_BASE) in
      if 0 \<le> offset \<and> offset < int (ROWS * COLS) then
        (let row = nat offset div COLS; col = nat offset mod COLS in
         if op = OP_WRITE then
           Inr (0, data, vga_update (put_character row col (ucast data)
             (s\<lparr>vga_data := (vga_data s)(row := (vga_data s row)(col := data))\<rparr>)))
         else if op = OP_INSN_READ \<or> op = OP_DATA_READ then Inr (0, vga_data s row col, s)
         else Inr (0, data, s))
      else Inr (0, data, s))"

definition sdlvga_pump :: "sdlvga_state \<Rightarrow> (int \<times> sdlvga_state) res" where
  "sdlvga_pump s = bindE (pump (vga_status s) (vga_cycles s) (vga_host s)) (\<lambda>h.
     Inr (0, s\<lparr>vga_cycles := vga_cycles s + 1, vga_host := h\<rparr>))"

definition sdlvga_device :: "sdl_setup \<Rightarrow> string option \<Rightarrow> sdlvga_state \<Rightarrow> sdlvga_state device" where
  "sdlvga_device ok share s = \<lparr>bounds0 = SDLVGA_BASE, bounds1 = SDLVGA_BASE + 0x1000 - 1,
     dev_init = sdlvga_init ok share, dev_op = sdlvga_op, dev_cycle = Some sdlvga_pump,
     dev_fini = \<lambda>s. Inr (0, s), cookie = s\<rparr>"

text \<open>The characters, as a memory.\<close>

definition vga_window :: "u32 set" where
  "vga_window = {a. SDLVGA_BASE \<le> a \<and> unat (a - SDLVGA_BASE) < ROWS * COLS}"

definition vga_peek :: "sdlvga_state \<Rightarrow> u32 \<Rightarrow> u32" where
  "vga_peek s a = (let k = unat (a - SDLVGA_BASE) in vga_data s (k div COLS) (k mod COLS))"

text \<open>What is on the display at a place: the last copy to it.\<close>

definition drawn_at :: "copy list \<Rightarrow> nat \<Rightarrow> nat \<Rightarrow> copy option" where
  "drawn_at cs x y = find (\<lambda>c. dst_x c = x \<and> dst_y c = y) (rev cs)"

text \<open>Each character of the data is what the display shows there, if anything has been drawn there.\<close>

definition vga_shows :: "sdlvga_state \<Rightarrow> bool" where
  "vga_shows s \<longleftrightarrow> (\<forall>row<ROWS. \<forall>col<COLS.
     case drawn_at (copies (vga_host s)) (8 * col) (12 * row) of
       None \<Rightarrow> vga_data s row col = 0
     | Some c \<Rightarrow> texture c = vga_sprite s \<and> src_x c = 8 * (unat (vga_data s row col) mod 256) \<and> dst_x c = 8 * col \<and>
         dst_y c = 12 * row)"

lemma vga_window_offset:
  assumes "a \<in> vga_window"
  shows "sint (a - SDLVGA_BASE) = uint (a - SDLVGA_BASE)" and "unat (a - SDLVGA_BASE) < ROWS * COLS"
    and "uint (a - SDLVGA_BASE) < int ROWS * int COLS"
proof -
  show u: "unat (a - SDLVGA_BASE) < ROWS * COLS" using assms by (simp add: vga_window_def)
  then have "int (unat (a - SDLVGA_BASE)) < int (ROWS * COLS)" by (simp only: of_nat_less_iff)
  then show l: "uint (a - SDLVGA_BASE) < int ROWS * int COLS" by simp
  then have "uint (a - SDLVGA_BASE) < 2 ^ 31" by (simp add: ROWS_def COLS_def)
  then have "signed_take_bit 31 (uint (a - SDLVGA_BASE)) = uint (a - SDLVGA_BASE)"
    by (intro signed_take_bit_int_eq_self) (auto intro: order_trans [of _ 0])
  then show "sint (a - SDLVGA_BASE) = uint (a - SDLVGA_BASE)" by (simp add: sint_uint)
qed

lemma vga_update_same [simp]:
  "vga_data (vga_update s) = vga_data s" "vga_sprite (vga_update s) = vga_sprite s"
  "copies (vga_host (vga_update s)) = copies (vga_host s)"
  by (simp_all add: vga_update_def present_def gettimeofday_def Let_def split: prod.split)

lemma vga_write:
  assumes "a \<in> vga_window"
  shows "\<exists>t. sdlvga_op OP_WRITE a v s = Inr (0, v, t) \<and>
    vga_data t = (let k = unat (a - SDLVGA_BASE) in
      (vga_data s)(k div COLS := (vga_data s (k div COLS))(k mod COLS := v))) \<and>
    vga_sprite t = vga_sprite s \<and> (let k = unat (a - SDLVGA_BASE) in
    copies (vga_host t) = copies (vga_host s) @ [\<lparr>texture = vga_sprite s, src_x = 8 * (unat v mod 256),
      dst_x = 8 * (k mod COLS), dst_y = 12 * (k div COLS), extent = (8, 12)\<rparr>])"
proof -
  note o = vga_window_offset [OF assms]
  have "unat (ucast v :: u8) = unat v mod 256"
    by (simp add: unsigned_ucast_eq take_bit_eq_mod)
  then show ?thesis using o
    by (simp add: sdlvga_op_def Let_def put_character_def render_copy_def FONT_WIDTH_def FONT_HEIGHT_def mult.commute)
qed

lemma div_mod_inject: "(k :: nat) div c = l div c \<and> k mod c = l mod c \<longleftrightarrow> k = l"
  by (metis div_mult_mod_eq)

interpretation vga: word_store sdlvga_op "\<lambda>s. True" vga_window vga_peek
proof unfold_locales
  fix s a op v assume "a \<in> vga_window" and "op = OP_INSN_READ \<or> op = OP_DATA_READ"
  then show "\<exists>t. sdlvga_op op a v s = Inr (0, vga_peek s a, t) \<and> True \<and> (\<forall>b\<in>vga_window. vga_peek t b = vga_peek s b)"
    using vga_window_offset [of a] by (auto simp: sdlvga_op_def vga_peek_def Let_def)
next
  fix s a v assume a: "a \<in> vga_window"
  have "vga_peek t b = (if b = a then v else vga_peek s b)"
    if "vga_data t = (let k = unat (a - SDLVGA_BASE) in
      (vga_data s)(k div COLS := (vga_data s (k div COLS))(k mod COLS := v)))" for t b
  proof (cases "b = a")
    case False
    then have "unat (b - SDLVGA_BASE) \<noteq> unat (a - SDLVGA_BASE)" by (simp add: word_unat_eq_iff [symmetric])
    then have "unat (b - SDLVGA_BASE) div COLS \<noteq> unat (a - SDLVGA_BASE) div COLS \<or>
        unat (b - SDLVGA_BASE) mod COLS \<noteq> unat (a - SDLVGA_BASE) mod COLS"
      using div_mod_inject by blast
    then show ?thesis using False that by (simp add: vga_peek_def Let_def)
  qed (simp add: vga_peek_def that Let_def)
  then show "\<exists>t. sdlvga_op OP_WRITE a v s = Inr (0, v, t) \<and> True \<and>
      (\<forall>b\<in>vga_window. vga_peek t b = (if b = a then v else vga_peek s b))"
    using vga_write [OF a, of v s] by blast
qed

text \<open>The display never disagrees with the data.\<close>

lemma vga_shows_init: "sdlvga_init ok share s = Inr (rc, t) \<Longrightarrow> vga_shows t"
  by (auto simp: sdlvga_init_def bindE_eq_Inr gettimeofday_def vga_shows_def drawn_at_def Let_def split: if_splits)

lemma drawn_at_snoc:
  "drawn_at (cs @ [c]) x y = (if dst_x c = x \<and> dst_y c = y then Some c else drawn_at cs x y)"
  by (simp add: drawn_at_def)

lemma vga_shows_write:
  assumes "vga_shows s" and a: "a \<in> vga_window" and "sdlvga_op OP_WRITE a v s = Inr (rc, d, t)"
  shows "vga_shows t"
proof -
  let ?k = "unat (a - SDLVGA_BASE)"
  have t: "vga_data t = (vga_data s)(?k div COLS := (vga_data s (?k div COLS))(?k mod COLS := v))"
    "vga_sprite t = vga_sprite s"
    "copies (vga_host t) = copies (vga_host s) @ [\<lparr>texture = vga_sprite s, src_x = 8 * (unat v mod 256),
      dst_x = 8 * (?k mod COLS), dst_y = 12 * (?k div COLS), extent = (8, 12)\<rparr>]"
    using vga_write [OF a, of v s] assms(3) by (auto simp: Let_def)
  show ?thesis unfolding vga_shows_def
  proof (intro allI impI)
    fix row col assume rc: "row < ROWS" "col < COLS"
    have "case drawn_at (copies (vga_host s)) (8 * col) (12 * row) of
       None \<Rightarrow> vga_data s row col = 0
     | Some c \<Rightarrow> texture c = vga_sprite s \<and> src_x c = 8 * (unat (vga_data s row col) mod 256) \<and> dst_x c = 8 * col \<and>
         dst_y c = 12 * row"
      using assms(1) rc unfolding vga_shows_def by blast
    then show "case drawn_at (copies (vga_host t)) (8 * col) (12 * row) of
       None \<Rightarrow> vga_data t row col = 0
     | Some c \<Rightarrow> texture c = vga_sprite t \<and> src_x c = 8 * (unat (vga_data t row col) mod 256) \<and> dst_x c = 8 * col \<and>
         dst_y c = 12 * row"
      unfolding t drawn_at_snoc by (cases "row = ?k div COLS"; cases "col = ?k mod COLS") (simp_all cong: option.case_cong)
  qed
qed

lemma vga_shows_read:
  "op \<noteq> OP_WRITE \<Longrightarrow> sdlvga_op op a v s = Inr (rc, d, t) \<Longrightarrow> t = s"
  by (auto simp: sdlvga_op_def Let_def split: if_splits)

lemma vga_shows_pump:
  assumes "vga_shows s" and "sdlvga_pump s = Inr (rc, t)"
  shows "vga_shows t"
proof -
  obtain h where h: "pump (vga_status s) (vga_cycles s) (vga_host s) = Inr h"
    and t: "t = s\<lparr>vga_cycles := vga_cycles s + 1, vga_host := h\<rparr>"
    using assms(2) by (auto simp: sdlvga_pump_def bindE_eq_Inr)
  have "copies h = copies (vga_host s)"
    using h by (auto simp: pump_def poll_event_def split: if_splits list.splits)
  then have "copies (vga_host t) = copies (vga_host s)" "vga_data t = vga_data s" "vga_sprite t = vga_sprite s"
    by (simp_all add: t)
  then show ?thesis using assms(1) unfolding vga_shows_def by (simp only:)
qed

lemma vga_outside:
  assumes "a \<notin> vga_window"
  shows "sdlvga_op op a v s = Inr (0, v, s)"
proof -
  define x where "x = a - SDLVGA_BASE"
  have "\<not> (0 \<le> sint x \<and> sint x < int (ROWS * COLS))"
  proof
    assume b: "0 \<le> sint x \<and> sint x < int (ROWS * COLS)"
    have "sint x = uint x - 2 ^ 32 * of_bool (bit (uint x) 31)"
      using bintr_uint [where w = x and n = 32] by (simp add: sint_uint signed_take_bit_eq_take_bit_minus)
    then have "sint x = uint x" using b uint_lt2p [of x] by (cases "bit (uint x) 31") simp_all
    then have "int (unat x) < int 3200" using b by (simp add: ROWS_def COLS_def)
    then have u: "unat x < 3200" by (simp only: of_nat_less_iff)
    have "a = SDLVGA_BASE + x" by (simp add: x_def)
    moreover have "SDLVGA_BASE \<le> SDLVGA_BASE + x"
      using u by (simp add: word_le_nat_alt unat_word_ariths SDLVGA_BASE_def)
    ultimately have "a \<in> vga_window" using u by (simp add: vga_window_def ROWS_def COLS_def)
    then show False using assms by simp
  qed
  then show ?thesis unfolding sdlvga_op_def x_def [symmetric] Let_def by (simp only: if_False)
qed

text \<open>The states that accesses and clock ticks reach from the initial one.\<close>

inductive vga_reachable :: "sdl_setup \<Rightarrow> string option \<Rightarrow> sdlvga_state \<Rightarrow> bool" for ok share where
  vga_start: "sdlvga_init ok share s = Inr (rc, t) \<Longrightarrow> vga_reachable ok share t"
| vga_access: "vga_reachable ok share s \<Longrightarrow> sdlvga_op op a v s = Inr (rc, d, t) \<Longrightarrow> vga_reachable ok share t"
| vga_tick: "vga_reachable ok share s \<Longrightarrow> sdlvga_pump s = Inr (rc, t) \<Longrightarrow> vga_reachable ok share t"

lemma vga_reachable_shows: "vga_reachable ok share s \<Longrightarrow> vga_shows s"
proof (induction rule: vga_reachable.induct)
  case (vga_start s rc t)
  then show ?case by (rule vga_shows_init)
next
  case (vga_access s op a v rc d t)
  consider "op \<noteq> OP_WRITE" | "op = OP_WRITE" "a \<in> vga_window" | "a \<notin> vga_window" by blast
  then show ?case
  proof cases
    case 1
    then show ?thesis using vga_shows_read vga_access by blast
  next
    case 2
    then show ?thesis using vga_shows_write [OF vga_access.IH 2(2)] vga_access.hyps by simp
  next
    case 3
    then show ?thesis using vga_access by (simp add: vga_outside)
  qed
next
  case (vga_tick s rc t)
  then show ?case using vga_shows_pump by blast
qed

text \<open>The window of the device is larger than the screen: what is beyond reads as whatever the caller has there.\<close>

lemma vga_beyond:
  assumes "SDLVGA_BASE + 3200 \<le> a" and "a \<le> SDLVGA_BASE + 0xfff"
  shows "sdlvga_op op a v s = Inr (0, v, s)"
proof -
  define x where "x = a - SDLVGA_BASE"
  have "uint a = uint x + 0x10000" "3200 \<le> uint x" "uint x < 0x1000"
    using assms by (simp_all add: x_def SDLVGA_BASE_def word_le_def uint_word_ariths) 
  moreover have "sint x = uint x" using calculation by (simp add: sint_uint signed_take_bit_int_eq_self)
  ultimately show ?thesis by (simp add: sdlvga_op_def x_def [symmetric] Let_def ROWS_def COLS_def)
qed

text \<open>A host on which nothing happens, for examples.\<close>

definition idle_host :: host where
  "idle_host = \<lparr>host_clock = (\<lambda>_. 0), readings = 0, events = [], host_loads = (\<lambda>_. True), copies = [], front = []\<rparr>"

definition dark_led :: sdlled_state where
  "dark_led = \<lparr>led_data = [0, 0], led_status = STOPPED, led_digits = [], led_dots = [], led_times = (0, 0), led_cycles = 0,
     led_host = idle_host\<rparr>"

definition dark_screen :: sdlvga_state where
  "dark_screen = \<lparr>vga_data = (\<lambda>_ _. 0), vga_sprite = [], vga_status = STOPPED, vga_times = (0, 0), vga_cycles = 0,
     vga_host = idle_host\<rparr>"

end
