(* ===== verification/Web.thy ===== *)
theory Web
  imports Loads Build
begin

text \<open>
  The programs of the web build, \<^verbatim>\<open>src/ui/web/src/emtsim.c\<close> and \<^verbatim>\<open>src/ui/web/src/emtas.c\<close>: each is a
  \<open>main\<close> without options, over the text format.
\<close>

section \<open>emtsim.c\<close>

definition em_add :: "cookie device \<Rightarrow> cookie bus \<Rightarrow> (int \<times> cookie bus) res option" where
  "em_add d b =
     (case next_device None b of
        None \<Rightarrow> None
      | Some (index, b) \<Rightarrow> Some (bindE (put_device index d b) (\<lambda>b. Inr (index, b))))"

text \<open>\<open>dev\<close> is the pointer that was stored in the slot.\<close>

definition em_ready :: "int \<Rightarrow> cookie bus \<Rightarrow> cookie bus res" where
  "em_ready index b =
     (case devices b ! nat index of
        None \<Rightarrow> Inl (Undefined ''NULL device'')
      | Some d \<Rightarrow> bindE (dev_init d (cookie d)) (\<lambda>(_, c).
          Inr (b\<lparr>devices := (devices b)[nat index := Some (d\<lparr>cookie := c\<rparr>)]\<rparr>)))"

text \<open>The RAM is added twice; each is initialised when it is added and again by \<open>devices_finalise\<close>.\<close>

definition em_device_setup ::
  "cookie device option sorter \<Rightarrow> stdio \<Rightarrow> (u32 \<Rightarrow> u32) \<Rightarrow> (u32 \<Rightarrow> u32) \<Rightarrow> cookie bus res option" where
  "em_device_setup qs io junk1 junk2 =
     bindO (em_add (serial_device io) devices_setup) (\<lambda>(_, b).
     bindO (em_add (ram_device junk1) b) (\<lambda>(index, b).
     bindO (Some (em_ready index b)) (\<lambda>b.
     bindO (em_add (ram_device junk2) b) (\<lambda>(index, b).
     bindO (Some (em_ready index b)) (\<lambda>b.
       Some (bindE (devices_finalise qs b) (\<lambda>(_, b). Inr b)))))))"

text \<open>Both hooks return -1.\<close>

definition em_hook :: "'w hook" where
  "em_hook i s = Inr (-1, s)"

definition em_main ::
  "cookie device option sorter \<Rightarrow> (u32, cookie device option) searcher \<Rightarrow> stdio \<Rightarrow> (u32 \<Rightarrow> u32) \<Rightarrow> (u32 \<Rightarrow> u32) \<Rightarrow>
     u32 \<Rightarrow> element \<Rightarrow> string \<Rightarrow> (int \<times> cookie bus machine) res option" where
  "em_main qs bs io junk1 junk2 junk i input =
     bindO (em_device_setup qs io junk1 junk2) (\<lambda>b.
     bindO (load_sim (dispatch_op bs) text_in RAM_BASE (text_init input) i b) (\<lambda>(rc, b).
       if rc \<noteq> 0 then Some (Inl (Fatal ''Error while loading state into simulation''))
       else bindO (interp_run_sim (dispatch_op bs) junk \<lparr>pre_insn = Some em_hook, post_insn = Some em_hook\<rparr>
           (start_machine RAM_BASE b)) (\<lambda>(_, s). Some (Inr (0, s)))))"

section \<open>emtas.c\<close>

definition em_tas ::
  "(parse_data \<Rightarrow> (int \<times> parse_data) res option) \<Rightarrow> u32 \<Rightarrow> u8 list \<Rightarrow> (bool \<times> string) res option" where
  "em_tas parse junk after =
     bindO (do_assembly parse junk after (Some text_format) (text_init [])) (\<lambda>(rc, u). Some (Inr (rc, t_out u)))"

section \<open>The devices\<close>

text \<open>The serial port and two RAMs at the same addresses, in this order.\<close>

definition em_ram :: "cookie device \<Rightarrow> bool" where
  "em_ram d \<longleftrightarrow> bounds0 d = RAM_BASE \<and> bounds1 d = RAM_END \<and> dev_op d = on_ram \<and> ram_cookie_ok (cookie d)"

definition em_bus :: "cookie bus \<Rightarrow> bool" where
  "em_bus b \<longleftrightarrow> (\<exists>s d d'. devices b = [Some s, Some d, Some d'] \<and> bounds1 s < RAM_BASE \<and> em_ram d \<and> em_ram d')"

lemma ram_init_again: "ram_ok (ram_init junk (Some r)) = ram_ok r"
  by (simp add: ram_ok_def ram_init_def)

context tsim_bus
begin

lemma em_order:
  assumes "em_ram r" "em_ram r'" "dev_init r = ram_init_cookie j" "dev_init r' = ram_init_cookie j'"
  shows "\<exists>d d'. qs compare_devices_by_base [Some (serial_device io), Some r, Some r'] = [Some (serial_device io), Some d, Some d'] \<and>
    {d, d'} \<subseteq> {r, r'}"
proof -
  let ?s = "Some (serial_device io)" and ?a = "Some r" and ?b = "Some r'"
  let ?l = "qs compare_devices_by_base [?s, ?a, ?b]"
  have m: "mset ?l = {#?s, ?a, ?b#}" using qsort_mset [of compare_devices_by_base "[?s, ?a, ?b]"] by simp
  then have "size (mset ?l) = 3" by simp
  then have "length ?l = 3" by (simp only: size_mset)
  then obtain x y z where l: "?l = [x, y, z]" by (auto simp: length_Suc_conv numeral_3_eq_3)
  have "preorder_on (set [?s, ?a, ?b]) compare_devices_by_base"
    using assms(1,2) by (intro compare_low_preorder)
      (auto simp: low_base_def em_ram_def serial_device_def RAM_BASE_def SERIAL_BASE_def)
  then have "sorted_wrt (\<lambda>a b. compare_devices_by_base a b \<le> 0) ?l" by (rule qsort_sorted)
  then have st: "compare_devices_by_base x y \<le> 0" "compare_devices_by_base x z \<le> 0" by (simp_all add: l)
  have c: "compare_devices_by_base ?a ?s = 4064" "compare_devices_by_base ?b ?s = 4064"
    using assms(1,2) by (simp_all add: compare_devices_by_base_def em_ram_def serial_device_def RAM_BASE_def SERIAL_BASE_def)
  have m3: "{#x, y, z#} = {#?s, ?a, ?b#}" using m by (simp only: l mset.simps)
  have set3: "{x, y, z} = {?s, ?a, ?b}" using arg_cong [OF m3, of set_mset] by simp
  have x: "x = ?s"
  proof (rule ccontr)
    assume n: "x \<noteq> ?s"
    have "x \<in> {?s, ?a, ?b}" "?s \<in> {x, y, z}" using set3 by blast+
    then have "x = ?a \<or> x = ?b" "y = ?s \<or> z = ?s" using n by blast+
    then have "compare_devices_by_base ?a ?s \<le> 0 \<or> compare_devices_by_base ?b ?s \<le> 0" using st by blast
    then show False unfolding c by simp
  qed
  then have "{#y, z#} = {#?a, ?b#}" using m3 by simp
  from arg_cong [OF this, of set_mset] have "{y, z} = {?a, ?b}" by simp
  then have "y = ?a \<and> z = ?b \<or> y = ?b \<and> z = ?a" by (simp only: doubleton_eq_iff)
  then show ?thesis unfolding l x by blast
qed

lemma em_setup: "\<exists>b. em_device_setup qs io junk1 junk2 = Some (Inr b) \<and> em_bus b"
proof -
  let ?r = "\<lambda>j. (ram_device j)\<lparr>cookie := Ram (ram_init j None)\<rparr>"
  have r: "em_ram (?r j)" "dev_init (?r j) = ram_init_cookie j" for j
    by (simp_all add: em_ram_def ram_device_def ram_cookie_ok_def ram_init_ok)
  obtain d d' where o: "qs compare_devices_by_base [Some (serial_device io), Some (?r junk1), Some (?r junk2)] =
      [Some (serial_device io), Some d, Some d']" "{d, d'} \<subseteq> {?r junk1, ?r junk2}"
    using em_order [OF r(1) r(1) r(2) r(2), of io junk1 junk2] by (elim exE conjE)
  have again: "\<exists>c. dev_init d (cookie d) = Inr (0, c) \<and> em_ram (d\<lparr>cookie := c\<rparr>)" if "d \<in> {?r junk1, ?r junk2}" for d
  proof -
    have "\<exists>c. dev_init (?r j) (cookie (?r j)) = Inr (0, c) \<and> em_ram ((?r j)\<lparr>cookie := c\<rparr>)" for j
      by (intro exI [of _ "Ram (ram_init j (Some (ram_init j None)))"] conjI)
        (simp_all add: ram_device_def ram_init_cookie_def em_ram_def ram_cookie_ok_def ram_init_again ram_init_ok)
    then have all: "\<forall>d\<in>{?r junk1, ?r junk2}. \<exists>c. dev_init d (cookie d) = Inr (0, c) \<and> em_ram (d\<lparr>cookie := c\<rparr>)"
      by (simp only: ball_simps simp_thms)
    show ?thesis by (rule bspec [OF all that])
  qed
  obtain c c' where "dev_init d (cookie d) = Inr (0, c)" "em_ram (d\<lparr>cookie := c\<rparr>)"
    "dev_init d' (cookie d') = Inr (0, c')" "em_ram (d'\<lparr>cookie := c'\<rparr>)"
    using again [of d] again [of d'] o(2) by auto
  moreover have "bounds1 (serial_device io) < RAM_BASE" "dev_init (serial_device io) (cookie (serial_device io)) = Inr (0, cookie (serial_device io))"
    by (simp_all add: serial_device_def RAM_BASE_def SERIAL_BASE_def)
  moreover have "dev_init (ram_device j) (cookie (ram_device j)) = Inr (0, Ram (ram_init j None))" for j
    by (simp add: ram_device_def ram_init_cookie_def)
  ultimately show ?thesis
    by (simp add: em_device_setup_def em_add_def em_ready_def next_device_small devices_setup_def slots_of_def put_device_def devices_finalise_def o(1)
        em_bus_def)
qed

text \<open>An access to the RAM is done by one of the two.\<close>

lemma em_dispatch:
  assumes b: "em_bus b" and a: "a \<in> ram_window" and op: "op = OP_WRITE \<or> op = OP_INSN_READ \<or> op = OP_DATA_READ"
  shows "\<exists>v' b'. dispatch_op bs op a v b = Inr (0, v', b') \<and> em_bus b' \<and> (op = OP_WRITE \<longrightarrow> v' = v)"
proof -
  obtain s d d' where ds: "devices b = [Some s, Some d, Some d']" "bounds1 s < RAM_BASE" "em_ram d" "em_ram d'"
    using b by (auto simp: em_bus_def)
  have w: "RAM_BASE \<le> a" "a \<le> RAM_END" using a by (simp_all add: ram_window_def)
  then have f: "find_device_by_addr a (Some s) = 1" "find_device_by_addr a (Some d) = 0" "find_device_by_addr a (Some d') = 0"
    using ds(2-4) by (auto simp: find_device_by_addr_def em_ram_def not_le)
  have "partitioned find_device_by_addr a (devices b)" by (simp add: partitioned_def ds(1) f)
  then obtain i where i: "bs find_device_by_addr a (devices b) = Some i"
    using bsearch_None [of find_device_by_addr a "devices b"] f ds(1) by (cases "bs find_device_by_addr a (devices b)") auto
  have "i < length (devices b)" "find_device_by_addr a (devices b ! i) = 0" using bsearch_Some [OF i] by blast+
  then have i12: "i = 1 \<or> i = 2" using f(1) by (auto simp: ds(1) less_Suc_eq)
  have dd: "\<exists>v' c. dev_op e op a v (cookie e) = Inr (0, v', c) \<and> em_ram (e\<lparr>cookie := c\<rparr>) \<and> (op = OP_WRITE \<longrightarrow> v' = v)"
    if e: "em_ram e" for e
  proof -
    have k: "ram_cookie_ok (cookie e)" "dev_op e = on_ram" using e by (simp_all add: em_ram_def)
    have "\<exists>v' c. on_ram op a v (cookie e) = Inr (0, v', c) \<and> ram_cookie_ok c \<and> (op = OP_WRITE \<longrightarrow> v' = v)"
      using ram.store [OF k(1) a, of v] ram.read [OF k(1) a, of op v] op by auto
    then show ?thesis using e k by (auto simp: em_ram_def)
  qed
  show ?thesis
  proof (cases "i = 1")
    case True
    then show ?thesis using dd [OF ds(3)] i ds by (auto simp: dispatch_op_def em_bus_def)
  next
    case False
    then have "i = 2" using i12 by simp
    then show ?thesis using dd [OF ds(4)] i ds by (auto simp: dispatch_op_def em_bus_def)
  qed
qed

lemma em_load:
  assumes "feeds f_in ud i es" and "em_bus b" and "\<forall>e\<in>set es. RAM_BASE + e_reladdr e \<in> ram_window"
  shows "\<exists>b'. load_sim (dispatch_op bs) f_in RAM_BASE ud i b = Some (Inr (0, b')) \<and> em_bus b'"
  using assms
proof (induction arbitrary: b rule: feeds.induct)
  case (feeds_end ud i rc i' ud')
  then show ?case by (subst load_sim.simps) auto
next
  case (feeds_more ud i rc e ud' es)
  have a: "RAM_BASE + e_reladdr e \<in> ram_window" using feeds_more.prems(2) by simp
  obtain b1 where b1: "dispatch_op bs OP_WRITE (RAM_BASE + e_reladdr e) (e_word e) b = Inr (0, e_word e, b1)" "em_bus b1"
    using em_dispatch [OF feeds_more.prems(1) a, of OP_WRITE "e_word e"] by auto
  show ?case using feeds_more.IH [OF b1(2)] feeds_more.prems(2) feeds_more.hyps(1,2) b1(1)
    by (subst load_sim.simps) simp
qed

lemma em_runs_nothing:
  assumes "length (concat (map words_of es)) \<le> 0x3000"
  shows "\<exists>m. em_main qs bs io junk1 junk2 junk i (t_out (text_out_all es (text_init []))) = Some (Inr (0, m)) \<and>
    regs m = (\<lambda>_. 0)(15 := RAM_BASE) \<and> insns_executed m = 0"
proof -
  let ?ws = "concat (map words_of es)" and ?input = "t_out (text_out_all es (text_init []))"
  obtain b where b: "em_device_setup qs io junk1 junk2 = Some (Inr b)" "em_bus b" using em_setup by blast
  have "?input = concat (map text_line ?ws)" by (simp add: text_out_all_lines text_init_def)
  then have fd: "feeds text_in (text_init ?input) i (numbered i 0 ?ws)"
    using feeds_text by (simp add: text_init_def)
  have "RAM_BASE + of_nat k \<in> ram_window" if "k < length ?ws" for k
    using that assms by (simp add: ram_window_def ram_consts word_le_nat_alt unat_word_ariths unat_of_nat)
  then have "\<forall>e\<in>set (numbered i 0 ?ws). RAM_BASE + e_reladdr e \<in> ram_window"
    using numbered_addresses [of _ i 0 ?ws] by force
  then obtain b' where b': "load_sim (dispatch_op bs) text_in RAM_BASE (text_init ?input) i b = Some (Inr (0, b'))" "em_bus b'"
    using em_load [OF fd b(2)] by blast
  have "RAM_BASE \<in> ram_window" by (simp add: ram_window_def ram_consts)
  then obtain v b2 where b2: "dispatch_op bs OP_INSN_READ RAM_BASE 0 b' = Inr (0, v, b2)"
    using em_dispatch [OF b'(2), of RAM_BASE OP_INSN_READ 0] by auto
  have "RAM_BASE \<noteq> 0xffffffff" by (simp add: ram_consts)
  then have "interp_run_sim (dispatch_op bs) junk \<lparr>pre_insn = Some em_hook, post_insn = Some em_hook\<rparr>
      (start_machine RAM_BASE b') = Some (Inr (0, (start_machine RAM_BASE b')\<lparr>world := b2\<rparr>))"
    by (subst interp_run_sim.simps) (simp add: insn_step_def start_machine_def b2 call_hook_def em_hook_def Let_def)
  then show ?thesis by (simp add: em_main_def b b' start_machine_def)
qed

end

end
