(* ===== verification/Slaves.thy ===== *)
theory Slaves
  imports Spi Plugins Param
begin

text \<open>
  How \<^verbatim>\<open>src/devices/spi.c\<close> finds its slaves: the parameters \<open>spi[N]\<close>, the callbacks looked up by
  name (\<open>plugin_success\<close>, here \<open>spi_attach\<close>), the parameters of a slave under a prefix, and the end of
  the device (\<open>spi_emu_fini\<close>).  The symbols of the libraries are an argument.
\<close>

section \<open>The parameters of a slave\<close>

text \<open>The operations that a \<open>plugin_cookie\<close> offers on parameters of type \<open>'p\<close>.\<close>

record 'p guest_ops =
  g_param_get :: "'p \<Rightarrow> string \<Rightarrow> nat \<Rightarrow> nat \<times> string list"
  g_param_set :: "'p \<Rightarrow> string \<Rightarrow> bool \<Rightarrow> string \<Rightarrow> bool \<Rightarrow> (int \<times> 'p) option res"

definition prefixed :: "string \<Rightarrow> string \<Rightarrow> string" where
  "prefixed prefix key = take 255 (prefix @ ''.'' @ key)"

definition wrapped_param_get ::
  "string \<Rightarrow> 'p guest_ops \<Rightarrow> 'p \<Rightarrow> string \<Rightarrow> nat \<Rightarrow> nat \<times> string list" where
  "wrapped_param_get prefix g p key n = g_param_get g p (prefixed prefix key) n"

text \<open>The key is freed whether or not it was allocated (\<open>allocated\<close>).\<close>

definition wrapped_param_set ::
  "string \<Rightarrow> 'p guest_ops \<Rightarrow> 'p \<Rightarrow> string \<Rightarrow> bool \<Rightarrow> string \<Rightarrow> bool \<Rightarrow> (int \<times> 'p) option res" where
  "wrapped_param_set prefix g p key allocated val replace =
     (if allocated then g_param_set g p (prefixed prefix key) True val replace
      else Inl (Undefined ''free of a string that was not allocated''))"

definition wrapped :: "string \<Rightarrow> 'p guest_ops \<Rightarrow> 'p guest_ops" where
  "wrapped prefix g = \<lparr>g_param_get = wrapped_param_get prefix g, g_param_set = wrapped_param_set prefix g\<rparr>"

section \<open>Attaching a slave\<close>

text \<open>What \<open>dlsym\<close> finds under a name, for each of the four types of callback.\<close>

record ('h, 'p, 'k) spi_symbols =
  sym_clock :: "'h option \<Rightarrow> string \<Rightarrow> ('k \<Rightarrow> int \<Rightarrow> int \<Rightarrow> int \<Rightarrow> (int \<times> int \<times> 'k) res) option"
  sym_init :: "'h option \<Rightarrow> string \<Rightarrow> ('p guest_ops \<Rightarrow> 'k \<times> 'p \<Rightarrow> (int \<times> 'k \<times> 'p) res) option"
  sym_select :: "'h option \<Rightarrow> string \<Rightarrow> ('k \<Rightarrow> int \<Rightarrow> (int \<times> 'k) res) option"
  sym_fini :: "'h option \<Rightarrow> string \<Rightarrow> ('k \<Rightarrow> (int \<times> 'k) res) option"

text \<open>The state of the device, the \<open>fini\<close> callbacks of its slaves, and the parameters.\<close>

record ('p, 'k) success_box =
  box_spi :: "'k spi_state"
  box_finis :: "('k \<Rightarrow> (int \<times> 'k) res) option list"
  box_params :: 'p

definition symbol_of :: "string \<Rightarrow> string \<Rightarrow> string" where
  "symbol_of stem name = take 63 (stem @ ''_spi_'' @ name)"

definition with_callbacks ::
  "nat \<Rightarrow> 'k spi_ops \<Rightarrow> ('k \<Rightarrow> (int \<times> 'k) res) option \<Rightarrow> ('p, 'k) success_box \<Rightarrow> ('p, 'k) success_box" where
  "with_callbacks inst ops fini box =
     box\<lparr>box_spi := box_spi box\<lparr>impls := (impls (box_spi box))[inst := ops]\<rparr>,
         box_finis := (box_finis box)[inst := fini]\<rparr>"

definition spi_attach ::
  "('h, 'p, 'k) spi_symbols \<Rightarrow> 'p guest_ops \<Rightarrow> 'h option \<Rightarrow> nat \<Rightarrow> string \<Rightarrow> string option \<Rightarrow>
     ('p, 'k) success_box \<Rightarrow> ('p, 'k) success_box res" where
  "spi_attach dls g lib inst parent implstem box =
     (case implstem of
        None \<Rightarrow> Inl (Undefined ''null string'')
      | Some stem \<Rightarrow>
          if NINST \<le> inst then Inl (Undefined ''more slaves than the array holds'')
          else case sym_clock dls lib (symbol_of stem ''clock'') of
            None \<Rightarrow> Inl (Fatal ''Failed to locate SPI clock cb'')
          | Some clock \<Rightarrow>
              let box = with_callbacks inst
                    \<lparr>spi_select = sym_select dls lib (symbol_of stem ''select''), spi_clock = Some clock\<rparr>
                    (sym_fini dls lib (symbol_of stem ''fini'')) box
              in case sym_init dls lib (symbol_of stem ''init'') of
                   None \<Rightarrow> Inr box
                 | Some init \<Rightarrow>
                     bindE (init (wrapped (take 31 (parent @ ''.'' @ stem)) g)
                         (impl_cookies (box_spi box) ! inst, box_params box)) (\<lambda>(_, c, p).
                       Inr (box\<lparr>box_spi := set_cookie inst c (box_spi box), box_params := p\<rparr>)))"

section \<open>The device\<close>

text \<open>\<open>calloc\<close>: no callbacks, and NULL cookies.\<close>

definition no_slave :: "'k spi_ops" where
  "no_slave = \<lparr>spi_select = None, spi_clock = None\<rparr>"

definition empty_box :: "'k \<Rightarrow> 'p \<Rightarrow> ('p, 'k) success_box" where
  "empty_box null p = \<lparr>box_spi = Spi.spi_emu_init (replicate NINST no_slave) (replicate NINST null),
     box_finis = replicate NINST None, box_params = p\<rparr>"

definition spi_emu_load ::
  "('h, 'p, 'k) spi_symbols \<Rightarrow> (string \<Rightarrow> 'h option) \<Rightarrow> 'p guest_ops \<Rightarrow> 'k \<Rightarrow> 'p \<Rightarrow>
     (int \<times> ('p, 'k) success_box) res option" where
  "spi_emu_load dls dlopen g null p =
     plugin_load_all (g_param_get g p) dlopen (spi_attach dls g) '''' None ''spi'' (empty_box null p)"

text \<open>What the callbacks return is only logged.\<close>

definition fini_turn ::
  "nat \<Rightarrow> ('p, 'k) success_box \<Rightarrow> ('p, 'k) success_box res" where
  "fini_turn inst box =
     (case box_finis box ! inst of
        None \<Rightarrow> Inr box
      | Some fini \<Rightarrow> bindE (fini (impl_cookies (box_spi box) ! inst)) (\<lambda>(_, c).
          Inr (box\<lparr>box_spi := set_cookie inst c (box_spi box)\<rparr>)))"

definition spi_emu_fini :: "('p, 'k) success_box \<Rightarrow> int res" where
  "spi_emu_fini box = bindE (foldE fini_turn [0..<NINST] box) (\<lambda>_. Inr 0)"

text \<open>The parameters of the simulator.\<close>

definition param_ops :: "string param_state guest_ops" where
  "param_ops = \<lparr>g_param_get = param_get,
     g_param_set = (\<lambda>p key free_key val replace. Inr (param_set p key val replace))\<rparr>"

section \<open>What happens\<close>

text \<open>
  The paths are NULL, and the first name is looked for along them: a slave cannot be loaded, and the
  device starts only where none is named.
\<close>

lemma parent_key_spi: "parent_key ''spi'' 0 = ''spi[0]''"
  by (simp add: parent_key_def decimal_def digits.simps digit_def char_of_def bit_0)

lemma load_nowhere:
  "names \<noteq> [] \<Longrightarrow>
     foldE (load_impl pget dlopen success basepath None plug inst) names ud = Inl (Undefined ''null paths'')"
  by (cases names) (auto simp: load_impl_def Let_def split: prod.split)

lemma spi_emu_load_slave:
  assumes "g_param_get g p ''spi[0]'' 16 = (n, names)" and "n \<noteq> 0" and "names \<noteq> []"
  shows "spi_emu_load dls dlopen g null p = Some (Inl (Undefined ''null paths''))"
  by (subst spi_emu_load_def, subst plugin_load_all_def, subst plugin_load_from.simps)
    (simp add: parent_key_spi assms load_nowhere bindO_def)

lemma spi_emu_load_none:
  "fst (g_param_get g p ''spi[0]'' 16) = 0 \<Longrightarrow>
     spi_emu_load dls dlopen g null p = Some (Inr (0, empty_box null p))"
  unfolding spi_emu_load_def by (rule plugin_load_none) (simp add: parent_key_spi)

lemma spi_load_params:
  assumes "param_wf p"
  shows "spi_emu_load dls dlopen param_ops null p =
    (case param_map p ''spi[0]'' of
       None \<Rightarrow> Some (Inr (0, empty_box null p))
     | Some _ \<Rightarrow> Some (Inl (Undefined ''null paths'')))"
proof (cases "param_map p ''spi[0]''")
  case None
  then show ?thesis
    using assms by (simp add: spi_emu_load_none param_ops_def param_get_map)
next
  case (Some vs)
  then have "vs \<noteq> []" using assms by (force simp: param_map_def param_wf_def dest: map_of_SomeD)
  then show ?thesis
    using Some assms by (simp add: spi_emu_load_slave param_ops_def param_get_map)
qed

text \<open>Without slaves there is nothing to finish, and nothing on the pins: a cycle leaves the state.\<close>

lemma finis_empty:
  "\<forall>i\<in>set ns. box_finis box ! i = None \<Longrightarrow> foldE fini_turn ns box = Inr box"
  by (induction ns) (simp_all add: fini_turn_def)

lemma spi_emu_fini_empty: "spi_emu_fini (empty_box null p) = Inr 0"
  unfolding spi_emu_fini_def by (subst finis_empty) (simp_all add: empty_box_def)

lemma turns_empty:
  "\<forall>i\<in>set ns. spi_clock (impls s ! i) = None \<Longrightarrow> foldE (slave_turn ss width push) ns s = Inr s"
  by (induction ns) (simp_all add: slave_turn_def)

lemma transfer_never_ends:
  assumes "\<forall>i<NINST. spi_clock (impls s ! i) = None" and "push_of s = Inr push"
  shows "spi_slave_cycle s = Inr s"
  using assms unfolding spi_slave_cycle_def by (simp add: turns_empty)

text \<open>A slave that is attached has its callbacks, at its place.\<close>

lemma spi_attach_shape:
  assumes "spi_attach dls g lib inst parent (Some stem) box = Inr box'" and "length (impls (box_spi box)) = NINST"
  shows "inst < NINST" and "spi_clock (impls (box_spi box') ! inst) = sym_clock dls lib (symbol_of stem ''clock'')"
    and "spi_clock (impls (box_spi box') ! inst) \<noteq> None"
    and "i \<noteq> inst \<Longrightarrow> impls (box_spi box') ! i = impls (box_spi box) ! i"
proof -
  have k: "impls (set_cookie i c s) = impls s" for i c and s :: "'d spi_state" by (simp add: set_cookie_def)
  show i: "inst < NINST" using assms(1) by (simp add: spi_attach_def split: if_splits)
  obtain clock where c: "sym_clock dls lib (symbol_of stem ''clock'') = Some clock"
    using assms(1) i by (cases "sym_clock dls lib (symbol_of stem ''clock'')") (simp_all add: spi_attach_def)
  have b: "impls (box_spi box') = (impls (box_spi box))[inst :=
      \<lparr>spi_select = sym_select dls lib (symbol_of stem ''select''), spi_clock = Some clock\<rparr>]"
    using assms(1) i c
    by (auto simp: spi_attach_def with_callbacks_def Let_def bindE_eq_Inr k split: option.splits)
  show "spi_clock (impls (box_spi box') ! inst) = sym_clock dls lib (symbol_of stem ''clock'')"
    "spi_clock (impls (box_spi box') ! inst) \<noteq> None" using b c i assms(2) by simp_all
  show "i \<noteq> inst \<Longrightarrow> impls (box_spi box') ! i = impls (box_spi box) ! i" using b by simp
qed

end
