(* ===== verification/Jit.thy ===== *)
theory Jit
  imports Run
begin

unbundle bit_operations_syntax

text \<open>
  The just-in-time compiler of \<^verbatim>\<open>src/jit.cc\<close>: the x86 instructions that \<open>buildOp\<close>,
  \<open>buildInstruction\<close> and \<open>jit_gen_block\<close> give to the assembler, and that a block of them does what the
  interpreter does with the words it was made from.  The assembler is not part of the repository; what its
  instructions do is the documentation of the processor.
\<close>

section \<open>The instructions\<close>

text \<open>The variables of one \<open>buildInstruction\<close>, and the conditions of \<open>cmov\<close>.\<close>

datatype jvar = V_tmp | V_x | V_y | V_i

datatype x86_cond = C_nz | C_l | C_e | C_ge

datatype x86 =
    X_load jvar "4 word"          \<comment> \<open>\<open>mov v, Reg(n)\<close>\<close>
  | X_save "4 word" jvar          \<comment> \<open>\<open>mov Reg(n), v\<close>\<close>
  | X_mov jvar jvar | X_movi jvar u32
  | X_add jvar jvar | X_addi jvar u32 | X_sub jvar jvar | X_imul jvar jvar
  | X_not jvar | X_and jvar jvar | X_andi jvar u32 | X_or jvar jvar | X_xor jvar jvar
  | X_shr jvar jvar | X_sar jvar jvar | X_sal jvar jvar | X_shli jvar nat
  | X_bt jvar jvar | X_sbb jvar jvar | X_cmp jvar jvar | X_cmov x86_cond jvar jvar
  | X_store jvar jvar             \<comment> \<open>\<open>create_store\<close>: address, data\<close>
  | X_fetch jvar jvar             \<comment> \<open>\<open>create_fetch\<close>: address, data\<close>

text \<open>The flags: zero, carry, and whether sign and overflow differ.\<close>

record flags =
  f_zero :: bool
  f_carry :: bool
  f_less :: bool

record 'w native =
  n_var :: "jvar \<Rightarrow> u32"
  n_flags :: flags
  n_regs :: "4 word \<Rightarrow> u32"
  n_world :: 'w

definition set_var :: "jvar \<Rightarrow> u32 \<Rightarrow> flags \<Rightarrow> 'w native \<Rightarrow> 'w native" where
  "set_var v x f s = s\<lparr>n_var := (n_var s)(v := x), n_flags := f\<rparr>"

definition holds_cond :: "x86_cond \<Rightarrow> flags \<Rightarrow> bool" where
  "holds_cond c f = (case c of C_nz \<Rightarrow> \<not> f_zero f | C_l \<Rightarrow> f_less f | C_e \<Rightarrow> f_zero f | C_ge \<Rightarrow> \<not> f_less f)"

definition and_flags :: "u32 \<Rightarrow> flags" where
  "and_flags x = \<lparr>f_zero = (x = 0), f_carry = False, f_less = (x <s 0)\<rparr>"

text \<open>
  \<open>fetch\<close> and \<open>store\<close>, called with the simulator: what the dispatcher returns is not looked at.
  \<open>junk\<close> is the uninitialised word of \<open>fetch\<close>; \<open>u\<close> stands for flags that no later instruction reads.
  Shifts use the low five bits of their count.
\<close>

definition jit_fetch :: "'w dispatcher \<Rightarrow> u32 \<Rightarrow> u32 \<Rightarrow> 'w \<Rightarrow> (u32 \<times> 'w) res" where
  "jit_fetch D junk addr w = bindE (D OP_DATA_READ addr junk w) (\<lambda>(_, data, w). Inr (data, w))"

definition jit_store :: "'w dispatcher \<Rightarrow> u32 \<Rightarrow> u32 \<Rightarrow> 'w \<Rightarrow> 'w res" where
  "jit_store D addr value w = bindE (D OP_WRITE addr value w) (\<lambda>(_, _, w). Inr w)"

definition native_step :: "'w dispatcher \<Rightarrow> u32 \<Rightarrow> flags \<Rightarrow> x86 \<Rightarrow> 'w native \<Rightarrow> 'w native res" where
  "native_step D junk u i s =
     (let v = n_var s; f = n_flags s; count = (\<lambda>b. unat (v b AND 31)) in
      case i of
        X_load a n \<Rightarrow> Inr (set_var a (n_regs s n) f s)
      | X_save n a \<Rightarrow> Inr (s\<lparr>n_regs := (n_regs s)(n := v a)\<rparr>)
      | X_mov a b \<Rightarrow> Inr (set_var a (v b) f s)
      | X_movi a k \<Rightarrow> Inr (set_var a k f s)
      | X_add a b \<Rightarrow> Inr (set_var a (v a + v b) u s)
      | X_addi a k \<Rightarrow> Inr (set_var a (v a + k) u s)
      | X_sub a b \<Rightarrow> Inr (set_var a (v a - v b) u s)
      | X_imul a b \<Rightarrow> Inr (set_var a (v a * v b) u s)
      | X_not a \<Rightarrow> Inr (set_var a (NOT (v a)) f s)
      | X_and a b \<Rightarrow> Inr (set_var a (v a AND v b) (and_flags (v a AND v b)) s)
      | X_andi a k \<Rightarrow> Inr (set_var a (v a AND k) (and_flags (v a AND k)) s)
      | X_or a b \<Rightarrow> Inr (set_var a (v a OR v b) u s)
      | X_xor a b \<Rightarrow> Inr (set_var a (v a XOR v b) u s)
      | X_shr a b \<Rightarrow> Inr (set_var a (drop_bit (count b) (v a)) u s)
      | X_sar a b \<Rightarrow> Inr (set_var a (signed_drop_bit (count b) (v a)) u s)
      | X_sal a b \<Rightarrow> Inr (set_var a (push_bit (count b) (v a)) u s)
      | X_shli a k \<Rightarrow> Inr (set_var a (push_bit k (v a)) u s)
      | X_bt a b \<Rightarrow> Inr (s\<lparr>n_flags := u\<lparr>f_carry := bit (v a) (count b)\<rparr>\<rparr>)
      | X_sbb a b \<Rightarrow> Inr (set_var a (v a - v b - (if f_carry f then 1 else 0)) u s)
      | X_cmp a b \<Rightarrow> Inr (s\<lparr>n_flags := \<lparr>f_zero = (v a = v b), f_carry = v a < v b, f_less = (v a <s v b)\<rparr>\<rparr>)
      | X_cmov c a b \<Rightarrow> Inr (if holds_cond c f then set_var a (v b) f s else s)
      | X_store a b \<Rightarrow> bindE (jit_store D (v a) (v b) (n_world s)) (\<lambda>w. Inr (s\<lparr>n_flags := u, n_world := w\<rparr>))
      | X_fetch a b \<Rightarrow> bindE (jit_fetch D junk (v a) (n_world s)) (\<lambda>(data, w).
          Inr (set_var b data u (s\<lparr>n_world := w\<rparr>))))"

definition native_run :: "'w dispatcher \<Rightarrow> u32 \<Rightarrow> flags \<Rightarrow> x86 list \<Rightarrow> 'w native \<Rightarrow> 'w native res" where
  "native_run D junk u code s = foldE (native_step D junk u) code s"

section \<open>The compiler\<close>

primrec op_x86 :: "opcode \<Rightarrow> jvar \<Rightarrow> jvar \<Rightarrow> jvar \<Rightarrow> x86 list" where
  "op_x86 OP_ADD T A B = [X_add A B]"
| "op_x86 OP_SUBTRACT T A B = [X_sub A B]"
| "op_x86 OP_BITWISE_ANDN T A B = [X_not B, X_and A B]"
| "op_x86 OP_BITWISE_AND T A B = [X_and A B]"
| "op_x86 OP_BITWISE_ORN T A B = [X_not B, X_or A B]"
| "op_x86 OP_BITWISE_OR T A B = [X_or A B]"
| "op_x86 OP_BITWISE_XOR T A B = [X_xor A B]"
| "op_x86 OP_MULTIPLY T A B = [X_imul A B]"
| "op_x86 OP_SHIFT_RIGHT_LOGIC T A B = [X_shr A B, X_andi B (NOT 31), X_movi T 0, X_cmov C_nz A T]"
| "op_x86 OP_SHIFT_RIGHT_ARITH T A B =
     [X_mov T B, X_andi T (NOT 31), X_movi T 31, X_cmov C_nz B T, X_sar A B]"
| "op_x86 OP_SHIFT_LEFT T A B = [X_sal A B, X_andi B (NOT 31), X_movi T 0, X_cmov C_nz A T]"
| "op_x86 OP_PACK T A B = [X_shli A 12, X_andi B 0xfff, X_or A B]"
| "op_x86 OP_TEST_BIT T A B = [X_bt A B, X_movi A 0, X_sbb A A]"
| "op_x86 OP_COMPARE_LT T A B = [X_movi T (-1), X_cmp A B, X_movi A 0, X_cmov C_l A T]"
| "op_x86 OP_COMPARE_EQ T A B = [X_movi T (-1), X_cmp A B, X_movi A 0, X_cmov C_e A T]"
| "op_x86 OP_COMPARE_GE T A B = [X_movi T (-1), X_cmp A B, X_movi A 0, X_cmov C_ge A T]"

definition buildOp :: "nat \<Rightarrow> jvar \<Rightarrow> jvar \<Rightarrow> jvar \<Rightarrow> x86 list res" where
  "buildOp op T A B =
     (case op_of_code op of None \<Rightarrow> Inl (Assert ''Bad op'') | Some g \<Rightarrow> Inr (op_x86 g T A B))"

text \<open>Register \<open>P\<close> in memory is the address of the block, so the offset is added where it is read.\<close>

definition read_reg :: "jvar \<Rightarrow> 4 word \<Rightarrow> u32 \<Rightarrow> x86 list" where
  "read_reg v n offset =
     (if n = 0 then [X_xor v v]
      else X_load v n # (if n = 15 then [X_addi v (offset + 1)] else []))"

definition save_result :: "u32 \<Rightarrow> jvar \<Rightarrow> x86 list" where
  "save_result w a =
     (let z = insn_z w in
      if insn_dd w = 0 then (if z \<noteq> 0 then [X_save z a] else [])
      else if insn_dd w = 1 then [X_load V_tmp z, X_store a V_tmp]
      else if insn_dd w = 2 then [X_load V_tmp z, X_store V_tmp a]
      else X_fetch a V_tmp # (if z \<noteq> 0 then [X_save z V_tmp] else []))"

definition buildInstruction :: "u32 \<Rightarrow> u32 \<Rightarrow> x86 list res" where
  "buildInstruction w offset =
     (let x = read_reg V_x (insn_x w) offset in
      if insn_p w = 3 then
        Inr (x @ [X_addi V_x (SEXTEND32 20 (ucast (insn_imm20 w)))] @ save_result w V_x)
      else
        let (a, b, c) = (if insn_p w = 0 then (V_x, V_y, V_i)
                         else if insn_p w = 1 then (V_x, V_i, V_y)
                         else (V_i, V_x, V_y))
        in bindE (buildOp (unat (insn_op w)) V_tmp a b) (\<lambda>f.
             Inr (x @ read_reg V_y (insn_y w) offset @ [X_movi V_i (SEXTEND32 12 (ucast (insn_imm12 w)))]
               @ f @ [X_add a c] @ save_result w a)))"

fun gen_from :: "u32 \<Rightarrow> u32 list \<Rightarrow> x86 list res" where
  "gen_from offset [] = Inr []"
| "gen_from offset (w # ws) =
     bindE (buildInstruction w offset) (\<lambda>c. bindE (gen_from (offset + 1) ws) (\<lambda>cs. Inr (c @ cs)))"

definition jit_gen_block :: "u32 list \<Rightarrow> x86 list res" where
  "jit_gen_block ws = gen_from 0 ws"

section \<open>One operation\<close>

definition alu_word :: "opcode \<Rightarrow> u32 \<Rightarrow> u32 \<Rightarrow> u32" where
  "alu_word g a b = word_of_int (alu g (sint a) (sint b))"

lemma native_run_simps [simp]:
  "native_run D junk u [] s = Inr s"
  "native_run D junk u (i # is') s = bindE (native_step D junk u i s) (native_run D junk u is')"
  by (simp_all add: native_run_def fun_eq_iff) (rule bindE_cong; simp add: native_run_def)

lemma native_run_append:
  "native_run D junk u (c @ d) s = bindE (native_run D junk u c s) (native_run D junk u d)"
  by (simp add: native_run_def foldE_append) (rule bindE_cong; simp add: native_run_def)

lemma set_var_simps [simp]:
  "n_var (set_var v x f s) = (n_var s)(v := x)" "n_flags (set_var v x f s) = f"
  "n_regs (set_var v x f s) = n_regs s" "n_world (set_var v x f s) = n_world s"
  by (simp_all add: set_var_def)

lemma low_five:
  assumes "b < (32 :: u32)"
  shows "b AND 31 = b" and "b AND NOT 31 = 0"
proof -
  have m: "(31 :: u32) = mask 5" by (simp add: mask_eq_exp_minus_1)
  have "unat b < 32" using assms by (simp add: word_less_nat_alt)
  then have "take_bit 5 (unat b) = unat b" by (simp add: take_bit_nat_eq_self)
  then have "unat (take_bit 5 b) = unat b" by (simp only: unsigned_take_bit_eq)
  then have t: "take_bit 5 b = b" by (simp only: word_unat_eq_iff)
  show "b AND 31 = b" by (simp only: m take_bit_eq_mask [symmetric] t)
  have "take_bit 5 b AND NOT (mask 5) = 0" by (rule bit_word_eqI) (simp add: bit_simps)
  then show "b AND NOT 31 = 0" by (simp only: m t)
qed

lemma op_computes:
  assumes "shift_like g \<Longrightarrow> n_var s B < 32" and "distinct [T, A, B]"
  shows "\<exists>s'. native_run D junk u (op_x86 g T A B) s = Inr s' \<and>
    n_var s' A = alu_word g (n_var s A) (n_var s B) \<and> n_regs s' = n_regs s \<and> n_world s' = n_world s \<and>
    (\<forall>v. v \<notin> {T, A, B} \<longrightarrow> n_var s' v = n_var s v)"
proof -
  have n: "T \<noteq> A" "T \<noteq> B" "A \<noteq> B" "B \<noteq> T" "B \<noteq> A" "A \<noteq> T" using assms(2) by auto
  have s: "shift_like g \<Longrightarrow> unat (n_var s B) < 32" using assms(1) by (simp add: word_less_nat_alt)
  note defs = native_step_def Let_def alu_word_def holds_cond_def and_flags_def n
  show ?thesis
  proof (cases "shift_like g")
    case True
    have b: "bit (sint (n_var s A)) (nat (sint (n_var s B))) = bit (n_var s A) (unat (n_var s B))"
      using s [OF True] by (simp add: sint_small bit_sint32)
    show ?thesis using True low_five [OF assms(1)] s
      by (cases g) (simp_all add: defs shift_like_def b word_of_int_sint_shifts word_of_int_sint_shifts(1) [simplified])
  next
    case False
    then show ?thesis
      by (cases g) (simp_all add: defs shift_like_def word_of_int_sint_bits word_of_int_sint_pack [simplified]
        word_sless_alt signed_word_eqI_iff mask_eq_exp_minus_1)
  qed
qed

section \<open>One instruction\<close>

text \<open>What the instruction at \<open>offset\<close> of a block finds in the registers.\<close>

definition seen :: "u32 \<Rightarrow> (4 word \<Rightarrow> u32) \<Rightarrow> 4 word \<Rightarrow> u32" where
  "seen offset r = r(15 := r 15 + (offset + 1))"

text \<open>The parts of the state that outlive an instruction.\<close>

definition same_outside :: "'w native \<Rightarrow> 'w native \<Rightarrow> bool" where
  "same_outside s t \<longleftrightarrow> n_regs t = n_regs s \<and> n_world t = n_world s"

lemma same_outside_trans [trans]: "same_outside r s \<Longrightarrow> same_outside s t \<Longrightarrow> same_outside r t"
  by (simp add: same_outside_def)

lemma read_reg_loads:
  assumes "n_regs s 0 = 0"
  shows "\<exists>t. native_run D junk u (read_reg v n offset) s = Inr t \<and> same_outside s t \<and>
    n_var t = (n_var s)(v := seen offset (n_regs s) n)"
  using assms by (auto simp: read_reg_def native_step_def seen_def same_outside_def Let_def)

lemma sextend_scast:
  "SEXTEND32 12 (ucast (i :: 12 word)) = (scast i :: u32)" "SEXTEND32 20 (ucast (j :: 20 word)) = (scast j :: u32)"
  by (simp_all add: SEXTEND32_signed_take_bit scast_signed_take_bit)

lemma insn_computes:
  assumes "n_regs s 0 = 0" and "isa_defined (seen offset (n_regs s)) w"
  shows "\<exists>c a t. buildInstruction w offset = Inr (c @ save_result w a) \<and> a \<noteq> V_tmp \<and>
    native_run D junk u c s = Inr t \<and> same_outside s t \<and> n_var t a = isa_rhs (seen offset (n_regs s)) w"
proof -
  let ?r = "seen offset (n_regs s)"
  obtain s1 where s1: "native_run D junk u (read_reg V_x (insn_x w) offset) s = Inr s1" "same_outside s s1"
    "n_var s1 = (n_var s)(V_x := ?r (insn_x w))"
    using read_reg_loads [OF assms(1)] by blast
  show ?thesis
  proof (cases "insn_p w = 3")
    case True
    then have "isa_rhs ?r w = ?r (insn_x w) + scast (insn_imm20 w)"
      by (simp add: isa_rhs_def isa_args_def isa_op_def Let_def)
    then show ?thesis using True s1
      by (intro exI [of _ "read_reg V_x (insn_x w) offset @ [X_addi V_x (scast (insn_imm20 w))]"] exI [of _ V_x])
        (auto simp: buildInstruction_def sextend_scast native_run_append native_step_def same_outside_def)
  next
    case False
    have "n_regs s1 0 = 0" using s1(2) assms(1) by (simp add: same_outside_def)
    then obtain s2 where s2: "native_run D junk u (read_reg V_y (insn_y w) offset) s1 = Inr s2" "same_outside s s2"
      "n_var s2 = (n_var s)(V_x := ?r (insn_x w), V_y := ?r (insn_y w))"
      using read_reg_loads [of s1 D junk u V_y "insn_y w" offset] s1(2,3) by (auto simp: same_outside_def)
    define s3 where "s3 = set_var V_i (scast (insn_imm12 w)) (n_flags s2) s2"
    define abc where "abc = (if insn_p w = 0 then (V_x, V_y, V_i)
      else if insn_p w = 1 then (V_x, V_i, V_y) else (V_i, V_x, V_y))"
    obtain a b c where abc': "abc = (a, b, c)" by (cases abc)
    have args: "isa_args ?r w = (n_var s3 a, n_var s3 b, n_var s3 c)" and ab: "distinct [V_tmp, a, b]" "c \<notin> {V_tmp, a, b}"
      using abc' False
      by (cases "insn_p w" rule: word2_cases; force simp: abc_def isa_args_def s3_def s2(3) Let_def)+
    have op: "op_of_code (unat (insn_op w)) = Some (isa_op w)" by (rule isa_op_code [OF False])
    have "shift_like (isa_op w) \<Longrightarrow> n_var s3 b < 32" using assms(2) by (simp add: isa_defined_def args)
    from op_computes [OF this ab(1)] obtain s4 where
      s4: "native_run D junk u (op_x86 (isa_op w) V_tmp a b) s3 = Inr s4"
      "n_var s4 a = alu_word (isa_op w) (n_var s3 a) (n_var s3 b)" "same_outside s s4" "n_var s4 c = n_var s3 c"
      using s2(2) ab(2) by (force simp: same_outside_def s3_def)
    let ?c = "read_reg V_x (insn_x w) offset @ read_reg V_y (insn_y w) offset @ [X_movi V_i (scast (insn_imm12 w))] @
      op_x86 (isa_op w) V_tmp a b @ [X_add a c]"
    have "buildInstruction w offset = Inr (?c @ save_result w a)"
      using False by (simp add: buildInstruction_def buildOp_def op sextend_scast Let_def abc_def [symmetric] abc')
    moreover have "native_run D junk u ?c s = Inr (set_var a (n_var s4 a + n_var s4 c) u s4)"
      using s1(1) s2(1) s4(1) by (simp add: native_run_append native_step_def s3_def Let_def)
    ultimately show ?thesis using s4 ab(1)
      by (intro exI [of _ ?c] exI [of _ a] exI [of _ "set_var a (n_var s4 a + n_var s4 c) u s4"])
        (auto simp: isa_rhs_def args alu_word_def same_outside_def)
  qed
qed

text \<open>
  The registers and the memory as the interpreter has them before the instruction at \<open>offset\<close>, and the two
  ways in which an instruction uses \<open>P\<close> as its third register.
\<close>

definition view :: "u32 \<Rightarrow> u64 \<Rightarrow> 'w native \<Rightarrow> 'w machine" where
  "view offset n s = \<lparr>regs = (n_regs s)(15 := n_regs s 15 + offset), insns_executed = n, world = n_world s\<rparr>"

definition writes_P :: "u32 \<Rightarrow> bool" where
  "writes_P w \<longleftrightarrow> (insn_dd w = 0 \<or> insn_dd w = 3) \<and> insn_z w = 15"

definition stores_P :: "u32 \<Rightarrow> bool" where
  "stores_P w \<longleftrightarrow> (insn_dd w = 1 \<or> insn_dd w = 2) \<and> insn_z w = 15"

lemma next_ip_view:
  "next_ip (view offset n s) = \<lparr>regs = seen offset (n_regs s), insns_executed = n, world = n_world s\<rparr>"
  by (simp add: next_ip_def view_def seen_def add.assoc)

lemma view_next: "view (offset + 1) n s = next_ip (view offset n s)"
  by (simp add: next_ip_def view_def add.assoc)

lemma insn_simulated:
  assumes r0: "n_regs s 0 = 0" and d: "isa_defined (seen offset (n_regs s)) w" and "\<not> stores_P w"
    and run: "run_instruction D junk \<lparr>e_word = w, e_reladdr = a, e_size = k\<rparr> (view offset n s) = Inr (0, t)"
  shows "\<exists>c s'. buildInstruction w offset = Inr c \<and> native_run D junk u c s = Inr s' \<and> n_regs s' 0 = 0 \<and>
    t = view (if writes_P w then 0 else offset + 1) n s'"
proof -
  let ?r = "seen offset (n_regs s)" and ?z = "insn_z w"
  let ?t = "\<lparr>regs = ?r, insns_executed = n, world = n_world s\<rparr>"
  obtain c v s1 where c: "buildInstruction w offset = Inr (c @ save_result w v)" "v \<noteq> V_tmp"
    "native_run D junk u c s = Inr s1" "n_regs s1 = n_regs s" "n_world s1 = n_world s" "n_var s1 v = isa_rhs ?r w"
    using insn_computes [OF r0 d, of D junk u] by (auto simp: same_outside_def)
  have t: "apply_effect D junk (isa_effect ?r w) ?t = Inr (0, t)"
    using run run_instruction_isa [of "view offset n s" "\<lparr>e_word = w, e_reladdr = a, e_size = k\<rparr>" D junk] d
    by (simp add: next_ip_view)
  have e: "native_run D junk u (c @ save_result w v) s = native_run D junk u (save_result w v) s1"
    using c(3) by (simp add: native_run_append)
  have vw: "view (if writes_P w then 0 else offset + 1) n s' =
      \<lparr>regs = (if writes_P w then n_regs s' else seen offset (n_regs s')), insns_executed = n, world = n_world s'\<rparr>" for s' :: "'a native"
    by (simp add: view_def seen_def add.assoc)
  have "\<exists>s'. native_run D junk u (save_result w v) s1 = Inr s' \<and> n_regs s' 0 = 0 \<and>
      t = view (if writes_P w then 0 else offset + 1) n s'"
    unfolding vw
  proof (cases "insn_dd w" rule: word2_cases)
    case 1
    then show "\<exists>s'. native_run D junk u (save_result w v) s1 = Inr s' \<and> n_regs s' 0 = 0 \<and>
      t = \<lparr>regs = (if writes_P w then n_regs s' else seen offset (n_regs s')), insns_executed = n, world = n_world s'\<rparr>"
      using t c r0 by (auto simp: apply_effect_def isa_effect_def Let_def set_reg_def save_result_def native_step_def
          writes_P_def seen_def fun_upd_twist)
  next
    case 2
    then show "\<exists>s'. native_run D junk u (save_result w v) s1 = Inr s' \<and> n_regs s' 0 = 0 \<and>
      t = \<lparr>regs = (if writes_P w then n_regs s' else seen offset (n_regs s')), insns_executed = n, world = n_world s'\<rparr>"
      using t c r0 assms(3) by (auto simp: apply_effect_def isa_effect_def Let_def save_result_def native_step_def
          writes_P_def stores_P_def seen_def jit_store_def bindE_eq_Inr)
  next
    case 3
    then show "\<exists>s'. native_run D junk u (save_result w v) s1 = Inr s' \<and> n_regs s' 0 = 0 \<and>
      t = \<lparr>regs = (if writes_P w then n_regs s' else seen offset (n_regs s')), insns_executed = n, world = n_world s'\<rparr>"
      using t c r0 assms(3) by (auto simp: apply_effect_def isa_effect_def Let_def save_result_def native_step_def
          writes_P_def stores_P_def seen_def jit_store_def bindE_eq_Inr)
  next
    case 4
    then show "\<exists>s'. native_run D junk u (save_result w v) s1 = Inr s' \<and> n_regs s' 0 = 0 \<and>
      t = \<lparr>regs = (if writes_P w then n_regs s' else seen offset (n_regs s')), insns_executed = n, world = n_world s'\<rparr>"
      using t c r0 by (cases "insn_z w = 15")
        (auto simp: apply_effect_def isa_effect_def Let_def set_reg_def save_result_def native_step_def
          writes_P_def seen_def jit_fetch_def bindE_eq_Inr fun_upd_twist split: if_splits)
  qed
  then show ?thesis using c(1) e by auto
qed

section \<open>A block\<close>

text \<open>
  The interpreter executes the words one after another, from \<open>s\<close> to \<open>t\<close>: each with defined shifts, without
  an error from the memory, and without storing \<open>P\<close>.
\<close>

inductive executes :: "'w dispatcher \<Rightarrow> u32 \<Rightarrow> u32 list \<Rightarrow> 'w machine \<Rightarrow> 'w machine \<Rightarrow> bool" for D junk where
  executes_nil: "executes D junk [] s s"
| executes_insn: "isa_defined (regs (next_ip s)) w \<Longrightarrow> \<not> stores_P w \<Longrightarrow>
     run_instruction D junk \<lparr>e_word = w, e_reladdr = regs s 15, e_size = 0\<rparr> s = Inr (0, t) \<Longrightarrow>
     executes D junk ws t t' \<Longrightarrow> executes D junk (w # ws) s t'"

inductive_cases executes_ConsE: "executes D junk (w # ws) s t"
inductive_simps executes_Nil: "executes D junk [] s t"

lemma block_simulated:
  assumes "executes D junk ws (view offset n s) t" and "n_regs s 0 = 0" and "\<forall>w\<in>set (butlast ws). \<not> writes_P w"
  shows "\<exists>c s'. gen_from offset ws = Inr c \<and> native_run D junk u c s = Inr s' \<and> n_regs s' 0 = 0 \<and>
    t = view (if ws \<noteq> [] \<and> writes_P (last ws) then 0 else offset + of_nat (length ws)) n s'"
  using assms
proof (induction ws arbitrary: offset s)
  case Nil
  then show ?case by (simp add: executes_Nil)
next
  case (Cons w ws)
  obtain t1 where t1: "isa_defined (regs (next_ip (view offset n s))) w" "\<not> stores_P w"
    "run_instruction D junk \<lparr>e_word = w, e_reladdr = regs (view offset n s) 15, e_size = 0\<rparr> (view offset n s) = Inr (0, t1)"
    "executes D junk ws t1 t"
    using Cons.prems(1) by (rule executes_ConsE)
  have "isa_defined (seen offset (n_regs s)) w" using t1(1) by (simp add: next_ip_view)
  then obtain c s1 where c: "buildInstruction w offset = Inr c" "native_run D junk u c s = Inr s1" "n_regs s1 0 = 0"
    "t1 = view (if writes_P w then 0 else offset + 1) n s1"
    using insn_simulated [OF Cons.prems(2) _ t1(2,3)] by blast
  show ?case
  proof (cases "ws = []")
    case True
    then have "t = t1" using t1(4) by (simp add: executes_Nil)
    then show ?thesis using c True by simp
  next
    case False
    then have "\<not> writes_P w" "\<forall>w\<in>set (butlast ws). \<not> writes_P w" using Cons.prems(3) by simp_all
    then show ?thesis
      using Cons.IH [of "offset + 1" s1] c t1(4) False by (auto simp: native_run_append algebra_simps)
  qed
qed

text \<open>
  Two places where compiled code and the interpreter part.  \<open>P\<close> as the word to store, or as the address,
  is read from memory, where the address of the block is.  A left shift by 32 or more keeps its addend, where
  the interpreter, if the shift of C has a result at all, replaces the sum by 0.
\<close>

lemma stores_block_address:
  assumes "n_regs s 0 = 0" and "isa_defined (seen offset (n_regs s)) w" and "insn_dd w = 1" and "insn_z w = 15"
  shows "\<exists>c. buildInstruction w offset = Inr c \<and>
    (\<forall>s'. native_run D junk u c s = Inr s' \<longrightarrow>
      jit_store D (isa_rhs (seen offset (n_regs s)) w) (n_regs s 15) (n_world s) = Inr (n_world s')) \<and>
    isa_effect (seen offset (n_regs s)) w = Store (isa_rhs (seen offset (n_regs s)) w) (n_regs s 15 + (offset + 1))"
proof -
  obtain c v s1 where c: "buildInstruction w offset = Inr (c @ save_result w v)" "v \<noteq> V_tmp"
    "native_run D junk u c s = Inr s1" "n_regs s1 = n_regs s" "n_world s1 = n_world s"
    "n_var s1 v = isa_rhs (seen offset (n_regs s)) w"
    using insn_computes [OF assms(1,2), of D junk u] by (auto simp: same_outside_def)
  then show ?thesis using assms(3,4)
    by (auto simp: native_run_append save_result_def native_step_def isa_effect_def Let_def bindE_eq_Inr)
      (auto simp: seen_def)
qed

lemma high_some:
  assumes "32 \<le> (b :: u32)"
  shows "b AND NOT 31 \<noteq> 0"
proof
  assume z: "b AND NOT 31 = 0"
  have m: "(31 :: u32) = mask 5" by (simp add: mask_eq_exp_minus_1)
  have "b = take_bit 5 b"
  proof (rule bit_word_eqI)
    fix k assume "k < LENGTH(32)"
    then show "bit b k = bit (take_bit 5 b) k"
      using arg_cong [OF z [unfolded m], of "\<lambda>x. bit x k"] by (auto simp: bit_simps)
  qed
  then have "unat b = take_bit 5 (unat b)" by (metis unsigned_take_bit_eq)
  then have "take_bit 5 (unat b) = unat b" by (rule sym)
  then have "unat b < 2 ^ 5" by (simp only: take_bit_nat_eq_self_iff)
  then show False using assms by (simp add: word_le_nat_alt)
qed

lemma wide_left_shift_compiled:
  assumes "32 \<le> n_var s B" and "distinct [T, A, B]" and "C \<notin> {T, A, B}"
  shows "\<exists>s'. native_run D junk u (op_x86 OP_SHIFT_LEFT T A B @ [X_add A C]) s = Inr s' \<and> n_var s' A = n_var s C"
  using assms high_some [OF assms(1)]
  by (auto simp: native_step_def Let_def holds_cond_def and_flags_def)

end
