(* ===== verification/Jitrun.thy ===== *)
theory Jitrun
  imports Jit Expr Formats
begin

text \<open>
  The runner of \<^verbatim>\<open>src/jit.cc\<close>: the table of basic blocks, the hooks that count, collect and compile them
  around the interpreter (\<open>pre_insn_hook\<close>, \<open>post_insn_hook\<close>), and the loop of \<open>jit_run_sim\<close>.  The hooks
  keep their state beside the devices, so the interpreter runs on pairs.
\<close>

section \<open>State\<close>

record basic_block =
  run_count :: int
  complete :: bool
  bb_base :: u32
  bb_len :: u32
  compiled :: "x86 list option"
  bb_cache :: "u32 list option"

text \<open>
  Blocks by the addresses they are allocated at.  The tree of their bases is what the C library's
  \<open>tsearch\<close> makes of it, a value of any type: \<open>seek compar base bases tree\<close> is the address of the
  block that the returned node points to, whether it is a new one, and the tree, \<open>bases\<close> being the
  bases of the blocks at their addresses.
\<close>

record 't ops_state =
  run_count_threshold :: int
  basic_blocks :: "nat \<rightharpoonup> basic_block"
  curr_bb :: "nat option"
  bb_tree :: 't

type_synonym 't base_search = "(u32 \<Rightarrow> u32 \<Rightarrow> int) \<Rightarrow> u32 \<Rightarrow> (nat \<rightharpoonup> u32) \<Rightarrow> 't \<Rightarrow> nat \<times> bool \<times> 't"

definition new_block :: "u32 \<Rightarrow> basic_block" where
  "new_block b = \<lparr>run_count = 0, complete = False, bb_base = b, bb_len = 0, compiled = None, bb_cache = None\<rparr>"

definition put_block :: "nat \<Rightarrow> basic_block \<Rightarrow> 't ops_state \<Rightarrow> 't ops_state" where
  "put_block b bb o' = o'\<lparr>basic_blocks := (basic_blocks o')(b \<mapsto> bb)\<rparr>"

definition paired :: "'w dispatcher \<Rightarrow> ('w \<times> 't ops_state) dispatcher" where
  "paired D op a v w = bindE (D op a v (fst w)) (\<lambda>(rc, d, w'). Inr (rc, d, (w', snd w)))"

definition inner :: "('w \<times> 't ops_state) machine \<Rightarrow> 'w machine" where
  "inner s = \<lparr>regs = regs s, insns_executed = insns_executed s, world = fst (world s)\<rparr>"

definition outer :: "'t ops_state \<Rightarrow> 'w machine \<Rightarrow> ('w \<times> 't ops_state) machine" where
  "outer j s = \<lparr>regs = regs s, insns_executed = insns_executed s, world = (world s, j)\<rparr>"

text \<open>The hooks of the caller are called without a look at whether they are NULL.\<close>

definition nested :: "'w hook option \<Rightarrow> ('w \<times> 't ops_state) hook" where
  "nested h i s =
     (case h of
        None \<Rightarrow> Inl (Undefined ''null hook'')
      | Some f \<Rightarrow> bindE (f i (inner s)) (\<lambda>(rc, m). Inr (rc, outer (snd (world s)) m)))"

section \<open>The hooks\<close>

text \<open>The comparison: the difference of two unsigned words, returned as an \<open>int\<close>.\<close>

definition bb_by_base :: "u32 \<Rightarrow> u32 \<Rightarrow> int" where
  "bb_by_base a b = sint (a - b)"

definition find_block :: "'t base_search \<Rightarrow> element \<Rightarrow> 't ops_state \<Rightarrow> nat \<times> 't ops_state" where
  "find_block seek i j =
     (case curr_bb j of
        Some f \<Rightarrow> (f, j)
      | None \<Rightarrow>
          let (f, new, tree) =
                seek bb_by_base (e_reladdr i) (\<lambda>a. map_option bb_base (basic_blocks j a)) (bb_tree j);
              j = (if new then put_block f (new_block (e_reladdr i)) j else j)
          in (f, j\<lparr>curr_bb := Some f, bb_tree := tree\<rparr>))"

text \<open>Storing a word in the cache, which is allocated for as many words as the block had last time.\<close>

definition cache_word :: "(nat \<Rightarrow> u32) \<Rightarrow> element \<Rightarrow> basic_block \<Rightarrow> basic_block res" where
  "cache_word fresh i bb =
     (let c = (case bb_cache bb of Some c \<Rightarrow> c | None \<Rightarrow> map fresh [0..<unat (bb_len bb)]);
          k = unat (e_reladdr i - bb_base bb)
      in if k < length c then Inr (bb\<lparr>bb_cache := Some (c[k := e_word i])\<rparr>)
         else Inl (Undefined ''write past the cache''))"

definition compile_block :: "basic_block \<Rightarrow> basic_block res" where
  "compile_block bb =
     (if \<not> complete bb then Inl (Assert ''bb.complete'')
      else case bb_cache bb of
        None \<Rightarrow> Inl (Undefined ''null cache'')
      | Some c \<Rightarrow>
          if length c < unat (bb_len bb) then Inl (Undefined ''read past the cache'')
          else bindE (jit_gen_block (take (unat (bb_len bb)) c)) (\<lambda>code. Inr (bb\<lparr>compiled := Some code\<rparr>)))"

definition pre_insn_hook :: "'t base_search \<Rightarrow> (nat \<Rightarrow> u32) \<Rightarrow> 'w run_ops \<Rightarrow> ('w \<times> 't ops_state) hook" where
  "pre_insn_hook seek fresh ops i s =
     (case find_block seek i (snd (world s)) of (b, j) \<Rightarrow>
      let with = (\<lambda>j. s\<lparr>world := (fst (world s), j)\<rparr>) in
      case basic_blocks j b of
        None \<Rightarrow> Inl (Undefined ''no block'')
      | Some bb \<Rightarrow>
          if compiled bb \<noteq> None then Inr (1, with j)
          else if run_count bb = run_count_threshold j then
            bindE (cache_word fresh i bb) (\<lambda>bb. nested (pre_insn ops) i (with (put_block b bb j)))
          else if run_count bb > run_count_threshold j then
            bindE (compile_block bb) (\<lambda>bb. Inr (1, with (put_block b bb j)))
          else nested (pre_insn ops) i (with j))"

definition post_insn_hook :: "'w run_ops \<Rightarrow> ('w \<times> 't ops_state) hook" where
  "post_insn_hook ops i s =
     (if writes_P (e_word i) then
        (let j = snd (world s) in
         case curr_bb j of
           None \<Rightarrow> Inl (Undefined ''null block'')
         | Some b \<Rightarrow>
             (case basic_blocks j b of
                None \<Rightarrow> Inl (Undefined ''no block'')
              | Some bb \<Rightarrow>
                  let bb = bb\<lparr>bb_len := e_reladdr i - bb_base bb + 1, complete := True, run_count := run_count bb + 1\<rparr>;
                      j = (put_block b bb j)\<lparr>curr_bb := None\<rparr>
                  in bindE (nested (post_insn ops) i (s\<lparr>world := (fst (world s), j)\<rparr>)) (\<lambda>(_, s). Inr (1, s))))
      else nested (post_insn ops) i s)"

definition jit_ops :: "'t base_search \<Rightarrow> (nat \<Rightarrow> u32) \<Rightarrow> 'w run_ops \<Rightarrow> ('w \<times> 't ops_state) run_ops" where
  "jit_ops seek fresh ops = \<lparr>pre_insn = Some (pre_insn_hook seek fresh ops), post_insn = Some (post_insn_hook ops)\<rparr>"

section \<open>jit_run_sim\<close>

text \<open>A call of compiled code: its variables start with anything.\<close>

definition call_block ::
  "'w dispatcher \<Rightarrow> u32 \<Rightarrow> flags \<Rightarrow> (jvar \<Rightarrow> u32) \<Rightarrow> x86 list \<Rightarrow> (4 word \<Rightarrow> u32) \<times> 'w \<Rightarrow> ((4 word \<Rightarrow> u32) \<times> 'w) res" where
  "call_block D junk u vars code s =
     bindE (native_run D junk u code \<lparr>n_var = vars, n_flags = u, n_regs = fst s, n_world = snd s\<rparr>)
       (\<lambda>t. Inr (n_regs t, n_world t))"

definition run_compiled ::
  "'w dispatcher \<Rightarrow> u32 \<Rightarrow> flags \<Rightarrow> (jvar \<Rightarrow> u32) \<Rightarrow> ('w \<times> 't ops_state) machine \<Rightarrow> ('w \<times> 't ops_state) machine res" where
  "run_compiled D junk u vars s =
     (let j = snd (world s) in
      case curr_bb j of
        None \<Rightarrow> Inr s
      | Some b \<Rightarrow>
          (case basic_blocks j b of
             None \<Rightarrow> Inl (Undefined ''no block'')
           | Some bb \<Rightarrow>
               (case compiled bb of
                  None \<Rightarrow> Inr s
                | Some code \<Rightarrow> bindE (call_block D junk u vars code (regs s, fst (world s))) (\<lambda>(r, w).
                    Inr \<lparr>regs = r, insns_executed = insns_executed s + ucast (bb_len bb),
                      world = (w, (put_block b (bb\<lparr>run_count := run_count bb + 1\<rparr>) j)\<lparr>curr_bb := None\<rparr>)\<rparr>))))"

partial_function (option) jit_loop ::
  "'w dispatcher \<Rightarrow> ('w \<Rightarrow> (int \<times> 'w) res) \<Rightarrow> u32 \<Rightarrow> flags \<Rightarrow> (jvar \<Rightarrow> u32) \<Rightarrow> 't base_search \<Rightarrow> (nat \<Rightarrow> u32) \<Rightarrow> 'w run_ops \<Rightarrow>
     ('w \<times> 't ops_state) machine \<Rightarrow> (int \<times> ('w \<times> 't ops_state) machine) res option" where
  "jit_loop D pump junk u vars seek fresh ops s =
     bindO (Some (run_compiled D junk u vars s)) (\<lambda>s.
     bindO (interp_run_sim (paired D) junk (jit_ops seek fresh ops) s) (\<lambda>(rc, s).
     bindO (Some (pump (fst (world s)))) (\<lambda>(_, w).
       let s = s\<lparr>world := (w, snd (world s))\<rparr> in
       if rc \<ge> 0 then jit_loop D pump junk u vars seek fresh ops s else Some (Inr (0, s)))))"

text \<open>
  The threshold: \<open>strtol\<close> with base 0 has to use the whole value.
\<close>

definition whole_number :: "string \<Rightarrow> bool" where
  "whole_number s =
     (let (neg, s) = skip_sign (skip_ws s);
          hex = (skip_0x s \<noteq> s \<and> (\<exists>c. c \<in> set (take 1 (skip_0x s)) \<and> is_xdigit c));
          b = (if hex then 16 else if take 1 s = ''0'' then 8 else 10);
          s = (if hex then skip_0x s else s);
          ds = takeWhile (\<lambda>c. case xval c of None \<Rightarrow> False | Some v \<Rightarrow> v < b) s
      in ds \<noteq> [] \<and> length ds = length s)"

definition jit_threshold :: "string param_state \<Rightarrow> int" where
  "jit_threshold p =
     (case param_get p ''tsim.jit.run_count_threshold'' 1 of
        (n, v # _) \<Rightarrow>
          (let k = sint (word_of_int (strtol v) :: u32) in if whole_number v \<and> k > 1 then k else 10)
      | _ \<Rightarrow> 10)"

definition jit_run_sim ::
  "'w dispatcher \<Rightarrow> ('w \<Rightarrow> (int \<times> 'w) res) \<Rightarrow> u32 \<Rightarrow> flags \<Rightarrow> (jvar \<Rightarrow> u32) \<Rightarrow> 't base_search \<Rightarrow> (nat \<Rightarrow> u32) \<Rightarrow> 't \<Rightarrow> 'w run_ops \<Rightarrow>
     string param_state \<Rightarrow> 'w machine \<Rightarrow> (int \<times> 'w machine) res option" where
  "jit_run_sim D pump junk u vars seek fresh tree ops p s =
     bindO (jit_loop D pump junk u vars seek fresh ops
         (outer \<lparr>run_count_threshold = jit_threshold p, basic_blocks = Map.empty, curr_bb = None, bb_tree = tree\<rparr> s))
       (\<lambda>(rc, s). Some (Inr (rc, inner s)))"

section \<open>Runs of the interpreter\<close>

text \<open>
  \<open>ends D junk prog n s t\<close>: the interpreter, started in \<open>s\<close>, executes \<open>n\<close> instructions of a program
  that does not change, all with defined shifts and none storing \<open>P\<close>, and is then in \<open>t\<close>, where it stops.
\<close>

inductive ends :: "'w dispatcher \<Rightarrow> u32 \<Rightarrow> (u32 \<Rightarrow> u32) \<Rightarrow> nat \<Rightarrow> 'w machine \<Rightarrow> 'w machine \<Rightarrow> bool"
  for D junk prog where
  ends_stop: "regs s 15 = 0xffffffff \<Longrightarrow> ends D junk prog 0 s s"
| ends_insn: "regs s 15 \<noteq> 0xffffffff \<Longrightarrow>
     D OP_INSN_READ (regs s 15) 0 (world s) = Inr (0, prog (regs s 15), world s) \<Longrightarrow>
     isa_defined (regs (next_ip s)) (prog (regs s 15)) \<Longrightarrow> \<not> stores_P (prog (regs s 15)) \<Longrightarrow>
     run_instruction D junk \<lparr>e_word = prog (regs s 15), e_reladdr = regs s 15, e_size = 0\<rparr> s = Inr (0, s') \<Longrightarrow>
     ends D junk prog n s' t \<Longrightarrow> ends D junk prog (Suc n) s t"

inductive_cases ends_0E: "ends D junk prog 0 s t"
inductive_cases ends_SucE: "ends D junk prog (Suc n) s t"

text \<open>The count of instructions and what is kept beside the devices make no difference.\<close>

definition rhs_of :: "(4 word \<Rightarrow> u32) \<Rightarrow> u32 \<Rightarrow> u32 res" where
  "rhs_of r w =
     (let p = unat (insn_p w);
          (Y, imm, f) =
            (if p = 3 then (0, ucast (insn_imm20 w), op_code OP_BITWISE_OR)
             else (r (insn_y w), ucast (insn_imm12 w), unat (insn_op w)))
      in do_op f p (r (insn_x w)) Y imm)"

lemma run_instruction_common:
  "run_instruction D junk i s = bindE (rhs_of (regs (next_ip s)) (e_word i)) (\<lambda>rhs.
     do_common D junk (insn_z (e_word i)) rhs (insn_dd (e_word i) = 3)
       (insn_dd (e_word i) = 1 \<or> insn_dd (e_word i) = 2) (insn_dd (e_word i) = 1) (next_ip s))"
proof -
  have "(unat (insn_dd (e_word i)) = 1) = (insn_dd (e_word i) = 1)"
    "(unat (insn_dd (e_word i)) = 2) = (insn_dd (e_word i) = 2)"
    "(unat (insn_dd (e_word i)) = 3) = (insn_dd (e_word i) = 3)"
    by (cases "insn_dd (e_word i)" rule: word2_cases; simp)+
  then show ?thesis
    by (simp only: run_instruction_def rhs_of_def next_ip_def Let_def split_def)
qed

lemma do_common_paired:
  "do_common (paired D) junk z rhs l st ar \<lparr>regs = regs s, insns_executed = k, world = (world s, j)\<rparr> =
    bindE (do_common D junk z rhs l st ar s)
      (\<lambda>(rc, t). Inr (rc, \<lparr>regs = regs t, insns_executed = k, world = (world t, j)\<rparr>))"
  by (cases l; cases st; simp add: do_common_def paired_def Let_def bindE_def split: sum.split prod.split)

lemma do_common_count:
  "do_common D junk z rhs l st ar (s\<lparr>insns_executed := k\<rparr>) =
    bindE (do_common D junk z rhs l st ar s) (\<lambda>(rc, t). Inr (rc, t\<lparr>insns_executed := k\<rparr>))"
  by (cases l; cases st; simp add: do_common_def Let_def bindE_def split: sum.split prod.split)

lemma do_common_keeps_count:
  "do_common D junk z rhs l st ar s = Inr (rc, t) \<Longrightarrow> insns_executed t = insns_executed s"
  by (cases l; cases st; auto simp: do_common_def Let_def bindE_def split: sum.splits prod.splits if_splits)

lemma do_common_P:
  fixes dd :: "2 word"
  assumes "do_common D junk z rhs (dd = 3) (dd = 1 \<or> dd = 2) (dd = 1) s = Inr (0, t)"
    and "\<not> ((dd = 0 \<or> dd = 3) \<and> z = 15)"
  shows "regs t 15 = regs s 15"
  using assms
  by (cases dd rule: word2_cases)
    (auto simp: do_common_def Let_def bindE_def split: sum.splits prod.splits if_splits)

lemma run_instruction_paired:
  assumes "run_instruction D junk i s = Inr (rc, t)"
  shows "run_instruction (paired D) junk i \<lparr>regs = regs s, insns_executed = k, world = (world s, j)\<rparr> =
    Inr (rc, \<lparr>regs = regs t, insns_executed = k, world = (world t, j)\<rparr>)"
proof -
  have n: "next_ip \<lparr>regs = regs s, insns_executed = k, world = (world s, j)\<rparr> =
      \<lparr>regs = regs (next_ip s), insns_executed = k, world = (world (next_ip s), j)\<rparr>"
    by (simp add: next_ip_def)
  show ?thesis using assms unfolding run_instruction_common n
    by (auto simp: bindE_eq_Inr do_common_paired)
qed

lemma run_instruction_count:
  assumes "run_instruction D junk i s = Inr (rc, t)"
  shows "run_instruction D junk i (s\<lparr>insns_executed := k\<rparr>) = Inr (rc, t\<lparr>insns_executed := k\<rparr>)"
    and "insns_executed t = insns_executed s"
proof -
  have n: "next_ip (s\<lparr>insns_executed := k\<rparr>) = (next_ip s)\<lparr>insns_executed := k\<rparr>" by (simp add: next_ip_def)
  show "run_instruction D junk i (s\<lparr>insns_executed := k\<rparr>) = Inr (rc, t\<lparr>insns_executed := k\<rparr>)"
    using assms unfolding run_instruction_common n by (auto simp: bindE_eq_Inr do_common_count)
  show "insns_executed t = insns_executed s"
    using assms unfolding run_instruction_common by (auto simp: bindE_eq_Inr next_ip_def dest!: do_common_keeps_count)
qed

lemma run_instruction_P:
  assumes "run_instruction D junk i s = Inr (0, t)" and "\<not> writes_P (e_word i)"
  shows "regs t 15 = regs s 15 + 1"
proof -
  have "regs t 15 = regs (next_ip s) 15"
    using assms unfolding run_instruction_common
    by (auto simp: bindE_eq_Inr writes_P_def intro: do_common_P)
  then show ?thesis by (simp add: next_ip_def)
qed

abbreviation (input) "no_clock \<equiv> (\<lambda>w. Inr (0, w))"

lemma interp_ends:
  "ends D junk prog n s t \<Longrightarrow>
     interp_run_sim D junk (tsim_ops no_clock) (s\<lparr>insns_executed := k\<rparr>) =
       Some (Inr (-1, t\<lparr>insns_executed := k + of_nat n\<rparr>))"
proof (induction arbitrary: k rule: ends.induct)
  case (ends_stop s)
  then show ?case by (subst interp_run_sim.simps) (simp add: insn_step_tsim)
next
  case (ends_insn s s' n t)
  have "insn_step D junk (tsim_ops no_clock) (s\<lparr>insns_executed := k\<rparr>) = Inr (None, s'\<lparr>insns_executed := k + 1\<rparr>)"
    using ends_insn.hyps(1,2) run_instruction_count(1) [OF ends_insn.hyps(5), of k]
    by (simp add: insn_step_tsim)
  then show ?case using ends_insn.IH [of "k + 1"]
    by (subst interp_run_sim.simps) (simp add: algebra_simps)
qed

section \<open>Blocks of the program\<close>

definition is_block :: "(u32 \<Rightarrow> u32) \<Rightarrow> u32 \<Rightarrow> nat \<Rightarrow> bool" where
  "is_block prog b n \<longleftrightarrow> 0 < n \<and> unat b + n < 2 ^ 32 \<and> writes_P (prog (b + of_nat (n - 1))) \<and>
     (\<forall>k<n - 1. \<not> writes_P (prog (b + of_nat k)))"

definition block_words :: "(u32 \<Rightarrow> u32) \<Rightarrow> u32 \<Rightarrow> nat \<Rightarrow> u32 list" where
  "block_words prog b n = map (\<lambda>k. prog (b + of_nat k)) [0..<n]"

lemma block_words_Suc: "block_words prog b (Suc n) = prog b # block_words prog (b + 1) n"
  by (simp add: block_words_def upt_conv_Cons map_Suc_upt [symmetric] comp_def algebra_simps del: upt_Suc)

lemma is_block_Suc:
  assumes "is_block prog b (Suc n)" and "n > 0"
  shows "is_block prog (b + 1) n" and "\<not> writes_P (prog b)"
proof -
  have u: "unat (b + 1) = unat b + 1"
    using assms by (subst unat_add_lem [THEN iffD1]) (simp_all add: is_block_def)
  have k: "b + 1 + of_nat k = b + of_nat (Suc k)" for k by (simp add: algebra_simps)
  have "b + 1 + of_nat (n - 1) = b + of_nat n" using assms(2) by (simp add: of_nat_diff algebra_simps)
  then show "is_block prog (b + 1) n"
    using assms u unfolding is_block_def k by (auto simp del: of_nat_Suc)
  show "\<not> writes_P (prog b)" using assms by (auto simp: is_block_def dest: spec [of _ 0])
qed

lemma is_block_unique:
  assumes "is_block prog b n" and "\<forall>j<k. \<not> writes_P (prog (b + of_nat j))"
  shows "k < n" and "writes_P (prog (b + of_nat k)) \<Longrightarrow> n = Suc k"
proof -
  show l: "k < n"
  proof (rule ccontr)
    assume "\<not> k < n"
    then have "n - 1 < k" using assms(1) by (auto simp: is_block_def)
    then show False using assms by (auto simp: is_block_def)
  qed
  show "n = Suc k" if "writes_P (prog (b + of_nat k))"
  proof (rule ccontr)
    assume "n \<noteq> Suc k"
    then have "k < n - 1" using l by simp
    then show False using assms(1) that by (auto simp: is_block_def)
  qed
qed

lemma ends_executes:
  assumes "ends D junk prog m s t" and "is_block prog (regs s 15) n"
  shows "\<exists>m' s'. executes D junk (block_words prog (regs s 15) n) s s' \<and> ends D junk prog m' s' t \<and> m = m' + n"
  using assms
proof (induction n arbitrary: m s)
  case 0
  then show ?case by (simp add: is_block_def)
next
  case (Suc n)
  let ?w = "prog (regs s 15)"
  have "regs s 15 \<noteq> 0xffffffff"
  proof
    assume "regs s 15 = 0xffffffff"
    then have "unat (regs s 15) = 2 ^ 32 - 1" by simp
    then show False using Suc.prems(2) by (simp add: is_block_def)
  qed
  then obtain m1 where m: "m = Suc m1" using Suc.prems(1) by (cases m) (auto elim: ends_0E)
  obtain s1 where s1: "isa_defined (regs (next_ip s)) ?w" "\<not> stores_P ?w"
    "run_instruction D junk \<lparr>e_word = ?w, e_reladdr = regs s 15, e_size = 0\<rparr> s = Inr (0, s1)"
    "ends D junk prog m1 s1 t"
    using Suc.prems(1) unfolding m by (rule ends_SucE)
  show ?case
  proof (cases "n = 0")
    case True
    then have "executes D junk (block_words prog (regs s 15) (Suc n)) s s1"
      unfolding block_words_Suc by (intro executes_insn [OF s1(1-3)]) (simp add: block_words_def executes_nil)
    then show ?thesis using s1(4) m True by auto
  next
    case False
    then have b: "is_block prog (regs s 15 + 1) n" "\<not> writes_P ?w" using is_block_Suc [OF Suc.prems(2)] by simp_all
    have p: "regs s1 15 = regs s 15 + 1" using run_instruction_P [OF s1(3)] b(2) by simp
    obtain m' s' where "executes D junk (block_words prog (regs s1 15) n) s1 s'" "ends D junk prog m' s' t" "m1 = m' + n"
      using Suc.IH [OF s1(4)] b(1) p by auto
    then show ?thesis unfolding block_words_Suc p using executes_insn [OF s1(1-3)] m by auto
  qed
qed

section \<open>The table of blocks\<close>

definition block_ok :: "(u32 \<Rightarrow> u32) \<Rightarrow> int \<Rightarrow> u32 \<Rightarrow> basic_block \<Rightarrow> bool" where
  "block_ok prog thr b bb \<longleftrightarrow>
     (let n = unat (bb_len bb) in
      bb_base bb = b \<and> (0 < run_count bb \<longrightarrow> complete bb) \<and> (complete bb \<longrightarrow> is_block prog b n) \<and>
      (\<forall>code. compiled bb = Some code \<longrightarrow> complete bb \<and> jit_gen_block (block_words prog b n) = Inr code) \<and>
      (thr < run_count bb \<and> compiled bb = None \<longrightarrow> bb_cache bb = Some (block_words prog b n)) \<and>
      (\<forall>c. bb_cache bb = Some c \<longrightarrow> complete bb \<and> length c = n))"

definition table_ok :: "(u32 \<Rightarrow> u32) \<Rightarrow> 't ops_state \<Rightarrow> bool" where
  "table_ok prog j \<longleftrightarrow> 0 < run_count_threshold j \<and>
     (\<forall>b bb. basic_blocks j b = Some bb \<longrightarrow> block_ok prog (run_count_threshold j) (bb_base bb) bb)"

text \<open>
  The first \<open>k\<close> instructions of the current block have been executed, none of them the last; \<open>cached\<close> of its
  words are in the cache when this is the run that fills it.
\<close>

definition inside :: "(u32 \<Rightarrow> u32) \<Rightarrow> int \<Rightarrow> u32 \<Rightarrow> nat \<Rightarrow> nat \<Rightarrow> basic_block \<Rightarrow> bool" where
  "inside prog thr b k cached bb \<longleftrightarrow> compiled bb = None \<and> run_count bb \<le> thr \<and>
     (\<forall>i<k. \<not> writes_P (prog (b + of_nat i))) \<and>
     (run_count bb = thr \<and> 0 < cached \<longrightarrow>
        (\<exists>c. bb_cache bb = Some c \<and> (\<forall>i<cached. c ! i = prog (b + of_nat i))))"

definition at_head :: "(u32 \<Rightarrow> u32) \<Rightarrow> u32 \<Rightarrow> 't ops_state \<Rightarrow> bool" where
  "at_head prog p j \<longleftrightarrow> table_ok prog j \<and>
     (\<forall>f. curr_bb j = Some f \<longrightarrow> (\<exists>bb. basic_blocks j f = Some bb \<and>
        (bb_base bb = p \<or> (\<exists>k. unat p = unat (bb_base bb) + k \<and>
           inside prog (run_count_threshold j) (bb_base bb) k k bb))))"

definition in_block :: "(u32 \<Rightarrow> u32) \<Rightarrow> u32 \<Rightarrow> 't ops_state \<Rightarrow> bool" where
  "in_block prog p j \<longleftrightarrow> table_ok prog j \<and>
     (\<exists>f bb k. curr_bb j = Some f \<and> basic_blocks j f = Some bb \<and> unat p = unat (bb_base bb) + k \<and>
        inside prog (run_count_threshold j) (bb_base bb) k (Suc k) bb)"

definition at_compiled :: "(u32 \<Rightarrow> u32) \<Rightarrow> u32 \<Rightarrow> 't ops_state \<Rightarrow> bool" where
  "at_compiled prog p j \<longleftrightarrow> table_ok prog j \<and>
     (\<exists>f bb. curr_bb j = Some f \<and> basic_blocks j f = Some bb \<and> bb_base bb = p \<and> compiled bb \<noteq> None)"

lemma new_block_ok: "0 < thr \<Longrightarrow> block_ok prog thr b (new_block b)"
  by (simp add: block_ok_def new_block_def)

lemma block_ok_base: "block_ok prog thr b bb \<Longrightarrow> bb_base bb = b"
  by (simp add: block_ok_def Let_def)

lemma table_ok_put: "table_ok prog j \<Longrightarrow> block_ok prog (run_count_threshold j) b bb \<Longrightarrow> table_ok prog (put_block f bb j)"
  by (auto simp: table_ok_def put_block_def dest: block_ok_base)

lemma put_block_simps [simp]:
  "basic_blocks (put_block b bb j) = (basic_blocks j)(b \<mapsto> bb)" "curr_bb (put_block b bb j) = curr_bb j"
  "run_count_threshold (put_block b bb j) = run_count_threshold j"
  by (simp_all add: put_block_def)

lemma table_ok_curr [simp]: "table_ok prog (j\<lparr>curr_bb := c\<rparr>) = table_ok prog j" "table_ok prog (j\<lparr>bb_tree := t\<rparr>) = table_ok prog j"
  by (simp_all add: table_ok_def)

text \<open>
  Which block an instruction belongs to.  What is asked of \<open>tsearch\<close> is that a node it finds compares
  equal with the key, whatever it makes of a comparison that is no order.
\<close>

definition finds_equal :: "'t base_search \<Rightarrow> bool" where
  "finds_equal seek \<longleftrightarrow> (\<forall>compar b bases tree f new tree'. seek compar b bases tree = (f, new, tree') \<longrightarrow>
     new \<or> (\<exists>b'. bases f = Some b' \<and> compar b b' = 0))"

lemma bb_by_base_0: "bb_by_base a b = 0 \<longleftrightarrow> a = b"
proof -
  have "sint (a - b) = 0 \<longleftrightarrow> a - b = 0" using signed_word_eqI [of "a - b" 0] by auto
  then show ?thesis by (simp add: bb_by_base_def)
qed

lemma find_block_ok:
  assumes "at_head prog p j" and "e_reladdr i = p" and "finds_equal seek"
  shows "\<exists>f j' bb. find_block seek i j = (f, j') \<and> table_ok prog j' \<and> curr_bb j' = Some f \<and> basic_blocks j' f = Some bb \<and>
    run_count_threshold j' = run_count_threshold j \<and>
    (bb_base bb = p \<or> (\<exists>k. unat p = unat (bb_base bb) + k \<and> inside prog (run_count_threshold j) (bb_base bb) k k bb))"
proof (cases "curr_bb j")
  case None
  have t: "table_ok prog j" "0 < run_count_threshold j" using assms(1) by (simp_all add: at_head_def table_ok_def)
  obtain f new tree where f:
    "seek bb_by_base p (\<lambda>a. map_option bb_base (basic_blocks j a)) (bb_tree j) = (f, new, tree)"
    by (cases "seek bb_by_base p (\<lambda>a. map_option bb_base (basic_blocks j a)) (bb_tree j)") auto
  then have "new \<or> (\<exists>b'. map_option bb_base (basic_blocks j f) = Some b' \<and> bb_by_base p b' = 0)"
    using assms(3) unfolding finds_equal_def by blast
  then have "new \<or> (\<exists>bb. basic_blocks j f = Some bb \<and> bb_base bb = p)" by (auto simp: bb_by_base_0)
  then show ?thesis
  proof
    assume new
    have "bb_base (new_block p) = p" by (simp add: new_block_def)
    then show ?thesis using None assms(2) f t \<open>new\<close> table_ok_put [OF t(1) new_block_ok [OF t(2)]]
      by (simp add: find_block_def)
  next
    assume "\<exists>bb. basic_blocks j f = Some bb \<and> bb_base bb = p"
    then obtain bb where bb: "basic_blocks j f = Some bb" "bb_base bb = p" by blast
    show ?thesis
    proof (cases new)
      case True
      have "bb_base (new_block p) = p" by (simp add: new_block_def)
      then show ?thesis using None assms(2) f t True table_ok_put [OF t(1) new_block_ok [OF t(2)]]
        by (simp add: find_block_def)
    next
      case False
      then show ?thesis using None assms(2) f t bb by (simp add: find_block_def)
    qed
  qed
next
  case (Some f)
  then show ?thesis using assms by (auto simp: find_block_def at_head_def)
qed

text \<open>The generator has an answer for every word.\<close>

lemma buildInstruction_total: "\<exists>c. buildInstruction w k = Inr c"
proof -
  obtain g where "op_of_code (unat (insn_op w)) = Some g"
    using op_of_code_total [of "unat (insn_op w)"] unsigned_less [of "insn_op w", where 'a = nat] by auto
  then show ?thesis by (simp add: buildInstruction_def buildOp_def Let_def split: prod.split)
qed

lemma gen_from_total: "\<exists>c. gen_from k ws = Inr c"
proof (induction ws arbitrary: k)
  case (Cons w ws)
  obtain c cs where "buildInstruction w k = Inr c" "gen_from (k + 1) ws = Inr cs"
    using buildInstruction_total [of w k] Cons.IH [of "k + 1"] by blast
  then show ?case by simp
qed simp

lemma offset_word:
  fixes p b :: u32
  assumes "unat p = unat b + k"
  shows "p = b + of_nat k" and "unat (p - b) = k"
proof -
  have k: "k < 2 ^ 32" "unat b + k < 2 ^ 32" using assms unsigned_less [of p, where 'a = nat] by simp_all
  then have "unat (b + of_nat k) = unat b + k" by (simp add: unat_word_ariths unat_of_nat)
  then show p: "p = b + of_nat k" by (simp only: word_unat_eq_iff assms)
  show "unat (p - b) = k" using k by (simp add: p unat_of_nat)
qed

lemma below_last:
  assumes "p \<noteq> (0xffffffff :: u32)"
  shows "unat p + 1 < 2 ^ 32"
proof -
  have "unat p \<noteq> unat (0xffffffff :: u32)" using assms by (simp only: word_unat_eq_iff simp_thms)
  then show ?thesis using unsigned_less [of p, where 'a = nat] by simp
qed

lemma nested_tsim [simp]:
  "nested (pre_insn (tsim_ops no_clock)) i s = Inr (0, s)"
  "nested (post_insn (tsim_ops no_clock)) i s = Inr (0, s\<lparr>insns_executed := insns_executed s + 1\<rparr>)"
  by (simp_all add: nested_def tsim_ops_def tsim_pre_insn_def tsim_post_insn_def inner_def outer_def Let_def)

text \<open>Before an instruction.\<close>

lemma cache_word_ok:
  assumes "block_ok prog thr b bb" and "run_count bb = thr" and "0 < thr" and "inside prog thr b k k bb"
    and "unat (e_reladdr i) = unat b + k" and "e_word i = prog (e_reladdr i)"
  shows "\<exists>bb'. cache_word fresh i bb = Inr bb' \<and> block_ok prog thr b bb' \<and> inside prog thr b k (Suc k) bb'"
proof -
  let ?n = "unat (bb_len bb)"
  define c where "c = (case bb_cache bb of Some c \<Rightarrow> c | None \<Rightarrow> map fresh [0..<?n])"
  have cp: "complete bb" "is_block prog b ?n" using assms(1-3) by (auto simp: block_ok_def Let_def)
  have k: "k < ?n" using is_block_unique(1) [OF cp(2)] assms(4) by (simp add: inside_def)
  have l: "length c = ?n" using assms(1) by (auto simp: c_def block_ok_def Let_def split: option.split)
  have e: "e_reladdr i = b + of_nat k" "unat (e_reladdr i - b) = k" using offset_word [OF assms(5)] by simp_all
  have "cache_word fresh i bb = Inr (bb\<lparr>bb_cache := Some (c[k := e_word i])\<rparr>)"
    using assms(1) k l e(2) by (simp add: cache_word_def c_def [symmetric] block_ok_def Let_def)
  moreover have "c ! j = prog (b + of_nat j)" if jk: "j < k" for j
  proof -
    obtain c' where "bb_cache bb = Some c'" "\<forall>i<k. c' ! i = prog (b + of_nat i)"
      using assms(2,4) jk by (auto simp: inside_def)
    then show ?thesis using jk by (simp add: c_def)
  qed
  ultimately show ?thesis using assms(1,2,4,6) cp k l e(1)
    by (auto simp: block_ok_def inside_def Let_def nth_list_update less_Suc_eq)
qed

lemma compile_block_ok:
  assumes "block_ok prog thr b bb" and "thr < run_count bb" and "0 < thr" and "compiled bb = None"
  shows "\<exists>bb'. compile_block bb = Inr bb' \<and> block_ok prog thr b bb' \<and> compiled bb' \<noteq> None"
proof -
  have bb: "complete bb" "bb_cache bb = Some (block_words prog b (unat (bb_len bb)))"
    using assms by (auto simp: block_ok_def Let_def)
  obtain code where code: "jit_gen_block (block_words prog b (unat (bb_len bb))) = Inr code"
    using gen_from_total by (auto simp: jit_gen_block_def)
  have "length (block_words prog b (unat (bb_len bb))) = unat (bb_len bb)" by (simp add: block_words_def)
  then have "compile_block bb = Inr (bb\<lparr>compiled := Some code\<rparr>)" using bb code by (simp add: compile_block_def)
  then show ?thesis using assms(1) bb code by (simp add: block_ok_def Let_def)
qed

lemma pre_insn_hook_ok:
  assumes "at_head prog (regs s 15) (snd (world s))" and "finds_equal seek"
  defines "i \<equiv> \<lparr>e_word = prog (regs s 15), e_reladdr = regs s 15, e_size = 0\<rparr>"
  shows "\<exists>j. pre_insn_hook seek fresh (tsim_ops no_clock) i s = Inr (1, s\<lparr>world := (fst (world s), j)\<rparr>) \<and>
      at_compiled prog (regs s 15) j \<or>
    pre_insn_hook seek fresh (tsim_ops no_clock) i s = Inr (0, s\<lparr>world := (fst (world s), j)\<rparr>) \<and>
      in_block prog (regs s 15) j"
proof -
  let ?p = "regs s 15"
  have "e_reladdr i = ?p" by (simp add: i_def)
  from find_block_ok [OF assms(1) this assms(2)]
  obtain f j bb where f: "find_block seek i (snd (world s)) = (f, j)" and t: "table_ok prog j" "curr_bb j = Some f"
    and bb: "basic_blocks j f = Some bb"
    and r: "run_count_threshold j = run_count_threshold (snd (world s))"
    and at0: "bb_base bb = ?p \<or> (\<exists>k. unat ?p = unat (bb_base bb) + k \<and>
      inside prog (run_count_threshold (snd (world s))) (bb_base bb) k k bb)"
    by (elim exE conjE)
  define b where "b = bb_base bb"
  note at = at0 [folded b_def r]
  define thr where "thr = run_count_threshold j"
  have ok: "block_ok prog thr b bb" "0 < thr" using t(1) bb by (auto simp: table_ok_def thr_def b_def)
  have hook: "pre_insn_hook seek fresh (tsim_ops no_clock) i s =
      (if compiled bb \<noteq> None then Inr (1, s\<lparr>world := (fst (world s), j)\<rparr>)
       else if run_count bb = thr then
         bindE (cache_word fresh i bb) (\<lambda>bb. Inr (0, s\<lparr>world := (fst (world s), put_block f bb j)\<rparr>))
       else if thr < run_count bb then
         bindE (compile_block bb) (\<lambda>bb. Inr (1, s\<lparr>world := (fst (world s), put_block f bb j)\<rparr>))
       else Inr (0, s\<lparr>world := (fst (world s), j)\<rparr>))"
    by (simp add: pre_insn_hook_def f bb Let_def thr_def)
  show ?thesis
  proof (cases "compiled bb")
    case (Some code)
    then have "b = ?p" using at by (auto simp: inside_def)
    then show ?thesis unfolding hook using Some t bb by (auto simp: at_compiled_def b_def)
  next
    case None
    show ?thesis
    proof (cases "thr < run_count bb")
      case True
      then have "b = ?p" using at by (auto simp: inside_def thr_def)
      obtain bb' where bb': "compile_block bb = Inr bb'" "block_ok prog thr b bb'" "compiled bb' \<noteq> None"
        using compile_block_ok [OF ok(1) True ok(2) None] by blast
      then have "at_compiled prog ?p (put_block f bb' j)"
        using t \<open>b = ?p\<close> block_ok_base [OF bb'(2)] table_ok_put [of prog j b bb' f] by (simp add: at_compiled_def thr_def)
      then show ?thesis unfolding hook using None True bb'(1) by auto
    next
      case False
      obtain k where k: "unat ?p = unat b + k" "inside prog thr b k k bb"
      proof (cases "b = ?p")
        case True
        then show ?thesis using that [of 0] None False by (simp add: inside_def)
      next
        case False
        then show ?thesis using that at by (auto simp: thr_def)
      qed
      show ?thesis
      proof (cases "run_count bb = thr")
        case True
        have "unat (e_reladdr i) = unat b + k" "e_word i = prog (e_reladdr i)" using k(1) by (simp_all add: i_def)
        from cache_word_ok [OF ok(1) True ok(2) k(2) this] obtain bb' where
          bb': "cache_word fresh i bb = Inr bb'" "block_ok prog thr b bb'" "inside prog thr b k (Suc k) bb'" by blast
        then have "in_block prog ?p (put_block f bb' j)"
          using t k(1) block_ok_base [OF bb'(2)] table_ok_put [of prog j b bb' f] by (auto simp: in_block_def thr_def)
        then show ?thesis unfolding hook using None True bb'(1) by auto
      next
        case neq: False
        have "inside prog thr b k (Suc k) bb" using k(2) neq by (simp add: inside_def)
        then have "in_block prog ?p j" using t bb k(1) by (auto simp: in_block_def thr_def b_def)
        then show ?thesis unfolding hook using None False neq by auto
      qed
    qed
  qed
qed

text \<open>After an instruction.\<close>

lemma post_insn_hook_ends:
  assumes "in_block prog p (snd (world s))" and "writes_P (prog p)" and "p \<noteq> 0xffffffff"
  shows "\<exists>j. post_insn_hook (tsim_ops no_clock) \<lparr>e_word = prog p, e_reladdr = p, e_size = 0\<rparr> s =
      Inr (1, s\<lparr>insns_executed := insns_executed s + 1, world := (fst (world s), j)\<rparr>) \<and>
    table_ok prog j \<and> curr_bb j = None"
proof -
  let ?j = "snd (world s)"
  define thr where "thr = run_count_threshold ?j"
  obtain f bb k where b0: "curr_bb ?j = Some f" "basic_blocks ?j f = Some bb" "unat p = unat (bb_base bb) + k"
    "inside prog thr (bb_base bb) k (Suc k) bb"
    using assms(1) by (auto simp: in_block_def thr_def)
  define b where "b = bb_base bb"
  note b = b0 [folded b_def]
  have t: "table_ok prog ?j" using assms(1) by (simp add: in_block_def)
  then have ok: "block_ok prog thr b bb" "0 < thr" using b(2) by (auto simp: table_ok_def thr_def b_def)
  define bb' where "bb' = bb\<lparr>bb_len := p - b + 1, complete := True, run_count := run_count bb + 1\<rparr>"
  have p: "p = b + of_nat k" "unat (p - b) = k" using offset_word [OF b(3)] by simp_all
  have up: "unat p + 1 < 2 ^ 32" by (rule below_last [OF assms(3)])
  then have len: "unat (p - b + 1) = Suc k"
    using p(2) b(3) by (subst unat_add_lem [THEN iffD1]) simp_all
  have blk: "is_block prog b (Suc k)"
    using b(3,4) up assms(2) p(1) by (simp add: is_block_def inside_def)
  have "n = Suc k" if "complete bb" "n = unat (bb_len bb)" for n
    using is_block_unique(2) [of prog b n k] ok(1) b(4) that assms(2) p(1)
    by (auto simp: block_ok_def inside_def Let_def)
  then have "block_ok prog thr b bb'"
    using ok b(4) blk len
    by (auto simp: block_ok_def inside_def bb'_def Let_def block_words_def simp del: upt_Suc intro!: nth_equalityI)
  then have "table_ok prog (put_block f bb' ?j)" using t table_ok_put [of prog ?j b bb' f] by (simp add: thr_def)
  moreover have "bb_base bb = b" by (simp add: b_def)
  ultimately show ?thesis using assms(2) b(1,2)
    by (intro exI [of _ "(put_block f bb' ?j)\<lparr>curr_bb := None\<rparr>"])
      (simp add: post_insn_hook_def Let_def bb'_def [symmetric])
qed

lemma post_insn_hook_goes_on:
  assumes "in_block prog p (snd (world s))" and "\<not> writes_P (prog p)" and "p \<noteq> 0xffffffff" and "regs s 15 = p + 1"
  shows "post_insn_hook (tsim_ops no_clock) \<lparr>e_word = prog p, e_reladdr = p, e_size = 0\<rparr> s =
      Inr (0, s\<lparr>insns_executed := insns_executed s + 1\<rparr>) \<and> at_head prog (regs s 15) (snd (world s))"
proof -
  let ?j = "snd (world s)"
  obtain f bb k where b0: "curr_bb ?j = Some f" "basic_blocks ?j f = Some bb" "unat p = unat (bb_base bb) + k"
    "inside prog (run_count_threshold ?j) (bb_base bb) k (Suc k) bb"
    using assms(1) by (auto simp: in_block_def)
  define b where "b = bb_base bb"
  note b = b0 [folded b_def]
  have p: "p = b + of_nat k" using offset_word [OF b(3)] by simp
  have u: "unat (p + 1) = unat b + Suc k"
    using b(3) below_last [OF assms(3)] by (subst unat_add_lem [THEN iffD1]) simp_all
  have "inside prog (run_count_threshold ?j) b (Suc k) (Suc k) bb"
    using b(4) assms(2) p by (auto simp: inside_def less_Suc_eq)
  then have "at_head prog (regs s 15) ?j"
    using assms(1,4) b(1,2) u by (auto simp: at_head_def in_block_def b_def)
  then show ?thesis using assms(2) by (simp add: post_insn_hook_def)
qed

section \<open>The run\<close>

text \<open>What is left to do once the interpreter has been called.\<close>

definition continues where
  "continues D junk u vars seek fresh s =
     bindO (interp_run_sim (paired D) junk (jit_ops seek fresh (tsim_ops no_clock)) s) (\<lambda>(rc, s).
       if rc \<ge> 0 then jit_loop D no_clock junk u vars seek fresh (tsim_ops no_clock) s else Some (Inr (0, s)))"

lemma world_again: "s\<lparr>world := world s\<rparr> = s"
  by (cases s) simp

lemma jit_loop_continues:
  "run_compiled D junk u vars s = Inr t \<Longrightarrow>
     jit_loop D no_clock junk u vars seek fresh (tsim_ops no_clock) s = continues D junk u vars seek fresh t"
  by (subst jit_loop.simps) (simp add: continues_def Let_def split_def world_again cong: if_cong)

lemma continues_next:
  "insn_step (paired D) junk (jit_ops seek fresh (tsim_ops no_clock)) s = Inr (None, t) \<Longrightarrow>
     continues D junk u vars seek fresh s = continues D junk u vars seek fresh t"
  unfolding continues_def by (subst interp_run_sim.simps) simp

lemma continues_leave:
  "insn_step (paired D) junk (jit_ops seek fresh (tsim_ops no_clock)) s = Inr (Some rc, t) \<Longrightarrow>
     continues D junk u vars seek fresh s =
       (if rc \<ge> 0 then jit_loop D no_clock junk u vars seek fresh (tsim_ops no_clock) t else Some (Inr (0, t)))"
  unfolding continues_def by (subst interp_run_sim.simps) simp

text \<open>A block that is compiled is executed whole.\<close>

lemma run_compiled_none: "curr_bb (snd (world s)) = None \<Longrightarrow> run_compiled D junk u vars s = Inr s"
  by (simp add: run_compiled_def)

lemma run_compiled_block:
  assumes "at_compiled prog (regs s 15) (snd (world s))" and "regs s 0 = 0"
    and "ends D junk prog n \<lparr>regs = regs s, insns_executed = 0, world = fst (world s)\<rparr> t"
  shows "\<exists>s' m l. run_compiled D junk u vars s = Inr s' \<and> table_ok prog (snd (world s')) \<and>
    curr_bb (snd (world s')) = None \<and> regs s' 0 = 0 \<and> 0 < l \<and> n = m + l \<and>
    insns_executed s' = insns_executed s + of_nat l \<and>
    ends D junk prog m \<lparr>regs = regs s', insns_executed = 0, world = fst (world s')\<rparr> t"
proof -
  let ?j = "snd (world s)" and ?b = "regs s 15"
  obtain f bb code where b: "curr_bb ?j = Some f" "basic_blocks ?j f = Some bb" "compiled bb = Some code" "bb_base bb = ?b"
    using assms(1) by (auto simp: at_compiled_def)
  have t: "table_ok prog ?j" using assms(1) by (simp add: at_compiled_def)
  then have ok: "block_ok prog (run_count_threshold ?j) ?b bb" "0 < run_count_threshold ?j" using b(2,4) by (fastforce simp: table_ok_def)+
  define l where "l = unat (bb_len bb)"
  have code: "complete bb" "is_block prog ?b l" "jit_gen_block (block_words prog ?b l) = Inr code"
    using ok(1) b(3) by (auto simp: block_ok_def Let_def l_def)
  let ?n = "\<lparr>n_var = vars, n_flags = u, n_regs = regs s, n_world = fst (world s)\<rparr>"
  have v: "view 0 0 ?n = \<lparr>regs = regs s, insns_executed = 0, world = fst (world s)\<rparr>" by (simp add: view_def)
  obtain m s1 where m: "executes D junk (block_words prog ?b l) (view 0 0 ?n) s1" "ends D junk prog m s1 t" "n = m + l"
    using ends_executes [OF assms(3), of l] code(2) unfolding v by auto
  have w: "block_words prog ?b l \<noteq> []" "writes_P (last (block_words prog ?b l))"
    "\<forall>w\<in>set (butlast (block_words prog ?b l)). \<not> writes_P w"
    using code(2) by (auto simp: is_block_def block_words_def last_map butlast_conv_take take_map in_set_conv_nth last_conv_nth)
  obtain c s2 where c: "gen_from 0 (block_words prog ?b l) = Inr c" "native_run D junk u c ?n = Inr s2" "n_regs s2 0 = 0"
    "s1 = view 0 0 s2"
    using block_simulated [OF m(1) _ w(3), of u] assms(2) w by auto
  define bb' where "bb' = bb\<lparr>run_count := run_count bb + 1\<rparr>"
  have "block_ok prog (run_count_threshold ?j) ?b bb'" using ok code(1) b(3) by (simp add: block_ok_def bb'_def Let_def)
  then have t': "table_ok prog (put_block f bb' ?j)" using t by (rule table_ok_put [rotated])
  have "c = code" using c(1) code(3) by (simp add: jit_gen_block_def)
  then have "run_compiled D junk u vars s = Inr \<lparr>regs = n_regs s2, insns_executed = insns_executed s + of_nat l,
      world = (n_world s2, (put_block f bb' ?j)\<lparr>curr_bb := None\<rparr>)\<rparr>"
    using b(1-3) c(2) by (simp add: run_compiled_def call_block_def Let_def bb'_def l_def)
  moreover have "0 < l" using code(2) by (simp add: is_block_def)
  moreover have "s1 = \<lparr>regs = n_regs s2, insns_executed = 0, world = n_world s2\<rparr>" using c(4) by (simp add: view_def)
  ultimately show ?thesis using m(2,3) t' c(3) by auto
qed

lemma continues_ends:
  assumes "ends D junk prog n \<lparr>regs = regs s, insns_executed = 0, world = fst (world s)\<rparr> t"
    and "at_head prog (regs s 15) (snd (world s))" and "regs s 0 = 0" and f: "finds_equal seek"
  shows "\<exists>j. continues D junk u vars seek fresh s =
    Some (Inr (0, \<lparr>regs = regs t, insns_executed = insns_executed s + of_nat n, world = (world t, j)\<rparr>))"
  using assms(1-3)
proof (induction n arbitrary: s rule: less_induct)
  case (less n)
  let ?s = "\<lparr>regs = regs s, insns_executed = 0, world = fst (world s)\<rparr>" and ?p = "regs s 15"
  let ?i = "\<lparr>e_word = prog ?p, e_reladdr = ?p, e_size = 0\<rparr>"
  let ?step = "insn_step (paired D) junk (jit_ops seek fresh (tsim_ops no_clock)) s"
  show ?case
  proof (cases n)
    case 0
    then have t: "t = ?s" "?p = 0xffffffff" using less.prems(1) by (auto elim: ends.cases)
    then have "?step = Inr (Some (-1), s)" by (simp add: insn_step_def)
    from continues_leave [OF this] show ?thesis using t 0
      by (intro exI [of _ "snd (world s)"]) simp
  next
    case (Suc n1)
    obtain s1 where p: "?p \<noteq> 0xffffffff" "D OP_INSN_READ ?p 0 (fst (world s)) = Inr (0, prog ?p, fst (world s))"
      and run: "run_instruction D junk ?i ?s = Inr (0, s1)" and s1: "ends D junk prog n1 s1 t"
      using less.prems(1) unfolding Suc by (auto elim: ends_SucE)
    have fetch: "paired D OP_INSN_READ ?p 0 (world s) = Inr (0, prog ?p, world s)"
      by (simp add: paired_def p(2))
    obtain j where "pre_insn_hook seek fresh (tsim_ops no_clock) ?i s = Inr (1, s\<lparr>world := (fst (world s), j)\<rparr>) \<and>
        at_compiled prog ?p j \<or>
      pre_insn_hook seek fresh (tsim_ops no_clock) ?i s = Inr (0, s\<lparr>world := (fst (world s), j)\<rparr>) \<and>
        in_block prog ?p j"
      using pre_insn_hook_ok [OF less.prems(2) f] by blast
    then consider
      (native) "pre_insn_hook seek fresh (tsim_ops no_clock) ?i s = Inr (1, s\<lparr>world := (fst (world s), j)\<rparr>)"
        "at_compiled prog ?p j"
    | (interp) "pre_insn_hook seek fresh (tsim_ops no_clock) ?i s = Inr (0, s\<lparr>world := (fst (world s), j)\<rparr>)"
        "in_block prog ?p j"
      by blast
    then show ?thesis
    proof cases
      case native
      let ?s1 = "s\<lparr>world := (fst (world s), j)\<rparr>"
      have "?step = Inr (Some 0, ?s1)"
        using p(1) native(1) by (simp add: insn_step_def fetch call_hook_def jit_ops_def world_again Let_def)
      then have c: "continues D junk u vars seek fresh s = jit_loop D no_clock junk u vars seek fresh (tsim_ops no_clock) ?s1"
        by (simp add: continues_leave)
      obtain s' m l where s': "run_compiled D junk u vars ?s1 = Inr s'" "table_ok prog (snd (world s'))"
        "curr_bb (snd (world s')) = None" "regs s' 0 = 0" "0 < l" "n = m + l"
        "insns_executed s' = insns_executed s + of_nat l"
        "ends D junk prog m \<lparr>regs = regs s', insns_executed = 0, world = fst (world s')\<rparr> t"
        using run_compiled_block [of prog ?s1 D junk n t u vars] native(2) less.prems(1,3) by auto
      have "m < n" "at_head prog (regs s' 15) (snd (world s'))" using s' by (simp_all add: at_head_def)
      from less.IH [OF this(1) s'(8) this(2) s'(4)] show ?thesis
        unfolding c jit_loop_continues [OF s'(1)] using s'(6,7) by (simp add: algebra_simps)
    next
      case interp
      let ?s2 = "\<lparr>regs = regs s1, insns_executed = insns_executed s, world = (world s1, j)\<rparr>"
      have "s\<lparr>world := (fst (world s), j)\<rparr> = \<lparr>regs = regs s, insns_executed = insns_executed s, world = (fst (world s), j)\<rparr>"
        by simp
      moreover have "run_instruction (paired D) junk ?i
          \<lparr>regs = regs s, insns_executed = insns_executed s, world = (fst (world s), j)\<rparr> = Inr (0, ?s2)"
        using run_instruction_paired [OF run, of "insns_executed s" j] by simp
      ultimately have run': "run_instruction (paired D) junk ?i (s\<lparr>world := (fst (world s), j)\<rparr>) = Inr (0, ?s2)"
        by (simp only:)
      have step: "?step = bindE (post_insn_hook (tsim_ops no_clock) ?i ?s2) (\<lambda>(rc, s).
          if rc \<noteq> 0 then Inr (Some 0, s) else Inr (None, s))"
        using p(1) interp(1) run' by (simp add: insn_step_def fetch call_hook_def jit_ops_def world_again Let_def)
      have r0: "regs s1 0 = 0" using run_instruction_reg0 [OF run] less.prems(3) by simp
      have e: "s1 = \<lparr>regs = regs s1, insns_executed = 0, world = world s1\<rparr>"
        using run_instruction_count(2) [OF run] by (cases s1) simp
      have h: "in_block prog ?p (snd (world ?s2))" using interp(2) by simp
      show ?thesis
      proof (cases "writes_P (prog ?p)")
        case True
        obtain j' where j': "post_insn_hook (tsim_ops no_clock) ?i ?s2 =
            Inr (1, ?s2\<lparr>insns_executed := insns_executed ?s2 + 1, world := (fst (world ?s2), j')\<rparr>)"
          "table_ok prog j'" "curr_bb j' = None"
          using post_insn_hook_ends [OF h True p(1)] by blast
        let ?s3 = "\<lparr>regs = regs s1, insns_executed = insns_executed s + 1, world = (world s1, j')\<rparr>"
        have "?step = Inr (Some 0, ?s3)" unfolding step j'(1) by simp
        then have "continues D junk u vars seek fresh s = continues D junk u vars seek fresh ?s3"
          using j'(3) by (simp add: continues_leave jit_loop_continues run_compiled_none)
        moreover have "at_head prog (regs ?s3 15) (snd (world ?s3))" using j'(2,3) by (simp add: at_head_def)
        ultimately show ?thesis using less.IH [of n1 ?s3] s1 e r0 Suc by (simp add: algebra_simps)
      next
        case False
        have "regs ?s2 15 = ?p + 1" using run_instruction_P [OF run] False by simp
        from post_insn_hook_goes_on [OF h False p(1) this] have
          post: "post_insn_hook (tsim_ops no_clock) ?i ?s2 = Inr (0, ?s2\<lparr>insns_executed := insns_executed ?s2 + 1\<rparr>)"
          and a: "at_head prog (regs ?s2 15) (snd (world ?s2))" by blast+
        let ?s3 = "\<lparr>regs = regs s1, insns_executed = insns_executed s + 1, world = (world s1, j)\<rparr>"
        have "?step = Inr (None, ?s3)" unfolding step post by simp
        then have "continues D junk u vars seek fresh s = continues D junk u vars seek fresh ?s3" by (rule continues_next)
        then show ?thesis using less.IH [of n1 ?s3] a s1 e r0 Suc by (simp add: algebra_simps)
      qed
    qed
  qed
qed

text \<open>The runner does what the interpreter does.\<close>

lemma jit_threshold_positive: "0 < jit_threshold p"
  by (simp add: jit_threshold_def Let_def split: prod.split list.split)

lemma jit_run_ends:
  assumes "ends D junk prog n (s\<lparr>insns_executed := 0\<rparr>) t" and "regs s 0 = 0" and "finds_equal seek"
  shows "jit_run_sim D no_clock junk u vars seek fresh tree (tsim_ops no_clock) p s =
    Some (Inr (0, t\<lparr>insns_executed := insns_executed s + of_nat n\<rparr>))"
proof -
  let ?s = "outer \<lparr>run_count_threshold = jit_threshold p, basic_blocks = Map.empty, curr_bb = None, bb_tree = tree\<rparr> s"
  have f: "regs ?s = regs s" "world ?s = (world s, \<lparr>run_count_threshold = jit_threshold p, basic_blocks = Map.empty, curr_bb = None, bb_tree = tree\<rparr>)"
    "insns_executed ?s = insns_executed s"
    by (simp_all add: outer_def)
  have h: "at_head prog (regs ?s 15) (snd (world ?s))"
    by (simp add: f at_head_def table_ok_def jit_threshold_positive)
  have "s\<lparr>insns_executed := 0\<rparr> = \<lparr>regs = regs s, insns_executed = 0, world = world s\<rparr>" by simp
  then have e: "ends D junk prog n \<lparr>regs = regs ?s, insns_executed = 0, world = fst (world ?s)\<rparr> t"
    using assms(1) by (simp only: f fst_conv)
  obtain j where "continues D junk u vars seek fresh ?s =
      Some (Inr (0, \<lparr>regs = regs t, insns_executed = insns_executed s + of_nat n, world = (world t, j)\<rparr>))"
    using continues_ends [OF e h _ assms(3), of u vars fresh] assms(2) f by auto
  then have "jit_loop D no_clock junk u vars seek fresh (tsim_ops no_clock) ?s =
      Some (Inr (0, \<lparr>regs = regs t, insns_executed = insns_executed s + of_nat n, world = (world t, j)\<rparr>))"
    by (subst jit_loop_continues [OF run_compiled_none]) (simp_all add: f)
  then show ?thesis by (cases t) (simp add: jit_run_sim_def inner_def)
qed

text \<open>An error does not end it: what the interpreter returns is only compared with 0.\<close>

lemma jit_ignores_errors:
  assumes "run_compiled D junk u vars s = Inr s1" and "pump (fst (world s2)) = Inr (k, w)"
    and "interp_run_sim (paired D) junk (jit_ops seek fresh ops) s1 = Some (Inr (1, s2))"
  shows "jit_loop D pump junk u vars seek fresh ops s = jit_loop D pump junk u vars seek fresh ops (s2\<lparr>world := (w, snd (world s2))\<rparr>)"
  by (subst jit_loop.simps) (simp add: assms)

section \<open>An example\<close>

text \<open>
  A memory of all addresses, and a loop: \<open>B <- B + 1\<close>, \<open>D <- B < 20\<close>, \<open>P <- D & -3 + P\<close>, and then
  \<open>P <- A - 1\<close>.  It goes round often enough for the loop to be compiled.
\<close>

definition flat :: "(u32 \<Rightarrow> u32) dispatcher" where
  "flat op a v m = (if op = OP_WRITE then Inr (0, v, m(a := v)) else Inr (0, m a, m))"

definition loop_words :: "u32 list" where
  "loop_words = [pack012 0 0 1 1 0 4 1, pack012 1 0 3 1 0 7 20, pack012 1 0 15 3 15 1 (-3), pack3 3 0 15 0 (-1)]"

definition loop_memory :: "u32 \<Rightarrow> u32" where
  "loop_memory a = (if unat (a - 0x1000) < 4 then loop_words ! unat (a - 0x1000) else 0)"

lemma loop_memory_words:
  "loop_memory 0x1000 = pack012 0 0 1 1 0 4 1" "loop_memory 0x1001 = pack012 1 0 3 1 0 7 20"
  "loop_memory 0x1002 = pack012 1 0 15 3 15 1 (-3)" "loop_memory 0x1003 = pack3 3 0 15 0 (-1)"
  by (simp_all add: loop_memory_def loop_words_def)

lemma flat_step:
  assumes "w = loop_memory (regs s 15)" and "isa_defined (regs (next_ip s)) w" and "\<not> stores_P w"
    and "isa_effect (regs (next_ip s)) w = Set_reg z v" and "z \<noteq> 0" and "regs s 15 \<noteq> 0xffffffff" and "world s = loop_memory"
    and "ends flat junk loop_memory n (s\<lparr>regs := (regs (next_ip s))(z := v)\<rparr>) t"
  shows "ends flat junk loop_memory (Suc n) s t"
proof (rule ends_insn [OF assms(6) _ _ _ _ assms(8)])
  show "run_instruction flat junk \<lparr>e_word = loop_memory (regs s 15), e_reladdr = regs s 15, e_size = 0\<rparr> s =
      Inr (0, s\<lparr>regs := (regs (next_ip s))(z := v)\<rparr>)"
    using run_instruction_isa [of s "\<lparr>e_word = w, e_reladdr = regs s 15, e_size = 0\<rparr>" flat junk] assms(1,2,4,5)
    by (simp add: apply_effect_def set_reg_def next_ip_def)
qed (use assms in \<open>simp_all add: flat_def\<close>)

lemmas loop_effect =
  isa_defined_def isa_effect_def isa_rhs_def isa_args_def isa_op_def all_ops_def shift_like_def stores_P_def Let_def

lemma loop_leaves:
  assumes "regs s 0 = 0" and "regs s 15 = 0x1003" and "world s = loop_memory"
  shows "ends flat junk loop_memory (Suc 0) s (s\<lparr>regs := (regs s)(15 := 0xffffffff)\<rparr>)"
  by (rule flat_step [of "loop_memory (regs s 15)" _ 15 "0xffffffff"])
    (use assms in \<open>simp_all add: loop_memory_words loop_effect next_ip_def ends_stop\<close>)

lemma loop_first:
  assumes "regs s 0 = 0" and "regs s 15 = 0x1000" and "world s = loop_memory"
    and "ends flat junk loop_memory n (s\<lparr>regs := (regs s)(15 := 0x1001, 1 := regs s 1 + 1)\<rparr>) t"
  shows "ends flat junk loop_memory (Suc n) s t"
  by (rule flat_step [of "loop_memory (regs s 15)" _ 1 "regs s 1 + 1"])
    (use assms in \<open>simp_all add: loop_memory_words loop_effect next_ip_def\<close>)

lemma loop_second:
  assumes "regs s 0 = 0" and "regs s 15 = 0x1001" and "world s = loop_memory"
    and "ends flat junk loop_memory n (s\<lparr>regs := (regs s)(15 := 0x1002, 3 := if sint (regs s 1) < 20 then -1 else 0)\<rparr>) t"
  shows "ends flat junk loop_memory (Suc n) s t"
  by (rule flat_step [of "loop_memory (regs s 15)" _ 3 "if sint (regs s 1) < 20 then -1 else 0"])
    (use assms in \<open>simp_all add: loop_memory_words loop_effect next_ip_def\<close>)

lemma loop_third:
  assumes "regs s 15 = 0x1002" and "world s = loop_memory" and "regs s 3 = (if again then -1 else 0)"
    and "ends flat junk loop_memory n (s\<lparr>regs := (regs s)(15 := if again then 0x1000 else 0x1003)\<rparr>) t"
  shows "ends flat junk loop_memory (Suc n) s t"
  by (rule flat_step [of "loop_memory (regs s 15)" _ 15 "if again then 0x1000 else 0x1003"])
    (use assms in \<open>simp_all add: loop_memory_words loop_effect next_ip_def\<close>)

lemma loop_ends:
  assumes "regs s 0 = 0" and "regs s 15 = 0x1000" and "world s = loop_memory" and "unat (regs s 1) + k = 20" and "0 < k"
  shows "\<exists>t. ends flat junk loop_memory (3 * k + 1) s t \<and> regs t 1 = 20"
  using assms
proof (induction k arbitrary: s)
  case (Suc k)
  let ?c = "regs s 1 + 1"
  have u: "unat ?c + k = 20" using Suc.prems(4) by (subst unat_add_lem [THEN iffD1]) simp_all
  have "sint ?c = int (unat ?c)" by (rule sint_small) (use u in \<open>simp\<close>)
  then have c: "sint ?c < 20 \<longleftrightarrow> 0 < k" unfolding uint_nat using u by linarith
  let ?r = "(regs s)(15 := 0x1001, 1 := ?c, 15 := 0x1002, 3 := if 0 < k then -1 else 0, 15 := if 0 < k then 0x1000 else 0x1003)"
  have n: "3 * Suc k + 1 = Suc (Suc (Suc (3 * k + 1)))" by simp
  have turn: "ends flat junk loop_memory (3 * Suc k + 1) s t"
    if "ends flat junk loop_memory (3 * k + 1) (s\<lparr>regs := ?r\<rparr>) t" for t
    unfolding n using Suc.prems that c
    by (intro loop_first loop_second loop_third [where again = "0 < k"]) simp_all
  show ?case
  proof (cases "k = 0")
    case True
    have "unat ?c = unat (20 :: u32)" using u True by simp
    then have "?c = 20" by (simp only: word_unat_eq_iff)
    then have r: "?r 1 = 20" by simp
    have "ends flat junk loop_memory (Suc 0) (s\<lparr>regs := ?r\<rparr>) (s\<lparr>regs := ?r(15 := 0xffffffff)\<rparr>)"
      using loop_leaves [of "s\<lparr>regs := ?r\<rparr>" junk] Suc.prems(1,3) True by simp
    then have "ends flat junk loop_memory (3 * Suc k + 1) s (s\<lparr>regs := ?r(15 := 0xffffffff)\<rparr>)"
      using True by (intro turn) simp
    then show ?thesis using r by (intro exI [of _ "s\<lparr>regs := ?r(15 := 0xffffffff)\<rparr>"] conjI) simp_all
  next
    case False
    then have "\<exists>t. ends flat junk loop_memory (3 * k + 1) (s\<lparr>regs := ?r\<rparr>) t \<and> regs t 1 = 20"
      using Suc.prems u by (intro Suc.IH) simp_all
    then show ?thesis using turn by blast
  qed
qed simp

end
