(* ===== verification/Lexer.thy ===== *)
theory Lexer
  imports Plugins Grammar
begin

text \<open>
  The scanner, \<^verbatim>\<open>src/lexer.l\<close>: its patterns as functions that give the length of the longest match, its
  rules in their order with their start conditions and actions, and what the manual of flex says is done
  with them: of the rules that are active the one with the longest match is taken, of equals the first.
  The text of the line and the columns, which only diagnostics use, are left out.
\<close>

section \<open>State\<close>

datatype start = INITIAL | Ignore_nl | Needarrow | Charlit | Charend | Charesc | Comment | Linecomment | In_string

text \<open>The \<open>%s\<close> conditions are inclusive: rules without a condition are active in them.\<close>

definition inclusive :: "start \<Rightarrow> bool" where
  "inclusive st \<longleftrightarrow> st = INITIAL \<or> st = Ignore_nl \<or> st = Needarrow"

datatype token =
    T_char char
  | REGISTER char | SYMBOL string | LOCAL string | ILLEGAL
  | INTEGER u32 | BITSTRING u32 | CHARACTER string
  | OPNQUOTE | CLSQUOTE | STRSPAN string
  | WORD | UTF32 | GLOBAL | SET | ZERO | OPTION
  | LSH' | GE | LE | EQ' | ANDN | ORN | RSHA' | RSH' | PACK | TOL | TOR

text \<open>\<open>lx_str\<close> is the string that \<open>yylval\<close> points to; \<open>lx_errors\<close> counts the calls of \<open>tenyr_error\<close>.\<close>

record lexer =
  lx_in :: string
  lx_start :: start
  lx_stack :: "start list"
  lx_str :: string
  lx_errors :: nat

definition yy_push_state :: "start \<Rightarrow> lexer \<Rightarrow> lexer" where
  "yy_push_state st l = l\<lparr>lx_stack := lx_start l # lx_stack l, lx_start := st\<rparr>"

definition yy_pop_state :: "lexer \<Rightarrow> lexer res" where
  "yy_pop_state l =
     (case lx_stack l of
        [] \<Rightarrow> Inl (Fatal ''start-condition stack underflow'')
      | st # sts \<Rightarrow> Inr (l\<lparr>lx_start := st, lx_stack := sts\<rparr>))"

section \<open>Patterns\<close>

definition lower_case :: "char \<Rightarrow> char" where
  "lower_case c = (let n = of_char c in if (65 :: nat) \<le> n \<and> n \<le> 90 then char_of (n + 32) else c)"

definition between :: "char \<Rightarrow> char \<Rightarrow> char \<Rightarrow> bool" where
  "between a z c \<longleftrightarrow> (of_char a :: nat) \<le> of_char (lower_case c) \<and> (of_char (lower_case c) :: nat) \<le> of_char z"

type_synonym pattern = "string \<Rightarrow> nat option"

text \<open>A literal, without regard to case.\<close>

fun p_lit :: "string \<Rightarrow> pattern" where
  "p_lit [] s = Some 0"
| "p_lit (p # ps) [] = None"
| "p_lit (p # ps) (c # s) = (if lower_case c = p then map_option Suc (p_lit ps s) else None)"

fun p_one :: "(char \<Rightarrow> bool) \<Rightarrow> pattern" where
  "p_one P [] = None"
| "p_one P (c # s) = (if P c then Some 1 else None)"

text \<open>\<open>P{m,n}\<close>; an upper bound of \<open>None\<close> is none.\<close>

definition p_many :: "(char \<Rightarrow> bool) \<Rightarrow> nat \<Rightarrow> nat option \<Rightarrow> pattern" where
  "p_many P m n s =
     (let k = length (takeWhile P (case n of None \<Rightarrow> s | Some n \<Rightarrow> take n s)) in if m \<le> k then Some k else None)"

definition p_seq :: "pattern \<Rightarrow> pattern \<Rightarrow> pattern" where
  "p_seq p q s =
     (case p s of None \<Rightarrow> None | Some k \<Rightarrow> map_option (\<lambda>j. k + j) (q (drop k s)))"

definition p_longer :: "nat option \<Rightarrow> nat option \<Rightarrow> nat option" where
  "p_longer x y = (case x of None \<Rightarrow> y | Some i \<Rightarrow> (case y of None \<Rightarrow> x | Some j \<Rightarrow> Some (max i j)))"

definition p_alt :: "pattern \<Rightarrow> pattern \<Rightarrow> pattern" where
  "p_alt p q s = p_longer (p s) (q s)"

definition name_char :: "char \<Rightarrow> bool" where
  "name_char c \<longleftrightarrow> between CHR ''a'' CHR ''z'' c \<or> between CHR ''0'' CHR ''9'' c \<or> c = CHR ''_''"

definition reg_pat :: pattern where "reg_pat = p_one (between CHR ''a'' CHR ''p'')"

definition symbol_pat :: pattern where
  "symbol_pat = p_alt
     (p_seq (p_one (\<lambda>c. between CHR ''a'' CHR ''z'' c \<or> c = CHR ''_'')) (p_many name_char 1 (Some 30)))
     (p_seq (p_one (\<lambda>c. between CHR ''q'' CHR ''z'' c \<or> c = CHR ''_'')) (p_many name_char 0 (Some 30)))"

definition local_pat :: pattern where
  "local_pat = p_seq (p_lit ''.l'') (p_many name_char 1 (Some 31))"

definition digit_of :: "char \<Rightarrow> char \<Rightarrow> bool" where
  "digit_of z c \<longleftrightarrow> between CHR ''0'' z c \<or> c = CHR ''_''"

definition hexnum :: pattern where
  "hexnum = p_seq (p_lit ''0x'') (p_many (\<lambda>c. digit_of CHR ''9'' c \<or> between CHR ''a'' CHR ''f'' c) 1 None)"
definition octnum :: pattern where "octnum = p_seq (p_lit ''0'') (p_many (digit_of CHR ''7'') 1 None)"
definition binnum :: pattern where "binnum = p_seq (p_lit ''0b'') (p_many (digit_of CHR ''1'') 1 None)"
definition decnum :: pattern where "decnum = p_many (digit_of CHR ''9'') 1 None"

definition nl_char :: char where "nl_char = CHR 0x0A"
definition cr_char :: char where "cr_char = CHR 0x0D"

text \<open>\<open>.\<close> is any character but a newline.\<close>

definition p_any :: pattern where "p_any = p_one (\<lambda>c. c \<noteq> nl_char)"
definition p_newline :: pattern where "p_newline = p_one (\<lambda>c. c = nl_char)"
definition cr_nl :: pattern where
  "cr_nl = p_alt p_newline (p_seq (p_one (\<lambda>c. c = cr_char)) p_newline)"

definition is_white :: "char \<Rightarrow> bool" where
  "is_white c \<longleftrightarrow> of_char c \<in> {9, 12, 11, 13, 32 :: nat}"

definition self_chars :: string where "self_chars = ''][|&+*^><.,:@()~;/-''"

definition escchar :: "char \<Rightarrow> bool" where
  "escchar c \<longleftrightarrow> lower_case c \<in> set (CHR 0x5C # CHR 0x22 # CHR 0x27 # ''0nbrtfv'')"

section \<open>Actions\<close>

type_synonym action = "string \<Rightarrow> lexer \<Rightarrow> (token option \<times> lexer) res"

text \<open>An invalid escape is reported and stands for -1.\<close>

definition translate_escape :: "char \<Rightarrow> lexer \<Rightarrow> char \<times> lexer" where
  "translate_escape c l =
     (if c = CHR 0x5C \<or> c = CHR 0x27 \<or> c = CHR 0x22 then (c, l)
      else if c = CHR ''0'' then (CHR 0x00, l)
      else if c = CHR ''b'' then (CHR 0x08, l)
      else if c = CHR ''f'' then (CHR 0x0C, l)
      else if c = CHR ''n'' then (CHR 0x0A, l)
      else if c = CHR ''r'' then (CHR 0x0D, l)
      else if c = CHR ''t'' then (CHR 0x09, l)
      else if c = CHR ''v'' then (CHR 0x0B, l)
      else (CHR 0xFF, l\<lparr>lx_errors := lx_errors l + 1\<rparr>))"

definition a_ret :: "token \<Rightarrow> action" where "a_ret t = (\<lambda>yytext l. Inr (Some t, l))"
definition a_skip :: action where "a_skip = (\<lambda>yytext l. Inr (None, l))"
definition a_push :: "start \<Rightarrow> action" where "a_push st = (\<lambda>yytext l. Inr (None, yy_push_state st l))"
definition a_push_ret :: "start \<Rightarrow> token \<Rightarrow> action" where
  "a_push_ret st t = (\<lambda>yytext l. Inr (Some t, yy_push_state st l))"
definition a_pop_ret :: "token option \<Rightarrow> action" where
  "a_pop_ret t = (\<lambda>yytext l. bindE (yy_pop_state l) (\<lambda>l. Inr (t, l)))"
definition a_bad :: action where
  "a_bad = (\<lambda>yytext l. Inr (None, l\<lparr>lx_errors := lx_errors l + 1\<rparr>))"

text \<open>\<open>yylval->i\<close> has 32 bits.\<close>

definition a_num :: "(u32 \<Rightarrow> token) \<Rightarrow> nat \<Rightarrow> nat \<Rightarrow> action" where
  "a_num mk k radix = (\<lambda>yytext l. Inr (Some (mk (word_of_int (numberise (drop k yytext) radix))), l))"

definition a_name :: "(string \<Rightarrow> token) \<Rightarrow> action" where
  "a_name mk = (\<lambda>yytext l. Inr (Some (mk yytext), l\<lparr>lx_str := yytext\<rparr>))"

definition act_register :: action where
  "act_register = (\<lambda>yytext l. Inr (Some (REGISTER (hd yytext)), l))"

definition act_self :: action where
  "act_self = (\<lambda>yytext l. Inr (Some (T_char (hd yytext)), l))"

definition act_open :: action where
  "act_open = (\<lambda>yytext l. Inr (Some OPNQUOTE, yy_push_state In_string (l\<lparr>lx_str := []\<rparr>)))"

text \<open>A span of a string has a string of its own.\<close>

definition act_string_escape :: action where
  "act_string_escape = (\<lambda>yytext l.
     (case translate_escape (yytext ! 1) l of (c, l) \<Rightarrow> Inr (Some (STRSPAN [c]), l\<lparr>lx_str := [c]\<rparr>)))"

definition act_string_span :: action where
  "act_string_span = (\<lambda>yytext l. Inr (Some (STRSPAN yytext), l\<lparr>lx_str := yytext\<rparr>))"

definition act_quote :: action where
  "act_quote = (\<lambda>yytext l. Inr (None, (yy_push_state Charlit (yy_push_state Charend l))\<lparr>lx_str := []\<rparr>))"

definition act_charlit :: action where
  "act_charlit = (\<lambda>yytext l. bindE (yy_pop_state (l\<lparr>lx_str := lx_str l @ [hd yytext]\<rparr>)) (\<lambda>l. Inr (None, l)))"

definition act_charesc :: action where
  "act_charesc = (\<lambda>yytext l.
     (case translate_escape (hd yytext) l of (c, l) \<Rightarrow>
       bindE (yy_pop_state (l\<lparr>lx_str := lx_str l @ [c]\<rparr>)) (\<lambda>l. bindE (yy_pop_state l) (\<lambda>l. Inr (None, l)))))"

definition act_bad_escape :: action where
  "act_bad_escape = (\<lambda>yytext l. bindE (yy_pop_state (l\<lparr>lx_errors := lx_errors l + 1\<rparr>)) (\<lambda>l. Inr (None, l)))"

definition act_character :: action where
  "act_character = (\<lambda>yytext l. bindE (yy_pop_state l) (\<lambda>l. Inr (Some (CHARACTER (lx_str l)), l)))"

section \<open>Rules\<close>

text \<open>A directive is followed by a blank or a newline, which it takes.\<close>

definition directive_pat :: "string \<Rightarrow> pattern" where
  "directive_pat w = p_seq (p_lit w) (p_one (\<lambda>c. is_white c \<or> c = nl_char))"

definition plain_rules :: "(pattern \<times> action) list" where
  "plain_rules =
    [(p_lit [CHR 0x09], a_skip), (p_lit ''illegal'', a_ret ILLEGAL),
     (reg_pat, act_register), (symbol_pat, a_name SYMBOL), (local_pat, a_name LOCAL),
     (p_lit [CHR 0x22], act_open),
     (directive_pat ''.word'', a_push_ret Ignore_nl WORD), (directive_pat ''.utf32'', a_push_ret Ignore_nl UTF32),
     (directive_pat ''.global'', a_push_ret Ignore_nl GLOBAL), (directive_pat ''.set'', a_push_ret Ignore_nl SET),
     (directive_pat ''.zero'', a_push_ret Ignore_nl ZERO), (directive_pat ''.option'', a_push_ret Ignore_nl OPTION),
     (p_one (\<lambda>c. c \<in> set self_chars), act_self),
     (p_lit ''<<<'', a_ret LSH'), (p_lit ''<<'', a_ret LSH'), (p_lit ''>='', a_ret GE), (p_lit ''<='', a_ret LE), (p_lit ''=='', a_ret EQ'),
     (p_lit ''&~'', a_ret ANDN), (p_lit ''|~'', a_ret ORN), (p_lit ''>>'', a_ret RSHA'), (p_lit ''>>>'', a_ret RSH'), (p_lit ''^^'', a_ret PACK)]"

definition arrow_rules :: "(pattern \<times> action) list" where
  "arrow_rules = [(p_lit ''<-'', a_ret TOL)]"

definition other_rules :: "(pattern \<times> action) list" where
  "other_rules =
    [(p_lit ''->'', a_ret TOR),
     (p_alt hexnum octnum, a_num BITSTRING 0 0), (binnum, a_num BITSTRING 2 2), (decnum, a_num INTEGER 0 10),
     (p_many is_white 1 None, a_skip), (p_alt (p_lit ''//'') (p_lit ''#''), a_push Linecomment), (p_lit ''/*'', a_push Comment),
     (p_lit [CHR 0x27], act_quote)]"

definition every_rules :: "(pattern \<times> action) list" where
  "every_rules = [(p_newline, a_ret (T_char nl_char)), (p_any, a_bad)]"

text \<open>The rules that are active, in the order of the file.\<close>

definition lex_rules :: "start \<Rightarrow> (pattern \<times> action) list" where
  "lex_rules st =
     (case st of
        In_string \<Rightarrow>
          [(p_lit [CHR 0x22], a_pop_ret (Some CLSQUOTE)), (p_seq (p_lit [CHR 0x5C]) (p_one escchar), act_string_escape),
           (p_many (\<lambda>c. c \<noteq> CHR 0x5C \<and> c \<noteq> CHR 0x22) 1 None, act_string_span)]
      | Linecomment \<Rightarrow>
          [(p_seq (p_lit [CHR 0x5C]) cr_nl, a_skip), (cr_nl, a_pop_ret (Some (T_char nl_char))), (p_any, a_skip)]
      | Comment \<Rightarrow> [(p_lit ''*/'', a_pop_ret None), (p_any, a_skip)]
      | Charlit \<Rightarrow> [(p_lit [CHR 0x5C], a_push Charesc), (p_any, act_charlit)]
      | Charesc \<Rightarrow> [(cr_nl, a_pop_ret None), (p_one escchar, act_charesc), (p_any, act_bad_escape)]
      | Charend \<Rightarrow> [(p_lit [CHR 0x27], act_character)]
      | Needarrow \<Rightarrow> plain_rules @ arrow_rules @ other_rules
      | _ \<Rightarrow> plain_rules @ other_rules) @ every_rules"

text \<open>The longest match, of equals the first.\<close>

fun lex_best :: "string \<Rightarrow> (pattern \<times> action) list \<Rightarrow> (nat \<times> action) option" where
  "lex_best s [] = None"
| "lex_best s ((p, a) # rs) =
     (case p s of
        None \<Rightarrow> lex_best s rs
      | Some n \<Rightarrow> (case lex_best s rs of
          None \<Rightarrow> Some (n, a)
        | Some (m, b) \<Rightarrow> if n < m then Some (m, b) else Some (n, a)))"

definition scan_step :: "lexer \<Rightarrow> (token option \<times> lexer) res" where
  "scan_step l =
     (case lex_best (lx_in l) (lex_rules (lx_start l)) of
        None \<Rightarrow> Inl (Fatal ''flex scanner jammed'')
      | Some (n, act) \<Rightarrow> act (take n (lx_in l)) (l\<lparr>lx_in := drop n (lx_in l)\<rparr>))"

text \<open>\<open>yylex\<close>: rules until one returns a token; none at the end of the input.\<close>

partial_function (option) yylex :: "lexer \<Rightarrow> (token option \<times> lexer) res option" where
  "yylex l =
     (if lx_in l = [] then Some (Inr (None, l))
      else (case scan_step l of
              Inl e \<Rightarrow> Some (Inl e)
            | Inr (t, l) \<Rightarrow> (case t of None \<Rightarrow> yylex l | Some t \<Rightarrow> Some (Inr (Some t, l)))))"


declare yylex.simps [simp del]

section \<open>The scanner always goes on\<close>

text \<open>What the pop of each state finds.\<close>

fun stack_ok :: "start \<Rightarrow> start list \<Rightarrow> bool" where
  "stack_ok Charlit ss \<longleftrightarrow> (\<exists>st sts. ss = Charend # st # sts \<and> list_all inclusive (st # sts))"
| "stack_ok Charesc ss \<longleftrightarrow> (\<exists>st sts. ss = Charlit # Charend # st # sts \<and> list_all inclusive (st # sts))"
| "stack_ok st ss \<longleftrightarrow> list_all inclusive ss \<and> (inclusive st \<or> ss \<noteq> [])"

definition lex_ok :: "lexer \<Rightarrow> bool" where
  "lex_ok l \<longleftrightarrow> stack_ok (lx_start l) (lx_stack l)"

text \<open>No rule matches nothing.\<close>

definition eats :: "pattern \<Rightarrow> bool" where
  "eats p \<longleftrightarrow> (\<forall>s n. p s = Some n \<longrightarrow> 0 < n)"

lemma eats_lit [simp]: "eats (p_lit (c # w))"
proof -
  have "p_lit (c # w) s = Some n \<Longrightarrow> 0 < n" for s n by (cases s) (auto split: if_splits)
  then show ?thesis by (simp add: eats_def)
qed

lemma eats_one [simp]: "eats (p_one P)"
proof -
  have "p_one P s = Some n \<Longrightarrow> 0 < n" for s n by (cases s) (auto split: if_splits)
  then show ?thesis by (simp add: eats_def)
qed

lemma eats_many [simp]: "0 < m \<Longrightarrow> eats (p_many P m n)"
  by (auto simp: eats_def p_many_def Let_def)

lemma eats_seq [simp]: "eats p \<Longrightarrow> eats (p_seq p q)"
  by (fastforce simp: eats_def p_seq_def split: option.splits)

lemma eats_alt [simp]: "eats p \<Longrightarrow> eats q \<Longrightarrow> eats (p_alt p q)"
  by (fastforce simp: eats_def p_alt_def p_longer_def less_max_iff_disj split: option.splits)

lemmas pattern_defs = reg_pat_def symbol_pat_def local_pat_def hexnum_def octnum_def binnum_def decnum_def
  p_any_def p_newline_def cr_nl_def directive_pat_def

lemmas rule_defs = lex_rules_def plain_rules_def arrow_rules_def other_rules_def every_rules_def

lemma lex_rules_consume: "(p, a) \<in> set (lex_rules st) \<Longrightarrow> eats p"
  by (cases st) (auto simp: rule_defs pattern_defs)

text \<open>A rule's action leaves the rest of the input alone and the stack in order.\<close>

definition goes_on :: "start \<Rightarrow> action \<Rightarrow> bool" where
  "goes_on st a \<longleftrightarrow>
     (\<forall>yytext l. lx_start l = st \<longrightarrow> lex_ok l \<longrightarrow> (\<exists>t m. a yytext l = Inr (t, m) \<and> lex_ok m \<and> lx_in m = lx_in l))"

lemmas action_defs = a_ret_def a_skip_def a_push_def a_push_ret_def a_pop_ret_def a_bad_def a_num_def a_name_def
  act_register_def act_self_def act_open_def act_string_escape_def act_string_span_def act_quote_def act_charlit_def
  act_charesc_def act_bad_escape_def act_character_def yy_push_state_def yy_pop_state_def

lemma translate_escape_keeps:
  "translate_escape c l = (d, m) \<Longrightarrow> lx_start m = lx_start l \<and> lx_stack m = lx_stack l \<and> lx_in m = lx_in l"
  by (auto simp: translate_escape_def split: if_splits)

lemma inclusive_cases [simp]:
  "inclusive INITIAL" "inclusive Ignore_nl" "inclusive Needarrow" "\<not> inclusive Charlit" "\<not> inclusive Charend"
  "\<not> inclusive Charesc" "\<not> inclusive Comment" "\<not> inclusive Linecomment" "\<not> inclusive In_string"
  by (simp_all add: inclusive_def)

lemma stack_ok_inclusive: "inclusive st \<Longrightarrow> stack_ok st ss = list_all inclusive ss"
  by (cases st) simp_all

lemma goes_on_plain [simp]:
  "goes_on st (a_ret t)" "goes_on st a_skip" "goes_on st a_bad" "goes_on st (a_num mk k radix)"
  "goes_on st (a_name f)" "goes_on st act_register" "goes_on st act_self" "goes_on st act_string_span"
  by (auto simp: goes_on_def action_defs lex_ok_def)

lemma goes_on_escape [simp]: "goes_on st act_string_escape"
  by (auto simp: goes_on_def act_string_escape_def dest!: translate_escape_keeps simp: lex_ok_def
      split: prod.splits)

lemma goes_on_push [simp]:
  assumes "inclusive st"
  shows "goes_on st (a_push Ignore_nl)" "goes_on st (a_push Linecomment)" "goes_on st (a_push Comment)"
    "goes_on st (a_push_ret Ignore_nl t)" "goes_on st act_open" "goes_on st act_quote"
  using assms by (auto simp: goes_on_def action_defs stack_ok_inclusive lex_ok_def)

lemma goes_on_pop [simp]:
  "goes_on In_string (a_pop_ret t)" "goes_on Linecomment (a_pop_ret t)" "goes_on Comment (a_pop_ret t)"
  "goes_on Charesc (a_pop_ret t)" "goes_on Charlit (a_push Charesc)" "goes_on Charlit act_charlit"
  "goes_on Charesc act_bad_escape" "goes_on Charend act_character"
  by (auto simp: goes_on_def action_defs stack_ok_inclusive lex_ok_def neq_Nil_conv)

lemma goes_on_charesc [simp]: "goes_on Charesc act_charesc"
  by (auto simp: goes_on_def act_charesc_def yy_pop_state_def lex_ok_def dest!: translate_escape_keeps
      split: prod.splits)

lemma lex_rules_go_on: "(p, a) \<in> set (lex_rules st) \<Longrightarrow> goes_on st a"
  by (cases st) (auto simp: rule_defs)

lemma lex_best_in: "lex_best s rs = Some (n, a) \<Longrightarrow> \<exists>p. (p, a) \<in> set rs \<and> p s = Some n"
proof (induction rs arbitrary: n a)
  case (Cons r rs)
  obtain p b where r: "r = (p, b)" by (cases r)
  from Cons.prems have "p s = Some n \<and> a = b \<or> lex_best s rs = Some (n, a)"
    by (auto simp: r split: option.splits if_splits)
  then show ?case using Cons.IH r by auto
qed simp

lemma lex_best_some: "(p, a) \<in> set rs \<Longrightarrow> p s \<noteq> None \<Longrightarrow> lex_best s rs \<noteq> None"
  by (induction s rs rule: lex_best.induct) (auto split: option.splits)

lemma lex_rules_every: "set every_rules \<subseteq> set (lex_rules st)"
  by (cases st) (auto simp: lex_rules_def)

lemma some_rule_matches: "s \<noteq> [] \<Longrightarrow> lex_best s (lex_rules st) \<noteq> None"
proof (cases "hd s = nl_char")
  case True
  assume "s \<noteq> []"
  then show ?thesis using True lex_rules_every [of st]
    by (intro lex_best_some [of p_newline "a_ret (T_char nl_char)"]) (auto simp: every_rules_def p_newline_def neq_Nil_conv)
next
  case False
  assume "s \<noteq> []"
  then show ?thesis using False lex_rules_every [of st]
    by (intro lex_best_some [of p_any a_bad]) (auto simp: every_rules_def p_any_def neq_Nil_conv)
qed

lemma scan_step_goes_on:
  assumes "lex_ok l" and "lx_in l \<noteq> []"
  shows "\<exists>t m. scan_step l = Inr (t, m) \<and> lex_ok m \<and> length (lx_in m) < length (lx_in l)"
proof -
  obtain n a where b: "lex_best (lx_in l) (lex_rules (lx_start l)) = Some (n, a)"
    using some_rule_matches [OF assms(2), of "lx_start l"] by auto
  then obtain p where p: "(p, a) \<in> set (lex_rules (lx_start l))" "p (lx_in l) = Some n"
    using lex_best_in by blast
  have "0 < n" using lex_rules_consume [OF p(1)] p(2) by (cases n) (auto simp: eats_def)
  moreover have "goes_on (lx_start l) a" using p(1) by (rule lex_rules_go_on)
  moreover have "lex_ok (l\<lparr>lx_in := s\<rparr>)" for s using assms(1) by (auto simp: lex_ok_def)
  ultimately obtain t m where "a (take n (lx_in l)) (l\<lparr>lx_in := drop n (lx_in l)\<rparr>) = Inr (t, m)" "lex_ok m"
      "lx_in m = drop n (lx_in l)"
    unfolding goes_on_def by (elim allE [where x = "take n (lx_in l)"] allE [where x = "l\<lparr>lx_in := drop n (lx_in l)\<rparr>"]) auto
  then show ?thesis using b assms(2) \<open>0 < n\<close> by (simp add: scan_step_def)
qed

lemma yylex_returns:
  "lex_ok l \<Longrightarrow>
     \<exists>t m. yylex l = Some (Inr (t, m)) \<and> lex_ok m \<and>
       (if t = None then lx_in m = [] else length (lx_in m) < length (lx_in l))"
proof (induction "length (lx_in l)" arbitrary: l rule: less_induct)
  case less
  show ?case
  proof (cases "lx_in l = []")
    case True
    then show ?thesis using less.prems by (simp add: yylex.simps [of l])
  next
    case False
    then obtain t m where s: "scan_step l = Inr (t, m)" "lex_ok m" "length (lx_in m) < length (lx_in l)"
      using scan_step_goes_on less.prems by blast
    show ?thesis
    proof (cases t)
      case None
      have "yylex l = yylex m" using False s(1) None by (simp add: yylex.simps [of l])
      then show ?thesis using less.hyps [OF s(3) s(2)] s(3) by (force split: if_splits)
    next
      case (Some u)
      then have "yylex l = Some (Inr (Some u, m))" using False s(1) by (simp add: yylex.simps [of l])
      then show ?thesis using s by auto
    qed
  qed
qed

section \<open>Tokens and their text\<close>

text \<open>A text for each token that is not part of a string, and the tokens that have one.\<close>

fun token_text :: "token \<Rightarrow> string" where
  "token_text (T_char c) = [c]"
| "token_text (REGISTER c) = [c]"
| "token_text (SYMBOL s) = s"
| "token_text (LOCAL s) = s"
| "token_text ILLEGAL = ''illegal''"
| "token_text (INTEGER w) = digits 10 (unat w)"
| "token_text (BITSTRING w) = ''0x'' @ fmt_08x w"
| "token_text (CHARACTER s) = CHR 0x27 # s @ [CHR 0x27]"
| "token_text WORD = ''.word''"
| "token_text UTF32 = ''.utf32''"
| "token_text GLOBAL = ''.global''"
| "token_text SET = ''.set''"
| "token_text ZERO = ''.zero''"
| "token_text OPTION = ''.option''"
| "token_text LSH' = ''<<''"
| "token_text GE = ''>=''"
| "token_text LE = ''<=''"
| "token_text EQ' = ''==''"
| "token_text ANDN = ''&~''"
| "token_text ORN = ''|~''"
| "token_text RSHA' = ''>>''"
| "token_text RSH' = ''>>>''"
| "token_text PACK = ''^^''"
| "token_text TOL = ''<-''"
| "token_text TOR = ''->''"
| "token_text _ = []"

definition name_start :: "char \<Rightarrow> bool" where
  "name_start c \<longleftrightarrow> between CHR ''a'' CHR ''z'' c \<or> c = CHR ''_''"

definition symbol_ok :: "string \<Rightarrow> bool" where
  "symbol_ok s \<longleftrightarrow>
     (\<exists>c cs. s = c # cs \<and> name_start c \<and> list_all name_char cs \<and> length cs \<le> 30 \<and>
       (cs = [] \<longrightarrow> \<not> between CHR ''a'' CHR ''p'' c) \<and> map lower_case s \<noteq> ''illegal'')"

definition local_ok :: "string \<Rightarrow> bool" where
  "local_ok s \<longleftrightarrow>
     (\<exists>c cs. s = CHR ''.'' # c # cs \<and> lower_case c = CHR ''l'' \<and> cs \<noteq> [] \<and> list_all name_char cs \<and> length cs \<le> 31)"

fun token_ok :: "start \<Rightarrow> token \<Rightarrow> bool" where
  "token_ok st (T_char c) = (c \<in> set self_chars)"
| "token_ok st (REGISTER c) = between CHR ''a'' CHR ''p'' c"
| "token_ok st (SYMBOL s) = symbol_ok s"
| "token_ok st (LOCAL s) = local_ok s"
| "token_ok st (CHARACTER s) = (\<exists>c. s = [c] \<and> c \<noteq> nl_char \<and> c \<noteq> CHR 0x5C)"
| "token_ok st TOL = (st = Needarrow)"
| "token_ok st OPNQUOTE = False"
| "token_ok st CLSQUOTE = False"
| "token_ok st (STRSPAN s) = False"
| "token_ok st t = True"

definition is_directive :: "token \<Rightarrow> bool" where
  "is_directive t \<longleftrightarrow> t \<in> {WORD, UTF32, GLOBAL, SET, ZERO, OPTION}"

definition next_start :: "start \<Rightarrow> token \<Rightarrow> start" where
  "next_start st t = (if is_directive t then Ignore_nl else st)"

fun tokens_ok :: "start \<Rightarrow> token list \<Rightarrow> bool" where
  "tokens_ok st [] = True"
| "tokens_ok st (t # ts) = (token_ok st t \<and> tokens_ok (next_start st t) ts)"

text \<open>Each token is followed by a blank and any number of further ones.\<close>

definition blanks :: "nat \<Rightarrow> string" where "blanks k = replicate k CHR '' ''"

fun spaced :: "(token \<times> nat) list \<Rightarrow> string" where
  "spaced [] = []"
| "spaced ((t, k) # ts) = token_text t @ CHR '' '' # blanks k @ spaced ts"

text \<open>The tokens of an input: calls of \<open>yylex\<close> until it returns none, each of which shortens it.\<close>

fun tokens_upto :: "nat \<Rightarrow> lexer \<Rightarrow> token list" where
  "tokens_upto 0 l = []"
| "tokens_upto (Suc n) l = (case yylex l of Some (Inr (Some t, m)) \<Rightarrow> t # tokens_upto n m | _ \<Rightarrow> [])"

definition tokens_of :: "lexer \<Rightarrow> token list" where
  "tokens_of l = tokens_upto (length (lx_in l)) l"

section \<open>Which rule wins\<close>

definition shorter :: "nat \<Rightarrow> string \<Rightarrow> pattern \<times> action \<Rightarrow> bool" where
  "shorter n s r \<longleftrightarrow> (case fst r s of None \<Rightarrow> True | Some m \<Rightarrow> m < n)"

lemma lex_best_shorter: "list_all (shorter n s) rs \<Longrightarrow> lex_best s rs = Some (m, a) \<Longrightarrow> m < n"
  by (drule lex_best_in) (auto simp: list_all_iff shorter_def)

lemma lex_best_at:
  assumes "p s = Some n" and "list_all (shorter n s) xs" and "list_all (shorter (Suc n) s) ys"
  shows "lex_best s (xs @ (p, a) # ys) = Some (n, a)"
  using assms(2)
proof (induction xs)
  case Nil
  show ?case using assms(1) lex_best_shorter [OF assms(3)] by (fastforce split: option.splits)
next
  case (Cons r xs)
  then show ?case by (cases r) (auto simp: shorter_def split: option.splits)
qed

lemma shorter_None [simp]: "p s = None \<Longrightarrow> shorter n s (p, a)"
  by (simp add: shorter_def)

text \<open>What a literal, and a run of characters, match in a text that a blank ends.\<close>

lemma p_lit_le: "p_lit w (s @ CHR '' '' # r) = Some n \<Longrightarrow> CHR '' '' \<notin> set w \<Longrightarrow> n \<le> length s \<and> (n = length s \<longrightarrow> map lower_case s = w)"
proof (induction w s arbitrary: n rule: p_lit.induct)
  case (1 s)
  then show ?case by auto
next
  case (2 p ps)
  then show ?case by (auto simp: lower_case_def split: if_splits)
next
  case (3 p ps c s)
  then show ?case by (auto split: if_splits)
qed

lemma p_many_span:
  "list_all P cs \<Longrightarrow> \<not> P d \<Longrightarrow> m \<le> length cs \<Longrightarrow> (case n of None \<Rightarrow> True | Some n \<Rightarrow> length cs \<le> n) \<Longrightarrow>
     p_many P m n (cs @ d # r) = Some (length cs)"
proof -
  assume a: "list_all P cs" "\<not> P d" "m \<le> length cs" "case n of None \<Rightarrow> True | Some n \<Rightarrow> length cs \<le> n"
  have "takeWhile P (cs @ take k (d # r)) = cs" for k
    using a(1,2) by (cases k) (auto simp: list_all_iff takeWhile_append)
  moreover have "takeWhile P (cs @ d # r) = cs" using a(1,2) by (auto simp: list_all_iff takeWhile_append)
  ultimately show ?thesis using a(3,4) by (simp add: p_many_def Let_def split: option.splits)
qed

lemma p_many_le:
  "\<not> P d \<Longrightarrow> p_many P m n (s @ d # r) = Some k \<Longrightarrow> k \<le> length s"
proof -
  assume d: "\<not> P d" and k: "p_many P m n (s @ d # r) = Some k"
  have "length (takeWhile P (s @ d # r)) \<le> length s"
    using d by (induction s) auto
  moreover have "length (takeWhile P (take j u)) \<le> length (takeWhile P u)" for j u
    by (induction u arbitrary: j) (auto simp: take_Cons')
  ultimately have "length (takeWhile P (case n of None \<Rightarrow> s @ d # r | Some n \<Rightarrow> take n (s @ d # r))) \<le> length s"
    by (cases n) (auto simp del: take_append intro: le_trans)
  then show ?thesis using k by (simp only: p_many_def Let_def option.simps split: if_splits)
qed

text \<open>A blank, a control character and the characters that start no name.\<close>

lemma white_space [simp]: "is_white CHR '' ''" "\<not> name_char CHR '' ''" "\<not> digit_of z CHR '' ''"
  by (simp_all add: is_white_def name_char_def digit_of_def between_def lower_case_def)

lemma name_start_lower:
  "name_start c \<Longrightarrow> (97 \<le> (of_char (lower_case c) :: nat) \<and> (of_char (lower_case c) :: nat) \<le> 122) \<or> c = CHR ''_''"
  by (auto simp: name_start_def between_def)

lemma name_start_not:
  assumes "name_start c"
  shows "lower_case c \<noteq> CHR 0x09" "lower_case c \<noteq> CHR 0x22" "lower_case c \<noteq> CHR ''.''" "lower_case c \<noteq> CHR ''<''"
    "lower_case c \<noteq> CHR ''>''" "lower_case c \<noteq> CHR ''=''" "lower_case c \<noteq> CHR ''&''" "lower_case c \<noteq> CHR ''|''"
    "lower_case c \<noteq> CHR ''^''" "lower_case c \<noteq> CHR ''-''" "lower_case c \<noteq> CHR ''0''" "lower_case c \<noteq> CHR ''/''"
    "lower_case c \<noteq> CHR ''#''" "lower_case c \<noteq> CHR 0x27"
  using name_start_lower [OF assms] by (auto simp: lower_case_def)

lemma self_char_lower: "c \<in> set self_chars \<Longrightarrow> lower_case c = c \<and> of_char c < (97 :: nat) \<or> c \<in> set ''|~''"
  by (auto simp: self_chars_def lower_case_def)

lemma name_start_self: "name_start c \<Longrightarrow> c \<notin> set self_chars"
  by (auto simp: self_chars_def name_start_def between_def lower_case_def)

lemma name_start_white: "name_start c \<Longrightarrow> \<not> is_white c \<and> c \<noteq> nl_char"
proof -
  assume "name_start c"
  then have "32 < (of_char c :: nat)" by (auto simp: name_start_def between_def lower_case_def Let_def split: if_splits)
  moreover have "of_char nl_char = (10 :: nat)" by (simp add: nl_char_def)
  ultimately show ?thesis by (auto simp: is_white_def)
qed

lemma name_start_char: "name_start c \<Longrightarrow> name_char c"
  by (auto simp: name_start_def name_char_def)

lemma name_start_nodigit: "name_start c \<Longrightarrow> c = CHR ''_'' \<or> \<not> digit_of z c" if "z \<in> set ''179''"
  using that name_start_lower [of c] by (auto simp: digit_of_def between_def)

text \<open>A symbol.\<close>

lemma symbol_match:
  assumes "symbol_ok s"
  shows "symbol_pat (s @ CHR '' '' # r) = Some (length s)"
proof -
  obtain c cs where s: "s = c # cs" "name_start c" "list_all name_char cs" "length cs \<le> 30"
      "cs = [] \<longrightarrow> \<not> between CHR ''a'' CHR ''p'' c"
    using assms by (auto simp: symbol_ok_def)
  have m: "p_many name_char k (Some 30) (cs @ CHR '' '' # r) = Some (length cs)" if "k \<le> length cs" for k
    using p_many_span [OF s(3) _ that, of "CHR '' ''" "Some 30" r] s(4) by simp
  show ?thesis
  proof (cases "cs = []")
    case True
    then have "between CHR ''q'' CHR ''z'' c \<or> c = CHR ''_''"
      using s(2,5) by (auto simp: name_start_def between_def)
    then show ?thesis using m [of 0] True s(1)
      by (simp add: symbol_pat_def p_alt_def p_seq_def p_longer_def p_many_def Let_def)
  next
    case False
    then have "Suc 0 \<le> length cs" by (cases cs) auto
    then show ?thesis using m [of 0] m [of 1] s(1,2)
      by (simp add: symbol_pat_def p_alt_def p_seq_def p_longer_def name_start_def)
  qed
qed

lemma shorter_le: "(\<And>m. p s = Some m \<Longrightarrow> m \<le> n) \<Longrightarrow> shorter (Suc n) s (p, a)"
  by (auto simp: shorter_def split: option.splits)

lemma shorter_less: "(\<And>m. p s = Some m \<Longrightarrow> m < n) \<Longrightarrow> shorter n s (p, a)"
  by (auto simp: shorter_def split: option.splits)

lemma decnum_le: "shorter (Suc (length s)) (s @ CHR '' '' # r) (decnum, a)"
  using p_many_le [of "digit_of CHR ''9''" "CHR '' ''"] by (intro shorter_le) (auto simp: decnum_def)

lemma name_start_lits:
  assumes "name_start c"
  shows "p_lit (CHR 0x09 # w) (c # s) = None" "p_lit (CHR 0x22 # w) (c # s) = None" "p_lit (CHR ''.'' # w) (c # s) = None"
    "p_lit (CHR ''<'' # w) (c # s) = None" "p_lit (CHR ''>'' # w) (c # s) = None" "p_lit (CHR ''='' # w) (c # s) = None"
    "p_lit (CHR ''&'' # w) (c # s) = None" "p_lit (CHR ''|'' # w) (c # s) = None" "p_lit (CHR ''^'' # w) (c # s) = None"
    "p_lit (CHR ''-'' # w) (c # s) = None" "p_lit (CHR ''0'' # w) (c # s) = None" "p_lit (CHR ''/'' # w) (c # s) = None"
    "p_lit (CHR ''#'' # w) (c # s) = None" "p_lit (CHR 0x27 # w) (c # s) = None"
  using name_start_not [OF assms] by simp_all

lemma p_seq_None [simp]: "p s = None \<Longrightarrow> p_seq p q s = None"
  by (simp add: p_seq_def)

lemma p_alt_None [simp]: "p s = None \<Longrightarrow> q s = None \<Longrightarrow> p_alt p q s = None"
  by (simp add: p_alt_def p_longer_def)

lemma p_many_white: "\<not> is_white c \<Longrightarrow> p_many is_white (Suc 0) None (c # s) = None"
  by (simp add: p_many_def)

text \<open>The rules of an inclusive state, around the places where a name, a symbol and a number win.\<close>

definition start_rules :: "start \<Rightarrow> (pattern \<times> action) list" where
  "start_rules st = (if st = Needarrow then arrow_rules else []) @ other_rules @ every_rules"

lemma lex_rules_inclusive: "inclusive st \<Longrightarrow> lex_rules st = plain_rules @ start_rules st"
  by (cases st) (simp_all add: lex_rules_def start_rules_def)

lemma name_after:
  assumes "name_start c" and "s = c # cs"
  shows "list_all (shorter (Suc (length s)) (s @ CHR '' '' # r)) (drop 4 plain_rules @ start_rules st)"
  using name_start_lits [OF assms(1)] name_start_self [OF assms(1)] name_start_white [OF assms(1)]
    decnum_le [of s r "a_num INTEGER 0 10"] p_many_white [of c] unfolding assms(2)
  by (simp add: plain_rules_def start_rules_def arrow_rules_def other_rules_def every_rules_def pattern_defs
      shorter_def p_alt_None p_seq_None)

lemma symbol_wins:
  assumes "symbol_ok s" and "inclusive st"
  shows "lex_best (s @ CHR '' '' # r) (lex_rules st) = Some (length s, a_name SYMBOL)"
proof -
  obtain c cs where s: "s = c # cs" "name_start c" "cs = [] \<longrightarrow> \<not> between CHR ''a'' CHR ''p'' c" "map lower_case s \<noteq> ''illegal''"
    using assms(1) by (auto simp: symbol_ok_def)
  have r: "lex_rules st = take 3 plain_rules @ (symbol_pat, a_name SYMBOL) # drop 4 plain_rules @ start_rules st"
    using assms(2) by (simp add: lex_rules_inclusive plain_rules_def)
  have "shorter (length s) (s @ CHR '' '' # r) (p_lit ''illegal'', a_ret ILLEGAL)"
    using p_lit_le [of "''illegal''" s r] s(4) by (intro shorter_less) fastforce
  moreover have "shorter (length s) (s @ CHR '' '' # r) (reg_pat, act_register)"
    using s(1,3) by (cases cs) (simp_all add: shorter_def reg_pat_def)
  ultimately have "list_all (shorter (length s) (s @ CHR '' '' # r)) (take 3 plain_rules)"
    using name_start_lits [OF s(2)] s(1) by (simp add: plain_rules_def)
  then show ?thesis
    unfolding r by (intro lex_best_at symbol_match assms(1) name_after [OF s(2,1)])
qed

lemma register_wins:
  assumes "between CHR ''a'' CHR ''p'' c" and "inclusive st"
  shows "lex_best (c # CHR '' '' # r) (lex_rules st) = Some (1, act_register)"
proof -
  have n: "name_start c" using assms(1) by (auto simp: name_start_def between_def)
  have r: "lex_rules st = take 2 plain_rules @ (reg_pat, act_register) # (symbol_pat, a_name SYMBOL) # drop 4 plain_rules @ start_rules st"
    using assms(2) by (simp add: lex_rules_inclusive plain_rules_def)
  have "\<not> between CHR ''q'' CHR ''z'' c" "c \<noteq> CHR ''_''"
    using assms(1) by (auto simp: between_def lower_case_def)
  then have "symbol_pat (c # CHR '' '' # r) = None"
    by (simp add: symbol_pat_def p_alt_def p_seq_def p_longer_def p_many_def)
  moreover have "list_all (shorter 1 (c # CHR '' '' # r)) (take 2 plain_rules)"
    using name_start_lits [OF n] by (simp add: plain_rules_def lower_case_def)
  ultimately show ?thesis
    using name_after [OF n refl, of "[]" r st] assms(1) unfolding r
    by (intro lex_best_at) (simp_all add: reg_pat_def)
qed

text \<open>A local symbol.\<close>

lemma local_wins:
  assumes "local_ok s" and "inclusive st"
  shows "lex_best (s @ CHR '' '' # r) (lex_rules st) = Some (length s, a_name LOCAL)"
proof -
  obtain c cs where s: "s = CHR ''.'' # c # cs" "lower_case c = CHR ''l''" "cs \<noteq> []" "list_all name_char cs" "length cs \<le> 31"
    using assms(1) by (auto simp: local_ok_def)
  have r: "lex_rules st = take 4 plain_rules @ (local_pat, a_name LOCAL) # drop 5 plain_rules @ start_rules st"
    using assms(2) by (simp add: lex_rules_inclusive plain_rules_def)
  have d: "lower_case CHR ''.'' = CHR ''.''" by (simp add: lower_case_def)
  have l: "Suc 0 \<le> length cs" using s(3) by (cases cs) auto
  have "local_pat (s @ CHR '' '' # r) = Some (length s)"
    using p_many_span [OF s(4) _ l, of "CHR '' ''" "Some 31" r] s by (simp add: local_pat_def p_seq_def d)
  moreover have "list_all (shorter (length s) (s @ CHR '' '' # r)) (take 4 plain_rules)"
    using s by (simp add: plain_rules_def pattern_defs d between_def p_alt_None p_seq_None)
  moreover have "list_all (shorter (Suc (length s)) (s @ CHR '' '' # r)) (drop 5 plain_rules @ start_rules st)"
    using s by (simp add: plain_rules_def start_rules_def arrow_rules_def other_rules_def every_rules_def pattern_defs d
      shorter_def p_alt_None p_seq_None p_many_white is_white_def self_chars_def nl_char_def p_many_def digit_of_def between_def)
  ultimately show ?thesis unfolding r by (intro lex_best_at)
qed

section \<open>Numbers\<close>

definition ten_digits :: string where "ten_digits = ''0123456789''"

lemma decimal_chars: "ten_digits = map char_of [48::nat..<58]"
  by code_simp

lemma digit_decimal: "n < 10 \<Longrightarrow> digit n \<in> set ten_digits"
proof -
  assume n: "n < 10"
  then have "char_of (48 + n) \<in> char_of ` {48::nat..<58}" by (intro imageI) simp
  then show ?thesis using n by (simp only: digit_def decimal_chars list.set_map set_upt if_True)
qed

lemma digit_zero: "n < 10 \<Longrightarrow> digit n = CHR ''0'' \<Longrightarrow> n = 0"
  using xval_digit [of n] by (simp add: xval_def)

lemma digits_decimal: "set (digits 10 n) \<subseteq> set ten_digits"
proof (induction n rule: less_induct)
  case (less n)
  show ?case by (subst digits.simps) (use less [of "n div 10"] digit_decimal in auto)
qed

lemma number_decimal: "number 10 (digits 10 n) = n"
proof (induction n rule: less_induct)
  case (less n)
  show ?case
    by (subst digits.simps) (use less [of "n div 10"] in \<open>simp add: xval_digit, simp add: number_def xval_digit\<close>)
qed

lemma digits_head: "n \<noteq> 0 \<Longrightarrow> hd (digits 10 n) \<noteq> CHR ''0''"
proof (induction n rule: less_induct)
  case (less n)
  show ?case
  proof (cases "n < 10")
    case True
    then show ?thesis using less.prems digit_zero by (subst digits.simps) auto
  next
    case False
    then show ?thesis using less.IH [of "n div 10"] by (subst digits.simps) simp
  qed
qed

lemma strip_underscores_same: "CHR ''_'' \<notin> set s \<Longrightarrow> strip_underscores s = s"
  by (induction s) auto

lemma decimal_facts:
  "c \<in> set ten_digits \<Longrightarrow> digit_of CHR ''9'' c \<and> c \<noteq> CHR ''_'' \<and> \<not> isspace c \<and> c \<noteq> CHR ''-'' \<and> c \<noteq> CHR ''+'' \<and>
     (\<exists>v. xval c = Some v \<and> v < 10)"
  by (auto simp: ten_digits_def digit_of_def between_def lower_case_def isspace_def xval_def)

lemma numberise_decimal:
  assumes "n < 2 ^ 63"
  shows "numberise (digits 10 n) 10 = int n"
proof -
  let ?s = "digits 10 n"
  have c: "\<forall>c\<in>set ?s. c \<in> set ten_digits" using digits_decimal by blast
  obtain d ds where s: "?s = d # ds" by (cases ?s) auto
  then have d: "d \<in> set ten_digits" using c by simp
  have "strip_underscores ?s = ?s" using c decimal_facts by (intro strip_underscores_same) blast
  moreover have "skip_sign (skip_ws ?s) = (False, ?s)"
    using decimal_facts [OF d] by (auto simp: s skip_ws_def)
  moreover have t: "takeWhile (\<lambda>c. case xval c of None \<Rightarrow> False | Some v \<Rightarrow> v < 10) ?s = ?s"
    using c decimal_facts by (fastforce simp: takeWhile_eq_all_conv)
  ultimately show ?thesis using assms by (simp add: numberise_def strtoll_def Let_def number_decimal t)
qed

lemma numberise_hex: "numberise (''0x'' @ fmt_08x w) 0 = uint w"
proof -
  obtain d ds where s: "fmt_08x w = d # ds" by (cases "fmt_08x w") auto
  then have d: "is_xdigit d" "\<forall>c\<in>set ds. is_xdigit c" using fmt_08x_xdigit [of w] by simp_all
  have u: "\<not> is_xdigit CHR ''_''" by (simp add: is_xdigit_def xval_def)
  then have "CHR ''_'' \<notin> set (''0x'' @ fmt_08x w)" using fmt_08x_xdigit [of w] by auto
  then have "strip_underscores (''0x'' @ fmt_08x w) = ''0x'' @ fmt_08x w" by (rule strip_underscores_same)
  moreover have "v < 16" if "xval c = Some v" for c v
    using that by (auto simp: xval_def Let_def split: if_splits)
  then have t: "takeWhile (\<lambda>c. case xval c of None \<Rightarrow> False | Some v \<Rightarrow> v < 16) (fmt_08x w) = fmt_08x w"
    using fmt_08x_xdigit [of w] by (fastforce simp: takeWhile_eq_all_conv is_xdigit_def split: option.splits)
  moreover have "skip_sign (skip_ws (''0x'' @ fmt_08x w)) = (False, ''0x'' @ fmt_08x w)"
    by (simp add: skip_ws_def isspace_def)
  moreover have "skip_0x (''0x'' @ fmt_08x w) = fmt_08x w" by simp
  moreover have "uint w < 2 ^ 63" using unsigned_less [of w, where 'a = int] by simp
  moreover have "\<exists>c. c \<in> set (take 1 (fmt_08x w)) \<and> is_xdigit c" using d by (simp add: s)
  moreover have "fmt_08x w \<noteq> ''0x'' @ fmt_08x w" by simp
  ultimately show ?thesis by (simp add: numberise_def strtoll_def Let_def t)
qed

lemma decimal_shorter:
  "c \<in> set ten_digits \<Longrightarrow> list_all (shorter n (c # s)) (plain_rules @ (if st = Needarrow then arrow_rules else []))"
  by (auto simp: ten_digits_def plain_rules_def arrow_rules_def pattern_defs between_def lower_case_def self_chars_def
      p_alt_None p_seq_None)

lemma integer_wins:
  assumes "inclusive st"
  shows "lex_best (digits 10 n @ CHR '' '' # r) (lex_rules st) = Some (length (digits 10 n), a_num INTEGER 0 10)"
proof -
  let ?s = "digits 10 n"
  have c: "\<forall>c\<in>set ?s. c \<in> set ten_digits" using digits_decimal by blast
  obtain d ds where s: "?s = d # ds" by (cases ?s) auto
  then have d: "d \<in> set ten_digits" using c by simp
  have r: "lex_rules st = (plain_rules @ (if st = Needarrow then arrow_rules else []) @ take 3 other_rules) @
      (decnum, a_num INTEGER 0 10) # drop 4 other_rules @ every_rules"
    using assms by (simp add: lex_rules_inclusive start_rules_def other_rules_def)
  have l: "Suc 0 \<le> length ?s" by (simp add: s)
  have "list_all (digit_of CHR ''9'') ?s" using c decimal_facts by (auto simp: list_all_iff)
  from p_many_span [OF this _ l, of "CHR '' ''" None r] have "decnum (?s @ CHR '' '' # r) = Some (length ?s)"
    by (simp add: decnum_def)
  moreover have "d = CHR ''0'' \<longrightarrow> ds = []"
    using digits_head [of n] s by (cases "n = 0") (auto simp: digits.simps [of 10 0])
  then have "list_all (shorter (length ?s) (?s @ CHR '' '' # r)) (take 3 other_rules)"
    using d unfolding s by (auto simp: ten_digits_def other_rules_def pattern_defs lower_case_def p_seq_def p_alt_def
      p_longer_def p_many_def shorter_def)
  moreover have "list_all (shorter (Suc (length ?s)) (?s @ CHR '' '' # r)) (drop 4 other_rules @ every_rules)"
    using d unfolding s by (auto simp: ten_digits_def other_rules_def every_rules_def pattern_defs lower_case_def
      p_many_white is_white_def shorter_def nl_char_def)
  ultimately show ?thesis using decimal_shorter [OF d, of "length ?s" "ds @ CHR '' '' # r" st] unfolding r
    by (intro lex_best_at) (auto simp: s)
qed

lemma bits_wins:
  assumes "inclusive st"
  shows "lex_best (''0x'' @ fmt_08x w @ CHR '' '' # r) (lex_rules st) = Some (2 + length (fmt_08x w), a_num BITSTRING 0 0)"
proof -
  let ?s = "fmt_08x w" and ?P = "\<lambda>c. digit_of CHR ''9'' c \<or> between CHR ''a'' CHR ''f'' c"
  have r: "lex_rules st = (plain_rules @ (if st = Needarrow then arrow_rules else []) @ take 1 other_rules) @
      (p_alt hexnum octnum, a_num BITSTRING 0 0) # drop 2 other_rules @ every_rules"
    using assms by (simp add: lex_rules_inclusive start_rules_def other_rules_def)
  have l: "Suc 0 \<le> length ?s" using fmt_08x_not_Nil [of w] by (cases ?s) auto
  have "?P c" if "is_xdigit c" for c
    using that by (auto simp: is_xdigit_def xval_def digit_of_def between_def lower_case_def Let_def split: if_splits)
  then have "list_all ?P ?s" using fmt_08x_xdigit [of w] by (auto simp: list_all_iff)
  from p_many_span [OF this _ l, of "CHR '' ''" None r]
  have h: "hexnum (''0x'' @ ?s @ CHR '' '' # r) = Some (2 + length ?s)"
    by (simp add: hexnum_def p_seq_def lower_case_def between_def)
  moreover have "octnum (''0x'' @ ?s @ CHR '' '' # r) = None"
    by (simp add: octnum_def p_seq_def lower_case_def p_many_def digit_of_def between_def)
  ultimately have "p_alt hexnum octnum (''0x'' @ ?s @ CHR '' '' # r) = Some (2 + length ?s)"
    by (simp add: p_alt_def p_longer_def)
  moreover have "list_all (shorter n (''0x'' @ ?s @ CHR '' '' # r)) (take 1 other_rules)" for n
    by (simp add: other_rules_def lower_case_def)
  moreover have "list_all (shorter (Suc (2 + length ?s)) (''0x'' @ ?s @ CHR '' '' # r)) (drop 2 other_rules @ every_rules)"
    by (simp add: other_rules_def every_rules_def pattern_defs lower_case_def p_seq_None p_many_white is_white_def
      shorter_def p_many_def nl_char_def digit_of_def between_def)
  ultimately show ?thesis
    using decimal_shorter [of "CHR ''0''" "2 + length ?s" "CHR ''x'' # ?s @ CHR '' '' # r" st] unfolding r
    by (intro lex_best_at) (auto simp: ten_digits_def)
qed

section \<open>Printed tokens are scanned back\<close>

text \<open>One call reads the token \<open>t\<close> from a text that goes on with \<open>r\<close>; a directive also takes the blank.\<close>

definition reads :: "token \<Rightarrow> lexer \<Rightarrow> string \<Rightarrow> bool" where
  "reads t l r \<longleftrightarrow>
     (\<exists>m. yylex l = Some (Inr (Some t, m)) \<and> lx_start m = next_start (lx_start l) t \<and>
       (lx_in m = CHR '' '' # r \<or> lx_in m = r))"

lemma yylex_token: "scan_step l = Inr (Some t, m) \<Longrightarrow> lx_in l \<noteq> [] \<Longrightarrow> yylex l = Some (Inr (Some t, m))"
  by (simp add: yylex.simps [of l])

lemma yylex_skip: "scan_step l = Inr (None, m) \<Longrightarrow> lx_in l \<noteq> [] \<Longrightarrow> yylex l = yylex m"
  by (simp add: yylex.simps [of l])

lemma reads_at:
  assumes "lx_in l = s @ CHR '' '' # r" and "lex_best (s @ CHR '' '' # r) (lex_rules (lx_start l)) = Some (length s, a)"
    and "\<And>l. \<exists>m. a s l = Inr (Some t, m) \<and> lx_start m = lx_start l \<and> lx_in m = lx_in l" and "\<not> is_directive t"
  shows "reads t l r"
proof -
  obtain m where "a s (l\<lparr>lx_in := CHR '' '' # r\<rparr>) = Inr (Some t, m)" "lx_start m = lx_start l" "lx_in m = CHR '' '' # r"
    using assms(3) [of "l\<lparr>lx_in := CHR '' '' # r\<rparr>"] by auto
  moreover from this have "scan_step l = Inr (Some t, m)" using assms(1,2) by (simp add: scan_step_def)
  then have "yylex l = Some (Inr (Some t, m))" using assms(1) by (intro yylex_token) auto
  ultimately show ?thesis using assms(4) by (auto simp: reads_def next_start_def)
qed

lemma reads_directive:
  assumes "lx_in l = s @ CHR '' '' # r" and "is_directive t"
    and "lex_best (s @ CHR '' '' # r) (lex_rules (lx_start l)) = Some (Suc (length s), a_push_ret Ignore_nl t)"
  shows "reads t l r"
proof -
  have "scan_step l = Inr (Some t, yy_push_state Ignore_nl (l\<lparr>lx_in := r\<rparr>))"
    using assms(1,3) by (simp add: scan_step_def a_push_ret_def)
  then have "yylex l = Some (Inr (Some t, yy_push_state Ignore_nl (l\<lparr>lx_in := r\<rparr>)))"
    using assms(1) by (intro yylex_token) auto
  then show ?thesis using assms(2) by (simp add: reads_def next_start_def yy_push_state_def)
qed

lemma wins_after:
  "lex_rules st = xs @ (p, a) # ys \<Longrightarrow> p s = Some n \<Longrightarrow> list_all (shorter n s) xs \<Longrightarrow> list_all (shorter (Suc n) s) ys \<Longrightarrow>
     lex_best s (lex_rules st) = Some (n, a)"
  by (simp add: lex_best_at)

lemmas match_defs = rule_defs pattern_defs lower_case_def between_def p_alt_def p_seq_def p_longer_def p_many_def
  digit_of_def is_white_def name_char_def self_chars_def nl_char_def cr_char_def

lemma directive_wins:
  assumes "is_directive t" and "inclusive st"
  shows "lex_best (token_text t @ CHR '' '' # r) (lex_rules st) = Some (Suc (length (token_text t)), a_push_ret Ignore_nl t)"
  using assms by (cases st) (auto simp: is_directive_def match_defs)

lemma self_char_cases:
  "c \<in> set self_chars \<Longrightarrow>
    c = CHR '']'' \<or> c = CHR ''['' \<or> c = CHR ''|'' \<or> c = CHR ''&'' \<or> c = CHR ''+'' \<or>
    c = CHR ''*'' \<or> c = CHR ''^'' \<or> c = CHR ''>'' \<or> c = CHR ''<'' \<or> c = CHR ''.'' \<or>
    c = CHR '','' \<or> c = CHR '':'' \<or> c = CHR ''@'' \<or> c = CHR ''('' \<or> c = CHR '')'' \<or>
    c = CHR ''~'' \<or> c = CHR '';'' \<or> c = CHR ''/'' \<or> c = CHR ''-''"
  by (simp add: self_chars_def)

lemma self_wins:
  assumes "c \<in> set self_chars" and "inclusive st"
  shows "lex_best (c # CHR '' '' # r) (lex_rules st) = Some (1, act_self)"
proof -
  have r: "lex_rules st = take 12 plain_rules @ (p_one (\<lambda>c. c \<in> set self_chars), act_self) # drop 13 plain_rules @ start_rules st"
    using assms(2) by (simp add: lex_rules_inclusive plain_rules_def)
  show ?thesis
  proof (rule wins_after [OF r])
    show "p_one (\<lambda>c. c \<in> set self_chars) (c # CHR '' '' # r) = Some 1" using assms(1) by simp
    show "list_all (shorter 1 (c # CHR '' '' # r)) (take 12 plain_rules)"
      using self_char_cases [OF assms(1)] by (elim disjE; simp add: shorter_def match_defs)
    show "list_all (shorter (Suc 1) (c # CHR '' '' # r)) (drop 13 plain_rules @ start_rules st)"
      using self_char_cases [OF assms(1)] by (elim disjE; simp add: shorter_def match_defs start_rules_def)
  qed
qed

definition is_operator :: "token \<Rightarrow> bool" where
  "is_operator t \<longleftrightarrow> t \<in> {ILLEGAL, LSH', GE, LE, EQ', ANDN, ORN, RSHA', RSH', PACK, TOR}"

lemma operator_wins:
  assumes "is_operator t" and "inclusive st"
  shows "lex_best (token_text t @ CHR '' '' # r) (lex_rules st) = Some (length (token_text t), a_ret t)"
  using assms by (cases st) (auto simp: is_operator_def match_defs)

lemma arrow_wins:
  "lex_best (''<-'' @ CHR '' '' # r) (lex_rules Needarrow) = Some (2, a_ret TOL)"
  by (simp add: match_defs)

lemma lower_case_backslash: "lower_case c = CHR 0x5C \<Longrightarrow> c = CHR 0x5C"
proof (rule ccontr)
  assume l: "lower_case c = CHR 0x5C" and "c \<noteq> CHR 0x5C"
  then have u: "65 \<le> (of_char c :: nat)" "(of_char c :: nat) \<le> 90" "char_of ((of_char c :: nat) + 32) = CHR 0x5C"
    by (auto simp: lower_case_def Let_def split: if_splits)
  then have "of_char (char_of ((of_char c :: nat) + 32)) = (92 :: nat)" by simp
  then show False using u(1,2) by (simp only: of_char_of) simp
qed

text \<open>A character: the quote, the character, the quote.\<close>

lemma reads_character:
  assumes "lx_in l = CHR 0x27 # c # CHR 0x27 # CHR '' '' # r" and "c \<noteq> nl_char" and "c \<noteq> CHR 0x5C"
    and "inclusive (lx_start l)"
  shows "reads (CHARACTER [c]) l r"
proof -
  let ?l0 = "l\<lparr>lx_in := c # CHR 0x27 # CHR '' '' # r\<rparr>"
  let ?l1 = "(yy_push_state Charlit (yy_push_state Charend ?l0))\<lparr>lx_str := []\<rparr>"
  let ?l2 = "(yy_push_state Charend ?l0)\<lparr>lx_str := [c], lx_in := CHR 0x27 # CHR '' '' # r\<rparr>"
  let ?l3 = "l\<lparr>lx_str := [c], lx_in := CHR '' '' # r\<rparr>"
  have "lex_best (lx_in l) (lex_rules (lx_start l)) = Some (1, act_quote)"
    using assms(1,4) by (cases "lx_start l") (simp_all add: match_defs)
  then have "scan_step l = Inr (None, ?l1)" using assms(1) by (simp add: scan_step_def act_quote_def)
  then have 1: "yylex l = yylex ?l1" using assms(1) by (intro yylex_skip) simp_all
  have "lower_case c \<noteq> CHR 0x5C" using assms(3) lower_case_backslash by blast
  then have "lex_best (lx_in ?l1) (lex_rules Charlit) = Some (1, act_charlit)"
    using assms(2) by (simp add: yy_push_state_def rule_defs p_any_def p_newline_def)
  then have "scan_step ?l1 = Inr (None, ?l2)"
    by (simp add: scan_step_def act_charlit_def yy_push_state_def yy_pop_state_def)
  then have 2: "yylex ?l1 = yylex ?l2" by (intro yylex_skip) (simp_all add: yy_push_state_def)
  have "lex_best (lx_in ?l2) (lex_rules Charend) = Some (1, act_character)"
    by (simp add: match_defs)
  then have "scan_step ?l2 = Inr (Some (CHARACTER [c]), ?l3)"
    by (simp add: scan_step_def act_character_def yy_push_state_def yy_pop_state_def)
  then have "yylex ?l2 = Some (Inr (Some (CHARACTER [c]), ?l3))" by (intro yylex_token) simp_all
  then show ?thesis using 1 2 by (simp add: reads_def next_start_def is_directive_def)
qed

lemma token_reads:
  assumes "inclusive (lx_start l)" and "token_ok (lx_start l) t" and "lx_in l = token_text t @ CHR '' '' # r"
  shows "reads t l r"
proof -
  have "is_directive t \<or> is_operator t \<or> t = TOL \<or> (\<exists>c. t = T_char c) \<or> (\<exists>c. t = REGISTER c) \<or> (\<exists>s. t = SYMBOL s) \<or>
      (\<exists>s. t = LOCAL s) \<or> (\<exists>w. t = INTEGER w) \<or> (\<exists>w. t = BITSTRING w) \<or> (\<exists>c. t = CHARACTER [c] \<and> c \<noteq> nl_char \<and> c \<noteq> CHR 0x5C)"
    using assms(2) by (cases t) (auto simp: is_directive_def is_operator_def)
  then show ?thesis
  proof (elim disjE exE conjE)
    assume "is_directive t"
    then show ?thesis using directive_wins [OF _ assms(1)] by (intro reads_directive [OF assms(3)])
  next
    assume "is_operator t"
    then show ?thesis using operator_wins [OF _ assms(1)]
      by (intro reads_at [OF assms(3)]) (auto simp: a_ret_def is_operator_def is_directive_def)
  next
    assume t: "t = TOL"
    then show ?thesis using assms(2) arrow_wins [of r]
      by (intro reads_at [OF assms(3)]) (auto simp: a_ret_def is_directive_def numeral_2_eq_2)
  next
    fix c assume t: "t = T_char c"
    then show ?thesis using assms(2) self_wins [OF _ assms(1), of c r]
      by (intro reads_at [OF assms(3)]) (auto simp: act_self_def is_directive_def)
  next
    fix c assume t: "t = REGISTER c"
    then show ?thesis using assms(2) register_wins [OF _ assms(1), of c r]
      by (intro reads_at [OF assms(3)]) (auto simp: act_register_def is_directive_def)
  next
    fix s assume t: "t = SYMBOL s"
    then show ?thesis using assms(2) symbol_wins [OF _ assms(1), of s r]
      by (intro reads_at [OF assms(3)]) (auto simp: a_name_def is_directive_def)
  next
    fix s assume t: "t = LOCAL s"
    then show ?thesis using assms(2) local_wins [OF _ assms(1), of s r]
      by (intro reads_at [OF assms(3)]) (auto simp: a_name_def is_directive_def)
  next
    fix w assume t: "t = INTEGER w"
    have "unat w < 2 ^ 63" using unsigned_less [of w, where 'a = nat] by simp
    then show ?thesis using t integer_wins [OF assms(1), of "unat w" r]
      by (intro reads_at [OF assms(3)]) (auto simp: a_num_def is_directive_def numberise_decimal)
  next
    fix w assume t: "t = BITSTRING w"
    then show ?thesis using bits_wins [OF assms(1), of w r] numberise_hex [of w]
      by (intro reads_at [OF assms(3)]) (auto simp: a_num_def is_directive_def)
  next
    fix c assume t: "t = CHARACTER [c]" "c \<noteq> nl_char" "c \<noteq> CHR 0x5C"
    then show ?thesis using assms unfolding t(1) by (intro reads_character) simp_all
  qed
qed

text \<open>Blanks before the next token, or the end, are passed over.\<close>

lemma token_starts:
  "token_ok st t \<Longrightarrow> \<exists>c s. token_text t = c # s \<and> \<not> is_white c"
proof (cases t)
  case (INTEGER w)
  obtain d ds where s: "digits 10 (unat w) = d # ds" by (cases "digits 10 (unat w)") auto
  then have "d \<in> set ten_digits" using digits_decimal [of "unat w"] by auto
  then show ?thesis using INTEGER s by (auto simp: ten_digits_def is_white_def)
next
  case (SYMBOL s)
  assume "token_ok st t"
  then show ?thesis using SYMBOL name_start_white by (auto simp: symbol_ok_def)
next
  case (REGISTER c)
  assume "token_ok st t"
  then have "name_start c" using REGISTER by (auto simp: name_start_def between_def)
  then show ?thesis using REGISTER name_start_white by auto
next
  case (T_char c)
  assume "token_ok st t"
  then show ?thesis using T_char by (auto simp: self_chars_def is_white_def)
next
  case (LOCAL s)
  assume "token_ok st t"
  then obtain d ds where "s = CHR ''.'' # d # ds" using LOCAL by (auto simp: local_ok_def)
  then show ?thesis using LOCAL by (simp add: is_white_def)
qed (auto simp: is_white_def)

lemma blank_wins:
  assumes "inclusive st"
  shows "lex_best (CHR '' '' # s) (lex_rules st) = Some (length (takeWhile is_white (CHR '' '' # s)), a_skip)"
proof -
  have r: "lex_rules st = (plain_rules @ (if st = Needarrow then arrow_rules else []) @ take 4 other_rules) @
      (p_many is_white 1 None, a_skip) # drop 5 other_rules @ every_rules"
    using assms by (simp add: lex_rules_inclusive start_rules_def other_rules_def)
  show ?thesis
  proof (rule wins_after [OF r])
    show "p_many is_white 1 None (CHR '' '' # s) = Some (length (takeWhile is_white (CHR '' '' # s)))"
      by (simp add: p_many_def)
    show "list_all (shorter n (CHR '' '' # s)) (plain_rules @ (if st = Needarrow then arrow_rules else []) @ take 4 other_rules)" for n
      by (simp add: shorter_def match_defs)
    show "list_all (shorter (Suc (length (takeWhile is_white (CHR '' '' # s)))) (CHR '' '' # s)) (drop 5 other_rules @ every_rules)"
      by (simp add: shorter_def other_rules_def every_rules_def pattern_defs lower_case_def nl_char_def p_alt_None)
  qed
qed

lemma blanks_simps [simp]: "blanks 0 = []" "blanks (Suc k) = CHR '' '' # blanks k"
  by (simp_all add: blanks_def)

lemma blanks_white: "(s = [] \<or> \<not> is_white (hd s)) \<Longrightarrow> takeWhile is_white (blanks k @ s) = blanks k"
  by (induction k) (cases s; simp)+

lemma length_blanks [simp]: "length (blanks k) = k"
  by (simp add: blanks_def)

lemma blanks_skipped:
  assumes "inclusive (lx_start l)" and "lx_in l = blanks k @ s" and "s = [] \<or> \<not> is_white (hd s)"
  shows "yylex l = yylex (l\<lparr>lx_in := s\<rparr>)"
proof (cases k)
  case 0
  then have "l\<lparr>lx_in := s\<rparr> = l" using assms(2) by simp
  then show ?thesis by simp
next
  case (Suc j)
  have "lx_in l = CHR '' '' # blanks j @ s" using assms(2) Suc by simp
  then have "lex_best (lx_in l) (lex_rules (lx_start l)) = Some (k, a_skip)"
    using blank_wins [OF assms(1), of "blanks j @ s"] blanks_white [OF assms(3), of j] Suc by simp
  then have "scan_step l = Inr (None, l\<lparr>lx_in := s\<rparr>)"
    using assms(2) by (simp add: scan_step_def a_skip_def)
  then show ?thesis by (rule yylex_skip) (use assms(2) Suc in simp)
qed

lemma inclusive_next: "inclusive st \<Longrightarrow> inclusive (next_start st t)"
  by (simp add: next_start_def)

text \<open>The tokens of a text that spells them with blanks after each.\<close>

lemma tokens_upto_spaced:
  assumes "inclusive (lx_start l)" and "tokens_ok (lx_start l) (map fst ts)" and "lx_in l = blanks k @ spaced ts"
    and "length ts \<le> n"
  shows "tokens_upto n l = map fst ts"
  using assms
proof (induction ts arbitrary: l k n)
  case Nil
  have "yylex l = yylex (l\<lparr>lx_in := []\<rparr>)" using Nil by (intro blanks_skipped [of l k]) simp_all
  then have "yylex l = Some (Inr (None, l\<lparr>lx_in := []\<rparr>))" by (simp add: yylex.simps [of "l\<lparr>lx_in := []\<rparr>"])
  then show ?case by (cases n) simp_all
next
  case (Cons tk ts)
  obtain t j where tk: "tk = (t, j)" by (cases tk)
  obtain m where n: "n = Suc m" "length ts \<le> m" using Cons.prems(4) by (cases n) simp_all
  let ?l = "l\<lparr>lx_in := spaced (tk # ts)\<rparr>"
  have ok: "token_ok (lx_start l) t" "tokens_ok (next_start (lx_start l) t) (map fst ts)"
    using Cons.prems(2) by (simp_all add: tk)
  obtain c s where "token_text t = c # s" "\<not> is_white c" using token_starts [OF ok(1)] by blast
  then have y: "yylex l = yylex ?l"
    using Cons.prems(3) by (intro blanks_skipped [OF Cons.prems(1), of k]) (simp_all add: tk)
  have "reads t ?l (blanks j @ spaced ts)"
    using Cons.prems(1) ok(1) by (intro token_reads) (simp_all add: tk)
  then obtain l' where l': "yylex ?l = Some (Inr (Some t, l'))" "lx_start l' = next_start (lx_start l) t"
    "lx_in l' = CHR '' '' # blanks j @ spaced ts \<or> lx_in l' = blanks j @ spaced ts"
    by (auto simp: reads_def)
  then have "lx_in l' = blanks (Suc j) @ spaced ts \<or> lx_in l' = blanks j @ spaced ts" by simp
  then obtain i where "lx_in l' = blanks i @ spaced ts" by blast
  then have "tokens_upto m l' = map fst ts"
    using Cons.IH [of l' i m] ok(2) l'(2) inclusive_next [OF Cons.prems(1)] n(2) by simp
  then show ?case using y l'(1) by (simp add: n(1) tk)
qed

lemma spaced_length: "length ts \<le> length (spaced ts)"
  by (induction ts rule: spaced.induct) simp_all

lemma tokens_of_spaced:
  assumes "inclusive (lx_start l)" and "tokens_ok (lx_start l) (map fst ts)" and "lx_in l = blanks k @ spaced ts"
  shows "tokens_of l = map fst ts"
proof -
  have "length ts \<le> length (lx_in l)" using assms(3) spaced_length [of ts] by simp
  then show ?thesis unfolding tokens_of_def by (rule tokens_upto_spaced [OF assms])
qed

end
