(* ===== verification/Spec2Isabelle.thy ===== *)
theory Spec2Isabelle
  imports Examples Loads Spisd Tsearch Drivers Cells Trailz Stuck Displays Web Slaves Jitrun Lexer
begin

text \<open>
  Tenyr: a 32-bit machine, its simulator, assembler and linker.

  The program.  \<^verbatim>\<open>tas\<close> assembles a source to one of four formats, \<^verbatim>\<open>tld\<close> links
  objects, \<^verbatim>\<open>tsim\<close> loads a file into a machine whose memory is a table of devices and interprets it;
  \<^verbatim>\<open>src/lib\<close> holds routines in the assembly language, and \<^verbatim>\<open>src/ui/web\<close> and \<^verbatim>\<open>src/bench\<close> some
  C of their own.  Everything named here is C under \<^verbatim>\<open>src/src\<close> unless it says otherwise.

  \<^bold>\<open>Theories, in the order in which they build on each other\<close>

  \<^item> \<open>Prelude\<close>: words at the widths of the C code, bytes, and outcomes.  A call that can fail has type
    \<open>'a res\<close>: \<open>Inr\<close> its result, \<open>Inl (Fatal ...)\<close> for \<open>fatal()\<close>, \<open>Inl (Undefined ...)\<close> where C leaves the
    behaviour undefined.  \<open>'a res option\<close> is that of a loop that may not end: \<open>None\<close> when it does not.
  \<^item> \<open>Insn\<close> (\<^verbatim>\<open>ops.h\<close>), \<open>Sim\<close> (\<^verbatim>\<open>sim.c\<close>), \<open>Alu\<close>, \<open>Isa\<close>, \<open>Run\<close>: the instruction word and its fields,
    \<open>do_op\<close>, \<open>do_common\<close>, \<open>run_instruction\<close>, the loop \<open>interp_run_sim\<close> and \<open>load_sim\<close>, over a dispatcher that
    is an argument as in the C code.  \<open>Alu\<close> and \<open>Isa\<close> are the specifications: integer arithmetic, and the
    instruction set as the comment of \<^verbatim>\<open>ops.h\<close> states it.  \<open>Run\<close> holds the contract \<open>word_store\<close> of a memory
    and what the interpreter and the loader do on anything that keeps it.
  \<^item> \<open>Search\<close> (\<^verbatim>\<open>ui/web/src/emlsearch.c\<close>, \<^verbatim>\<open>bench/qsort.c\<close>, \<^verbatim>\<open>bench/bsearch.c\<close>), \<open>Tsearch\<close>
    (\<^verbatim>\<open>ui/web/src/emtsearch.c\<close>, pointers in a heap), \<open>Simif\<close> (\<^verbatim>\<open>simif.c\<close>), \<open>Memory\<close> (\<^verbatim>\<open>devices/ram.c\<close>,
    \<^verbatim>\<open>sparseram.c\<close>, \<^verbatim>\<open>serial.c\<close>), \<open>Spi\<close> (\<^verbatim>\<open>devices/spi.c\<close>, \<^verbatim>\<open>spidummy.c\<close>), \<open>Spisd\<close>
    (\<^verbatim>\<open>devices/spisd.c\<close>), \<open>Tsim\<close> (\<^verbatim>\<open>tsim.c\<close>): the device table, the devices, and booting them.  A device is a
    cookie with operations, as in \<^verbatim>\<open>device.h\<close>; \<open>qsort\<close> and \<open>bsearch\<close> of the C library are arguments with the
    contract \<open>libc_search\<close>.
  \<^item> \<open>Obj\<close> (\<^verbatim>\<open>obj.c\<close>), \<open>ObjFormat\<close>, \<open>Formats\<close>, \<open>Disasm\<close> (\<^verbatim>\<open>asm.c\<close>), \<open>Link\<close> (\<^verbatim>\<open>tld.c\<close>), \<open>Param\<close>
    (\<^verbatim>\<open>param.c\<close>): files and formats, on hosts of either byte order; the linker; the disassembler.
  \<^item> \<open>Expr\<close>, \<open>Assemble\<close>, \<open>Build\<close> (\<^verbatim>\<open>asmif.c\<close>): constant expressions and the second pass.  \<open>Assemble\<close> gives the
    meaning of an expression as a big-step relation that \<open>ce_eval\<close> implements; \<open>Build\<close> describes the output of
    a program of labels.
  \<^item> \<open>Lexer\<close> (\<^verbatim>\<open>lexer.l\<close>): the patterns, rules and start conditions of the scanner, that it returns on every input,
    and which texts it reads as which tokens.  \<open>Grammar\<close> (the actions of \<^verbatim>\<open>parser.y\<close>, over derivations), \<open>Source\<close>, \<open>Assembled\<close>: what the first pass collects
    of a source of single words, and that after the second pass, the output and the loading each element is in
    memory with its meaning, labels standing for the numbers of their elements.
  \<^item> \<open>Pipeline\<close>, \<open>Loads\<close>, \<open>Examples\<close>: from the output of a tool to the memory of the next.
  \<^item> \<open>Cpu\<close>, \<open>Asmlib\<close> (\<^verbatim>\<open>src/lib/common.th\<close>, \<^verbatim>\<open>push.th\<close> and the sources of the routines), \<open>Calls\<close>,
    \<open>Running\<close>: steps of decoded instructions that the interpreter follows, the macros as the lines they expand to,
    the calling convention as the contract \<open>routine\<close>, and that a routine that keeps it keeps it on the simulator.
    \<open>Arithmetic\<close> (\<open>gcd\<close>, \<open>ipow\<close>, \<open>imul\<close>), \<open>Division\<close> (\<open>udiv\<close>, \<open>isqrt\<close>), \<open>Cells\<close> (\<open>memcpy\<close>, \<open>memset\<close>,
    \<open>strcmp\<close>), \<open>Trailz\<close> interpret it on the nine routines, and \<open>Stuck\<close> has the calls that do not return.
  \<^item> \<open>Plugins\<close> (\<^verbatim>\<open>plugin.c\<close>, \<^verbatim>\<open>common.c\<close>, \<^verbatim>\<open>os\<close>), \<open>Drivers\<close> (the \<open>main\<close> functions and options of
    \<^verbatim>\<open>tsim.c\<close>, \<^verbatim>\<open>tas.c\<close>, \<^verbatim>\<open>tld.c\<close>), \<open>Slaves\<close> (how \<^verbatim>\<open>devices/spi.c\<close> finds its slaves), \<open>Web\<close>
    (\<^verbatim>\<open>ui/web/src/emtsim.c\<close>, \<^verbatim>\<open>emtas.c\<close>).
  \<^item> \<open>Jit\<close>, \<open>Jitrun\<close> (\<^verbatim>\<open>jit.cc\<close>): the code that is made from a block of words, as the list of instructions given
    to the assembler, which is outside the repository; what they do is the documentation of the processor
    (\<open>native_step\<close>); and the table of blocks, the hooks and the loop around the interpreter.  \<open>jit_run_sim\<close> is what
    the argument \<open>jit\<close> of \<open>tsim_main\<close> stands for.
  \<^item> \<open>Displays\<close> (\<^verbatim>\<open>devices/sdlled.c\<close>, \<^verbatim>\<open>sdlvga.c\<close>): what is drawn is a list of copies from textures, and what is on
    the window the copies at the last present; the clock, the events of the window and the images that can be
    loaded are part of a \<open>host\<close>.  The states of the screen are reached by an inductive
    relation, and its memory is another instance of \<open>word_store\<close>.

  \<^bold>\<open>Interfaces\<close>

  \<open>word_store\<close> and \<open>clocked_store\<close> say what the interpreter needs of its memory; the two RAMs are
  interpretations, and \<open>mounted_store\<close> is again one behind the dispatcher, so the lemmas on the interpreter hold
  on the machine that \<open>tsim\<close> boots (\<open>tsim_bus\<close>).  \<open>libc_search\<close> is the contract of the searches, with the ones of
  \<open>Search\<close> as its instance, and \<open>search_contract\<close> that of the \<open>tsearch\<close> which the check for duplicate labels
  calls, which the trees of the web build keep.  \<open>routine\<close> is the contract between a caller and a routine of the library.

  \<^bold>\<open>What is shown\<close>

  First that the tools compose: assembled, linked and labelled programs reach the memory of the simulator as they
  should (\<open>assembled_program_loads\<close>, \<open>linked_program_loads\<close>, \<open>labelled_source_loads\<close>, \<open>source_in_order_builds\<close>), and
  the routines of the library, taken from their source through parser, assembler, loader and interpreter, compute
  what they are for, or never return (\<open>gcd_on_tsim\<close> to \<open>udiv_never_returns\<close>).  Then each component: the interpreter
  refines the instruction set, the device table sends an access to its owner, the devices keep their contracts, the
  SPI master and a slave exchange their registers, the displays draw what was written to them, the compiler runs
  programs as the interpreter does, the scanner and the formats read back what is written for them, expressions have the value of
  their specification, relocations add what they should, and the errors are those the code reports.  A few theorems
  without a claim number state behaviour that is surprising: a program that never stops, addresses that share a
  cell, a bound that is one too large.

  \<^bold>\<open>Bounds\<close>

  Loops are structural, have a measure, or are partial functions whose value is \<open>None\<close> when they do not end; no fuel
  is used.  Programs have at most \<open>0x3000\<close> words, the size of the RAM from \<open>RAM_BASE\<close> on; files are below
  \<open>2 ^ 32\<close> bytes.  Routines are called with their stack and data in the RAM, apart from the program.

  \<^bold>\<open>What is assumed of C\<close>

  Signed arithmetic wraps, \<open>>>\<close> of a negative number is arithmetic, \<open>char\<close> is signed, \<open>long\<close> has 64 bits;
  \<open>fscanf\<close>, \<open>strtol\<close>, \<open>snprintf\<close> are as in C99.  Memory does not run out and writes to a stream do not fail.
  A shift by the width of its operand or more, a read through a null or dangling pointer and an access outside an
  array are \<open>Undefined\<close>; where a platform is taken to get over one, it is an argument (\<open>wild\<close> of the SD card).
  Bytes that C leaves unspecified (fresh memory, padding, what lies after a string) are arguments named \<open>junk\<close>,
  \<open>after\<close> and the like, over which the theorems are general.  Host calls (\<open>getopt_long\<close>, \<open>fopen\<close>, \<open>dlopen\<close>) are
  arguments.

  \<^bold>\<open>Not modelled\<close>

  The tables of the parser are generated by bison: a source is given by its derivation, after the preprocessor.  The
  scanner is apart from it: the start conditions that the parser pushes and pops between two tokens are not modelled.
  \<^verbatim>\<open>src/hw\<close> is Verilog and callbacks of a Verilog simulator; the remaining assembly sources (\<^verbatim>\<open>src/forth\<close>,
  \<^verbatim>\<open>src/ex\<close>, and what of \<^verbatim>\<open>src/lib\<close> is not named above) are programs for the machine.  Diagnostics, traces and the freeing of memory have no effect in the model,
  except where later code reads what was freed.
\<close>

section \<open>Whole programs\<close>

text \<open>
  C1.
  One instruction of the interpreter does what the instruction set at the top of
  \<open>ops.h\<close> says: with the program counter already past it, the word's effect on
  the registers and the memory is carried out, register A excepted.
  \<open>isa_defined\<close> asks shift amounts below 32.
\<close>


theorem run_instruction_correct:
  "isa_defined (regs (next_ip s)) (e_word i) \<Longrightarrow>
     run_instruction D junk i s =
       apply_effect D junk (isa_effect (regs (next_ip s)) (e_word i)) (next_ip s)"
  by (rule run_instruction_isa)

lemma run_instruction_correct_witness:
  "run_instruction (\<lambda>op a v w. Inr (0, v, w)) 0 \<lparr>e_word = spin_word, e_reladdr = 0, e_size = 0\<rparr>
     \<lparr>regs = (\<lambda>_. 0)(15 := 0x1000), insns_executed = 0, world = ()\<rparr> =
   Inr (0, \<lparr>regs = (\<lambda>_. 0)(15 := 0x1000), insns_executed = 0, world = ()\<rparr>)"
proof -
  let ?r = "(\<lambda>_. 0)(15 := 0x1001) :: 4 word \<Rightarrow> u32"
  have "isa_defined ?r spin_word" "isa_effect ?r spin_word = Set_reg 15 0x1000"
    using spin_effect [of ?r] by simp_all
  then show ?thesis
    by (subst run_instruction_correct) (simp_all add: apply_effect_def set_reg_def next_ip_def)
qed

text \<open>
  C2.
  From the linker's inputs to the simulator's memory.  Objects of one record each, whose
  symbols are distinct and whose relocations are inside their records and resolved, are
  linked; \<open>tsim\<close> with its default devices loads the output.  Each input's words
  are then found at \<open>RAM_BASE\<close> plus the sum of the sizes of the inputs before it;
  a word at which a relocation is aimed has the relocation's value added in the relocation's
  field, every other word is as it was in the input.
\<close>


theorem linked_program_loads:
  assumes "libc_search qs bs" and "no_plugins out" and "linkable objs"
    and "\<forall>ob\<in>set objs. length (obj_bytes ob) < 2 ^ 32"
    and "length (concat (map rec_data (records (linked objs)))) \<le> 0x3000"
  shows "\<exists>bytes v t s b.
    tld little (map (\<lambda>ob. \<lparr>pos = 0, rest = obj_bytes ob, seekable = True\<rparr>) objs) = Inr bytes \<and>
    obj_init little' None \<lparr>pos = 0, rest = bytes, seekable = k\<rparr> = Inr (0, v, t) \<and>
    boot qs out default_state = Some (Inr s) \<and>
    load_sim (dispatch_op bs) obj_in RAM_BASE v i (sim_bus s) = Some (Inr (0, b)) \<and>
    (\<forall>n<length objs. \<forall>r. records (objs ! n) = [r] \<longrightarrow> (\<forall>j<unat (rec_size r).
      (\<forall>l\<in>set (relocs (objs ! n)). reloc_at r l \<noteq> j) \<longrightarrow>
      bus_peek bs sparse_look b (RAM_BASE + offset objs n + of_nat j) = rec_data r ! j)) \<and>
    (\<forall>n<length objs. \<forall>r. records (objs ! n) = [r] \<longrightarrow>
      distinct (map (reloc_at r) (relocs (objs ! n))) \<longrightarrow> (\<forall>l\<in>set (relocs (objs ! n)).
      bus_peek bs sparse_look b (RAM_BASE + offset objs n + of_nat (reloc_at r l)) =
        reloc_word (rlc_width l) (rec_data r ! reloc_at r l)
          (projr (reloc_value (link_tables objs) n l))))"
  by (rule tsim_bus.link_and_load [OF tsim_bus_libc]) (rule assms)+

lemma linked_program_loads_witness:
  "\<exists>bytes v t s b.
    tld True (map (\<lambda>ob. \<lparr>pos = 0, rest = obj_bytes ob, seekable = True\<rparr>) [caller, callee]) = Inr bytes \<and>
    obj_init True None \<lparr>pos = 0, rest = bytes, seekable = False\<rparr> = Inr (0, v, t) \<and>
    boot quicksort bare_outside default_state = Some (Inr s) \<and>
    load_sim (dispatch_op bsearch) obj_in RAM_BASE v \<lparr>e_word = 0, e_reladdr = 0, e_size = 0\<rparr> (sim_bus s) =
      Some (Inr (0, b)) \<and>
    bus_peek bsearch sparse_look b (RAM_BASE + 2 + of_nat 1) = 2"
proof -
  have n: "no_plugins bare_outside" by (simp add: no_plugins_def bare_outside_def)
  obtain bytes v t s b where *:
    "tld True (map (\<lambda>ob. \<lparr>pos = 0, rest = obj_bytes ob, seekable = True\<rparr>) [caller, callee]) = Inr bytes"
    "obj_init True None \<lparr>pos = 0, rest = bytes, seekable = False\<rparr> = Inr (0, v, t)"
    "boot quicksort bare_outside default_state = Some (Inr s)"
    "load_sim (dispatch_op bsearch) obj_in RAM_BASE v \<lparr>e_word = 0, e_reladdr = 0, e_size = 0\<rparr> (sim_bus s) =
      Some (Inr (0, b))"
    and p: "\<forall>n<length [caller, callee]. \<forall>r. records ([caller, callee] ! n) = [r] \<longrightarrow> (\<forall>j<unat (rec_size r).
      (\<forall>l\<in>set (relocs ([caller, callee] ! n)). reloc_at r l \<noteq> j) \<longrightarrow>
      bus_peek bsearch sparse_look b (RAM_BASE + offset [caller, callee] n + of_nat j) = rec_data r ! j)"
    using linked_program_loads [OF libc.libc_search_axioms n demo_linkable demo_sizes demo_length,
      of True True False "\<lparr>e_word = 0, e_reladdr = 0, e_size = 0\<rparr>"] by blast
  have "bus_peek bsearch sparse_look b (RAM_BASE + offset [caller, callee] 1 + of_nat 1) = 2"
    using p [rule_format, of 1 "\<lparr>rec_addr = 0, rec_size = 3, rec_data = [1, 2, 3]\<rparr>" 1]
    by (simp add: callee_def)
  moreover have "offset [caller, callee] 1 = 2" by (simp add: caller_def first_size_def)
  ultimately show ?thesis using * by auto
qed

text \<open>
  C3.
  From the assembler's output to the simulator's memory.  Elements of one word each, at most
  0x3000 of them, are written in the object format; \<open>tsim\<close>, started with its
  default devices on a host of either byte order, reads the bytes back, loads them at
  \<open>RAM_BASE\<close>, and then each address of the RAM window holds the word of the
  element at that distance, or the illegal instruction where the program has ended.
\<close>


theorem assembled_program_loads:
  assumes "libc_search qs bs" and "no_plugins out"
    and "\<forall>e\<in>set es. e_size e = 1" and "length es \<le> 0x3000"
  shows "\<exists>u u' bytes v t s b.
    obj_init little (Some (Some 1)) file = Inr (0, u, file) \<and>
    obj_out_all little junk es u = Some (Inr u') \<and> obj_emit little u' = Inr (0, bytes) \<and>
    obj_init little' None \<lparr>pos = 0, rest = bytes, seekable = k\<rparr> = Inr (0, v, t) \<and>
    boot qs out default_state = Some (Inr s) \<and>
    load_sim (dispatch_op bs) obj_in RAM_BASE v i (sim_bus s) = Some (Inr (0, b)) \<and>
    (\<forall>a\<in>ram_window. bus_peek bs sparse_look b a =
      (if unat (a - RAM_BASE) < length es then e_word (es ! unat (a - RAM_BASE)) else illegal_word))"
  by (rule tsim_bus.assemble_and_load [OF tsim_bus_libc]) (rule assms)+

lemma assembled_program_loads_witness:
  "\<exists>u u' bytes v t s b.
    obj_init True (Some (Some 1)) \<lparr>pos = 0, rest = [], seekable = False\<rparr> =
      Inr (0, u, \<lparr>pos = 0, rest = [], seekable = False\<rparr>) \<and>
    obj_out_all True (\<lambda>_. 0) [\<lparr>e_word = 7, e_reladdr = 0, e_size = 1\<rparr>] u = Some (Inr u') \<and>
    obj_emit True u' = Inr (0, bytes) \<and>
    obj_init False None \<lparr>pos = 0, rest = bytes, seekable = True\<rparr> = Inr (0, v, t) \<and>
    boot quicksort bare_outside default_state = Some (Inr s) \<and>
    load_sim (dispatch_op bsearch) obj_in RAM_BASE v \<lparr>e_word = 0, e_reladdr = 0, e_size = 0\<rparr> (sim_bus s) =
      Some (Inr (0, b)) \<and>
    bus_peek bsearch sparse_look b RAM_BASE = 7"
proof -
  have n: "no_plugins bare_outside" by (simp add: no_plugins_def bare_outside_def)
  have w: "RAM_BASE \<in> ram_window" by (simp add: ram_window_def ram_consts)
  let ?es = "[\<lparr>e_word = 7, e_reladdr = 0, e_size = 1\<rparr>]"
  have at0: "\<forall>a\<in>ram_window. look a = (if unat (a - RAM_BASE) < length ?es
      then e_word (?es ! unat (a - RAM_BASE)) else illegal_word) \<Longrightarrow> look RAM_BASE = 7" for look
    using w by (drule_tac bspec) auto
  have es: "\<forall>e\<in>set ?es. e_size e = 1" "length ?es \<le> 0x3000" by simp_all
  show ?thesis
    using assembled_program_loads [OF libc.libc_search_axioms n es,
        of True "\<lparr>pos = 0, rest = [], seekable = False\<rparr>" "\<lambda>_. 0" False True
          "\<lparr>e_word = 0, e_reladdr = 0, e_size = 0\<rparr>"] at0
    by blast
qed

text \<open>
  C4.
  From parsed source to memory.  Given what the parser has collected of a program whose
  symbols are labels, each label once, with deferred expressions that name labels or symbols
  of other files and fit their fields, the second pass of the assembler succeeds in the text
  format, the file loads into the default machine, and each element starts at the sum of the
  sizes before it, its word filled with the values of its expressions, in which a label stands
  for the address of its element.
\<close>


theorem labelled_source_loads:
  assumes "libc_search qs bs" and "program home v pd" and "sized pd"
    and "length (concat (map words_of (program_elements home v pd))) \<le> 0x3000"
  shows "\<exists>u b. assembly_inner junk after text_format pd (text_init []) = Some (Inr (0, u)) \<and>
    load_sim (dispatch_op bs) text_in RAM_BASE (text_init (t_out u)) i (default_bus out) = Some (Inr (0, b)) \<and>
    (\<forall>k<length (pd_top pd). \<forall>e. pd_top pd ! k = Some e \<longrightarrow> 0 <s e_size e \<longrightarrow>
       bus_peek bs sparse_look b (RAM_BASE + addr_of pd k) = fixed_word v (pd_defexprs pd) k (e_word e))"
  by (rule tsim_bus.source_load [OF tsim_bus_libc [OF assms(1)] assms(2-4)])

lemma labelled_source_loads_witness:
  "\<exists>u b. assembly_inner 0 [] text_format label_source (text_init []) = Some (Inr (0, u)) \<and>
    load_sim (dispatch_op bsearch) text_in RAM_BASE (text_init (t_out u)) \<lparr>e_word = 0, e_reladdr = 0, e_size = 0\<rparr>
      (default_bus bare_outside) = Some (Inr (0, b)) \<and>
    bus_peek bsearch sparse_look b RAM_BASE = 1"
proof -
  have "length (concat (map words_of (program_elements (\<lambda>_. 1) (\<lambda>_. 1) label_source))) \<le> 0x3000"
    unfolding program_elements_def words_of_program
    by (simp add: fixed_def with_words_def resolved_def addressed_def label_source_def one_word_def words_at_def
      words_of_def element.truncate_def word_sless_alt upt_rec)
  from labelled_source_loads [OF libc.libc_search_axioms label_source_program label_source_sized this,
      of 0 "[]" "\<lparr>e_word = 0, e_reladdr = 0, e_size = 0\<rparr>" bare_outside]
  obtain u b where "assembly_inner 0 [] text_format label_source (text_init []) = Some (Inr (0, u))"
    "load_sim (dispatch_op bsearch) text_in RAM_BASE (text_init (t_out u)) \<lparr>e_word = 0, e_reladdr = 0, e_size = 0\<rparr>
      (default_bus bare_outside) = Some (Inr (0, b))"
    and at: "\<And>k e. k < length (pd_top label_source) \<Longrightarrow> pd_top label_source ! k = Some e \<Longrightarrow> 0 <s e_size e \<Longrightarrow>
      bus_peek bsearch sparse_look b (RAM_BASE + addr_of label_source k) =
        fixed_word (\<lambda>_. 1) (pd_defexprs label_source) k (e_word e)"
    by blast
  moreover have "bus_peek bsearch sparse_look b (RAM_BASE + addr_of label_source 0) = 1"
    using at [of 0 "\<lparr>e_word = 7, e_reladdr = 0, e_size = 1, el_symbol = []\<rparr>"]
    by (simp add: label_source_def one_word_def field_value_def word_sless_alt)
  ultimately show ?thesis by (auto simp: addr_of_def)
qed

section \<open>The routines of the library\<close>

lemma bus_libc: "tsim_bus quicksort bsearch"
  by (rule tsim_bus_libc [OF libc.libc_search_axioms])

text \<open>
  C5.
  From the parse of a source to memory.  Take lines that are \<open>in_order\<close>: they
  hold instructions, single data words and \<open>.global\<close>, at most
  \<open>0x3000\<close> elements (no \<open>.set\<close>, \<open>.zero\<close>,
  \<open>.utf32\<close>, and no \<open>^^\<close> with an immediate); labels are distinct and
  names have at most 31 bytes; a symbol or the place is only added or subtracted, and never
  two references with \<open>@\<close> in one expression; every immediate fits its field.
  They go through the actions of the parser, the second pass, the text format and the loader
  of the default machine without an error, and the word found for each element is the one its
  meaning asks for: an instruction decodes to what was written, its labels read as the numbers
  of their elements; a data word has the value of its expression.
\<close>


theorem source_in_order_builds:
  assumes "libc_search qs bs" and "in_order ls"
  shows "\<exists>b. builds bs out junk after i ls b \<and> bus_ok (on_sparse (fresh out)) sparse_ok ram_window b \<and>
    (\<forall>k<length (elements_of ls). element_word (label_env (elements_of ls)) (of_nat k) (elements_of ls ! k)
       (bus_peek bs sparse_look b (RAM_BASE + of_nat k)))"
  by (rule tsim_bus.source_builds [OF tsim_bus_libc [OF assms(1)] assms(2)])

definition no_element :: element where
  "no_element = \<lparr>e_word = 0, e_reladdr = 0, e_size = 0\<rparr>"

lemma source_in_order_builds_witness:
  "\<exists>b. builds bsearch bare_outside 0 [] no_element gcd_source b \<and>
     decode (bus_peek bsearch sparse_look b (RAM_BASE + 2)) = Set 1 (T0 OP_BITWISE_OR 3 0 0)"
proof -
  note c = compilesD [OF gcd_compiles]
  obtain b where b: "builds bsearch bare_outside 0 [] no_element gcd_source b"
    using source_in_order_builds [OF libc.libc_search_axioms c(1)] by blast
  have "2 < length gcd_code" "gcd_code ! 2 = Set 1 (T0 OP_BITWISE_OR 3 0 0)" by (simp_all add: gcd_code_def)
  then have "decode (bus_peek bsearch sparse_look b (RAM_BASE + of_nat 2)) = Set 1 (T0 OP_BITWISE_OR 3 0 0)"
    using tsim_bus.builds_words [OF bus_libc gcd_compiles b] by metis
  then show ?thesis using b by auto
qed

text \<open>A calling, with its arguments, its stack pointer, and the program counter on the routine.\<close>

definition calling :: "u32 \<Rightarrow> u32 \<Rightarrow> u32 \<Rightarrow> cookie bus \<Rightarrow> cookie bus machine" where
  "calling x y z b = (start_machine RAM_BASE b)\<lparr>regs := (\<lambda>_. 0)(2 := x, 3 := y, 4 := z, 14 := 0x3ff0, 15 := RAM_BASE)\<rparr>"

lemma in_room:
  fixes x :: u32
  assumes "0x3000 \<le> x" and "x \<le> 0x3fff" and "n \<le> 0x1000"
  shows "x \<in> room n"
proof -
  have "unat (x - RAM_BASE) = unat x - 0x1000"
    using assms by (simp add: ram_consts unat_minus word_le_nat_alt)
  then have "x \<notin> block RAM_BASE n" using assms by (simp add: block_def word_le_nat_alt)
  moreover have "0x1000 \<le> x" using assms(1) by (rule order_trans [rotated]) simp
  ultimately show ?thesis using assms by (simp add: room_def ram_window_def ram_consts)
qed

lemma block_one: "block a (Suc 0) = {a}"
  by (auto simp: block_def unat_eq_0)

lemma block_pair: "block a 2 = {a, a + 1}"
proof (intro set_eqI)
  fix x
  have "unat (x - a) = 1 \<longleftrightarrow> x - a = 1" by (simp add: word_unat_eq_iff)
  then have "unat (x - a) < 2 \<longleftrightarrow> x - a = 0 \<or> x - a = 1"
    by (simp add: less_2_cases_iff unat_eq_0)
  then show "x \<in> block a 2 \<longleftrightarrow> x \<in> {a, a + 1}" by (auto simp: block_def algebra_simps)
qed

lemma calling_program:
  "bus_ok (on_sparse (fresh out)) sparse_ok ram_window b \<Longrightarrow> has_program bs out n b (calling x y z b)"
  by (simp add: has_program_def calling_def start_machine_def)

lemma calling_simps [simp]:
  "world (calling x y z b) = b" "regs (calling x y z b) 0 = 0" "regs (calling x y z b) 2 = x" "regs (calling x y z b) 3 = y"
  "regs (calling x y z b) 4 = z" "regs (calling x y z b) 14 = 0x3ff0" "regs (calling x y z b) 15 = RAM_BASE"
  by (simp_all add: calling_def start_machine_def)

lemma calling_built:
  assumes "in_order ls"
  obtains b where "builds bsearch bare_outside 0 [] no_element ls b" and "has_program bsearch bare_outside n b (calling x y z b)"
  using tsim_bus.source_builds [OF bus_libc assms] calling_program by metis

text \<open>
  C6.
  \<^verbatim>\<open>gcd.tas.cpp\<close>, assembled from its source, loaded into the default
  machine and called with two non-negative words, returns their greatest common divisor in
  register B.  Register D is used up; the other registers, the stack and the rest of the
  memory are as they were.
\<close>


theorem gcd_on_tsim:
  assumes "libc_search qs bs" and "builds bs out junk after i gcd_source b" and "has_program bs out (length gcd_code) b s"
    and "entered (room (length gcd_code)) 1 RAM_BASE (regs s)" and "0 \<le>s regs s 2" and "0 \<le>s regs s 3"
  shows "\<exists>t. sim_reaches (dispatch_op bs) junk' (tsim_ops devices_dispatch_cycle) s t \<and>
    came_back bs {1, 3} {} 1 s t \<and> regs t 1 = of_nat (gcd (unat (regs s 2)) (unat (regs s 3)))"
  using gcd_call.on_tsim [OF tsim_bus_libc [OF assms(1)] assms(2-4), of junk'] assms(5,6) by auto

lemma gcd_on_tsim_witness:
  "\<exists>b t. builds bsearch bare_outside 0 [] no_element gcd_source b \<and>
     sim_reaches (dispatch_op bsearch) 0 (tsim_ops devices_dispatch_cycle) (calling 12 18 0 b) t \<and> regs t 1 = 6"
proof -
  obtain b where b: "builds bsearch bare_outside 0 [] no_element gcd_source b"
    "has_program bsearch bare_outside (length gcd_code) b (calling 12 18 0 b)"
    by (rule calling_built [OF compilesD(1) [OF gcd_compiles]])
  have e: "entered (room (length gcd_code)) 1 RAM_BASE (regs (calling 12 18 0 b))"
    by (simp add: entered_def in_room gcd_code_def)
  have "gcd 12 18 = (6 :: nat)" by code_simp
  then show ?thesis
    using gcd_on_tsim [OF libc.libc_search_axioms b e, where junk' = 0] b(1) by (auto simp: word_sle_eq)
qed

text \<open>
  C7.
  \<^verbatim>\<open>imul.tas.cpp\<close>, built and called in the same way, returns the
  product modulo \<open>2 ^ 32\<close> of any two words, unless the second is the most
  negative one.
\<close>


theorem imul_on_tsim:
  assumes "libc_search qs bs" and "builds bs out junk after i imul_source b" and "has_program bs out (length imul_code) b s"
    and "entered (room (length imul_code)) 3 RAM_BASE (regs s)" and "regs s 3 \<noteq> 0x80000000"
  shows "\<exists>t. sim_reaches (dispatch_op bs) junk' (tsim_ops devices_dispatch_cycle) s t \<and>
    came_back bs {1, 2, 3} {} 3 s t \<and> regs t 1 = regs s 2 * regs s 3"
  using imul_call.on_tsim [OF tsim_bus_libc [OF assms(1)] assms(2-4), of junk'] assms(5-) by auto

lemma imul_on_tsim_witness:
  "\<exists>b t. builds bsearch bare_outside 0 [] no_element imul_source b \<and>
     sim_reaches (dispatch_op bsearch) 0 (tsim_ops devices_dispatch_cycle) (calling 7 (- 3) 0 b) t \<and> regs t 1 = - 21"
proof -
  obtain b where b: "builds bsearch bare_outside 0 [] no_element imul_source b"
    "has_program bsearch bare_outside (length imul_code) b (calling 7 (- 3) 0 b)"
    by (rule calling_built [OF compilesD(1) [OF imul_compiles]])
  have e: "entered (room (length imul_code)) 3 RAM_BASE (regs (calling 7 (- 3) 0 b))"
    by (simp add: entered_def in_room imul_code_def)
  then show ?thesis
    using imul_on_tsim [OF libc.libc_search_axioms b e, where junk' = 0] b(1) by auto
qed

text \<open>
  C8.
  \<^verbatim>\<open>udiv.tas.cpp\<close>, built and called in the same way, returns the
  quotient of a dividend below \<open>2 ^ 30\<close> and a non-negative divisor, 0 for the
  divisor 0.
\<close>


theorem udiv_on_tsim:
  assumes "libc_search qs bs" and "builds bs out junk after i udiv_source b" and "has_program bs out (length udiv_code) b s"
    and "entered (room (length udiv_code)) 4 RAM_BASE (regs s)" and "unat (regs s 2) < 2 ^ 30" and "0 \<le>s regs s 3"
  shows "\<exists>t. sim_reaches (dispatch_op bs) junk' (tsim_ops devices_dispatch_cycle) s t \<and>
    came_back bs {1, 2} {} 4 s t \<and> regs t 1 = regs s 2 div regs s 3"
  using udiv_call.on_tsim [OF tsim_bus_libc [OF assms(1)] assms(2-4), of junk'] assms(5-) by auto

lemma udiv_on_tsim_witness:
  "\<exists>b t. builds bsearch bare_outside 0 [] no_element udiv_source b \<and>
     sim_reaches (dispatch_op bsearch) 0 (tsim_ops devices_dispatch_cycle) (calling 100 7 0 b) t \<and> regs t 1 = 14"
proof -
  obtain b where b: "builds bsearch bare_outside 0 [] no_element udiv_source b"
    "has_program bsearch bare_outside (length udiv_code) b (calling 100 7 0 b)"
    by (rule calling_built [OF compilesD(1) [OF udiv_compiles]])
  have e: "entered (room (length udiv_code)) 4 RAM_BASE (regs (calling 100 7 0 b))"
    by (simp add: entered_def in_room udiv_code_def)
  then show ?thesis
    using udiv_on_tsim [OF libc.libc_search_axioms b e, where junk' = 0] b(1) by (auto simp: word_sle_eq)
qed

text \<open>
  C9.
  \<^verbatim>\<open>isqrt.tas.cpp\<close>, built and called in the same way, returns the
  integer square root of an argument below \<open>2 ^ 30\<close>.
\<close>


theorem isqrt_on_tsim:
  assumes "libc_search qs bs" and "builds bs out junk after i isqrt_source b" and "has_program bs out (length isqrt_code) b s"
    and "entered (room (length isqrt_code)) 4 RAM_BASE (regs s)" and "unat (regs s 2) < 2 ^ 30"
  shows "\<exists>t. sim_reaches (dispatch_op bs) junk' (tsim_ops devices_dispatch_cycle) s t \<and>
    came_back bs {1, 2} {} 4 s t \<and> unat (regs t 1) * unat (regs t 1) \<le> unat (regs s 2) \<and>
    unat (regs s 2) < (unat (regs t 1) + 1) * (unat (regs t 1) + 1)"
  using isqrt_call.on_tsim [OF tsim_bus_libc [OF assms(1)] assms(2-4), of junk'] assms(5-) by auto

lemma square_between_3:
  fixes n :: nat
  assumes "n * n \<le> 10" and "10 < (n + 1) * (n + 1)"
  shows "n = 3"
proof -
  have "n < 4"
  proof (rule ccontr)
    assume "\<not> n < 4"
    then have "4 * 4 \<le> n * n" by (intro mult_le_mono) simp_all
    then show False using assms(1) by simp
  qed
  then have "n \<in> {0, 1, 2, 3}" by auto
  then show ?thesis using assms(2) by auto
qed

lemma isqrt_on_tsim_witness:
  "\<exists>b t. builds bsearch bare_outside 0 [] no_element isqrt_source b \<and>
     sim_reaches (dispatch_op bsearch) 0 (tsim_ops devices_dispatch_cycle) (calling 10 0 0 b) t \<and> unat (regs t 1) = 3"
proof -
  obtain b where b: "builds bsearch bare_outside 0 [] no_element isqrt_source b"
    "has_program bsearch bare_outside (length isqrt_code) b (calling 10 0 0 b)"
    by (rule calling_built [OF compilesD(1) [OF isqrt_compiles]])
  have e: "entered (room (length isqrt_code)) 4 RAM_BASE (regs (calling 10 0 0 b))"
    by (simp add: entered_def in_room isqrt_code_def)
  have "unat (regs (calling 10 0 0 b) 2) < 2 ^ 30" by simp
  from isqrt_on_tsim [OF libc.libc_search_axioms b e this, where junk' = 0]
  obtain t where t: "sim_reaches (dispatch_op bsearch) 0 (tsim_ops devices_dispatch_cycle) (calling 10 0 0 b) t"
    "unat (regs t 1) * unat (regs t 1) \<le> 10" "10 < (unat (regs t 1) + 1) * (unat (regs t 1) + 1)"
    by auto
  then show ?thesis using square_between_3 b(1) by blast
qed

text \<open>
  C10.
  \<^verbatim>\<open>trailz.tas.cpp\<close>, built and called in the same way, returns the
  number of the lowest bit that is set in its argument, 32 when there is none.
\<close>


theorem trailz_on_tsim:
  assumes "libc_search qs bs" and "builds bs out junk after i trailz_source b" and "has_program bs out (length trailz_code) b s"
    and "entered (room (length trailz_code)) 3 RAM_BASE (regs s)"
  shows "\<exists>t. sim_reaches (dispatch_op bs) junk' (tsim_ops devices_dispatch_cycle) s t \<and>
    came_back bs {1, 2} {} 3 s t \<and> (if regs s 2 = 0 then regs t 1 = 32
      else \<exists>n. regs t 1 = of_nat n \<and> bit (regs s 2) n \<and> (\<forall>i<n. \<not> bit (regs s 2) i))"
  using trailz_call.on_tsim [OF tsim_bus_libc [OF assms(1)] assms(2-4), of junk'] by auto

lemma trailz_on_tsim_witness:
  "\<exists>b t. builds bsearch bare_outside 0 [] no_element trailz_source b \<and>
     sim_reaches (dispatch_op bsearch) 0 (tsim_ops devices_dispatch_cycle) (calling 0 0 0 b) t \<and> regs t 1 = 32"
proof -
  obtain b where b: "builds bsearch bare_outside 0 [] no_element trailz_source b"
    "has_program bsearch bare_outside (length trailz_code) b (calling 0 0 0 b)"
    by (rule calling_built [OF compilesD(1) [OF trailz_compiles]])
  have e: "entered (room (length trailz_code)) 3 RAM_BASE (regs (calling 0 0 0 b))"
    by (simp add: entered_def in_room trailz_code_def)
  then show ?thesis
    using trailz_on_tsim [OF libc.libc_search_axioms b e, where junk' = 0] b(1) by auto
qed

text \<open>
  C11.
  Called with \<open>0x80000000\<close> in register D, \<^verbatim>\<open>imul.tas.cpp\<close>
  does not return: the simulator runs for ever.
\<close>


theorem imul_never_returns:
  assumes "libc_search qs bs" and "builds bs out junk after i imul_source b" and "has_program bs out (length imul_code) b s"
    and "entered (room (length imul_code)) 3 RAM_BASE (regs s)" and "regs s 3 = 0x80000000"
  shows "interp_run_sim (dispatch_op bs) junk' (tsim_ops devices_dispatch_cycle) s = None"
proof -
  have h: "carries (code_at RAM_BASE imul_code) RAM_BASE imul_code" by (rule carries_code_at) (simp add: imul_code_def)
  obtain r' m' where r: "runs (code_at RAM_BASE imul_code) (room (length imul_code)) (regs s, bus_peek bs sparse_look (world s)) (r', m')"
    "imul_stuck RAM_BASE (r', m')"
    using imul_diverges [OF h assms(4,5)] by blast
  show ?thesis
    by (rule tsim_bus.runs_forever [where iv = "imul_stuck RAM_BASE",
        OF tsim_bus_libc [OF assms(1)] imul_compiles assms(2,3) imul_stuck_step [OF h] r])
qed

text \<open>
  C12.
  Called with a dividend of at least \<open>2 ^ 30\<close> and a power of two as divisor,
  \<^verbatim>\<open>udiv.tas.cpp\<close> does not return, although its comment promises
  31-bit division.
\<close>


theorem udiv_never_returns:
  assumes "libc_search qs bs" and "builds bs out junk after i udiv_source b" and "has_program bs out (length udiv_code) b s"
    and "entered (room (length udiv_code)) 4 RAM_BASE (regs s)"
    and "0 \<le>s regs s 2" and "2 ^ 30 \<le> unat (regs s 2)" and "unat (regs s 3) = 2 ^ j" and "j \<le> 30"
  shows "interp_run_sim (dispatch_op bs) junk' (tsim_ops devices_dispatch_cycle) s = None"
proof -
  have h: "carries (code_at RAM_BASE udiv_code) RAM_BASE udiv_code" by (rule carries_code_at) (simp add: udiv_code_def)
  obtain r' m' where r: "runs (code_at RAM_BASE udiv_code) (room (length udiv_code)) (regs s, bus_peek bs sparse_look (world s)) (r', m')"
    "udiv_stuck RAM_BASE (r', m')"
    using udiv_diverges [OF h assms(4-8)] by blast
  show ?thesis
    by (rule tsim_bus.runs_forever [where iv = "udiv_stuck RAM_BASE",
        OF tsim_bus_libc [OF assms(1)] udiv_compiles assms(2,3) udiv_stuck_step [OF h] r])
qed

lemma imul_never_returns_witness:
  "\<exists>b. builds bsearch bare_outside 0 [] no_element imul_source b \<and>
     interp_run_sim (dispatch_op bsearch) 0 (tsim_ops devices_dispatch_cycle) (calling 7 0x80000000 0 b) = None"
proof -
  obtain b where b: "builds bsearch bare_outside 0 [] no_element imul_source b"
    "has_program bsearch bare_outside (length imul_code) b (calling 7 0x80000000 0 b)"
    by (rule calling_built [OF compilesD(1) [OF imul_compiles]])
  have e: "entered (room (length imul_code)) 3 RAM_BASE (regs (calling 7 0x80000000 0 b))"
    by (simp add: entered_def in_room imul_code_def)
  show ?thesis
    using imul_never_returns [OF libc.libc_search_axioms b e] b(1) by fastforce
qed

lemma udiv_never_returns_witness:
  "\<exists>b. builds bsearch bare_outside 0 [] no_element udiv_source b \<and>
     interp_run_sim (dispatch_op bsearch) 0 (tsim_ops devices_dispatch_cycle) (calling 0x40000000 1 0 b) = None"
proof -
  obtain b where b: "builds bsearch bare_outside 0 [] no_element udiv_source b"
    "has_program bsearch bare_outside (length udiv_code) b (calling 0x40000000 1 0 b)"
    by (rule calling_built [OF compilesD(1) [OF udiv_compiles]])
  have e: "entered (room (length udiv_code)) 4 RAM_BASE (regs (calling 0x40000000 1 0 b))"
    by (simp add: entered_def in_room udiv_code_def)
  show ?thesis
    using udiv_never_returns [OF libc.libc_search_axioms b e, where junk' = 0 and j = 0] b(1) by (auto simp: word_sle_eq)
qed

text \<open>
  C13.
  \<^verbatim>\<open>memcpy.tas.cpp\<close>, built and called in the same way on two areas of
  the RAM that overlap neither each other nor the frame, copies every word and changes no
  other cell.
\<close>


theorem memcpy_on_tsim:
  assumes "libc_search qs bs" and "builds bs out junk after i memcpy_source b" and "has_program bs out (length memcpy_code) b s"
    and "entered (room (length memcpy_code)) 2 RAM_BASE (regs s)"
    and "block (regs s 2) (unat (regs s 4)) \<union> block (regs s 3) (unat (regs s 4)) \<subseteq> room (length memcpy_code)"
    and "block (regs s 2) (unat (regs s 4)) \<inter>
      (block (regs s 3) (unat (regs s 4)) \<union> insert (regs s 14 + 1) (frame 2 (regs s 14))) = {}"
    and "block (regs s 3) (unat (regs s 4)) \<inter> frame 2 (regs s 14) = {}"
  shows "\<exists>t. sim_reaches (dispatch_op bs) junk' (tsim_ops devices_dispatch_cycle) s t \<and>
    came_back bs {1} (block (regs s 2) (unat (regs s 4))) 2 s t \<and> regs t 1 = regs s 2 \<and>
    (\<forall>a\<in>block (regs s 2) (unat (regs s 4)).
       bus_peek bs sparse_look (world t) a = bus_peek bs sparse_look (world s) (regs s 3 + (a - regs s 2)))"
proof -
  have "block (regs s 2) (unat (regs s 4)) \<subseteq> ram_window" using assms(5) by (auto simp: room_def)
  then show ?thesis
    using memcpy_call.on_tsim [OF tsim_bus_libc [OF assms(1)] assms(2-4), of junk'] assms(5-7) by fastforce
qed

lemma memcpy_on_tsim_witness:
  "\<exists>b t. builds bsearch bare_outside 0 [] no_element memcpy_source b \<and>
     sim_reaches (dispatch_op bsearch) 0 (tsim_ops devices_dispatch_cycle) (calling 0x3100 0x3200 2 b) t \<and>
     bus_peek bsearch sparse_look (world t) 0x3101 = bus_peek bsearch sparse_look b 0x3201"
proof -
  obtain b where b: "builds bsearch bare_outside 0 [] no_element memcpy_source b"
    "has_program bsearch bare_outside (length memcpy_code) b (calling 0x3100 0x3200 2 b)"
    by (rule calling_built [OF compilesD(1) [OF memcpy_compiles]])
  have e: "entered (room (length memcpy_code)) 2 RAM_BASE (regs (calling 0x3100 0x3200 2 b))"
    by (simp add: entered_def in_room memcpy_code_def)
  let ?r = "regs (calling 0x3100 0x3200 2 b)"
  have c: "block (?r 2) (unat (?r 4)) = {0x3100, 0x3101}" "block (?r 3) (unat (?r 4)) = {0x3200, 0x3201}"
    by (simp_all add: block_pair)
  have d: "block (?r 2) (unat (?r 4)) \<union> block (?r 3) (unat (?r 4)) \<subseteq> room (length memcpy_code)"
    "block (?r 2) (unat (?r 4)) \<inter> (block (?r 3) (unat (?r 4)) \<union> insert (?r 14 + 1) (frame 2 (?r 14))) = {}"
    "block (?r 3) (unat (?r 4)) \<inter> frame 2 (?r 14) = {}"
    unfolding c by (simp_all add: in_room memcpy_code_def)
  from memcpy_on_tsim [OF libc.libc_search_axioms b e d, where junk' = 0, unfolded c]
  show ?thesis using b(1) by auto
qed

text \<open>
  C14.
  \<^verbatim>\<open>strcmp.tas.cpp\<close>, built and called in the same way on two strings
  in the RAM, returns 0 when they are equal and -1 when they are not.
\<close>


theorem strcmp_on_tsim:
  assumes "libc_search qs bs" and "builds bs out junk after i strcmp_source b" and "has_program bs out (length strcmp_code) b s"
    and "entered (room (length strcmp_code)) 5 RAM_BASE (regs s)"
    and "string_at (bus_peek bs sparse_look (world s)) (regs s 2) u" and "string_at (bus_peek bs sparse_look (world s)) (regs s 3) v"
    and "block (regs s 2) (Suc (length u)) \<union> block (regs s 3) (Suc (length v)) \<subseteq> room (length strcmp_code) - frame 5 (regs s 14)"
  shows "\<exists>t. sim_reaches (dispatch_op bs) junk' (tsim_ops devices_dispatch_cycle) s t \<and>
    came_back bs {1, 2, 3} {} 5 s t \<and> regs t 1 = (if u = v then 0 else -1)"
proof -
  have "\<exists>u v. string_at (bus_peek bs sparse_look (world s)) (regs s 2) u \<and> string_at (bus_peek bs sparse_look (world s)) (regs s 3) v \<and>
      block (regs s 2) (Suc (length u)) \<union> block (regs s 3) (Suc (length v)) \<subseteq> room (length strcmp_code) - frame 5 (regs s 14)"
    using assms(5-7) by blast
  from strcmp_call.on_tsim [OF tsim_bus_libc [OF assms(1)] assms(2-4), of junk', unfolded prod.case, OF this]
  show ?thesis using assms(5,6) by blast
qed


lemma strcmp_on_tsim_witness:
  "\<exists>b w t. builds bsearch bare_outside 0 [] no_element strcmp_source b \<and>
     sim_reaches (dispatch_op bsearch) 0 (tsim_ops devices_dispatch_cycle) ((calling 0x3100 0x3100 0 b)\<lparr>world := w\<rparr>) t \<and>
     regs t 1 = 0"
proof -
  let ?n = "length strcmp_code"
  obtain b where b: "builds bsearch bare_outside 0 [] no_element strcmp_source b"
    "has_program bsearch bare_outside ?n b (calling 0x3100 0x3100 0 b)"
    by (rule calling_built [OF compilesD(1) [OF strcmp_compiles]])
  have r: "0x3100 \<in> room ?n" "?n \<le> 0x3000" by (simp_all add: in_room strcmp_code_def)
  obtain w where w: "has_program bsearch bare_outside ?n b ((calling 0x3100 0x3100 0 b)\<lparr>world := w\<rparr>)"
    "bus_peek bsearch sparse_look w 0x3100 = 0"
    using tsim_bus.program_store [OF bus_libc b(2) r] by blast
  let ?s = "(calling 0x3100 0x3100 0 b)\<lparr>world := w\<rparr>"
  have e: "entered (room ?n) 5 RAM_BASE (regs ?s)"
    by (simp add: entered_def in_room strcmp_code_def)
  have u: "string_at (bus_peek bsearch sparse_look (world ?s)) (regs ?s 2) []"
    "string_at (bus_peek bsearch sparse_look (world ?s)) (regs ?s 3) []"
    using w(2) by (simp_all add: string_at_def)
  have d: "block (regs ?s 2) (Suc (length ([] :: u32 list))) \<union> block (regs ?s 3) (Suc (length ([] :: u32 list)))
      \<subseteq> room ?n - frame 5 (regs ?s 14)"
    using r(1) by (simp add: block_one)
  obtain t where "sim_reaches (dispatch_op bsearch) 0 (tsim_ops devices_dispatch_cycle) ?s t" "regs t 1 = 0"
    using strcmp_on_tsim [OF libc.libc_search_axioms b(1) w(1) e u d, where junk' = 0] by auto
  then show ?thesis using b(1) by blast
qed


section \<open>The interpreter\<close>

text \<open>
  C15.
  The arithmetic unit agrees, modulo \<open>2 ^ 32\<close>, with the integer semantics of the
  sixteen operations on the signed values of the two operands the instruction type selects,
  plus the third; shifts and bit tests need an amount below 32.
\<close>


theorem do_op_reference:
  assumes "ty < 4" and "alu_args ty X Y I = (a, b, c)" and "shift_like f \<Longrightarrow> b < 32"
  shows "do_op (op_code f) ty X Y I = Inr (word_of_int (alu f (sint a) (sint b) + sint c))"
  by (rule do_op_alu [OF assms])

lemma do_op_reference_witness:
  "do_op (op_code OP_SHIFT_RIGHT_ARITH) 0 (- 16) 2 0xfff =
     Inr (word_of_int (alu OP_SHIFT_RIGHT_ARITH (sint (- 16 :: u32)) (sint (2 :: u32)) + sint (- 1 :: u32)))"
  by (rule do_op_reference) (simp_all add: alu_args_def)

text \<open>
  C16.
  For each of the sixteen codes \<open>do_op\<close> has a value, signed arithmetic wrapping,
  except where the C code has no defined result: a shift in either direction or a bit test
  whose amount, the second operand, is 32 or more.  The left shift is no exception: it is
  evaluated before the line that replaces its result by 0.
\<close>


theorem do_op_defined:
  assumes "f < 16"
  shows "if wide_shift f (operands ty X Y I ! 1) then do_op f ty X Y I = Inl (Undefined ''shift'')
    else \<exists>v. do_op f ty X Y I = Inr v"
  by (rule do_op_outcome [OF assms])

lemma do_op_defined_witness:
  "do_op (op_code OP_TEST_BIT) 0 1 32 0 = Inl (Undefined ''shift'')"
  using do_op_defined [of "op_code OP_TEST_BIT" 0 1 32 0]
  by (simp add: wide_shift_def operands_def)

text \<open>
  C17.
  Register A never changes: in every state that the interpreter under \<open>tsim\<close>'s
  hooks reaches at the head of its loop, whatever the program and the devices do, it holds
  what it held at the start.
\<close>


theorem register_A_constant:
  "sim_reaches D junk (tsim_ops clk) s0 s \<Longrightarrow> regs s 0 = regs s0 0"
  by (rule sim_reaches_reg0)

lemma register_A_constant_witness:
  "regs (\<lparr>regs = (\<lambda>_. 9), insns_executed = 0, world = ()\<rparr> :: unit machine) 0 = 9 \<and>
   regs (projr (map_sum id snd (insn_step (\<lambda>op a v w. Inr (0, spin_word, w)) 0
     (tsim_ops (\<lambda>w. Inr (0, w))) \<lparr>regs = (\<lambda>_. 9), insns_executed = 0, world = ()\<rparr>))) 0 = 9"
proof -
  let ?D = "(\<lambda>op a v w. Inr (0, spin_word, w)) :: unit dispatcher" and ?cyc = "\<lambda>w. Inr (0, w)"
  let ?s0 = "\<lparr>regs = (\<lambda>_. 9), insns_executed = 0, world = ()\<rparr> :: unit machine"
  obtain t where t: "insn_step ?D 0 (tsim_ops ?cyc) ?s0 = Inr (None, t)"
    by (simp add: insn_step_tsim run_instruction_def spin_fields do_op_def operands_def do_common_def Let_def
        op_of_code_def all_ops_def)
  then have "sim_reaches ?D 0 (tsim_ops ?cyc) ?s0 t"
    by (rule sim_step [OF sim_start])
  from register_A_constant [OF this] t show ?thesis by simp
qed

text \<open>
  The bit-fields of an instruction word of types 0 to 2 are read back as they were stored, and storing a word's own
  fields gives the word.
\<close>

theorem insn_fields_pack:
  "(let w = pack012 p dd z x y op imm in
      insn_p w = p \<and> insn_dd w = dd \<and> insn_z w = z \<and> insn_x w = x \<and> insn_y w = y \<and> insn_op w = op \<and>
      insn_imm12 w = imm) \<and>
   pack012 (insn_p v) (insn_dd v) (insn_z v) (insn_x v) (insn_y v) (insn_op v) (insn_imm12 v) = v"
  by (simp add: pack012_unpack)

text \<open>
  Loading into the default machine: whatever elements a format delivers, if their addresses, counted from the load
  address, are in the RAM window, the load succeeds and the memory is their image over the illegal instruction, a
  later element replacing an earlier one.
\<close>

theorem default_machine_loads:
  assumes "libc_search qs bs" and "feeds f_in ud i es" and "\<forall>e\<in>set es. la + e_reladdr e \<in> ram_window"
  shows "\<exists>b. load_sim (dispatch_op bs) f_in la ud i (default_bus out) = Some (Inr (0, b)) \<and>
    bus_ok (on_sparse (fresh out)) sparse_ok ram_window b \<and>
    (\<forall>a\<in>ram_window. bus_peek bs sparse_look b a = image_of la es (\<lambda>_. illegal_word) a)"
  by (rule tsim_bus.default_load [OF tsim_bus_libc [OF assms(1)] assms(2,3)])

text \<open>
  A machine whose start address holds \<open>P <- A | P - 1\<close>, the word \<open>ram.c\<close> fills its memory with, never stops:
  \<open>tsim\<close>'s load and run does not return.
\<close>

theorem filler_spins_forever:
  assumes "libc_search qs bs" and "feeds f_in ud i es" and "\<forall>e\<in>set es. la + e_reladdr e \<in> ram_window"
    and "sa \<in> ram_window" and "image_of la es (\<lambda>_. illegal_word) sa = spin_word"
  shows "load_and_run bs junk f_in ud i la sa (default_bus out) = None"
  by (rule tsim_bus.default_spin [OF tsim_bus_libc [OF assms(1)] assms(2-5)])

lemma filler_spins_forever_witness:
  "load_and_run bsearch 0 (\<lambda>n i. Inr (if n = 0 then -1 else 1, \<lparr>e_word = spin_word, e_reladdr = 0, e_size = 1\<rparr>, n - 1))
     (1 :: nat) \<lparr>e_word = 0, e_reladdr = 0, e_size = 0\<rparr> RAM_BASE RAM_BASE (default_bus bare_outside) = None"
  by (rule filler_spins_forever [OF libc.libc_search_axioms feeds_more [OF refl _ feeds_end [OF refl]]])
    (simp_all add: ram_window_def ram_consts)

text \<open>
  A machine whose start address holds the illegal instruction, as all memory of the default machine does that the
  program did not write, runs that one instruction: it sends the program counter to \<open>0xffffffff\<close>, where the
  interpreter stops with -1.
\<close>

theorem illegal_word_halts:
  assumes "libc_search qs bs" and "feeds f_in ud i es" and "\<forall>e\<in>set es. la + e_reladdr e \<in> ram_window"
    and "sa \<in> ram_window" and "image_of la es (\<lambda>_. illegal_word) sa = illegal_word"
  shows "\<exists>b t. load_sim (dispatch_op bs) f_in la ud i (default_bus out) = Some (Inr (0, b)) \<and>
    interp_run_sim (dispatch_op bs) junk (tsim_ops devices_dispatch_cycle) (start_machine sa b) =
      Some (Inr (-1, t)) \<and> insns_executed t = 1 \<and> regs t 15 = 0xffffffff"
  by (rule tsim_bus.default_halt [OF tsim_bus_libc [OF assms(1)] assms(2-5)])

text \<open>
  C18.
  Whenever the interpreter executes some number of instructions of a program that does not
  change, whose shifts are defined and which does not store \<open>P\<close>, and then stops,
  the just-in-time compiler ends too, whatever its threshold, with the same registers, the
  same memory and the same count of instructions, having collected, compiled and called the
  blocks that are executed often; devices have no clock here.  Of the \<open>tsearch\<close>
  that keeps the blocks it is asked only that a node it finds compares equal with the key.
\<close>


theorem jit_runs_as_interpreter:
  assumes "ends D junk prog n (s\<lparr>insns_executed := 0\<rparr>) t" and "regs s 0 = 0" and "finds_equal seek"
  shows "jit_run_sim D no_clock junk u vars seek stale tree (tsim_ops no_clock) p s =
      Some (Inr (0, t\<lparr>insns_executed := insns_executed s + of_nat n\<rparr>)) \<and>
    interp_run_sim D junk (tsim_ops no_clock) s =
      Some (Inr (-1, t\<lparr>insns_executed := insns_executed s + of_nat n\<rparr>))"
  using jit_run_ends [OF assms] interp_ends [OF assms(1), of "insns_executed s"] by simp

lemma jit_runs_as_interpreter_witness:
  "\<exists>t. jit_run_sim flat no_clock 0 \<lparr>f_zero = False, f_carry = False, f_less = False\<rparr> (\<lambda>_. 7)
      (\<lambda>compar b bases u. (unat b, case bases (unat b) of None \<Rightarrow> True | Some b' \<Rightarrow> compar b b' \<noteq> 0, u)) (\<lambda>_. 0) () (tsim_ops no_clock) param_init \<lparr>regs = (\<lambda>_. 0)(15 := 0x1000), insns_executed = 0, world = loop_memory\<rparr> =
      Some (Inr (0, t)) \<and> regs t 1 = 20 \<and> insns_executed t = 61"
proof -
  let ?s = "\<lparr>regs = (\<lambda>_. 0)(15 := 0x1000), insns_executed = 0, world = loop_memory\<rparr> :: (u32 \<Rightarrow> u32) machine"
  obtain t where "ends flat 0 loop_memory (3 * 20 + 1) ?s t" "regs t 1 = 20"
    using loop_ends [of ?s 20 0] by auto
  moreover have "finds_equal (\<lambda>compar b bases (u :: unit).
      (unat b, case bases (unat b) of None \<Rightarrow> True | Some b' \<Rightarrow> compar b b' \<noteq> 0, u))"
    by (auto simp: finds_equal_def split: option.splits)
  ultimately show ?thesis
    using jit_runs_as_interpreter [of flat 0 loop_memory 61 ?s t, THEN conjunct1]
    by (intro exI [of _ "t\<lparr>insns_executed := 61\<rparr>"] conjI) simp_all
qed

text \<open>
  C19.
  The code made from a block of words, of which the last and only the last writes
  \<open>P\<close>, has the effect on registers and memory of interpreting the words one after
  another from the start of the block, whatever its variables hold, when the shifts are
  defined, no word stores \<open>P\<close> and the memory reports no error.
\<close>


theorem compiled_block_refines:
  assumes "executes D junk ws (view 0 n s) t" and "n_regs s 0 = 0" and "ws \<noteq> []" and "writes_P (last ws)"
    and "\<forall>w\<in>set (butlast ws). \<not> writes_P w"
  shows "\<exists>c s'. jit_gen_block ws = Inr c \<and> native_run D junk u c s = Inr s' \<and>
    t = \<lparr>regs = n_regs s', insns_executed = n, world = n_world s'\<rparr>"
  using block_simulated [OF assms(1,2,5), of u] assms(3,4) by (auto simp: jit_gen_block_def view_def)

lemma compiled_block_refines_witness:
  "\<exists>c s'. jit_gen_block [loop_memory 0x1003] = Inr c \<and>
    native_run flat 0 \<lparr>f_zero = False, f_carry = False, f_less = False\<rparr> c
      \<lparr>n_var = \<lambda>_. 7, n_flags = \<lparr>f_zero = False, f_carry = False, f_less = False\<rparr>, n_regs = (\<lambda>_. 0)(15 := 0x1003), n_world = loop_memory\<rparr> = Inr s' \<and>
    n_regs s' 15 = 0xffffffff"
proof -
  let ?u = "\<lparr>f_zero = False, f_carry = False, f_less = False\<rparr>"
  let ?s = "\<lparr>n_var = \<lambda>_. 7, n_flags = ?u, n_regs = (\<lambda>_. 0)(15 := 0x1003), n_world = loop_memory\<rparr>"
  let ?m = "view 0 0 ?s" and ?t = "\<lparr>regs = (\<lambda>_. 0)(15 := 0xffffffff), insns_executed = 0, world = loop_memory\<rparr>"
  have e: "isa_defined (regs (next_ip ?m)) (loop_memory 0x1003)" "\<not> stores_P (loop_memory 0x1003)"
    "writes_P (loop_memory 0x1003)"
    "isa_effect (regs (next_ip ?m)) (loop_memory 0x1003) = Set_reg 15 0xffffffff"
    by (simp_all add: loop_memory_words loop_effect next_ip_def view_def writes_P_def)
  then have "run_instruction flat 0 \<lparr>e_word = loop_memory 0x1003, e_reladdr = regs ?m 15, e_size = 0\<rparr> ?m = Inr (0, ?t)"
    by (subst run_instruction_isa) (simp_all add: apply_effect_def set_reg_def next_ip_def view_def)
  then have "executes flat 0 [loop_memory 0x1003] ?m ?t" by (rule executes_insn [OF e(1,2) _ executes_nil])
  from compiled_block_refines [OF this, of ?u] e(3) obtain c s' where
    "jit_gen_block [loop_memory 0x1003] = Inr c" "native_run flat 0 ?u c ?s = Inr s'"
    "(\<lambda>_. 0)(15 := 0xffffffff) = n_regs s'" by auto
  moreover from this(3) have "n_regs s' 15 = 0xffffffff" by (metis fun_upd_same)
  ultimately show ?thesis by blast
qed

text \<open>
  Where compiled code and the interpreter part.  A word that stores \<open>P\<close> stores the address of its block instead of
  the one of the next instruction; a left shift by 32 or more, which C leaves undefined, keeps the third operand, where the
  interpreter means to yield 0; and an instruction that fails does not end the run: \<open>jit_run_sim\<close> goes on until \<open>P\<close> is \<open>0xffffffff\<close>.
\<close>

theorem compiled_store_of_P:
  assumes "n_regs s 0 = 0" and "isa_defined (seen k (n_regs s)) w" and "insn_dd w = 1" and "insn_z w = 15"
  shows "\<exists>c. buildInstruction w k = Inr c \<and>
    (\<forall>s'. native_run D junk u c s = Inr s' \<longrightarrow>
      jit_store D (isa_rhs (seen k (n_regs s)) w) (n_regs s 15) (n_world s) = Inr (n_world s')) \<and>
    isa_effect (seen k (n_regs s)) w = effect.Store (isa_rhs (seen k (n_regs s)) w) (n_regs s 15 + (k + 1))"
  by (rule stores_block_address [OF assms])

text \<open>
  C20.
  The simulator of the web build, given the text of any program that fits into its RAM, which
  it adds to the table twice at the same addresses, loads it, and then executes none of it:
  the hook before the first instruction returns -1, and the program returns 0 with the
  registers as they were set up.
\<close>


theorem web_simulator_executes_nothing:
  assumes "libc_search qs bs" and "length (concat (map words_of es)) \<le> 0x3000"
  shows "\<exists>m. em_main qs bs io junk1 junk2 junk i (t_out (text_out_all es (text_init []))) = Some (Inr (0, m)) \<and>
    regs m = (\<lambda>_. 0)(15 := RAM_BASE) \<and> insns_executed m = 0"
  by (rule tsim_bus.em_runs_nothing [OF tsim_bus_libc [OF assms(1)] assms(2)])

lemma web_simulator_executes_nothing_witness:
  "\<exists>m. em_main quicksort bsearch \<lparr>stdin = [], stdout = []\<rparr> (\<lambda>_. 0) (\<lambda>_. 0) 0 \<lparr>e_word = 0, e_reladdr = 0, e_size = 0\<rparr>
     (t_out (text_out_all [\<lparr>e_word = 5, e_reladdr = 0, e_size = 1\<rparr>] (text_init []))) = Some (Inr (0, m)) \<and>
   insns_executed m = 0"
proof -
  have "length (concat (map words_of [\<lparr>e_word = 5, e_reladdr = 0, e_size = 1 :: u32\<rparr>])) \<le> 0x3000"
    by (simp add: words_of_def)
  from web_simulator_executes_nothing [OF libc.libc_search_axioms this] show ?thesis by blast
qed

section \<open>Devices\<close>

text \<open>
  C21.
  With the device windows in ascending order, an access to an address in one of them is the
  owner's operation on the owner's state, and changes no other device; an access that no
  window contains is refused and changes nothing.
\<close>


theorem access_reaches_owner:
  assumes "libc_search qs bs" and "ascending (devices s)"
  shows "(\<forall>i<devices_count s. \<forall>d. devices s ! i = Some d \<longrightarrow> bounds0 d \<le> a \<longrightarrow> a \<le> bounds1 d \<longrightarrow>
      dispatch_op bs op a v s = bindE (dev_op d op a v (cookie d)) (\<lambda>(rc, v, c).
        Inr (rc, v, s\<lparr>devices := (devices s)[i := Some (d\<lparr>cookie := c\<rparr>)]\<rparr>))) \<and>
    ((\<forall>d\<in>set (devices s). \<not> in_window a d) \<longrightarrow> dispatch_op bs op a v s = Inr (-1, v, s))"
  using device_bus.dispatch_owner [OF device_bus.intro [OF assms(1)] assms(2)]
    device_bus.dispatch_nobody [OF device_bus.intro [OF assms(1)] assms(2)] by blast

lemma access_reaches_owner_witness:
  "dispatch_op bsearch OP_WRITE 0x20 65 (default_bus bare_outside) =
     Inr (0, 65, (default_bus bare_outside)\<lparr>devices := (devices (default_bus bare_outside))
       [0 := Some ((serial_device \<lparr>stdin = [], stdout = []\<rparr>)\<lparr>cookie := Serial \<lparr>stdin = [], stdout = [65]\<rparr>\<rparr>)]\<rparr>) \<and>
   dispatch_op bsearch OP_WRITE 0x30 65 (default_bus bare_outside) = Inr (-1, 65, default_bus bare_outside)"
proof -
  have a: "ascending (devices (default_bus bare_outside))"
    using default_bus_ok by (simp add: bus_ok_def)
  show ?thesis
    using access_reaches_owner [OF libc.libc_search_axioms a, where a = "0x20" and op = OP_WRITE and v = 65,
        THEN conjunct1, rule_format, of 0 "serial_device \<lparr>stdin = [], stdout = []\<rparr>"]
      access_reaches_owner [OF libc.libc_search_axioms a, where a = "0x30" and op = OP_WRITE and v = 65]
    by (simp add: default_bus_def bare_outside_def serial_device_def sparseram_device_def SERIAL_BASE_def
        on_serial_def serial_op_def putchar_def in_window_def ram_consts)
qed

text \<open>
  C22.
  However the devices were added, if their windows are proper, start below \<open>2 ^
  31\<close> and do not overlap, and the \<open>init\<close> of each returns,
  \<open>devices_finalise\<close> succeeds and leaves the same devices in ascending address
  order, the order that lookup by address relies on, each with the cookie that its own
  \<open>init\<close> has made of the one it had.
\<close>


theorem finalised_table_ascending:
  assumes "libc_search qs (bs :: (u32, 'c device option) searcher)" and "mappable (devices s)"
    and "\<forall>d\<in>set (devices s). starts d"
  shows "\<exists>t. devices_finalise qs s = Inr (0, t) \<and> ascending (devices t) \<and>
    (\<exists>ds. mset ds = mset (devices s) \<and> list_all2 initialised ds (devices t))"
  by (rule device_bus.finalise_ascending [OF device_bus.intro [OF assms(1)] assms(2,3)])

lemma finalised_table_ascending_witness:
  "\<exists>t. devices_finalise quicksort (\<lparr>devices_max = 8, devices_room = 8,
      devices = [Some (sparseram_device (\<lambda>_. 0)), Some (serial_device \<lparr>stdin = [], stdout = []\<rparr>)]\<rparr>) = Inr (0, t) \<and>
    ascending (devices t)"
proof -
  let ?s = "\<lparr>devices_max = 8, devices_room = 8,
    devices = [Some (sparseram_device (\<lambda>_. 0)), Some (serial_device \<lparr>stdin = [], stdout = []\<rparr>)]\<rparr>"
  have m: "mappable (devices ?s)"
    by (simp add: mappable_def apart_def below_def proper_def low_base_def sparseram_device_def serial_device_def
        ram_consts SERIAL_BASE_def less_Suc_eq)
  have "\<forall>d\<in>set (devices ?s). starts d" by (simp add: starts_def sparseram_device_def serial_device_def)
  from finalised_table_ascending [OF libc.libc_search_axioms m this] show ?thesis by blast
qed

text \<open>
  C23.
  The table of devices stays well formed while it grows.  In a table of fewer than \<open>2 ^
  31\<close> devices whose array was allocated with \<open>devices_max\<close> slots, all used
  ones among them, \<open>next_device\<close> returns the number of the first unused slot; the
  array, reallocated if it was full, has that slot, so that the caller's write to it is inside
  the allocation, and the used slots are what they were; then the table, with or without the
  write, is well formed again.
\<close>


theorem next_device_keeps_table:
  assumes "bus_wf s"
  shows "\<exists>t. next_device junk s = Some (int (devices_count s), t) \<and> devices t = devices s @ [junk] \<and>
    put_device (int (devices_count s)) d t = Inr (t\<lparr>devices := devices s @ [Some d]\<rparr>) \<and>
    (devices_count s + 1 < 2 ^ 31 \<longrightarrow> bus_wf t \<and> bus_wf (t\<lparr>devices := devices s @ [Some d]\<rparr>))"
  by (rule next_device_wf [OF assms])

lemma next_device_keeps_table_witness:
  "\<exists>t. next_device None (devices_setup\<lparr>devices := replicate 8 (None :: cookie device option)\<rparr>) = Some (8, t) \<and>
    put_device 8 (serial_device \<lparr>stdin = [], stdout = []\<rparr>) t =
      Inr (t\<lparr>devices := replicate 8 None @ [Some (serial_device \<lparr>stdin = [], stdout = []\<rparr>)]\<rparr>) \<and> bus_wf t"
proof -
  have "bus_wf (devices_setup\<lparr>devices := replicate 8 (None :: cookie device option)\<rparr>)"
    by (simp add: bus_wf_def devices_setup_def slots_of_def)
  from next_device_keeps_table [OF this, of None "serial_device \<lparr>stdin = [], stdout = []\<rparr>"] show ?thesis by simp blast
qed

text \<open>
  A read of the sparse RAM after a write: every address at which page base and page index agree with the written
  one sees the value, every other address what it held.  The page base is a 24-bit field, so that addresses
  \<open>2 ^ 24\<close> apart share a word.
\<close>

theorem sparse_ram_aliases:
  "(\<exists>s' s''. sparseram_op junk OP_WRITE a v s = Inr (0, v, s') \<and>
     sparseram_op junk OP_DATA_READ b x s' = Inr (0, if same_word b a then v else sparse_peek s b, s'')) \<and>
   same_word (a + 0x1000000) a"
proof -
  obtain s' where s': "sparseram_op junk OP_WRITE a v s = Inr (0, v, s')"
    "\<forall>b. sparse_peek s' b = (if same_word b a then v else sparse_peek s b)"
    using sparseram_write by blast
  obtain s'' where "sparseram_op junk OP_DATA_READ b x s' = Inr (0, sparse_peek s' b, s'')"
    using sparseram_read [of OP_DATA_READ] by blast
  with s' far_same_word show ?thesis by auto
qed

text \<open>
  Reading the serial port as often as there are bytes on the standard input delivers them in order; the next read
  fails and delivers all ones.
\<close>

theorem serial_in_order:
  assumes "op = OP_INSN_READ \<or> op = OP_DATA_READ"
  shows "serial_reads op a (length cs) \<lparr>stdin = cs, stdout = o'\<rparr> = Inr (map ucast cs, \<lparr>stdin = [], stdout = o'\<rparr>) \<and>
    serial_op op a v \<lparr>stdin = [], stdout = o'\<rparr> = Inr (-1, -1, \<lparr>stdin = [], stdout = o'\<rparr>)"
  using serial_reads_all [OF assms] serial_read_eof [of "\<lparr>stdin = [], stdout = o'\<rparr>" op a v] assms by simp

text \<open>
  C24.
  When the images of the digits and dots can be loaded, a word written to the LED display is
  drawn at once as its four low hexadecimal digits, the highest on the left, each with the dot
  that the other word has for it, whether or not the textures were made before, and is read
  back without the bits that have no lamp.  What was drawn is presented, and so becomes what
  is on the window, if the clock is past the deadline of the last update; otherwise the window
  keeps what it had.
\<close>


theorem led_shows_digits:
  assumes "led_wf s" and "k < 2" and "fonts_load (led_host s)"
  shows "\<exists>t. sdlled_op OP_WRITE (SDLLED_BASE + of_nat k) v s = Inr (0, v, t) \<and> led_wf t \<and> fonts_load (led_host t) \<and>
    led_data t = (led_data s)[k := v] \<and>
    copies (led_host t) = copies (led_host s) @ shown (led_data t ! 0) (led_data t ! 1) \<and>
    front (led_host t) = (if host_clock (led_host s) (readings (led_host s)) > snd (led_times s)
      then copies (led_host t) else front (led_host s)) \<and>
    sdlled_op OP_DATA_READ (SDLLED_BASE + of_nat k) junk t = Inr (0, v AND (if k = 0 then 0xffff else 0xf), t)"
  by (rule sdlled_write_shows [OF assms])

lemma led_shows_digits_witness:
  "\<exists>s t. sdlled_init \<lparr>sdl_init_ok = True, window_ok = True, img_init_ok = True, image_ok = \<lambda>_. True\<rparr> dark_led = Inr (0, s) \<and>
    sdlled_op OP_WRITE (SDLLED_BASE + of_nat 0) 0xbeef s = Inr (0, 0xbeef, t) \<and>
    sdlled_op OP_DATA_READ (SDLLED_BASE + of_nat 0) 7 t = Inr (0, 0xbeef, t)"
proof -
  obtain rc s where s: "sdlled_init \<lparr>sdl_init_ok = True, window_ok = True, img_init_ok = True, image_ok = \<lambda>_. True\<rparr>
      dark_led = Inr (rc, s)"
    by (force simp: sdlled_init_def gettimeofday_def)
  then have w: "rc = 0" "led_wf s" "fonts_load (led_host s)"
    using sdlled_init_wf [OF s] by (simp_all add: fonts_load_def dark_led_def idle_host_def)
  show ?thesis using led_shows_digits [OF w(2) _ w(3), of 0 "0xbeef" 7] s w(1) by auto
qed

text \<open>
  C25.
  In every state that accesses and ticks of the clock can reach, the screen shows the
  characters of the data: what was last drawn at a place is the glyph of the low byte of the
  word there, and where nothing was drawn the word is 0.
\<close>


theorem screen_shows_data:
  assumes "vga_reachable ok share s" and "row < ROWS" and "col < COLS"
  shows "case drawn_at (copies (vga_host s)) (8 * col) (12 * row) of
       None \<Rightarrow> vga_data s row col = 0
     | Some c \<Rightarrow> texture c = vga_sprite s \<and> src_x c = 8 * (unat (vga_data s row col) mod 256)"
  using vga_reachable_shows [OF assms(1)] assms(2,3) by (force simp: vga_shows_def split: option.splits)

lemma screen_shows_data_witness:
  "\<exists>s. vga_reachable \<lparr>sdl_init_ok = True, window_ok = True, img_init_ok = True, image_ok = \<lambda>_. True\<rparr> None s \<and>
    vga_data s 0 1 = 65 \<and>
    (case drawn_at (copies (vga_host s)) (8 * 1) (12 * 0) of None \<Rightarrow> vga_data s 0 1 = 0
     | Some c \<Rightarrow> texture c = vga_sprite s \<and> src_x c = 8 * (unat (vga_data s 0 1) mod 256))"
proof -
  let ?ok = "\<lparr>sdl_init_ok = True, window_ok = True, img_init_ok = True, image_ok = \<lambda>_. True\<rparr>"
  have "build_path ''.'' ''rsrc/font.png'' = Inr ''rsrc/font.png''" by (rule build_path_plain) simp
  then obtain rc s where s: "sdlvga_init ?ok None dark_screen = Inr (rc, s)"
    by (force simp: sdlvga_init_def Let_def gettimeofday_def)
  have a: "SDLVGA_BASE + 1 \<in> vga_window" by (simp add: vga_window_def SDLVGA_BASE_def ROWS_def COLS_def)
  obtain t where t: "sdlvga_op OP_WRITE (SDLVGA_BASE + 1) 65 s = Inr (0, 65, t)" "vga_data t 0 1 = 65"
    using vga_write [OF a, of 65 s] by (auto simp: Let_def ROWS_def COLS_def)
  have r: "vga_reachable ?ok None t" by (rule vga_access [OF vga_start [OF s] t(1)])
  have "(0 :: nat) < ROWS" "(1 :: nat) < COLS" by (simp_all add: ROWS_def COLS_def)
  from screen_shows_data [OF r this] r t(2) show ?thesis by blast
qed

text \<open>
  C26.
  The SPI master starts without slaves when the parameters name none, and when
  \<open>spi[0]\<close> names any, as the recipe of the repository does, the loader is given
  no search paths and reads through the null pointer: no slave is ever attached.
\<close>


theorem spi_slaves_never_load:
  assumes "param_wf p"
  shows "spi_emu_load dls dlopen param_ops null p =
    (case param_map p ''spi[0]'' of
       None \<Rightarrow> Some (Inr (0, empty_box null p))
     | Some _ \<Rightarrow> Some (Inl (Undefined ''null paths'')))"
  by (rule spi_load_params [OF assms])

lemma spi_slaves_never_load_witness:
  "\<exists>p. param_set param_init ''spi[0]'' ''spisd'' True = Some (0, p) \<and>
    spi_emu_load \<lparr>sym_clock = \<lambda>_ _. None, sym_init = \<lambda>_ _. None, sym_select = \<lambda>_ _. None, sym_fini = \<lambda>_ _. None\<rparr>
      (\<lambda>_. Some ()) param_ops () p = Some (Inl (Undefined ''null paths''))"
proof -
  obtain p where p: "param_set param_init ''spi[0]'' ''spisd'' True = Some (0, p)" "param_wf p"
    "param_map p = param_update (param_map param_init) ''spi[0]'' ''spisd'' True"
    using param_set_map [OF param_init_wf, of "''spi[0]''" "''spisd''" True] by (elim exE conjE)
  have "param_map p ''spi[0]'' = Some [''spisd'']" by (simp only: p(3) param_update_def fun_upd_same if_True)
  then show ?thesis by (intro exI [of _ p] conjI p(1)) (simp only: spi_slaves_never_load [OF p(2)] option.case)
qed

text \<open>
  C27.
  A transfer of the SPI master is an exchange: when the master is busy with one selected
  slave, as many cycles as CTRL has in CHAR_LEN send the slave the register field bit by bit,
  most or least significant first as CTRL says, leave the slave's answers in the field in the
  same order, and end the transfer.
\<close>


theorem spi_transfer_exchanges:
  assumes "attached s n clock" and "phase s = SPI_EMU_BUSY" and "unat (remaining s) = CHAR_LEN s"
    and "0 < CHAR_LEN s"
    and "answers clock (impl_cookies s ! n) (field (LSB s) (CHAR_LEN s) (raw s)) qs c"
  shows "\<exists>t. cycles (CHAR_LEN s) s = Inr t \<and> phase t = SPI_EMU_DONE \<and> impl_cookies t ! n = c \<and>
    field (LSB s) (CHAR_LEN s) (raw t) = qs"
  by (rule transfer_exchanges [OF assms])

lemma spi_transfer_exchanges_witness:
  "\<exists>t. cycles 8 spi_demo = Inr t \<and> phase t = SPI_EMU_DONE \<and> field False 8 (raw t) = field False 8 (raw spi_demo)"
proof -
  have c: "CHAR_LEN spi_demo = 8" "LSB spi_demo = False"
    by (simp_all add: CHAR_LEN_def LSB_def spi_demo_def mask_eq_decr_exp)
  have "answers echo () (field False 8 (raw spi_demo)) (field False 8 (raw spi_demo)) ()"
    by (rule dummy_answers) (simp add: spidummy_def echo_def)
  then show ?thesis
    using spi_transfer_exchanges [OF demo_attached] by (simp add: c) (simp add: spi_demo_def)
qed

text \<open>
  While a transfer is in progress, a write to any register of the SPI master has no effect.
\<close>

theorem spi_busy_ignores_writes:
  assumes "phase s \<noteq> SPI_EMU_RESET" and "(addr - SPI_BASE) AND 3 = 0"
  shows "spi_op OP_WRITE addr data s = Inr (0, data, s)"
  using assms by (simp add: spi_op_def Let_def)

lemma spi_busy_ignores_writes_witness: "spi_op OP_WRITE 0x210 0 spi_demo = Inr (0, 0, spi_demo)"
  by (rule spi_busy_ignores_writes) (simp_all add: spi_demo_def SPI_BASE_def)

text \<open>
  C28.
  The SD card comes up, once the platform gets over an undefined shift.  The first clock of a
  selected fresh card evaluates \<open>1ull << -1\<close>: what C says of it is
  \<open>Undefined\<close>.  On a platform where the shift yields a word, any word, a freshly
  initialised card that is clocked a reset command with the checksum of that command and then
  asked twice whether it is ready, whatever the arguments, answers each command during the
  next one, idle, idle, and then ready, and is ready in the end.
\<close>


theorem sd_card_becomes_ready:
  assumes "spisd_spi_init storefile fopen = Inr s" and "length bs = 8"
  shows "spisd_spi_clock None pad s 1 inn out = Inl (Undefined ''shift'') \<and>
    (\<exists>t. answers (spisd_spi_clock (Some w) pad) s
      (sd_frame 0 arg 0x4a @ sd_frame 1 arg1 crc1 @ sd_frame 1 arg2 crc2 @ bs)
      (replicate 48 False @
       (replicate 7 False @ [True]) @ replicate 40 False @
       (replicate 7 False @ [True]) @ replicate 40 False @
       replicate 8 False) t \<and> sd_phase t = SPISD_READY)"
proof
  have s: "output_ok s" "bit_count s = 0" "out_shift_len s = 0"
    using spisd_inv_init [OF assms(1)] assms(1)
    by (auto simp: spisd_inv_def spisd_spi_init_def Let_def split: option.splits)
  show "spisd_spi_clock None pad s 1 inn out = Inl (Undefined ''shift'')"
    by (rule fresh_card_undefined [OF s(3)]) simp
  have "map (next_out s) [0..<48] = replicate 48 False"
    by (rule nth_equalityI) (simp_all add: next_out_def s)
  then show "\<exists>t. answers (spisd_spi_clock (Some w) pad) s
      (sd_frame 0 arg 0x4a @ sd_frame 1 arg1 crc1 @ sd_frame 1 arg2 crc2 @ bs)
      (replicate 48 False @
       (replicate 7 False @ [True]) @ replicate 40 False @
       (replicate 7 False @ [True]) @ replicate 40 False @
       replicate 8 False) t \<and> sd_phase t = SPISD_READY"
    using card_session [OF s(1,2) shifts_Some, of "0x4a" bs w pad arg arg1 crc1 arg2 crc2] assms(2)
    by (simp del: append_assoc replicate.simps upt.simps)
qed

lemma sd_card_becomes_ready_witness:
  "\<exists>t. answers (spisd_spi_clock (Some 0) 0) new_card
      (sd_frame 0 0 0x4a @ sd_frame 1 0 0 @ sd_frame 1 0 0 @ replicate 8 True)
      (replicate 48 False @
       (replicate 7 False @ [True]) @ replicate 40 False @
       (replicate 7 False @ [True]) @ replicate 40 False @
       replicate 8 False) t \<and> sd_phase t = SPISD_READY"
proof -
  have "spisd_spi_init None (\<lambda>_. None) = Inr new_card" by (simp add: spisd_spi_init_def new_card_def)
  from sd_card_becomes_ready [OF this] show ?thesis by simp
qed

text \<open>
  C29.
  The SPI master drives the SD card: when the selected slave of a 48-bit transfer is a card
  with no command under way that has answered before, so that no shift is undefined, and the
  field holds a command, most significant bit first, the transfer makes the card run that
  command, number taken modulo 32, and leaves what the card had left to say in the field.
\<close>


theorem sd_command_over_spi:
  fixes s :: "'f spisd_state spi_state"
  assumes "attached s n (spisd_spi_clock wild pad)" and "phase s = SPI_EMU_BUSY"
    and "unat (remaining s) = 48" and "CHAR_LEN s = 48" and "\<not> LSB s"
    and "field False 48 (raw s) = sd_frame type arg crc" and "spisd_inv (impl_cookies s ! n)"
    and "bit_count (impl_cookies s ! n) = 0" and "out_shift_len (impl_cookies s ! n) \<noteq> 0"
  shows "\<exists>t. cycles 48 s = Inr t \<and> phase t = SPI_EMU_DONE \<and>
    impl_cookies t ! n = commanded pad type arg crc (impl_cookies s ! n) \<and>
    field False 48 (raw t) = map (next_out (impl_cookies s ! n)) [0..<48]"
proof -
  have "answers (spisd_spi_clock wild pad) (impl_cookies s ! n) (field (LSB s) (CHAR_LEN s) (raw s))
      (map (next_out (impl_cookies s ! n)) [0..<48]) (commanded pad type arg crc (impl_cookies s ! n))"
    using answers_frame [of "impl_cookies s ! n"] assms(4-9) by (simp add: spisd_inv_def shifts_def)
  from transfer_exchanges [OF assms(1,2) _ _ this] assms(3-5) show ?thesis by simp
qed

lemma sd_command_over_spi_witness:
  "\<exists>t. cycles 48 sd_demo = Inr t \<and> sd_phase (impl_cookies t ! 0) = SPISD_IDLE"
proof -
  have c: "impl_cookies sd_demo ! 0 = told_card" by (simp add: sd_demo_def)
  have "output_ok new_card" by (simp add: output_ok_def new_card_def)
  then have i: "spisd_inv told_card" "bit_count told_card = 0" "out_shift_len told_card \<noteq> 0"
    using commanded_go_idle(5) [of 0 new_card "0x4a" 0 0]
    by (simp_all add: told_card_def spisd_inv_def output_ok_commanded)
  have "sd_phase (commanded 0 0 0 0x4a told_card) = SPISD_IDLE"
    by (rule commanded_go_idle(1)) simp_all
  moreover have "phase sd_demo = SPI_EMU_BUSY" "unat (remaining sd_demo) = 48" by (simp_all add: sd_demo_def)
  ultimately show ?thesis
    using sd_command_over_spi [OF sd_demo_attached _ _ sd_demo_control(1) _ sd_demo_field, unfolded c] i sd_demo_control
    by fastforce
qed

section \<open>The line formats\<close>

text \<open>
  C30.
  A program written in the text format and loaded into the default machine: the file
  \<open>text_out\<close> prints for the assembler's elements is read back by
  \<open>text_in\<close>, and then each address of the RAM window holds the word at that
  distance, an element of several words being its word and zeros, or the illegal instruction
  after the end.
\<close>


theorem text_program_loads:
  assumes "libc_search qs bs" and "length (concat (map words_of es)) \<le> 0x3000"
  shows "\<exists>b. load_sim (dispatch_op bs) text_in RAM_BASE (text_init (t_out (text_out_all es (text_init []))))
      i (default_bus out) = Some (Inr (0, b)) \<and>
    (\<forall>a\<in>ram_window. bus_peek bs sparse_look b a =
      (if unat (a - RAM_BASE) < length (concat (map words_of es))
       then concat (map words_of es) ! unat (a - RAM_BASE) else illegal_word))"
  by (rule tsim_bus.text_load [OF tsim_bus_libc [OF assms(1)] assms(2)])

lemma text_program_loads_witness:
  "\<exists>b. load_sim (dispatch_op bsearch) text_in RAM_BASE
      (text_init (t_out (text_out_all [\<lparr>e_word = 7, e_reladdr = 0, e_size = 1\<rparr>] (text_init []))))
      \<lparr>e_word = 0, e_reladdr = 0, e_size = 0\<rparr> (default_bus bare_outside) = Some (Inr (0, b)) \<and>
    bus_peek bsearch sparse_look b RAM_BASE = 7"
proof -
  let ?es = "[\<lparr>e_word = 7, e_reladdr = 0, e_size = 1\<rparr>]"
  have ws: "concat (map words_of ?es) = [7]" by (simp add: words_of_def word_sless_alt)
  have w: "RAM_BASE \<in> ram_window" by (simp add: ram_window_def ram_consts)
  have "length (concat (map words_of ?es)) \<le> 0x3000" by (simp only: ws) simp
  from text_program_loads [OF libc.libc_search_axioms this,
      where i = "\<lparr>e_word = 0, e_reladdr = 0, e_size = 0\<rparr>" and out = bare_outside, unfolded ws]
  show ?thesis using w by fastforce
qed

text \<open>
  C31.
  The memh format reads back what it prints, from the start of a file and fewer than 2^31
  words: every word at its address, gaps of zeros restored from the address marks; without the
  parameter that asks for explicit zeros, the zeros at the end of the program are not printed
  and not restored.
\<close>


theorem memh_reads_back:
  assumes "m_offset u = 0" and "m_written u = 0" and "m_marked u = 0" and "\<not> first_done u"
    and "m_out u = []" and "length ws < 2 ^ 31"
  shows "\<exists>v. yields memh_in (u\<lparr>m_in := m_out (memh_out_all 0 ws u)\<rparr>) i
    (numbered i 0 (trimmed (emit_zeros u) ws)) v"
  by (rule memh_roundtrip [OF assms])

lemma memh_reads_back_witness:
  "\<exists>u v i. emit_zeros u = False \<and>
     yields memh_in (u\<lparr>m_in := m_out (memh_out_all 0 [0, 0, 9, 0] u)\<rparr>) i (numbered i 0 [0, 0, 9]) v"
proof -
  define u where "u = \<lparr>m_written = 0, m_marked = 0, m_offset = 0, first_done = False, emit_zeros = False,
    m_in = [], m_out = []\<rparr>"
  let ?i = "\<lparr>e_word = 0, e_reladdr = 0, e_size = 0\<rparr>"
  have "\<exists>v. yields memh_in (u\<lparr>m_in := m_out (memh_out_all 0 [0, 0, 9, 0] u)\<rparr>) ?i
      (numbered ?i 0 (trimmed (emit_zeros u) [0, 0, 9, 0])) v"
    by (rule memh_reads_back) (simp_all add: u_def)
  moreover have "trimmed (emit_zeros u) [0, 0, 9, 0] = [0, 0, 9]" "emit_zeros u = False" by (simp_all add: u_def)
  ultimately show ?thesis by metis
qed

text \<open>
  An address mark in a memh file makes the loader write: \<open>memh_in\<close> answers the mark with 0, no word, which
  \<open>load_sim\<close> takes for an element, so that the previous one, at the start of the file an uninitialised one, is
  stored again.
\<close>

theorem memh_mark_writes_element:
  assumes "m_marked u = m_written u" and "scan_at_x (m_in u) = (Some a, s)"
  shows "load_sim D memh_in la u i wd =
    (case D OP_WRITE (la + e_reladdr i) (e_word i) wd of
       Inl e \<Rightarrow> Some (Inl e)
     | Inr (rc, d, wd) \<Rightarrow> if rc \<noteq> 0 then Some (Inr (-1, wd))
         else load_sim D memh_in la (u\<lparr>m_marked := a, m_in := s\<rparr>) (i\<lparr>e_word := d\<rparr>) wd)"
  by (rule memh_mark_loads_stale [OF assms])

lemma memh_mark_writes_element_witness:
  "load_sim (\<lambda>op a v w. Inr (1, v, (a, v) # w)) memh_in 0x1000
     \<lparr>m_written = 0, m_marked = 0, m_offset = 0, first_done = False, emit_zeros = False,
        m_in = ''@5'', m_out = []\<rparr> \<lparr>e_word = 42, e_reladdr = 3, e_size = 0\<rparr> [] = Some (Inr (-1, [(0x1003, 42)]))"
proof -
  let ?u = "\<lparr>m_written = 0, m_marked = 0, m_offset = 0, first_done = False, emit_zeros = False,
        m_in = ''@5'', m_out = []\<rparr>"
  have "scan_at_x (m_in ?u) = (Some 5, [])"
    by (simp add: scan_at_x_def scan_x_def skip_ws_def isspace_def is_xdigit_def
      xval_def number_def ulong_def)
  moreover have "m_marked ?u = m_written ?u" by simp
  ultimately show ?thesis by (subst memh_mark_writes_element) simp_all
qed

text \<open>
  The list of format names never overruns its buffer: what \<open>make_format_list\<close> has written is shorter than the
  buffer whatever the names and the separator, and when the position it returns is inside the buffer the text is
  all the selected names, separated.
\<close>

theorem format_list_bounded:
  assumes "make_format_list pred fs len sep 0 [] = (q, b)" and "\<forall>f\<in>set fs. f \<noteq> []" and "0 < len"
  shows "length b < len \<and> (q < len \<longrightarrow> q = length b \<and> b = joined sep (selected pred fs))"
  by (rule format_list_from_start [OF assms])

lemma format_list_bounded_witness:
  "make_format_list None format_names 8 '', '' 0 [] = (8, ''obj, ra'') \<and> length ''obj, ra'' < 8"
proof -
  have r: "make_format_list None format_names 8 '', '' 0 [] = (8, ''obj, ra'')"
    by (simp add: format_names_def)
  moreover have "length ''obj, ra'' < 8"
    using format_list_bounded [OF r, THEN conjunct1] by (simp add: format_names_def)
  ultimately show ?thesis ..
qed

section \<open>The assembler\<close>



text \<open>
  C33.
  The evaluator of constant expressions implements their meaning: whenever an expression has a
  value, by the big-step rules in which a reference stands for its label's address, for the
  expression its symbol was set to at the place of the definition, or for 0 when it is
  external, \<open>ce_eval\<close> returns that value, and the relocations it adds are those
  of the rules, whatever the result cell and uninitialised variables held.
\<close>


theorem ce_eval_value:
  "means after pd width ctx neg e v rs \<Longrightarrow>
     ce_eval junk after (pd\<lparr>pd_relocs := rs0\<rparr>) ctx e (reloc_flags neg) width old =
       Some (Inr (1, v, pd\<lparr>pd_relocs := rs @ rs0\<rparr>))"
  by (rule ce_eval_means)

lemma ce_eval_value_witness:
  "ce_eval 5 [] (set_source\<lparr>pd_relocs := []\<rparr>) None (d_ce (set_use 0)) (reloc_flags True) 32 9 =
     Some (Inr (1, 1, set_source\<lparr>pd_relocs := [reloc_for unnamed 32 True (Some 1)]\<rparr>))"
proof -
  have m: "means [] set_source 32 (elem_at set_source 1) True (CE_ICI (plain_head\<lparr>ce_deferred := Some 1\<rparr>)) 1
      [reloc_for unnamed 32 True (Some 1)]"
    using means_ici [of "[]" set_source 32 "Some 1" True "plain_head\<lparr>ce_deferred := Some 1\<rparr>"]
    by (simp add: elem_at_def elem_reladdr_def set_source_def)
  have "means [] set_source 32 None True (d_ce (set_use 0)) 1 [reloc_for unnamed 32 True (Some 1)]"
    unfolding set_use_def deferred_expr.select_convs
    by (rule means_set [OF _ _ _ m]) (simp_all add: sym_ce_def set_source_def)
  from ce_eval_value [OF this, of 5 "[]" 9] show ?thesis by simp
qed

text \<open>
  The check for duplicate symbols passes exactly when the labels' names are all different; symbols that were set may
  be set again.
\<close>

theorem duplicate_labels_found:
  "check_symbols ss = 0 \<longleftrightarrow> distinct (map y_name (filter y_unique ss))"
  by (rule check_symbols_0)

text \<open>
  C34.
  The check for duplicate labels over the search trees of the web build: the walk that puts
  the labels' names in the tree and compares what the tree has for each with it ends with the
  verdict of \<open>check_symbols\<close>, but the check as a whole never returns it when
  there is a label: the second walk asks \<open>tdelete\<close> for the bytes of a symbol's
  structure instead of its name, and when these are no label's name \<open>tdelete\<close>
  reads through a null pointer.
\<close>


theorem web_label_check:
  assumes "inj node_at" and "\<forall>k. node_at k \<noteq> 0" and "\<forall>k<length ss. snd (struct_at k) \<notin> y_name ` set ss"
  shows "(\<exists>s. check_walk web_search node_at ss (sym_order ss) no_tree = Some (Inr (check_symbols ss, s))) \<and>
    web_check_symbols node_at struct_at ss =
      (if \<exists>y\<in>set ss. y_unique y then Some (Inl (Undefined ''null pointer'')) else Some (Inr 0))"
  using web_walk_verdict [OF assms(1,2), of ss] web_check_symbols_fails [of node_at ss struct_at, OF assms] by blast

lemma web_label_check_witness:
  "web_check_symbols Suc (\<lambda>k. (100 + k, [16])) (pd_symbols label_source) = Some (Inl (Undefined ''null pointer''))"
proof -
  have "(\<forall>k<length (pd_symbols label_source). snd (100 + k, [16 :: u8]) \<notin> y_name ` set (pd_symbols label_source)) \<and>
      (\<exists>y\<in>set (pd_symbols label_source). y_unique y)"
    by (simp add: label_source_def)
  then show ?thesis
    using web_label_check [of Suc "pd_symbols label_source" "\<lambda>k. (100 + k, [16])"] by simp
qed

text \<open>
  Deleting a key that is not in the tree of the web build reads through a null pointer, where the function it stands
  in for returns NULL.
\<close>

theorem web_delete_missing:
  assumes "holds s t" and "lookup compar key t = 0"
  shows "tdelete compar key s = Some (Inl (Undefined ''null pointer''))"
  by (rule tdelete_missing [OF assms])

lemma web_delete_missing_witness:
  "tdelete strcmp ''x'' \<lparr>cells = (\<lambda>_. None), root = 0\<rparr> = Some (Inl (Undefined ''null pointer''))"
  by (rule web_delete_missing [of _ Leaf]) (simp_all add: holds_def)

text \<open>
  C35.
  A symbol that was set is used up by its first use: of two words that name it, the one fixed
  up first gets the value at the place of the definition, after which the symbol's expression
  is freed, so that the other gets the value the first pass stored, which was computed without
  a place, and the symbol is no longer exported as absolute.
\<close>


theorem set_symbol_used_twice:
  assumes "uses k r" "uses k r'" and "k < length (pd_symbols pd)"
    and "d_dest r < length (pd_top pd)" "d_dest r' < length (pd_top pd)" "d_dest r \<noteq> d_dest r'"
      "pd_top pd ! d_dest r \<noteq> None" "pd_top pd ! d_dest r' \<noteq> None"
    and "y_ce (pd_symbols pd ! k) = Some c" "ce_deferred (head c) = Some j" "j < length (pd_top pd)"
    and "means after pd 32 (elem_at pd j) False c v rs" and "by_name c"
    and "symbol_find (pd_symbols pd) (y_name (pd_symbols pd ! k)) = Some k"
  shows "\<exists>pd'. foldO (fixup_deferred_expr junk after) [r, r'] (0, pd) = Some (Inr (0, pd')) \<and>
    map_option e_word (pd_top pd' ! d_dest r) = Some v \<and>
    map_option e_word (pd_top pd' ! d_dest r') = Some (y_reladdr (pd_symbols pd ! k)) \<and>
    sym_flags_of (pd_symbols pd' ! k) = 0"
  by (rule set_two_uses [OF assms])

lemma set_symbol_used_twice_witness:
  "\<exists>pd'. foldO (fixup_deferred_expr 0 []) [set_use 1, set_use 0] (0, set_source) = Some (Inr (0, pd')) \<and>
    map_option e_word (pd_top pd' ! 1) = Some 1 \<and> map_option e_word (pd_top pd' ! 0) = Some 0"
proof -
  have u: "uses 0 (set_use n)" for n by (auto simp: uses_def set_use_def)
  let ?c = "CE_ICI (plain_head\<lparr>ce_deferred := Some 1\<rparr>)"
  have "means [] set_source 32 (elem_at set_source 1) False ?c 1 [reloc_for unnamed 32 False (Some 1)]"
    using means_ici [of "[]" set_source 32 "Some 1" False "plain_head\<lparr>ce_deferred := Some 1\<rparr>"]
    by (simp add: elem_at_def elem_reladdr_def set_source_def)
  from set_symbol_used_twice [OF u [of 1] u [of 0] _ _ _ _ _ _ _ _ _ this] show ?thesis
    by (fastforce simp: set_source_def set_use_def one_word_def symbol_find_def sym_order_def strneq_def)
qed

section \<open>Object files and the linker\<close>

text \<open>
  C36.
  Writing an object and reading it back: a well-formed object is written without failure and
  read back equal, by a host of either byte order, from any position of a stream below
  \<open>2 ^ 32\<close> bytes, leaving what follows unread.
\<close>


theorem object_roundtrip:
  assumes "wf_obj ob"
  shows "\<exists>bytes. obj_write little ob = Inr bytes \<and> (p + length bytes + length r < 2 ^ 32 \<longrightarrow>
    obj_read little' \<lparr>pos = p, rest = bytes @ r, seekable = k\<rparr> =
      Inr (Some ob, \<lparr>pos = p + length bytes, rest = r, seekable = k\<rparr>))"
  using obj_write_wf [OF assms] obj_read_obj_bytes [OF assms] by (simp add: obj_read_host [of little'])

lemma object_roundtrip_witness:
  "\<exists>bytes. obj_write True caller = Inr bytes \<and>
    obj_read False \<lparr>pos = 0, rest = bytes, seekable = True\<rparr> =
      Inr (Some caller, \<lparr>pos = length bytes, rest = [], seekable = True\<rparr>)"
proof -
  have "length (obj_bytes caller) < 2 ^ 32" using demo_sizes by simp
  moreover have "obj_write True caller = Inr (obj_bytes caller)"
    by (rule obj_write_wf [OF demo_wf(1)])
  ultimately show ?thesis
    using object_roundtrip [OF demo_wf(1), where little = True and p = 0 and r = "[]"
        and little' = False and k = True] by simp
qed

text \<open>
  C37.
  Whatever \<open>obj_read\<close> accepts is a well-formed object within the safety limits,
  and the bytes it consumed are the ones \<open>obj_write\<close> produces for it: no two
  different streams are read as one object.
\<close>


theorem object_read_sound:
  assumes "obj_read little s = Inr (Some ob, t)"
  shows "wf_obj ob \<and> (\<exists>bytes. obj_write little' ob = Inr bytes \<and> rest s = bytes @ rest t \<and>
    pos t = pos s + length bytes)"
proof -
  have r: "obj_read True s = Inr (Some ob, t)" using assms by (simp only: obj_read_host [of little])
  then show ?thesis using obj_read_inv [OF r] by (simp add: obj_write_wf consumes_def)
qed

lemma object_read_sound_witness: "\<exists>bytes. obj_write True callee = Inr bytes \<and> rest \<lparr>pos = 0, rest = obj_bytes callee, seekable = True\<rparr> = bytes"
proof -
  have "length (obj_bytes callee) < 2 ^ 32" using demo_sizes by simp
  then have "obj_read True \<lparr>pos = 0, rest = obj_bytes callee @ [], seekable = True\<rparr> =
      Inr (Some callee, \<lparr>pos = 0 + length (obj_bytes callee), rest = [], seekable = True\<rparr>)"
    by (intro obj_read_obj_bytes [OF demo_wf(2)]) simp
  from object_read_sound [OF this] show ?thesis by auto
qed

text \<open>
  C38.
  A relocation by name, linked: when input \<open>k\<close> has a relocation against the name
  of a symbol that input \<open>i\<close> defines, the relocated word of the output is, in the
  relocation's low bits, the input's word plus the symbol's address (its value, moved by the
  offset of its object unless it is absolute), and in its other bits the input's. This is so
  whatever the flags of the relocation: the address is added even when
  \<open>RLC_NEGATE\<close> is set, although the comment in \<open>obj.h\<close> says that
  this flag inverts the sign of the adjustment.
\<close>


theorem symbol_reference_resolved:
  assumes "linkable objs" and "k < length objs" and "records (objs ! k) = [r]"
    and "distinct (map (reloc_at r) (relocs (objs ! k)))" and "l \<in> set (relocs (objs ! k))"
    and "i < length objs" and "y \<in> set (exports (objs ! i))"
    and "hd (rlc_name l) \<noteq> 0" and "cstr ((rlc_name l)[31 := 0]) = sym_key y"
  shows "\<exists>ob r'. do_link objs = Inr ob \<and> r' \<in> set (records ob) \<and> rec_addr r' = offset objs k \<and>
    (\<forall>n. bit (rec_data r' ! reloc_at r l) n \<longleftrightarrow>
      (if n < unat (rlc_width l) then bit (rec_data r ! reloc_at r l + symbol_address objs i y) n
       else bit (rec_data r ! reloc_at r l) n))"
proof -
  have "length (rlc_name l) = SYMBOL_LEN"
    using assms(1,2,5) by (auto simp: linkable_def loaded_def wf_obj_def)
  then have v: "reloc_value (link_tables objs) k l = Inr (symbol_address objs i y)"
    using assms by (intro reloc_value_named) (simp_all add: linkable_def)
  obtain r' where "r' \<in> set (records (linked objs))" "rec_addr r' = offset objs k"
    "rec_data r' ! reloc_at r l = reloc_word (rlc_width l) (rec_data r ! reloc_at r l)
       (projr (reloc_value (link_tables objs) k l))"
    using linked_record [OF assms(1-3)] assms(4,5) by metis
  then show ?thesis using do_link_linked [OF assms(1)] by (auto simp: v bit_reloc_word)
qed

lemma symbol_reference_resolved_witness:
  "\<exists>ob r'. do_link [caller, callee] = Inr ob \<and> r' \<in> set (records ob) \<and> rec_addr r' = 0 \<and>
    (\<forall>n. bit (rec_data r' ! 1) n \<longleftrightarrow> (if n < 12 then bit (0x0f010002 :: u32) n else bit (0x0f00ffff :: u32) n))"
proof -
  have "\<exists>ob r'. do_link [caller, callee] = Inr ob \<and> r' \<in> set (records ob) \<and> rec_addr r' = offset [caller, callee] 0 \<and>
    (\<forall>n. bit (rec_data r' ! reloc_at (hd (records caller)) (hd (relocs caller))) n \<longleftrightarrow>
      (if n < unat (rlc_width (hd (relocs caller)))
       then bit (rec_data (hd (records caller)) ! reloc_at (hd (records caller)) (hd (relocs caller)) +
              symbol_address [caller, callee] 1 (hd (symbols callee))) n
       else bit (rec_data (hd (records caller)) ! reloc_at (hd (records caller)) (hd (relocs caller))) n))"
    by (rule symbol_reference_resolved [OF demo_linkable])
      (simp_all add: caller_def callee_def exports_def name_f_def sym_key_def)
  moreover have "symbol_address [caller, callee] 1 (hd (symbols callee)) = 3"
    by (simp add: symbol_address_def caller_def callee_def first_size_def)
  moreover have "reloc_at (hd (records caller)) (hd (relocs caller)) = 1"
    "rlc_width (hd (relocs caller)) = 12" "rec_data (hd (records caller)) ! 1 = 0x0f00ffff"
    by (simp_all add: caller_def reloc_at_def)
  ultimately show ?thesis by (simp cong: if_cong)
qed

text \<open>
  C39.
  The linker's symbol tables: for loaded objects they hold each object's offset and each
  symbol's definition, and building them fails exactly when a symbol is defined twice; then
  the link fails with the same message.
\<close>


theorem duplicate_symbols_rejected:
  assumes "loaded objs"
  shows "do_link_build_state objs =
      (if distinct (map fst (all_defns 0 objs)) then Inr (link_tables objs)
       else Inl (Fatal ''Duplicate definition for symbol'')) \<and>
    (\<not> distinct (map fst (all_defns 0 objs)) \<longrightarrow>
      do_link objs = Inl (Fatal ''Duplicate definition for symbol''))"
  using do_link_build_state_eq [OF assms] by (simp add: do_link_def do_link_process_def)

lemma duplicate_symbols_rejected_witness:
  "do_link [callee, callee] = Inl (Fatal ''Duplicate definition for symbol'')"
proof -
  have "\<not> distinct (map fst (all_defns 0 [callee, callee]))"
    using sym_key_f by (simp add: callee_def exports_def defn_list_def sym_key_def)
  then show ?thesis
    using duplicate_symbols_rejected [of "[callee, callee]"] demo_wf by (simp add: loaded_def)
qed

text \<open>
  The linker's bounds check lets through a relocation one word past the record, where the update is outside the
  array.
\<close>

theorem relocation_bound_off_by_one:
  assumes "rec_count ob = 1" and "records ob = [r]" and "length (rec_data r) = unat (rec_size r)"
    and "rec_addr r \<le> rlc_addr l" and "rlc_addr l - rec_addr r = rec_size r"
    and "reloc_value s i l = Inr v"
  shows "do_link_relocate_obj_reloc s i l ob = Inl (Undefined ''relocation past the record'')"
  by (rule relocation_past_end [OF assms])

lemma relocation_bound_off_by_one_witness:
  "do_link_relocate_obj_reloc (link_tables [caller]) 0
     \<lparr>rlc_flags = 0, rlc_name = replicate 32 0, rlc_addr = 2, rlc_width = 12\<rparr> caller =
   Inl (Undefined ''relocation past the record'')"
proof -
  let ?l = "\<lparr>rlc_flags = 0, rlc_name = replicate 32 0, rlc_addr = 2, rlc_width = 12\<rparr>"
  have "reloc_value (link_tables [caller]) 0 ?l = Inr 0"
    using reloc_value_null [of 0 "[caller]" ?l] by (simp add: caller_def)
  then show ?thesis
    by (rule relocation_bound_off_by_one [where r = "hd (records caller)", rotated -1]) (simp_all add: caller_def)
qed

section \<open>Disassembly\<close>

text \<open>
  Every word can be printed, with any combination of flags: the edge cases of the disassembler leave none of the
  operand combinations it has no format for.
\<close>

theorem disassembly_total: "\<exists>text. print_disassembly w flags = Inr text"
  by (rule print_disassembly_total)

text \<open>
  \<open>do_disassembly\<close> prints one line for each element its format yields with a positive return code, in order, and
  ends with the format's error status when it has one.
\<close>

theorem disassembly_lines:
  assumes "yields f_in ud i es v"
  shows "do_disassembly f_in f_err ud i flags out =
    Some (Inr (case f_err of None \<Rightarrow> 0 | Some err \<Rightarrow> err v,
               out @ concat (map (\<lambda>e. projr (disassembly_line e flags)) es)))"
  by (rule do_disassembly_lines [OF assms])

lemma disassembly_lines_witness:
  "do_disassembly (\<lambda>n i. Inr (if n = 0 then -1 else 1, \<lparr>e_word = spin_word, e_reladdr = 0, e_size = 1\<rparr>, n - 1))
     None (1 :: nat) \<lparr>e_word = 0, e_reladdr = 0, e_size = 0\<rparr> ASM_QUIET [] =
   Some (Inr (0, projr (disassembly_line \<lparr>e_word = spin_word, e_reladdr = 0, e_size = 1\<rparr> ASM_QUIET)))"
  by (subst disassembly_lines [OF yields_more [OF refl _ yields_end [OF refl]]]) simp_all

section \<open>Parameters, searching and sorting\<close>

text \<open>
  C40.
  The parameter set is a finite map from keys to lists of values: setting a parameter replaces
  or extends the list of its key and no other, keeps the representation, and getting one
  yields the number of its values and as many of them as there is room for.
\<close>


theorem parameter_set_is_a_map:
  assumes "param_wf p"
  shows "(\<exists>q. param_set p key v replace = Some (0, q) \<and> param_wf q \<and>
      param_map q = param_update (param_map p) key v replace) \<and>
    param_get p key n = (case param_map p key of None \<Rightarrow> (0, []) | Some vs \<Rightarrow> (length vs, take n vs))"
  using param_set_map [OF assms] param_get_map [OF assms] by blast

lemma parameter_set_is_a_map_witness:
  "\<exists>q. param_set param_init ''a'' (1 :: nat) True = Some (0, q) \<and> param_map q ''a'' = Some [1]"
  using parameter_set_is_a_map [OF param_init_wf, where key = "''a''" and v = "1 :: nat" and replace = True,
      THEN conjunct1]
  by (auto simp: param_update_def)

text \<open>
  The quicksort of \<open>bench\<close>: for a comparison that is a total preorder on its elements, the result is a permutation
  in ascending order.
\<close>

theorem quicksort_sorts:
  assumes "preorder_on (set xs) compar"
  shows "mset (quicksort compar xs) = mset xs \<and> sorted_wrt (\<lambda>a b. compar a b \<le> 0) (quicksort compar xs)"
  using quicksort_mset quicksort_sorted [OF assms] by blast

text \<open>
  The binary search of \<open>bench\<close>, on \<open>2 ^ k - 1\<close> elements in order, stays inside the array and finds an element equal
  to the key exactly when there is one.
\<close>

theorem bench_search_finds:
  assumes "partitioned compar key xs" and "length xs + 1 = 2 ^ k"
  shows "\<exists>r. search compar key xs 0 (length xs) = Inr r \<and>
    (case r of Some i \<Rightarrow> i < length xs \<and> compar key (xs ! i) = 0 | None \<Rightarrow> \<forall>x\<in>set xs. compar key x \<noteq> 0)"
proof -
  obtain r where r: "search compar key xs 0 (length xs) = Inr r"
    using search_defined [OF assms(2)] by force
  show ?thesis
    using search_Some [of compar key xs 0 "length xs"] search_None [OF assms(1), of 0 "length xs"] r
    by (cases r) (auto simp: in_set_conv_nth)
qed

end
